(* ===== verification/Prelude.thy ===== *)
theory Prelude
  imports Main "HOL-Library.AList" "HOL-Library.Sublist" "HOL-Library.Multiset" "HOL-Library.List_Lexorder" "HOL-Library.Char_ord"
begin

text \<open>
  Shared ground of the development: the parts of Go's \<^verbatim>\<open>strings\<close> package that
  bosh-dns calls, Go maps, and the lemmas on them the component theories use.

  A Go string is a list of bytes, here a \<^typ>\<open>char list\<close>. Names are ASCII: the wire
  decoder of the DNS library writes every other byte as an escape, so
  \<open>ToLower\<close> is the ASCII case mapping.

  A Go map is an association list with distinct keys. Its order is the order in which
  one \<^verbatim>\<open>range\<close> loop of the runtime happens to visit the entries; a result that may
  not depend on that order is proved not to.
\<close>

section \<open>Collections of rules\<close>

named_theorems go_string_simps "evaluation of the string operations in terms of lists"
named_theorems go_map_simps "lookup after the map operations"

section \<open>Strings\<close>

definition HasPrefix :: "string \<Rightarrow> string \<Rightarrow> bool" where
  "HasPrefix s p \<longleftrightarrow> length p \<le> length s \<and> take (length p) s = p"

definition HasSuffix :: "string \<Rightarrow> string \<Rightarrow> bool" where
  "HasSuffix s p \<longleftrightarrow> length p \<le> length s \<and> drop (length s - length p) s = p"

definition TrimPrefix :: "string \<Rightarrow> string \<Rightarrow> string" where
  "TrimPrefix s p = (if HasPrefix s p then drop (length p) s else s)"

definition TrimSuffix :: "string \<Rightarrow> string \<Rightarrow> string" where
  "TrimSuffix s p = (if HasSuffix s p then take (length s - length p) s else s)"

text \<open>\<^verbatim>\<open>strings.TrimRight\<close> takes a set of characters, not a suffix.\<close>

definition TrimRight :: "string \<Rightarrow> string \<Rightarrow> string" where
  "TrimRight s cutset = rev (dropWhile (\<lambda>c. c \<in> set cutset) (rev s))"

text \<open>\<^verbatim>\<open>strings.Split\<close> and \<^verbatim>\<open>strings.SplitN(s, sep, 2)\<close> for a separator of one byte.\<close>

fun Split :: "char \<Rightarrow> string \<Rightarrow> string list" where
  "Split c [] = [[]]"
| "Split c (x # xs) =
     (if x = c then [] # Split c xs
      else (case Split c xs of [] \<Rightarrow> [[x]] | y # ys \<Rightarrow> (x # y) # ys))"

definition SplitN2 :: "char \<Rightarrow> string \<Rightarrow> string list" where
  "SplitN2 c s =
     (case dropWhile (\<lambda>x. x \<noteq> c) s of
        [] \<Rightarrow> [s]
      | _ # rest \<Rightarrow> [takeWhile (\<lambda>x. x \<noteq> c) s, rest])"

fun Join :: "string list \<Rightarrow> string \<Rightarrow> string" where
  "Join [] sep = []"
| "Join [x] sep = x"
| "Join (x # y # xs) sep = x @ sep @ Join (y # xs) sep"

text \<open>\<^verbatim>\<open>strings.Replace(s, old, new, 1)\<close> for an \<open>old\<close> of one byte.\<close>

fun Replace1 :: "string \<Rightarrow> char \<Rightarrow> string \<Rightarrow> string" where
  "Replace1 [] old new = []"
| "Replace1 (c # s) old new = (if c = old then new @ s else c # Replace1 s old new)"

definition lower_char :: "char \<Rightarrow> char" where
  "lower_char c = (if CHR ''A'' \<le> c \<and> c \<le> CHR ''Z'' then char_of (of_char c + 32 :: nat) else c)"

definition ToLower :: "string \<Rightarrow> string" where
  "ToLower s = map lower_char s"

definition is_digit :: "char \<Rightarrow> bool" where
  "is_digit c \<longleftrightarrow> CHR ''0'' \<le> c \<and> c \<le> CHR ''9''"

definition all_digits :: "string \<Rightarrow> bool" where
  "all_digits s \<longleftrightarrow> s \<noteq> [] \<and> list_all is_digit s"

subsection \<open>Prefixes and suffixes\<close>

lemma HasPrefix_iff [go_string_simps]: "HasPrefix s p \<longleftrightarrow> prefix p s"
  unfolding HasPrefix_def
  by (metis append_eq_conv_conj append_take_drop_id prefixE prefixI prefix_length_le)

lemma suffix_iff_drop:
  "suffix p s \<longleftrightarrow> length p \<le> length s \<and> p = drop (length s - length p) s"
proof
  assume "length p \<le> length s \<and> p = drop (length s - length p) s"
  then have "s = take (length s - length p) s @ p" by (metis append_take_drop_id)
  then show "suffix p s" by (metis suffixI)
next
  assume "suffix p s"
  then obtain t where "s = t @ p" by (auto elim: suffixE)
  then show "length p \<le> length s \<and> p = drop (length s - length p) s" by simp
qed

lemma HasSuffix_iff [go_string_simps]: "HasSuffix s p \<longleftrightarrow> suffix p s"
  by (auto simp: HasSuffix_def suffix_iff_drop)

lemma HasPrefix_append [simp]: "HasPrefix (p @ s) p"
  by (simp add: HasPrefix_def)

lemma HasSuffix_append [simp]: "HasSuffix (s @ p) p"
  by (simp add: HasSuffix_def)

lemma TrimPrefix_append [simp]: "TrimPrefix (p @ s) p = s"
  by (simp add: TrimPrefix_def)

lemma TrimSuffix_append [simp]: "TrimSuffix (s @ p) p = s"
  by (simp add: TrimSuffix_def)

subsection \<open>Splitting and joining\<close>

lemma Split_not_Nil [simp]: "Split c s \<noteq> []"
  by (induction s) (auto split: list.splits)

lemma Split_no_sep [simp]: "c \<notin> set s \<Longrightarrow> Split c s = [s]"
  by (induction s) auto

lemma Split_append_sep:
  "c \<notin> set a \<Longrightarrow> Split c (a @ c # s) = a # Split c s"
  by (induction a) auto

lemma Split_parts_no_sep: "x \<in> set (Split c s) \<Longrightarrow> c \<notin> set x"
  by (induction s arbitrary: x) (auto split: list.splits if_splits)

lemma Join_Split: "Join (Split c s) [c] = s"
proof (induction s)
  case (Cons x xs)
  then show ?case by (cases "Split c xs"; cases "tl (Split c xs)") auto
qed simp

lemma Split_Join:
  "xs \<noteq> [] \<Longrightarrow> \<forall>x\<in>set xs. c \<notin> set x \<Longrightarrow> Split c (Join xs [c]) = xs"
proof (induction xs "[c]" rule: Join.induct)
  case (3 x y xs)
  then show ?case by (simp add: Split_append_sep)
qed auto

lemma SplitN2_no_sep: "c \<notin> set s \<Longrightarrow> SplitN2 c s = [s]"
proof -
  assume "c \<notin> set s"
  then have "dropWhile (\<lambda>x. x \<noteq> c) s = []" by (auto simp: dropWhile_eq_Nil_conv)
  then show ?thesis by (simp only: SplitN2_def list.case)
qed

lemma SplitN2_sep: "c \<notin> set a \<Longrightarrow> SplitN2 c (a @ c # s) = [a, s]"
  by (simp add: SplitN2_def dropWhile_append takeWhile_append)

lemma SplitN2_cases:
  obtains (one) "SplitN2 c s = [s]" "c \<notin> set s"
  | (two) a b where "SplitN2 c s = [a, b]" "s = a @ c # b" "c \<notin> set a"
proof (cases "c \<in> set s")
  case True
  then obtain a b where "s = a @ c # b" "c \<notin> set a" by (meson split_list_first)
  then show ?thesis using two SplitN2_sep by metis
next
  case False
  then show ?thesis using one SplitN2_no_sep by blast
qed

subsection \<open>Case mapping\<close>

lemma of_char_lower [simp]:
  "of_char (lower_char c) =
     (if CHR ''A'' \<le> c \<and> c \<le> CHR ''Z'' then of_char c + 32 else of_char c :: nat)"
proof -
  have "of_char c + 32 < (256 :: nat)" if "c \<le> CHR ''Z''"
  proof -
    from that have "of_char c \<le> (of_char (CHR ''Z'') :: nat)" by (simp add: less_eq_char_def)
    then show ?thesis by simp
  qed
  then show ?thesis by (auto simp: lower_char_def)
qed

lemma lower_char_idem [simp]: "lower_char (lower_char c) = lower_char c"
proof -
  have "\<not> lower_char c \<le> CHR ''Z''" if "CHR ''A'' \<le> c" "c \<le> CHR ''Z''"
    using that by (simp add: less_eq_char_def)
  then show ?thesis by (auto simp: lower_char_def)
qed

lemma ToLower_idem [simp]: "ToLower (ToLower s) = ToLower s"
  by (simp add: ToLower_def)

lemma ToLower_Nil_iff [simp]: "ToLower s = [] \<longleftrightarrow> s = []"
  by (simp add: ToLower_def)

lemma ToLower_append [simp]: "ToLower (s @ t) = ToLower s @ ToLower t"
  by (simp add: ToLower_def)

definition is_lower :: "string \<Rightarrow> bool" where
  "is_lower s \<longleftrightarrow> ToLower s = s"

lemma is_lower_ToLower [simp]: "is_lower (ToLower s)"
  by (simp add: is_lower_def)

subsection \<open>Digits\<close>

lemma is_digit_dot [simp]: "\<not> is_digit (CHR ''.'')"
  by (simp add: is_digit_def less_eq_char_def)

lemma all_digits_no_dot: "all_digits s \<Longrightarrow> CHR ''.'' \<notin> set s"
  by (auto simp: all_digits_def list_all_iff)

section \<open>Lists\<close>

lemma in_set_tlD: "x \<in> set (tl xs) \<Longrightarrow> x \<in> set xs"
  by (cases xs) auto

section \<open>Maps\<close>

type_synonym ('k, 'v) gomap = "('k \<times> 'v) list"

abbreviation wf_map :: "('k, 'v) gomap \<Rightarrow> bool" where
  "wf_map m \<equiv> distinct (map fst m)"

abbreviation keys :: "('k, 'v) gomap \<Rightarrow> 'k list" where
  "keys m \<equiv> map fst m"

abbreviation insert_map :: "'k \<Rightarrow> 'v \<Rightarrow> ('k, 'v) gomap \<Rightarrow> ('k, 'v) gomap" where
  "insert_map k v m \<equiv> AList.update k v m"

abbreviation delete_map :: "'k \<Rightarrow> ('k, 'v) gomap \<Rightarrow> ('k, 'v) gomap" where
  "delete_map k m \<equiv> AList.delete k m"

lemmas map_of_insert_map [simp, go_map_simps] = update_conv'
lemmas map_of_delete_map [simp, go_map_simps] = delete_conv'

lemma map_of_insert_map_apply:
  "map_of (insert_map k v m) k' = (if k' = k then Some v else map_of m k')"
  by simp

lemma wf_insert_map [simp]: "wf_map m \<Longrightarrow> wf_map (insert_map k v m)"
  by (rule distinct_update)

lemma wf_delete_map [simp]: "wf_map m \<Longrightarrow> wf_map (delete_map k m)"
  by (rule distinct_delete)

lemma map_of_None_keys: "map_of m k = None \<longleftrightarrow> k \<notin> set (keys m)"
  by (simp add: map_of_eq_None_iff)

lemma map_of_Some_entry: "wf_map m \<Longrightarrow> map_of m k = Some v \<longleftrightarrow> (k, v) \<in> set m"
  by (metis map_of_SomeD map_of_is_SomeI)

lemma ball_entries_lookup:
  "wf_map m \<Longrightarrow> (\<forall>(k, v)\<in>set m. P k v) \<longleftrightarrow> (\<forall>k v. map_of m k = Some v \<longrightarrow> P k v)"
  by (metis (no_types, lifting) case_prodD case_prodI2 map_of_Some_entry)

lemma insert_map_entry: "p \<in> set (insert_map k v m) \<Longrightarrow> p = (k, v) \<or> p \<in> set m"
  by (induction m) (auto split: if_splits)

lemma insert_map_fresh: "k \<notin> set (keys m) \<Longrightarrow> insert_map k v m = m @ [(k, v)]"
  by (induction m) auto

lemma set_keys_insert_map [simp]: "set (keys (insert_map k v m)) = insert k (set (keys m))"
  by (metis dom_map_of_conv_image_fst fun_upd_apply dom_fun_upd image_set map_of_insert_map option.distinct(1))

section \<open>Results\<close>

text \<open>A Go function that returns a value and an error: \<open>Inl\<close> is the error.\<close>

fun res_bind :: "'e + 'a \<Rightarrow> ('a \<Rightarrow> 'e + 'b) \<Rightarrow> 'e + 'b" where
  "res_bind (Inl e) f = Inl e"
| "res_bind (Inr x) f = f x"

lemma res_bind_Inr_iff: "res_bind r f = Inr y \<longleftrightarrow> (\<exists>x. r = Inr x \<and> f x = Inr y)"
  by (cases r) auto

lemma res_bind_Inl_iff: "res_bind r f = Inl e \<longleftrightarrow> r = Inl e \<or> (\<exists>x. r = Inr x \<and> f x = Inl e)"
  by (cases r) auto

text \<open>A loop that stops at the first error.\<close>

fun map_res :: "('a \<Rightarrow> 'e + 'b) \<Rightarrow> 'a list \<Rightarrow> 'e + 'b list" where
  "map_res f [] = Inr []"
| "map_res f (x # xs) = res_bind (f x) (\<lambda>y. res_bind (map_res f xs) (\<lambda>ys. Inr (y # ys)))"

lemma map_res_Inr_iff:
  "map_res f xs = Inr ys \<longleftrightarrow> list_all2 (\<lambda>x y. f x = Inr y) xs ys"
  by (induction xs arbitrary: ys) (auto simp: res_bind_Inr_iff list_all2_Cons1)

lemma map_res_Inl: "map_res f xs = Inl e \<Longrightarrow> \<exists>x\<in>set xs. f x = Inl e"
  by (induction xs) (auto simp: res_bind_Inl_iff)

section \<open>Decimal numerals\<close>

text \<open>\<^verbatim>\<open>strconv.Itoa\<close> and the verb \<^verbatim>\<open>%d\<close> on natural numbers and on integers.\<close>

definition digit_char :: "nat \<Rightarrow> char" where
  "digit_char n = ''0123456789'' ! (n mod 10)"

fun itoa :: "nat \<Rightarrow> string" where
  "itoa n = (if n < 10 then [digit_char n] else itoa (n div 10) @ [digit_char n])"

declare itoa.simps [simp del]

definition itoa_int :: "int \<Rightarrow> string" where
  "itoa_int i = (if i < 0 then ''-'' @ itoa (nat (- i)) else itoa (nat i))"

lemma is_digit_digit_char [simp]: "is_digit (digit_char n)"
proof -
  have "list_all is_digit ''0123456789''" by (simp add: is_digit_def)
  moreover have "''0123456789'' ! (n mod 10) \<in> set ''0123456789''" by (rule nth_mem) simp
  ultimately show ?thesis unfolding digit_char_def list_all_iff by blast
qed

lemma all_digits_itoa: "all_digits (itoa n)"
proof (induction n rule: itoa.induct)
  case (1 n)
  then show ?case by (subst itoa.simps) (auto simp: all_digits_def)
qed

section \<open>Searching a list\<close>

lemma find_SomeD: "List.find P xs = Some x \<Longrightarrow> x \<in> set xs \<and> P x"
  by (induction xs) (auto split: if_splits)

lemma find_of_append: "List.find P (xs @ ys) = (case List.find P xs of None \<Rightarrow> List.find P ys | Some x \<Rightarrow> Some x)"
  by (induction xs) auto

end
