(* ===== verification/Dns_Names.thy ===== *)
theory Dns_Names
  imports Prelude
begin

text \<open>
  Domain names as the vendored DNS library treats them
  (\<^verbatim>\<open>src/bosh-dns/vendor/github.com/miekg/dns/{defaults,labels}.go\<close>):
  \<open>IsFqdn\<close>, \<open>Fqdn\<close>, the split of a name into labels with backslash escapes,
  \<open>CompareDomainName\<close>, \<open>CountLabel\<close> and \<open>IsSubDomain\<close>.
\<close>

section \<open>Fully qualified names\<close>

definition IsFqdn :: "string \<Rightarrow> bool" where
  "IsFqdn s \<longleftrightarrow>
     s \<noteq> [] \<and> last s = CHR ''.'' \<and>
     (butlast s = [] \<or> last (butlast s) \<noteq> CHR 92 \<or>
      even (length (takeWhile (\<lambda>c. c = CHR 92) (rev (butlast s)))))"

definition Fqdn :: "string \<Rightarrow> string" where
  "Fqdn s = (if IsFqdn s then s else s @ ''.'')"

section \<open>Labels\<close>

text \<open>
  \<open>label_pieces s\<close> is the name cut at the label starts that \<open>NextLabel\<close> finds: a dot
  that is not the last character and not escaped ends a piece and belongs to it. The
  flag says that an odd number of backslashes precedes the current character.
\<close>

fun label_pieces_aux :: "bool \<Rightarrow> string \<Rightarrow> string \<Rightarrow> string list" where
  "label_pieces_aux esc cur [] = [rev cur]"
| "label_pieces_aux esc cur [c] = [rev (c # cur)]"
| "label_pieces_aux esc cur (c # d # r) =
     (if c = CHR ''.'' \<and> \<not> esc then rev (c # cur) # label_pieces_aux False [] (d # r)
      else label_pieces_aux (c = CHR 92 \<and> \<not> esc) (c # cur) (d # r))"

definition label_pieces :: "string \<Rightarrow> string list" where
  "label_pieces s = label_pieces_aux False [] s"

text \<open>Labels in common from the right, compared without case; the root has none.\<close>

fun common_labels :: "string list \<Rightarrow> string list \<Rightarrow> nat" where
  "common_labels (x # xs) (y # ys) = (if ToLower x = ToLower y then Suc (common_labels xs ys) else 0)"
| "common_labels xs ys = 0"

definition CompareDomainName :: "string \<Rightarrow> string \<Rightarrow> nat" where
  "CompareDomainName s1 s2 =
     (if s1 = ''.'' \<or> s2 = ''.'' then 0
      else common_labels (rev (label_pieces s1)) (rev (label_pieces s2)))"

definition CountLabel :: "string \<Rightarrow> nat" where
  "CountLabel s = (if s = ''.'' then 0 else length (label_pieces s))"

definition IsSubDomain :: "string \<Rightarrow> string \<Rightarrow> bool" where
  "IsSubDomain parent child \<longleftrightarrow> CompareDomainName parent child = CountLabel parent"

section \<open>Facts\<close>

lemma IsFqdn_snoc_dot: "IsFqdn (s @ ''.'') \<longleftrightarrow> even (length (takeWhile (\<lambda>c. c = CHR 92) (rev s)))"
proof (cases s rule: rev_cases)
  case (snoc t c)
  then show ?thesis by (auto simp: IsFqdn_def butlast_append)
qed (simp add: IsFqdn_def)

lemma IsFqdn_plain: "s \<noteq> [] \<Longrightarrow> last s \<noteq> CHR 92 \<Longrightarrow> IsFqdn (s @ ''.'')"
  unfolding IsFqdn_snoc_dot by (cases s rule: rev_cases) auto

lemma IsFqdn_ends_dot: "IsFqdn s \<Longrightarrow> last s = CHR ''.''"
  by (simp add: IsFqdn_def)

lemma Fqdn_not_Nil [simp]: "Fqdn s \<noteq> []"
  by (auto simp: Fqdn_def IsFqdn_def)

lemma Fqdn_ends_dot: "last (Fqdn s) = CHR ''.''"
  by (simp add: Fqdn_def IsFqdn_def)

text \<open>A second \<open>Fqdn\<close> changes nothing unless the name ends in an odd run of backslashes.\<close>

lemma Fqdn_idem: "IsFqdn s \<or> s = [] \<or> last s \<noteq> CHR 92 \<Longrightarrow> Fqdn (Fqdn s) = Fqdn s"
  by (cases "s = []") (auto simp: Fqdn_def IsFqdn_plain IsFqdn_def)

lemma common_labels_le: "common_labels xs ys \<le> length xs"
  by (induction xs ys rule: common_labels.induct) auto

lemma common_labels_full:
  "common_labels xs ys = length xs \<longleftrightarrow>
     length xs \<le> length ys \<and> map ToLower xs = map ToLower (take (length xs) ys)"
  by (induction xs ys rule: common_labels.induct) auto

lemma label_pieces_aux_not_Nil [simp]: "label_pieces_aux e cur s \<noteq> []"
  by (induction e cur s rule: label_pieces_aux.induct) auto

lemma concat_label_pieces_aux: "concat (label_pieces_aux e cur s) = rev cur @ s"
  by (induction e cur s rule: label_pieces_aux.induct) auto

lemma concat_label_pieces [simp]: "concat (label_pieces s) = s"
  by (simp add: label_pieces_def concat_label_pieces_aux)

lemma CountLabel_eq_0: "CountLabel s = 0 \<longleftrightarrow> s = ''.''"
  by (simp add: CountLabel_def label_pieces_def)

text \<open>
  Away from the root, \<open>IsSubDomain\<close> says that the labels of the parent end the labels
  of the child, up to case. With the root as the child it holds only for the root.
\<close>

lemma map_take_rev: "map f (take n (rev xs)) = rev (map f (drop (length xs - n) xs))"
  by (simp add: take_rev rev_map)

lemma IsSubDomain_iff:
  assumes "parent \<noteq> ''.''" "child \<noteq> ''.''"
  shows "IsSubDomain parent child \<longleftrightarrow>
    suffix (map ToLower (label_pieces parent)) (map ToLower (label_pieces child))"
proof -
  let ?p = "label_pieces parent" and ?c = "label_pieces child"
  have "IsSubDomain parent child \<longleftrightarrow>
      length ?p \<le> length ?c \<and> map ToLower (rev ?p) = map ToLower (take (length ?p) (rev ?c))"
    using assms common_labels_full [of "rev ?p" "rev ?c"]
    by (simp add: IsSubDomain_def CompareDomainName_def CountLabel_def)
  also have "\<dots> \<longleftrightarrow> length ?p \<le> length ?c \<and>
      map ToLower ?p = map ToLower (drop (length ?c - length ?p) ?c)"
    by (simp add: map_take_rev rev_map flip: rev_map)
  also have "\<dots> \<longleftrightarrow> suffix (map ToLower ?p) (map ToLower ?c)"
    by (simp add: suffix_iff_drop drop_map)
  finally show ?thesis .
qed

lemma IsSubDomain_root [simp]: "IsSubDomain ''.'' child" "IsSubDomain parent ''.'' \<longleftrightarrow> parent = ''.''"
  by (simp_all add: IsSubDomain_def CompareDomainName_def CountLabel_def label_pieces_def)

lemma IsSubDomain_refl [simp]: "IsSubDomain s s"
  by (cases "s = ''.''") (simp_all add: IsSubDomain_iff)

lemma IsSubDomain_trans:
  assumes "IsSubDomain a b" "IsSubDomain b c"
  shows "IsSubDomain a c"
proof -
  consider "a = ''.''" | "c = ''.''" | "a \<noteq> ''.''" "c \<noteq> ''.''" by blast
  then show ?thesis
  proof cases
    case 3
    then have "b \<noteq> ''.''" using assms(1) by auto
    with 3 assms show ?thesis using suffix_order.trans by (auto simp: IsSubDomain_iff)
  qed (use assms in auto)
qed

lemma IsSubDomain_CountLabel: "IsSubDomain a b \<Longrightarrow> CountLabel a \<le> CountLabel b"
  by (cases "a = ''.''"; cases "b = ''.''")
     (auto simp: IsSubDomain_iff CountLabel_def dest!: suffix_length_le)

text \<open>Two lower-case names that are subdomains of each other are the same name.\<close>

lemma map_ToLower_pieces: "is_lower s \<Longrightarrow> concat (map ToLower (label_pieces s)) = s"
proof -
  assume "is_lower s"
  moreover have "concat (map ToLower ps) = ToLower (concat ps)" for ps by (induction ps) (auto simp: ToLower_def)
  ultimately show ?thesis by (simp add: is_lower_def)
qed

lemma IsSubDomain_same_count:
  assumes "is_lower a" "is_lower b" "IsSubDomain a b" "CountLabel b \<le> CountLabel a"
  shows "a = b"
proof (cases "a = ''.'' \<or> b = ''.''")
  case True
  then show ?thesis
  proof
    assume "a = ''.''"
    then have "CountLabel b = 0" using assms(4) by (simp add: CountLabel_def)
    with \<open>a = ''.''\<close> show ?thesis by (simp add: CountLabel_eq_0)
  qed (use assms(3) in simp)
next
  case False
  with assms(3,4) have "map ToLower (label_pieces a) = map ToLower (label_pieces b)"
    by (auto simp: IsSubDomain_iff CountLabel_def suffix_iff_drop)
  with map_ToLower_pieces [OF assms(1)] map_ToLower_pieces [OF assms(2)] show ?thesis by metis
qed

end
