(* ===== verification/Criteria.thy ===== *)
theory Criteria
  imports Dns_Names
begin

text \<open>
  Query names and the criteria they stand for
  (\<^verbatim>\<open>src/bosh-dns/dns/server/record/record.go\<close>,
  \<^verbatim>\<open>src/bosh-dns/dns/server/criteria/{query,criteria}.go\<close>). A name is cut into a query form
  (\<open>ParseQuery\<close>), the form becomes a map from field names to accepted values
  (\<open>parseCriteria\<close>), and the map becomes a predicate on records (\<open>Matcher\<close>).
  The lemmas give the meaning of the predicate independently of the iteration order of
  the map, and the criteria each shape of name is parsed to.
\<close>

section \<open>Records and hosts\<close>

record host =
  h_IP :: string
  h_FQDN :: string

record rec =
  r_ID :: string
  r_NumID :: string
  r_Group :: string
  r_GroupIDs :: "string list"
  r_Network :: string
  r_NetworkID :: string
  r_Deployment :: string
  r_IP :: string
  r_Domain :: string
  r_AZ :: string
  r_AZID :: string
  r_AgentID :: string
  r_InstanceIndex :: string

section \<open>Query forms\<close>

record short_form =
  q_query :: string
  q_group :: string
  q_domain :: string
  q_instance :: string

record long_form = short_form +
  q_network :: string
  q_deployment :: string

datatype QueryForm =
    ShortForm short_form
  | LongForm long_form
  | AgentIDForm string
  | NonBoshDNSForm string

datatype criteria_error =
    DomainMalformed
  | BadGroupSegment nat "string list"
  | IllegalQuery

definition BoshAgentTLD :: string where
  "BoshAgentTLD = ''bosh-agent-id''"

definition isQuery :: "string \<Rightarrow> bool" where
  "isQuery query \<longleftrightarrow> HasPrefix query ''q-''"

fun findTLD :: "string \<Rightarrow> string list \<Rightarrow> string" where
  "findTLD fqdn [] = ''''"
| "findTLD fqdn (possible # ds) = (if HasSuffix fqdn possible then possible else findTLD fqdn ds)"

definition ParseQuery :: "string \<Rightarrow> string list \<Rightarrow> criteria_error + QueryForm" where
  "ParseQuery fqdn domains =
     (case SplitN2 CHR ''.'' fqdn of
        [seg0, seg1] \<Rightarrow>
          if seg1 = BoshAgentTLD @ ''.'' then Inr (AgentIDForm seg0)
          else
            let tld = findTLD fqdn domains in
            if tld = '''' then Inr (NonBoshDNSForm seg0)
            else
              let groupQuery = TrimSuffix seg1 (''.'' @ tld);
                  groupSegments = Split CHR ''.'' groupQuery;
                  query = (if isQuery seg0 then seg0 else '''');
                  instanceName = (if isQuery seg0 then '''' else seg0)
              in case groupSegments of
                   [g] \<Rightarrow> Inr (ShortForm \<lparr>q_query = query, q_group = groupQuery,
                                           q_domain = tld, q_instance = instanceName\<rparr>)
                 | [g, n, d] \<Rightarrow> Inr (LongForm \<lparr>q_query = query, q_group = g, q_domain = tld,
                                       q_instance = instanceName, q_network = n, q_deployment = d\<rparr>)
                 | _ \<Rightarrow> Inl (BadGroupSegment (length groupSegments) groupSegments)
      | _ \<Rightarrow> Inl DomainMalformed)"

fun form_query :: "QueryForm \<Rightarrow> string" where
  "form_query (ShortForm f) = q_query f"
| "form_query (LongForm f) = q_query f"
| "form_query (AgentIDForm q) = q"
| "form_query (NonBoshDNSForm q) = q"

section \<open>Criteria\<close>

type_synonym criteria = "(string, string list) gomap"

definition appendCriteria :: "criteria \<Rightarrow> string \<Rightarrow> string \<Rightarrow> criteria" where
  "appendCriteria c key value =
     (let values = (case map_of c key of None \<Rightarrow> [] | Some vs \<Rightarrow> vs)
      in if value \<noteq> '''' then insert_map key (values @ [value]) c else c)"

text \<open>
  All leftmost, non-overlapping matches of \<^verbatim>\<open>(a|i|s|m|n|y)([0-9]+)\<close>, as the two
  submatches.
\<close>

definition is_key :: "char \<Rightarrow> bool" where
  "is_key c \<longleftrightarrow> c \<in> set ''aismny''"

function keyValueRegex_FindAll :: "string \<Rightarrow> (string \<times> string) list" where
  "keyValueRegex_FindAll [] = []"
| "keyValueRegex_FindAll (c # cs) =
     (if is_key c \<and> takeWhile is_digit cs \<noteq> []
      then ([c], takeWhile is_digit cs) # keyValueRegex_FindAll (dropWhile is_digit cs)
      else keyValueRegex_FindAll cs)"
  by pat_completeness auto
termination
  by (relation "measure length") (auto simp: le_imp_less_Suc length_dropWhile_le)

text \<open>The submatch of \<^verbatim>\<open>^q-g([0-9]+)$\<close>, when the string matches.\<close>

definition groupRegex_match :: "string \<Rightarrow> string option" where
  "groupRegex_match s =
     (if HasPrefix s ''q-g'' \<and> all_digits (drop 3 s) then Some (drop 3 s) else None)"

definition parseShortQueries :: "criteria \<Rightarrow> string \<Rightarrow> criteria_error + criteria" where
  "parseShortQueries c query =
     (if \<not> isQuery query then Inr c
      else
        let sections = keyValueRegex_FindAll (TrimPrefix query ''q-'')
        in if sections = [] then Inl IllegalQuery
           else Inr (fold (\<lambda>(k, v) c. appendCriteria c k v) sections c))"

definition appendGroup :: "criteria \<Rightarrow> string \<Rightarrow> criteria" where
  "appendGroup c grp = (case groupRegex_match grp of None \<Rightarrow> c | Some g \<Rightarrow> appendCriteria c ''g'' g)"

fun parseCriteria :: "QueryForm \<Rightarrow> criteria_error + criteria" where
  "parseCriteria (ShortForm f) =
     res_bind (parseShortQueries [] (q_query f)) (\<lambda>c.
       let c = appendGroup c (q_group f);
           c = appendCriteria c ''instanceName'' (q_instance f)
       in Inr (appendCriteria c ''domain'' (q_domain f)))"
| "parseCriteria (LongForm f) =
     res_bind (parseShortQueries [] (q_query f)) (\<lambda>c.
       let c = appendCriteria c ''instanceName'' (q_instance f);
           c = appendCriteria c ''instanceGroupName'' (q_group f);
           c = appendCriteria c ''network'' (q_network f);
           c = appendCriteria c ''deployment'' (q_deployment f);
           c = appendGroup c (q_group f)
       in Inr (appendCriteria c ''domain'' (q_domain f)))"
| "parseCriteria (AgentIDForm q) = Inr (appendCriteria [] ''agentID'' q)"
| "parseCriteria (NonBoshDNSForm q) = Inr (appendCriteria [] ''instanceName'' q)"

definition NewCriteria :: "string \<Rightarrow> string list \<Rightarrow> criteria_error + criteria" where
  "NewCriteria fqdn domains =
     res_bind (ParseQuery fqdn domains) (\<lambda>seg.
       res_bind (parseCriteria seg) (\<lambda>crit. Inr (insert_map ''fqdn'' [fqdn] crit)))"

section \<open>Matchers\<close>

type_synonym matcher = "rec \<Rightarrow> bool"

fun AndMatcher_Match :: "matcher list \<Rightarrow> rec \<Rightarrow> bool" where
  "AndMatcher_Match [] r = True"
| "AndMatcher_Match (m # ms) r = (if \<not> m r then False else AndMatcher_Match ms r)"

fun OrMatcher_Match :: "matcher list \<Rightarrow> rec \<Rightarrow> bool" where
  "OrMatcher_Match [] r = False"
| "OrMatcher_Match (m # ms) r = (if m r then True else OrMatcher_Match ms r)"

definition globMatches :: "string \<Rightarrow> string \<Rightarrow> bool" where
  "globMatches field value =
     (if value = ''*'' then True
      else if HasPrefix value ''*'' then HasSuffix field (drop 1 value)
      else if HasSuffix value ''*'' then HasPrefix field (take (length value - 1) value)
      else False)"

definition FieldMatcher :: "string \<Rightarrow> string \<Rightarrow> matcher" where
  "FieldMatcher field value r =
     (if field = ''instanceName'' then r_ID r = value
      else if field = ''instanceGroupName'' then
        (if CHR ''*'' \<in> set value then globMatches (r_Group r) value else r_Group r = value)
      else if field = ''network'' then
        (if CHR ''*'' \<in> set value then globMatches (r_Network r) value else r_Network r = value)
      else if field = ''deployment'' then
        (if CHR ''*'' \<in> set value then globMatches (r_Deployment r) value else r_Deployment r = value)
      else if field = ''domain'' then r_Domain r = value
      else if field = ''agentID'' then r_AgentID r = value
      else if field = ''m'' then r_NumID r = value
      else if field = ''n'' then r_NetworkID r = value
      else if field = ''a'' then r_AZID r = value
      else if field = ''i'' then r_InstanceIndex r = value
      else if field = ''g'' then value \<in> set (r_GroupIDs r)
      else False)"

definition Field :: "string \<Rightarrow> string list \<Rightarrow> matcher" where
  "Field field values =
     (case values of
        [] \<Rightarrow> FieldMatcher '''' ''''
      | [v] \<Rightarrow> FieldMatcher field v
      | _ \<Rightarrow> OrMatcher_Match (map (FieldMatcher field) values))"

definition Matcher :: "criteria \<Rightarrow> matcher" where
  "Matcher c =
     AndMatcher_Match
       (map (\<lambda>(field, values). Field field values)
          (filter (\<lambda>(field, values). \<not> (field = ''y'' \<or> field = ''s'' \<or> field = ''fqdn'')) c))"

section \<open>Meaning of the matcher\<close>

abbreviation control_field :: "string \<Rightarrow> bool" where
  "control_field f \<equiv> f = ''y'' \<or> f = ''s'' \<or> f = ''fqdn''"

lemma AndMatcher_iff: "AndMatcher_Match ms r \<longleftrightarrow> (\<forall>m\<in>set ms. m r)"
  by (induction ms) auto

lemma OrMatcher_iff: "OrMatcher_Match ms r \<longleftrightarrow> (\<exists>m\<in>set ms. m r)"
  by (induction ms) auto

lemma FieldMatcher_empty [simp]: "FieldMatcher '''' v r = False"
  by (simp add: FieldMatcher_def)

lemma Field_iff: "Field f vs r \<longleftrightarrow> (\<exists>v\<in>set vs. FieldMatcher f v r)"
  by (auto simp: Field_def OrMatcher_iff split: list.splits)

lemma Matcher_iff:
  "Matcher c r \<longleftrightarrow>
     (\<forall>(f, vs)\<in>set c. control_field f \<or> (\<exists>v\<in>set vs. FieldMatcher f v r))"
  by (fastforce simp: Matcher_def AndMatcher_iff Field_iff)

lemma Matcher_Nil [simp]: "Matcher [] r"
  by (simp add: Matcher_iff)

lemma Matcher_Cons:
  "Matcher ((f, vs) # c) r \<longleftrightarrow>
     (control_field f \<or> (\<exists>v\<in>set vs. FieldMatcher f v r)) \<and> Matcher c r"
  by (simp add: Matcher_iff)

lemma Matcher_by_lookup:
  "wf_map c \<Longrightarrow> Matcher c r \<longleftrightarrow>
     (\<forall>f vs. map_of c f = Some vs \<longrightarrow> control_field f \<or> (\<exists>v\<in>set vs. FieldMatcher f v r))"
  unfolding Matcher_iff by (rule ball_entries_lookup)

text \<open>The iteration order of the map does not matter.\<close>

lemma Matcher_perm: "mset c = mset c' \<Longrightarrow> Matcher c r = Matcher c' r"
  unfolding Matcher_iff by (drule mset_eq_setD) (simp only:)

section \<open>The criteria map\<close>

definition wf_criteria :: "criteria \<Rightarrow> bool" where
  "wf_criteria c \<longleftrightarrow> wf_map c \<and> (\<forall>p\<in>set c. snd p \<noteq> [] \<and> '''' \<notin> set (snd p))"

lemma wf_criteria_Nil [simp]: "wf_criteria []"
  by (simp add: wf_criteria_def)

lemma wf_criteria_lookup:
  "wf_criteria c \<Longrightarrow> map_of c f = Some vs \<Longrightarrow> vs \<noteq> [] \<and> '''' \<notin> set vs"
  by (auto simp: wf_criteria_def dest: map_of_SomeD)

lemma wf_criteria_insert:
  "wf_criteria c \<Longrightarrow> vs \<noteq> [] \<Longrightarrow> '''' \<notin> set vs \<Longrightarrow> wf_criteria (insert_map k vs c)"
  unfolding wf_criteria_def by (auto dest: insert_map_entry)

lemma wf_appendCriteria [simp]: "wf_criteria c \<Longrightarrow> wf_criteria (appendCriteria c k v)"
  by (auto simp: appendCriteria_def Let_def intro!: wf_criteria_insert dest: wf_criteria_lookup
      split: option.splits)

lemma wf_appendGroup [simp]: "wf_criteria c \<Longrightarrow> wf_criteria (appendGroup c g)"
  by (simp add: appendGroup_def split: option.splits)

lemma wf_fold_appendCriteria:
  "wf_criteria c \<Longrightarrow> wf_criteria (fold (\<lambda>(k, v) c. appendCriteria c k v) kvs c)"
  by (induction kvs arbitrary: c) auto

lemma wf_parseShortQueries: "wf_criteria c \<Longrightarrow> parseShortQueries c q = Inr c' \<Longrightarrow> wf_criteria c'"
  by (auto simp: parseShortQueries_def Let_def wf_fold_appendCriteria split: if_splits)

lemma wf_parseCriteria: "parseCriteria qf = Inr c \<Longrightarrow> wf_criteria c"
  by (cases qf) (auto simp: res_bind_Inr_iff Let_def dest!: wf_parseShortQueries [rotated])

lemma NewCriteria_Inr:
  "NewCriteria fqdn ds = Inr c \<longleftrightarrow>
     (\<exists>qf c0. ParseQuery fqdn ds = Inr qf \<and> parseCriteria qf = Inr c0 \<and>
        c = insert_map ''fqdn'' [fqdn] c0)"
  by (auto simp: NewCriteria_def res_bind_Inr_iff)

lemma ParseQuery_needs_dot: "CHR ''.'' \<notin> set fqdn \<Longrightarrow> ParseQuery fqdn ds = Inl DomainMalformed"
  by (simp add: ParseQuery_def SplitN2_no_sep)

lemma wf_NewCriteria: "NewCriteria fqdn ds = Inr c \<Longrightarrow> wf_criteria c"
proof -
  assume "NewCriteria fqdn ds = Inr c"
  then obtain qf c0 where p: "ParseQuery fqdn ds = Inr qf" "parseCriteria qf = Inr c0"
    and c: "c = insert_map ''fqdn'' [fqdn] c0" by (auto simp: NewCriteria_Inr)
  have "fqdn \<noteq> []" using p ParseQuery_needs_dot [of fqdn ds] by auto
  with p(2) c show ?thesis by (simp add: wf_criteria_insert wf_parseCriteria)
qed

lemma NewCriteria_fqdn: "NewCriteria fqdn ds = Inr c \<Longrightarrow> map_of c ''fqdn'' = Some [fqdn]"
  by (auto simp: NewCriteria_Inr)

section \<open>The key-value encoding\<close>

definition kv_ok :: "string \<times> string \<Rightarrow> bool" where
  "kv_ok kv \<longleftrightarrow> (\<exists>c. fst kv = [c] \<and> is_key c) \<and> all_digits (snd kv)"

lemma not_digit_key: "is_key c \<Longrightarrow> \<not> is_digit c"
  by (auto simp: is_key_def is_digit_def less_eq_char_def)

lemma all_digits_takeWhile:
  assumes "all_digits v" "r = [] \<or> \<not> is_digit (hd r)"
  shows "takeWhile is_digit (v @ r) = v" "dropWhile is_digit (v @ r) = r"
proof -
  have "\<forall>x\<in>set v. is_digit x" using assms(1) by (auto simp: all_digits_def list_all_iff)
  with assms(2) show "takeWhile is_digit (v @ r) = v" "dropWhile is_digit (v @ r) = r"
    by (cases r; simp add: takeWhile_append dropWhile_append)+
qed

lemma keyValueRegex_roundtrip:
  "list_all kv_ok kvs \<Longrightarrow> keyValueRegex_FindAll (concat (map (\<lambda>(k, v). k @ v) kvs)) = kvs"
proof (induction kvs)
  case (Cons kv kvs)
  obtain c v where kv: "kv = ([c], v)" "is_key c" "all_digits v"
    using Cons.prems by (cases kv) (auto simp: kv_ok_def)
  let ?rest = "concat (map (\<lambda>(k, v). k @ v) kvs)"
  have "?rest = [] \<or> \<not> is_digit (hd ?rest)"
    using Cons.prems not_digit_key by (cases kvs) (auto simp: kv_ok_def)
  from all_digits_takeWhile [OF kv(3) this] Cons kv show ?case
    by (auto simp: all_digits_def)
qed simp

lemma lookup_appendCriteria:
  "v \<noteq> '''' \<Longrightarrow> map_of (appendCriteria c k v) k' =
     (if k' = k then Some ((case map_of c k of None \<Rightarrow> [] | Some vs \<Rightarrow> vs) @ [v]) else map_of c k')"
  by (simp add: appendCriteria_def Let_def)

lemma lookup_appendCriteria_other:
  "k' \<noteq> k \<Longrightarrow> map_of (appendCriteria c k v) k' = map_of c k'"
  by (simp add: appendCriteria_def Let_def)

lemma appendCriteria_fresh:
  "k \<notin> set (keys c) \<Longrightarrow> v \<noteq> '''' \<Longrightarrow> appendCriteria c k v = c @ [(k, [v])]"
proof -
  assume k: "k \<notin> set (keys c)" and v: "v \<noteq> ''''"
  from k have "map_of c k = None" by (simp only: map_of_None_keys not_False_eq_True)
  with k v show ?thesis by (simp only: appendCriteria_def insert_map_fresh Let_def if_True option.case append_Nil not_False_eq_True)
qed

lemma fold_appendCriteria_fresh:
  "distinct (map fst kvs) \<Longrightarrow> \<forall>kv\<in>set kvs. snd kv \<noteq> '''' \<Longrightarrow> set (map fst kvs) \<inter> set (keys c) = {} \<Longrightarrow>
     fold (\<lambda>(k, v) c. appendCriteria c k v) kvs c = c @ map (\<lambda>(k, v). (k, [v])) kvs"
  by (induction kvs arbitrary: c) (auto simp: appendCriteria_fresh)

text \<open>Folding a list of pairs into the map collects, per key, its values in order.\<close>

definition values_for :: "string \<Rightarrow> (string \<times> string) list \<Rightarrow> string list" where
  "values_for k kvs = map snd (filter (\<lambda>kv. fst kv = k) kvs)"

lemma lookup_fold_appendCriteria:
  assumes "\<forall>kv\<in>set kvs. snd kv \<noteq> ''''"
  shows "map_of (fold (\<lambda>(k, v) c. appendCriteria c k v) kvs c) k =
     (case map_of c k of
        None \<Rightarrow> if values_for k kvs = [] then None else Some (values_for k kvs)
      | Some vs \<Rightarrow> Some (vs @ values_for k kvs))"
  using assms
  by (induction kvs arbitrary: c)
     (auto simp: values_for_def lookup_appendCriteria split: option.splits)

section \<open>What each shape of name is parsed to\<close>

lemma not_agent_tld: "tld \<noteq> '''' \<Longrightarrow> gq @ ''.'' @ tld \<noteq> BoshAgentTLD @ ''.''"
proof
  assume tld: "tld \<noteq> ''''" and eq: "gq @ ''.'' @ tld = BoshAgentTLD @ ''.''"
  from tld have "CHR ''.'' \<in> set (butlast (gq @ ''.'' @ tld))" by (simp add: butlast_append)
  moreover have "CHR ''.'' \<notin> set (butlast (BoshAgentTLD @ ''.''))" by (simp add: BoshAgentTLD_def)
  ultimately show False using eq by simp
qed

lemma ParseQuery_bosh:
  assumes "fqdn = seg0 @ ''.'' @ gq @ ''.'' @ tld" "CHR ''.'' \<notin> set seg0"
    and "findTLD fqdn ds = tld" "tld \<noteq> ''''"
  shows "ParseQuery fqdn ds =
    (let query = (if isQuery seg0 then seg0 else '''');
         instanceName = (if isQuery seg0 then '''' else seg0)
     in case Split CHR ''.'' gq of
          [g] \<Rightarrow> Inr (ShortForm \<lparr>q_query = query, q_group = gq, q_domain = tld,
                                  q_instance = instanceName\<rparr>)
        | [g, n, d] \<Rightarrow> Inr (LongForm \<lparr>q_query = query, q_group = g, q_domain = tld,
                              q_instance = instanceName, q_network = n, q_deployment = d\<rparr>)
        | _ \<Rightarrow> Inl (BadGroupSegment (length (Split CHR ''.'' gq)) (Split CHR ''.'' gq)))"
proof -
  have 1: "SplitN2 CHR ''.'' fqdn = [seg0, gq @ CHR ''.'' # tld]"
    using SplitN2_sep [OF assms(2), of "gq @ ''.'' @ tld"] assms(1) by simp
  have 2: "TrimSuffix (gq @ CHR ''.'' # tld) (CHR ''.'' # tld) = gq" by (rule TrimSuffix_append)
  have 3: "gq @ CHR ''.'' # tld \<noteq> BoshAgentTLD @ ''.''"
    using not_agent_tld [OF assms(4), of gq] by simp
  show ?thesis
    unfolding ParseQuery_def 1 using 2 3 assms(3,4) by (simp add: Let_def)
qed

lemma ParseQuery_short:
  assumes "fqdn = seg0 @ ''.'' @ g @ ''.'' @ tld" "CHR ''.'' \<notin> set seg0" "CHR ''.'' \<notin> set g"
    and "findTLD fqdn ds = tld" "tld \<noteq> ''''"
  shows "ParseQuery fqdn ds = Inr (ShortForm
     \<lparr>q_query = (if isQuery seg0 then seg0 else ''''), q_group = g, q_domain = tld,
      q_instance = (if isQuery seg0 then '''' else seg0)\<rparr>)"
  unfolding ParseQuery_bosh [OF assms(1,2,4,5)] using assms(3) by simp

lemma ParseQuery_long:
  assumes "fqdn = seg0 @ ''.'' @ g @ ''.'' @ n @ ''.'' @ d @ ''.'' @ tld"
    and "\<forall>x\<in>{seg0, g, n, d}. CHR ''.'' \<notin> set x"
    and "findTLD fqdn ds = tld" "tld \<noteq> ''''"
  shows "ParseQuery fqdn ds = Inr (LongForm
     \<lparr>q_query = (if isQuery seg0 then seg0 else ''''), q_group = g, q_domain = tld,
      q_instance = (if isQuery seg0 then '''' else seg0), q_network = n, q_deployment = d\<rparr>)"
proof -
  have "Split CHR ''.'' (g @ ''.'' @ n @ ''.'' @ d) = [g, n, d]"
    using assms(2) by (simp add: Split_append_sep)
  moreover have "fqdn = seg0 @ ''.'' @ (g @ ''.'' @ n @ ''.'' @ d) @ ''.'' @ tld"
    using assms(1) by simp
  ultimately show ?thesis
    using assms ParseQuery_bosh [of fqdn seg0 "g @ ''.'' @ n @ ''.'' @ d" tld ds] by simp
qed

definition field_accepts :: "string \<Rightarrow> string \<Rightarrow> bool" where
  "field_accepts value field = (if CHR ''*'' \<in> set value then globMatches field value else field = value)"

lemma FieldMatcher_simps [simp]:
  "FieldMatcher ''instanceName'' v r \<longleftrightarrow> r_ID r = v"
  "FieldMatcher ''instanceGroupName'' v r \<longleftrightarrow> field_accepts v (r_Group r)"
  "FieldMatcher ''network'' v r \<longleftrightarrow> field_accepts v (r_Network r)"
  "FieldMatcher ''deployment'' v r \<longleftrightarrow> field_accepts v (r_Deployment r)"
  "FieldMatcher ''domain'' v r \<longleftrightarrow> r_Domain r = v"
  "FieldMatcher ''agentID'' v r \<longleftrightarrow> r_AgentID r = v"
  "FieldMatcher ''m'' v r \<longleftrightarrow> r_NumID r = v"
  "FieldMatcher ''n'' v r \<longleftrightarrow> r_NetworkID r = v"
  "FieldMatcher ''a'' v r \<longleftrightarrow> r_AZID r = v"
  "FieldMatcher ''i'' v r \<longleftrightarrow> r_InstanceIndex r = v"
  "FieldMatcher ''g'' v r \<longleftrightarrow> v \<in> set (r_GroupIDs r)"
  by (simp_all add: FieldMatcher_def field_accepts_def)

text \<open>
  A pattern with one star at an end matches by suffix or prefix; a star elsewhere is
  compared as a character, so such a pattern matches nothing unless it ends in a star.
\<close>

lemma globMatches_star: "globMatches x ''*''"
  by (simp add: globMatches_def)

lemma globMatches_suffix: "p \<noteq> '''' \<Longrightarrow> globMatches x (''*'' @ p) \<longleftrightarrow> suffix p x"
  by (simp add: globMatches_def HasSuffix_iff HasPrefix_iff)

lemma globMatches_prefix:
  "p \<noteq> '''' \<Longrightarrow> hd p \<noteq> CHR ''*'' \<Longrightarrow> globMatches x (p @ ''*'') \<longleftrightarrow> prefix p x"
  by (cases p) (auto simp: globMatches_def HasSuffix_iff HasPrefix_iff suffix_def)

lemma globMatches_inner:
  assumes "p \<noteq> ''''" "hd p \<noteq> CHR ''*''" "last p \<noteq> CHR ''*''"
  shows "\<not> globMatches x p"
proof -
  have "\<not> HasSuffix p ''*''" using assms(3) by (auto simp: HasSuffix_iff suffix_def)
  moreover have "\<not> HasPrefix p ''*''" using assms(1,2) by (cases p) (auto simp: HasPrefix_iff)
  moreover have "p \<noteq> ''*''" using assms(3) by auto
  ultimately show ?thesis by (simp add: globMatches_def)
qed

text \<open>
  C4: A full name \<open>instance.group.network.deployment.tld\<close> of a served domain is accepted and
  selects exactly the records with these five fields, where a star at an end of the
  group, network or deployment label is a wildcard.
\<close>

theorem long_name_selects:
  assumes "fqdn = i @ ''.'' @ g @ ''.'' @ n @ ''.'' @ d @ ''.'' @ tld"
    and "\<forall>x\<in>{i, g, n, d}. x \<noteq> '''' \<and> CHR ''.'' \<notin> set x"
    and "\<not> isQuery i" "groupRegex_match g = None"
    and "findTLD fqdn domains = tld" "tld \<noteq> ''''"
  shows "\<exists>c. NewCriteria fqdn domains = Inr c \<and>
    (\<forall>r. Matcher c r \<longleftrightarrow> r_ID r = i \<and> field_accepts g (r_Group r) \<and>
       field_accepts n (r_Network r) \<and> field_accepts d (r_Deployment r) \<and> r_Domain r = tld)"
proof -
  let ?c = "[(''instanceName'', [i]), (''instanceGroupName'', [g]), (''network'', [n]),
     (''deployment'', [d]), (''domain'', [tld]), (''fqdn'', [fqdn])]"
  have "ParseQuery fqdn domains = Inr (LongForm \<lparr>q_query = '''', q_group = g, q_domain = tld,
      q_instance = i, q_network = n, q_deployment = d\<rparr>)"
    using ParseQuery_long [of fqdn i g n d tld domains] assms by simp
  moreover have "\<not> isQuery ''''" by (simp add: isQuery_def HasPrefix_def)
  ultimately have "NewCriteria fqdn domains = Inr ?c"
    using assms by (simp add: NewCriteria_def parseShortQueries_def appendCriteria_def appendGroup_def)
  moreover have "Matcher ?c r \<longleftrightarrow> r_ID r = i \<and> field_accepts g (r_Group r) \<and>
      field_accepts n (r_Network r) \<and> field_accepts d (r_Deployment r) \<and> r_Domain r = tld" for r
    by (simp add: Matcher_Cons)
  ultimately show ?thesis by blast
qed

theorem long_name_selects_witness:
  "\<exists>c. NewCriteria ''web0.router.default.cf.bosh.'' [''bosh.''] = Inr c \<and>
    (\<forall>r. Matcher c r \<longleftrightarrow> r_ID r = ''web0'' \<and> field_accepts ''router'' (r_Group r) \<and>
       field_accepts ''default'' (r_Network r) \<and> field_accepts ''cf'' (r_Deployment r) \<and>
       r_Domain r = ''bosh.'')"
  by (rule long_name_selects)
     (simp_all add: isQuery_def HasPrefix_def HasSuffix_def groupRegex_match_def)

end
