(* ===== verification/Net_IP.thy ===== *)
theory Net_IP
  imports Prelude
begin

text \<open>
  \<^verbatim>\<open>net.ParseIP\<close> and \<^verbatim>\<open>IP.To4\<close> of Go's standard library, which the alias
  configuration, the resolver and the recursor configuration call. An address is its
  sixteen bytes; a dotted quad is stored with the prefix of IPv4-mapped addresses.
\<close>

section \<open>Dotted quads\<close>

definition digit_val :: "char \<Rightarrow> nat" where
  "digit_val c = of_char c - of_char CHR ''0''"

definition decimal :: "string \<Rightarrow> nat" where
  "decimal s = foldl (\<lambda>n c. 10 * n + digit_val c) 0 s"

text \<open>One field: digits without a leading zero, at most 255.\<close>

definition octet :: "string \<Rightarrow> nat option" where
  "octet s =
     (if all_digits s \<and> (hd s = CHR ''0'' \<longrightarrow> length s = 1) \<and> decimal s \<le> 255
      then Some (decimal s) else None)"

definition parseIPv4Fields :: "string \<Rightarrow> nat list option" where
  "parseIPv4Fields s =
     (case map octet (Split CHR ''.'' s) of
        [Some a, Some b, Some c, Some d] \<Rightarrow> Some [a, b, c, d]
      | _ \<Rightarrow> None)"

definition v4_prefix :: "nat list" where
  "v4_prefix = replicate 10 0 @ [255, 255]"

section \<open>Colon notation\<close>

definition hex_val :: "char \<Rightarrow> nat option" where
  "hex_val c =
     (if is_digit c then Some (of_char c - of_char CHR ''0'')
      else if CHR ''a'' \<le> c \<and> c \<le> CHR ''f'' then Some (of_char c - of_char CHR ''a'' + 10)
      else if CHR ''A'' \<le> c \<and> c \<le> CHR ''F'' then Some (of_char c - of_char CHR ''A'' + 10)
      else None)"

abbreviation is_hex :: "char \<Rightarrow> bool" where
  "is_hex c \<equiv> hex_val c \<noteq> None"

definition hex_chunk :: "string \<Rightarrow> nat list" where
  "hex_chunk s =
     (let n = foldl (\<lambda>n c. 16 * n + (case hex_val c of None \<Rightarrow> 0 | Some v \<Rightarrow> v)) 0 s
      in [n div 256 mod 256, n mod 256])"

lemma dropWhile_Cons_length: "dropWhile p s = c # rest \<Longrightarrow> length rest < length s"
  by (metis Suc_le_lessD length_Cons length_dropWhile_le)

text \<open>
  The loop over the groups: the bytes so far, the position of the ellipsis if one was
  seen, the rest of the string.
\<close>

function parse_groups :: "nat list \<Rightarrow> nat option \<Rightarrow> string \<Rightarrow> (nat list \<times> nat option) option" where
  "parse_groups ip ell s =
     (if length ip \<ge> 16 then (if s = [] then Some (ip, ell) else None)
      else
        let hs = takeWhile is_hex s; ip' = ip @ hex_chunk hs in
        if hs = [] \<or> length hs > 4 then None
        else (case dropWhile is_hex s of
                [] \<Rightarrow> Some (ip', ell)
              | c # rest \<Rightarrow>
                  if c = CHR ''.'' then
                    (if ell = None \<and> length ip \<noteq> 12 then None
                     else if length ip + 4 > 16 then None
                     else map_option (\<lambda>f. (ip @ f, ell)) (parseIPv4Fields s))
                  else if c \<noteq> CHR '':'' then None
                  else (case rest of
                          [] \<Rightarrow> None
                        | c1 # rest1 \<Rightarrow>
                            if c1 = CHR '':'' then
                              (if ell \<noteq> None then None
                               else if rest1 = [] then Some (ip', Some (length ip'))
                               else parse_groups ip' (Some (length ip')) rest1)
                            else parse_groups ip' ell rest)))"
  by pat_completeness auto

termination
  by (relation "measure (\<lambda>(ip, ell, s). length s)") (auto dest!: dropWhile_Cons_length)

declare parse_groups.simps [simp del]

definition expand_ellipsis :: "nat list \<times> nat option \<Rightarrow> nat list option" where
  "expand_ellipsis = (\<lambda>(ip, ell).
     if length ip < 16 then
       (case ell of
          None \<Rightarrow> None
        | Some e \<Rightarrow> Some (take e ip @ replicate (16 - length ip) 0 @ drop e ip))
     else if ell \<noteq> None then None else Some ip)"

definition parseIPv6 :: "string \<Rightarrow> nat list option" where
  "parseIPv6 s =
     (if HasPrefix s ''::'' then
        (if length s = 2 then Some (replicate 16 0)
         else Option.bind (parse_groups [] (Some 0) (drop 2 s)) expand_ellipsis)
      else Option.bind (parse_groups [] None s) expand_ellipsis)"

section \<open>Addresses\<close>

text \<open>An address with a zone is refused, so a percent sign anywhere makes the result nil.\<close>

definition ParseIP :: "string \<Rightarrow> nat list option" where
  "ParseIP s =
     (case find (\<lambda>c. c \<in> set ''.:%'') s of
        None \<Rightarrow> None
      | Some c \<Rightarrow>
          if CHR ''%'' \<in> set s then None
          else if c = CHR ''.'' then map_option ((@) v4_prefix) (parseIPv4Fields s)
          else parseIPv6 s)"

definition To4 :: "nat list option \<Rightarrow> nat list option" where
  "To4 ip =
     (case ip of
        None \<Rightarrow> None
      | Some b \<Rightarrow>
          if length b = 4 then Some b
          else if length b = 16 \<and> take 12 b = v4_prefix then Some (drop 12 b)
          else None)"

section \<open>Facts\<close>

lemma parseIPv4Fields_length: "parseIPv4Fields s = Some f \<Longrightarrow> length f = 4"
  by (auto simp: parseIPv4Fields_def split: list.splits option.splits)

lemma length_hex_chunk [simp]: "length (hex_chunk s) = 2"
  by (simp add: hex_chunk_def Let_def)

lemma parse_groups_length:
  "parse_groups ip ell s = Some (ip', ell') \<Longrightarrow> even (length ip) \<Longrightarrow> length ip \<le> 16 \<Longrightarrow> length ip' \<le> 16"
proof (induction ip ell s rule: parse_groups.induct)
  case (1 ip ell s)
  have "length ip + 2 \<le> 16" if "\<not> 16 \<le> length ip" using that "1.prems"(2) by presburger
  with "1.IH" "1.prems" show ?case
    by (subst (asm) parse_groups.simps)
       (auto simp: Let_def split: if_splits list.splits dest: parseIPv4Fields_length)
qed

lemma expand_ellipsis_length:
  "expand_ellipsis (ip, ell) = Some b \<Longrightarrow> length ip \<le> 16 \<Longrightarrow> length b = 16"
  by (auto simp: expand_ellipsis_def split: if_splits option.splits)

lemma ParseIP_length: "ParseIP s = Some b \<Longrightarrow> length b = 16"
proof -
  assume *: "ParseIP s = Some b"
  have "length b = 16" if "Option.bind (parse_groups [] ell t) expand_ellipsis = Some b" for ell t
    using that parse_groups_length [of "[]" ell t] expand_ellipsis_length
    by (auto simp: bind_eq_Some_conv)
  with * show ?thesis
    by (auto simp: ParseIP_def parseIPv6_def v4_prefix_def
        split: option.splits if_splits dest!: parseIPv4Fields_length)
qed

lemma To4_length: "To4 ip = Some b \<Longrightarrow> length b = 4"
  by (auto simp: To4_def split: option.splits if_splits)

lemma ParseIP_examples:
  "ParseIP ''10.0.0.1'' = Some (v4_prefix @ [10, 0, 0, 1])"
  "ParseIP ''::1'' = Some (replicate 15 0 @ [1])"
  "ParseIP ''10.0.0.256'' = None" "ParseIP ''10.0.0.01'' = None" "ParseIP ''bosh.'' = None"
  by code_simp+

end
