(* ===== verification/Aliases.thy ===== *)
theory Aliases
  imports Dns_Names Net_IP
begin

text \<open>
  The alias configuration (\<^verbatim>\<open>src/bosh-dns/dns/server/aliases/{config,configs_by_glob}.go\<close>):
  building it from a map, merging, looking aliases up in both directions, reducing
  chains of aliases, and the list of alias hosts. The lemmas relate \<open>reduce2\<close>, a
  recursion with a depth limit, to a resolution relation without one, and show that
  the reduced configuration is the resolution of the original.
\<close>

section \<open>Definitions\<close>

record alias_config =
  c_aliases :: "(string, string list) gomap"
  c_underscoreAliases :: "(string, string list) gomap"
  c_aliasHosts :: "string list"

datatype alias_error = EmptyAlias | RecursionDetected string | GlobFailed | LoadFailed string

definition NewConfig :: alias_config where
  "NewConfig = \<lparr>c_aliases = [], c_underscoreAliases = [], c_aliasHosts = []\<rparr>"

definition qualify_domain :: "string \<Rightarrow> string" where
  "qualify_domain rawDomain =
     (let domain = ToLower rawDomain in
      if HasPrefix domain ''*.'' then Fqdn (Replace1 (Fqdn domain) CHR ''*'' ''q-s0'')
      else if ParseIP domain \<noteq> None then domain
      else Fqdn domain)"

definition setAlias :: "string \<Rightarrow> string list \<Rightarrow> alias_config \<Rightarrow> alias_error + alias_config" where
  "setAlias rawAlias domains c =
     (if rawAlias = '''' then Inl EmptyAlias
      else
        let alias = ToLower rawAlias; qualified = map qualify_domain domains in
        if HasPrefix alias ''_.'' then
          Inr (c\<lparr>c_underscoreAliases := insert_map (Fqdn (SplitN2 CHR ''.'' alias ! 1)) qualified
                   (c_underscoreAliases c)\<rparr>)
        else Inr (c\<lparr>c_aliases := insert_map (Fqdn alias) qualified (c_aliases c)\<rparr>))"

definition allAliasHosts :: "alias_config \<Rightarrow> string list" where
  "allAliasHosts c = remdups (keys (c_aliases c) @ keys (c_underscoreAliases c))"

definition getAliasHosts :: "alias_config \<Rightarrow> string list" where
  "getAliasHosts c =
     (let allHosts = allAliasHosts c in
      sort (map Fqdn (filter (\<lambda>host. \<not> (\<exists>other\<in>set allHosts. other \<noteq> host \<and> IsSubDomain other host))
                        allHosts)))"

fun set_aliases :: "(string, string list) gomap \<Rightarrow> alias_config \<Rightarrow> alias_error + alias_config" where
  "set_aliases [] c = Inr c"
| "set_aliases ((alias, domains) # load) c = res_bind (setAlias alias domains c) (set_aliases load)"

definition NewConfigFromMap :: "(string, string list) gomap \<Rightarrow> alias_error + alias_config" where
  "NewConfigFromMap load =
     res_bind (set_aliases load NewConfig) (\<lambda>c. Inr (c\<lparr>c_aliasHosts := getAliasHosts c\<rparr>))"

definition IsReduced :: "alias_config \<Rightarrow> bool" where
  "IsReduced c \<longleftrightarrow>
     list_all (\<lambda>(_, domains). list_all (\<lambda>(alias, _). list_all (\<lambda>domain. alias \<noteq> domain) domains)
                                (c_aliases c))
       (c_aliases c)"

definition rewrite_underscore :: "string \<Rightarrow> string \<Rightarrow> string" where
  "rewrite_underscore head domain =
     (if HasPrefix domain ''_.'' then head @ ''.'' @ (SplitN2 CHR ''.'' domain ! 1) else domain)"

definition Resolutions :: "alias_config \<Rightarrow> string \<Rightarrow> string list" where
  "Resolutions c maybeAlias =
     (case map_of (c_aliases c) maybeAlias of
        Some domains \<Rightarrow> domains
      | None \<Rightarrow>
          (case SplitN2 CHR ''.'' maybeAlias of
             [head, rest] \<Rightarrow>
               (case map_of (c_underscoreAliases c) rest of
                  Some domains \<Rightarrow> map (rewrite_underscore head) domains
                | None \<Rightarrow> [])
           | _ \<Rightarrow> []))"

definition AliasResolutions :: "alias_config \<Rightarrow> string \<Rightarrow> string list" where
  "AliasResolutions c domain =
     map fst (filter (\<lambda>(alias, domains). domain \<in> set domains) (c_aliases c))"

definition merge_map :: "(string, string list) gomap \<Rightarrow> (string, string list) gomap \<Rightarrow> (string, string list) gomap" where
  "merge_map m other =
     fold (\<lambda>(alias, targets) m. if map_of m alias \<noteq> None then m else insert_map alias targets m) other m"

definition Merge :: "alias_config \<Rightarrow> alias_config \<Rightarrow> alias_config" where
  "Merge c other =
     (let c = c\<lparr>c_aliases := merge_map (c_aliases c) (c_aliases other)\<rparr>;
          c = c\<lparr>c_underscoreAliases := merge_map (c_underscoreAliases c) (c_underscoreAliases other)\<rparr>
      in c\<lparr>c_aliasHosts := getAliasHosts c\<rparr>)"

lemma map_res_cong [fundef_cong]:
  "xs = ys \<Longrightarrow> (\<And>x. x \<in> set ys \<Longrightarrow> f x = g x) \<Longrightarrow> map_res f xs = map_res g ys"
  by (induction ys arbitrary: xs) auto

text \<open>The depth guard of \<open>reduce2\<close> makes the recursion end; it is not an addition of the model.\<close>

function reduce2 :: "(string, string list) gomap \<Rightarrow> string \<Rightarrow> nat \<Rightarrow> unit + string list" where
  "reduce2 m alias depth =
     (if depth > length m + 1 then Inl ()
      else (case map_of m alias of
              None \<Rightarrow> Inr [alias]
            | Some targets \<Rightarrow>
                res_bind (map_res (\<lambda>target. reduce2 m target (depth + 1)) targets)
                  (\<lambda>resolved. Inr (concat resolved))))"
  by pat_completeness auto
termination
  by (relation "measure (\<lambda>(m, alias, depth). length m + 2 - depth)") auto

declare reduce2.simps [simp del]

fun reduce_all ::
  "string list \<Rightarrow> (string, string list) gomap \<Rightarrow> alias_error + (string, string list) gomap" where
  "reduce_all [] m = Inr m"
| "reduce_all (alias # rest) m =
     (case reduce2 m alias 0 of
        Inl _ \<Rightarrow> Inl (RecursionDetected alias)
      | Inr resolved \<Rightarrow> reduce_all rest (insert_map alias resolved m))"

definition ReducedForm :: "alias_config \<Rightarrow> alias_error + alias_config" where
  "ReducedForm c =
     res_bind (reduce_all (sort (keys (c_aliases c))) (c_aliases c))
       (\<lambda>m. Inr (c\<lparr>c_aliases := m\<rparr>))"

text \<open>
  The files a glob names and the content of each are parameters: they come from the
  file system.
\<close>

fun merge_files ::
  "(string \<Rightarrow> alias_config option) \<Rightarrow> string list \<Rightarrow> alias_config \<Rightarrow> alias_error + alias_config" where
  "merge_files load [] c = Inr c"
| "merge_files load (f # fs) c =
     (case load f of None \<Rightarrow> Inl (LoadFailed f) | Some next \<Rightarrow> merge_files load fs (Merge c next))"

definition ConfigFromGlob ::
  "(string \<Rightarrow> string list option) \<Rightarrow> (string \<Rightarrow> alias_config option) \<Rightarrow> string \<Rightarrow> alias_error + alias_config" where
  "ConfigFromGlob glob load pattern =
     (case glob pattern of
        None \<Rightarrow> Inl GlobFailed
      | Some files \<Rightarrow> res_bind (merge_files load files NewConfig) ReducedForm)"

section \<open>Resolution without a depth limit\<close>

text \<open>\<open>resolves m a r\<close>: following the aliases from \<open>a\<close> to the end yields the list \<open>r\<close>.\<close>

inductive resolves :: "(string, string list) gomap \<Rightarrow> string \<Rightarrow> string list \<Rightarrow> bool" for m where
  leaf: "map_of m a = None \<Longrightarrow> resolves m a [a]"
| node: "map_of m a = Some ts \<Longrightarrow> list_all2 (resolves m) ts rs \<Longrightarrow> resolves m a (concat rs)"

inductive_cases resolves_SomeE: "resolves m a r"

definition edges :: "(string, string list) gomap \<Rightarrow> (string \<times> string) set" where
  "edges m = {(a, t). \<exists>ts. map_of m a = Some ts \<and> t \<in> set ts}"

lemma edges_iff: "(a, t) \<in> edges m \<longleftrightarrow> (\<exists>ts. map_of m a = Some ts \<and> t \<in> set ts)"
  by (simp add: edges_def)

lemma reduce2_resolves: "reduce2 m a d = Inr r \<Longrightarrow> resolves m a r"
proof (induction m a d arbitrary: r rule: reduce2.induct)
  case (1 m a d)
  show ?case
  proof (cases "map_of m a")
    case None
    with "1.prems" show ?thesis
      by (subst (asm) reduce2.simps) (auto split: if_splits intro: resolves.leaf)
  next
    case (Some ts)
    with "1.prems" obtain rs where d: "\<not> d > length m + 1"
      and rs: "list_all2 (\<lambda>t r. reduce2 m t (d + 1) = Inr r) ts rs" "r = concat rs"
      by (subst (asm) reduce2.simps) (auto split: if_splits simp: res_bind_Inr_iff map_res_Inr_iff)
    have "list_all2 (resolves m) ts rs"
      using rs(1) "1.IH" [OF d Some] by (auto simp: list_all2_conv_all_nth)
    with Some rs(2) show ?thesis by (auto intro: resolves.node)
  qed
qed

lemma resolves_det: "resolves m a r \<Longrightarrow> resolves m a r' \<Longrightarrow> r' = r"
proof (induction arbitrary: r' rule: resolves.induct)
  case (leaf a)
  then show ?case by (auto elim: resolves.cases)
next
  case (node a ts rs)
  from node.prems node.hyps obtain rs' where "list_all2 (resolves m) ts rs'" "r' = concat rs'"
    by (auto elim: resolves.cases)
  moreover from this(1) node.IH have "rs' = rs"
    by (auto simp: list_all2_conv_all_nth intro: nth_equalityI)
  ultimately show ?case by simp
qed

lemma resolves_list_det:
  assumes "list_all2 (resolves m) ts rs" "list_all2 (resolves m) ts rs'"
  shows "rs' = rs"
proof (rule nth_equalityI)
  show "length rs' = length rs" using assms by (metis list_all2_lengthD)
next
  fix i assume "i < length rs'"
  then have "i < length ts" using assms by (metis list_all2_lengthD)
  then show "rs' ! i = rs ! i" using assms by (metis list_all2_nthD resolves_det)
qed

lemma resolves_leaves: "resolves m a r \<Longrightarrow> x \<in> set r \<Longrightarrow> map_of m x = None"
proof (induction rule: resolves.induct)
  case (node a ts rs)
  then obtain r where "r \<in> set rs" "x \<in> set r" by auto
  moreover from this(1) obtain i where "i < length rs" "r = rs ! i" by (metis in_set_conv_nth)
  ultimately show ?case using node.IH by (auto simp: list_all2_conv_all_nth)
qed auto

lemma resolves_no_cycle: "resolves m a r \<Longrightarrow> (a, b) \<in> (edges m)\<^sup>* \<Longrightarrow> (b, b) \<notin> (edges m)\<^sup>+"
proof (induction arbitrary: b rule: resolves.induct)
  case (leaf a)
  then have "\<And>t. (a, t) \<notin> edges m" by (simp add: edges_iff)
  with leaf.prems show ?case by (metis converse_rtranclE tranclD)
next
  case (node a ts rs)
  have IH: "(b, b) \<notin> (edges m)\<^sup>+" if "(a, t) \<in> edges m" "(t, b) \<in> (edges m)\<^sup>*" for t b
    using that node by (auto simp: edges_iff list_all2_conv_all_nth in_set_conv_nth)
  with node.prems show ?case by (metis converse_rtranclE tranclD)
qed

text \<open>A run that hits the depth limit has followed a path longer than the map has keys.\<close>

fun epath :: "(string, string list) gomap \<Rightarrow> string \<Rightarrow> string list \<Rightarrow> bool" where
  "epath m a [] = True"
| "epath m a (b # bs) = ((a, b) \<in> edges m \<and> epath m b bs)"

lemma reduce2_error_path:
  "reduce2 m a d = Inl e \<Longrightarrow> d \<le> length m + 2 \<Longrightarrow> \<exists>p. epath m a p \<and> length p = length m + 2 - d"
proof (induction m a d rule: reduce2.induct)
  case (1 m a d)
  show ?case
  proof (cases "d > length m + 1")
    case True
    then show ?thesis by (intro exI [of _ "[]"]) simp
  next
    case False
    with "1.prems"(1) obtain ts where ts: "map_of m a = Some ts"
      "map_res (\<lambda>t. reduce2 m t (d + 1)) ts = Inl e"
      by (subst (asm) reduce2.simps) (auto split: option.splits simp: res_bind_Inl_iff)
    then obtain t where t: "t \<in> set ts" "reduce2 m t (d + 1) = Inl e" using map_res_Inl by metis
    with "1.IH" [OF False ts(1)] False obtain p where "epath m t p" "length p = length m + 2 - (d + 1)"
      by auto
    with ts t False show ?thesis by (intro exI [of _ "t # p"]) (auto simp: edges_iff)
  qed
qed

lemma epath_nth:
  assumes "epath m a p" "i < length p"
  shows "((a # p) ! i, p ! i) \<in> edges m"
  using assms
proof (induction p arbitrary: a i)
  case (Cons b bs)
  then show ?case by (cases i) auto
qed simp

lemma epath_trancl:
  assumes "epath m a p" "i < j" "j \<le> length p"
  shows "((a # p) ! i, (a # p) ! j) \<in> (edges m)\<^sup>+"
  using assms(2,3)
proof (induction j)
  case (Suc j)
  have step: "((a # p) ! j, (a # p) ! Suc j) \<in> edges m" using epath_nth [OF assms(1), of j] Suc.prems by simp
  show ?case
  proof (cases "i = j")
    case False
    with Suc step show ?thesis by (metis Suc_leD less_antisym trancl.trancl_into_trancl)
  qed (use step in auto)
qed simp

lemma long_path_cycle:
  assumes "epath m a p" "length p > length m"
  shows "\<exists>b. (a, b) \<in> (edges m)\<^sup>* \<and> (b, b) \<in> (edges m)\<^sup>+"
proof -
  let ?ns = "take (length p) (a # p)"
  have "set ?ns \<subseteq> set (keys m)"
  proof
    fix x assume "x \<in> set ?ns"
    then obtain i where i: "i < length p" "x = (a # p) ! i" by (auto simp: in_set_conv_nth)
    then obtain ts where "map_of m x = Some ts" using epath_nth [OF assms(1)] by (auto simp: edges_iff)
    then show "x \<in> set (keys m)" using map_of_None_keys [of m x] by simp
  qed
  then have "card (set ?ns) \<le> length m"
    by (metis card_mono card_length le_trans length_map List.finite_set)
  with assms(2) have "\<not> distinct ?ns" by (auto dest: distinct_card)
  then obtain i j where "i < j" "j < length ?ns" "?ns ! i = ?ns ! j"
    by (metis distinct_conv_nth nat_neq_iff)
  then have ij: "i < j" "j \<le> length p" "(a # p) ! i = (a # p) ! j" by auto
  let ?b = "(a # p) ! i"
  have "(?b, ?b) \<in> (edges m)\<^sup>+" using epath_trancl [OF assms(1) ij(1,2)] ij(3) by simp
  moreover have "(a, ?b) \<in> (edges m)\<^sup>*"
    using epath_trancl [OF assms(1), of 0 i] ij by (cases i) auto
  ultimately show ?thesis by blast
qed

lemma reduce2_iff_resolves: "reduce2 m a 0 = Inr r \<longleftrightarrow> resolves m a r"
proof
  assume "resolves m a r"
  show "reduce2 m a 0 = Inr r"
  proof (cases "reduce2 m a 0")
    case (Inl e)
    then obtain p where "epath m a p" "length p = length m + 2" using reduce2_error_path by force
    then show ?thesis
      using long_path_cycle [of m a p] resolves_no_cycle [OF \<open>resolves m a r\<close>] by auto
  next
    case (Inr r')
    with \<open>resolves m a r\<close> show ?thesis using reduce2_resolves resolves_det by blast
  qed
qed (rule reduce2_resolves)

lemma resolvable_iff:
  "(\<exists>r. resolves m a r) \<longleftrightarrow> \<not> (\<exists>b. (a, b) \<in> (edges m)\<^sup>* \<and> (b, b) \<in> (edges m)\<^sup>+)"
proof (cases "reduce2 m a 0")
  case (Inl e)
  then obtain p where "epath m a p" "length p = length m + 2" using reduce2_error_path by force
  with long_path_cycle [of m a p] resolves_no_cycle [of m a] show ?thesis by auto
next
  case (Inr r)
  then have "resolves m a r" by (rule reduce2_resolves)
  with resolves_no_cycle [OF this] show ?thesis by blast
qed

section \<open>The reduced form\<close>

lemma resolves_insert_resolved_1:
  assumes a: "resolves m a ra" "map_of m a \<noteq> None" and b: "resolves m b r"
  shows "resolves (insert_map a ra m) b r"
  using b
proof (induction rule: resolves.induct)
  case (leaf b)
  with a(2) show ?case by (intro resolves.leaf) auto
next
  case (node b ts rs)
  show ?case
  proof (cases "b = a")
    case True
    with node.hyps(1) node.IH a have "concat rs = ra"
      by (metis (mono_tags, lifting) list_all2_mono resolves.node resolves_det)
    moreover have "list_all2 (resolves (insert_map a ra m)) ra (map (\<lambda>x. [x]) ra)"
      using a(2) resolves_leaves [OF a(1)] by (auto simp: list_all2_conv_all_nth intro!: resolves.leaf)
    then have "resolves (insert_map a ra m) a (concat (map (\<lambda>x. [x]) ra))"
      by (intro resolves.node) auto
    ultimately show ?thesis using True by simp
  next
    case False
    with node show ?thesis by (intro resolves.node) (auto elim: list_all2_mono)
  qed
qed

lemma resolves_insert_resolved:
  assumes a: "resolves m a ra" "map_of m a \<noteq> None"
  shows "resolves (insert_map a ra m) b r \<longleftrightarrow> resolves m b r"
proof
  assume "resolves (insert_map a ra m) b r"
  then show "resolves m b r"
  proof (induction rule: resolves.induct)
    case (leaf b)
    then show ?case by (intro resolves.leaf) (auto split: if_splits)
  next
    case (node b ts rs)
    show ?case
    proof (cases "b = a")
      case True
      with node have "list_all2 (resolves m) ra rs" by (auto elim: list_all2_mono)
      moreover have "list_all2 (resolves m) ra (map (\<lambda>x. [x]) ra)"
        using resolves_leaves [OF a(1)] by (auto simp: list_all2_conv_all_nth intro!: resolves.leaf)
      ultimately have "rs = map (\<lambda>x. [x]) ra" by (rule resolves_list_det [rotated])
      with True a(1) show ?thesis by simp
    next
      case False
      with node show ?thesis by (intro resolves.node) (auto elim: list_all2_mono)
    qed
  qed
qed (rule resolves_insert_resolved_1 [OF a])

lemma reduce_all_spec:
  assumes "reduce_all as m = Inr m'" "set as \<subseteq> dom (map_of m)"
  shows "(\<forall>b r. resolves m' b r \<longleftrightarrow> resolves m b r) \<and>
    (\<forall>a\<in>set as. \<exists>r. resolves m a r \<and> map_of m' a = Some r) \<and>
    (\<forall>a. a \<notin> set as \<longrightarrow> map_of m' a = map_of m a)"
  using assms
proof (induction as arbitrary: m)
  case (Cons a as)
  then obtain r where r: "reduce2 m a 0 = Inr r" "reduce_all as (insert_map a r m) = Inr m'"
    by (auto split: sum.splits)
  have a: "resolves m a r" "map_of m a \<noteq> None" using r(1) Cons.prems(2) by (auto simp: reduce2_iff_resolves)
  have "set as \<subseteq> dom (map_of (insert_map a r m))" using Cons.prems(2) by auto
  from Cons.IH [OF r(2) this] a show ?case
    by (auto simp: resolves_insert_resolved [OF a])
qed simp

lemma wf_reduce_all: "reduce_all as m = Inr m' \<Longrightarrow> wf_map m \<Longrightarrow> wf_map m'"
  by (induction as arbitrary: m) (auto split: sum.splits)

lemma reduce_all_error: "reduce_all as m = Inl e \<Longrightarrow> \<exists>a\<in>set as. e = RecursionDetected a"
  by (induction as arbitrary: m) (auto split: sum.splits)

lemma reduce_all_Inr_iff:
  "set as \<subseteq> dom (map_of m) \<Longrightarrow> (\<exists>m'. reduce_all as m = Inr m') \<longleftrightarrow> (\<forall>a\<in>set as. \<exists>r. resolves m a r)"
proof (induction as arbitrary: m)
  case (Cons a as)
  show ?case
  proof (cases "reduce2 m a 0")
    case (Inl e)
    then have "\<not> (\<exists>r. resolves m a r)" by (metis Inl_Inr_False reduce2_iff_resolves)
    with Inl show ?thesis by simp
  next
    case (Inr r)
    then have a: "resolves m a r" "map_of m a \<noteq> None"
      using Cons.prems by (auto simp: reduce2_iff_resolves)
    have "set as \<subseteq> dom (map_of (insert_map a r m))" using Cons.prems by auto
    from Cons.IH [OF this] Inr a show ?thesis by (auto simp: resolves_insert_resolved [OF a])
  qed
qed simp

lemma all_resolvable_iff_acyclic:
  "(\<forall>a\<in>set (keys m). \<exists>r. resolves m a r) \<longleftrightarrow> acyclic (edges m)"
proof
  assume all: "\<forall>a\<in>set (keys m). \<exists>r. resolves m a r"
  show "acyclic (edges m)"
  proof (rule acyclicI, intro allI notI)
    fix x assume x: "(x, x) \<in> (edges m)\<^sup>+"
    then obtain y where "(x, y) \<in> edges m" by (meson tranclD)
    then have "x \<in> set (keys m)" using map_of_None_keys [of m x] by (auto simp: edges_iff)
    with all obtain r where "resolves m x r" by blast
    with resolves_no_cycle [OF this, of x] x show False by simp
  qed
qed (simp add: acyclic_def resolvable_iff)

lemma IsReduced_iff:
  "IsReduced c \<longleftrightarrow> (\<forall>p\<in>set (c_aliases c). \<forall>t\<in>set (snd p). t \<notin> set (keys (c_aliases c)))"
  by (simp add: IsReduced_def list_all_iff split_def image_iff) blast

lemma ReducedForm_Inr:
  assumes wf: "wf_map (c_aliases c)" and red: "ReducedForm c = Inr c'"
  shows "IsReduced c' \<and> dom (map_of (c_aliases c')) = dom (map_of (c_aliases c)) \<and>
    (\<forall>a r. map_of (c_aliases c') a = Some r \<longrightarrow> resolves (c_aliases c) a r)"
proof -
  let ?m = "c_aliases c"
  have sub: "set (sort (keys ?m)) \<subseteq> dom (map_of ?m)" by (simp add: dom_map_of_conv_image_fst)
  obtain m' where m': "reduce_all (sort (keys ?m)) ?m = Inr m'" "c' = c\<lparr>c_aliases := m'\<rparr>"
    using red by (auto simp: ReducedForm_def res_bind_Inr_iff)
  note spec = reduce_all_spec [OF m'(1) sub]
  have iff: "map_of m' a = Some r \<longleftrightarrow> map_of ?m a \<noteq> None \<and> resolves ?m a r" for a r
  proof (cases "a \<in> set (keys ?m)")
    case True
    then obtain r' where r': "resolves ?m a r'" "map_of m' a = Some r'" using spec by auto
    have "map_of ?m a \<noteq> None" using True by (simp only: map_of_None_keys not_not simp_thms)
    with r' resolves_det show ?thesis by (metis option.inject)
  next
    case False
    then have "map_of ?m a = None" by (simp only: map_of_None_keys not_False_eq_True)
    moreover have "map_of m' a = map_of ?m a" using spec False by (metis set_sort)
    ultimately show ?thesis by simp
  qed
  have dom: "dom (map_of m') = dom (map_of ?m)"
    using spec sub iff by (metis (no_types, lifting) domIff set_sort dom_map_of_conv_image_fst image_set not_None_eq subsetI subset_antisym)
  have "t \<notin> set (keys m')" if "(a, ts) \<in> set m'" "t \<in> set ts" for a ts t
  proof -
    have "resolves ?m a ts"
      using that(1) iff wf_reduce_all [OF m'(1) wf] by (metis map_of_Some_entry)
    then have "map_of ?m t = None" using that(2) by (rule resolves_leaves)
    with dom show ?thesis by (metis domIff map_of_None_keys)
  qed
  then have "\<forall>p\<in>set m'. \<forall>t\<in>set (snd p). t \<notin> set (keys m')" by (metis prod.collapse)
  moreover have "c_aliases c' = m'" using m'(2) by simp
  ultimately have "IsReduced c'" by (simp only: IsReduced_iff)
  with dom m'(2) iff show ?thesis by simp
qed

text \<open>
  C23: Reducing succeeds exactly when the aliases have no cycle, and then every alias
  is mapped to its resolution in the original configuration and no target is an alias;
  otherwise the error names an alias. The depth limit of the recursion therefore
  rejects only genuine cycles.
\<close>

theorem ReducedForm_correct:
  assumes "wf_map (c_aliases c)"
  shows "if acyclic (edges (c_aliases c)) then
      \<exists>c'. ReducedForm c = Inr c' \<and> IsReduced c' \<and>
        dom (map_of (c_aliases c')) = dom (map_of (c_aliases c)) \<and>
        (\<forall>a r. map_of (c_aliases c') a = Some r \<longrightarrow> resolves (c_aliases c) a r)
    else \<exists>a\<in>set (keys (c_aliases c)). ReducedForm c = Inl (RecursionDetected a)"
proof -
  let ?m = "c_aliases c"
  have sub: "set (sort (keys ?m)) \<subseteq> dom (map_of ?m)" by (simp add: dom_map_of_conv_image_fst)
  have ok: "(\<exists>c'. ReducedForm c = Inr c') \<longleftrightarrow> acyclic (edges ?m)"
    using reduce_all_Inr_iff [OF sub] all_resolvable_iff_acyclic [of ?m]
    by (auto simp: ReducedForm_def res_bind_Inr_iff)
  show ?thesis
  proof (cases "ReducedForm c")
    case (Inl e)
    then have "\<exists>a\<in>set (keys ?m). e = RecursionDetected a"
      using reduce_all_error by (fastforce simp: ReducedForm_def res_bind_Inl_iff)
    with Inl ok show ?thesis by auto
  next
    case (Inr c')
    with ok ReducedForm_Inr [OF assms Inr] show ?thesis by auto
  qed
qed

theorem ReducedForm_correct_witness:
  "\<exists>a\<in>{''a.'', ''b.''}. ReducedForm
     \<lparr>c_aliases = [(''a.'', [''b.'']), (''b.'', [''a.''])], c_underscoreAliases = [], c_aliasHosts = []\<rparr>
     = Inl (RecursionDetected a)"
proof -
  let ?c = "\<lparr>c_aliases = [(''a.'', [''b.'']), (''b.'', [''a.''])], c_underscoreAliases = [], c_aliasHosts = []\<rparr>"
  have "(''a.'', ''b.'') \<in> edges (c_aliases ?c)" "(''b.'', ''a.'') \<in> edges (c_aliases ?c)"
    by (simp_all add: edges_iff)
  then have "\<not> acyclic (edges (c_aliases ?c))" by (meson acyclic_def trancl.intros)
  then show ?thesis using ReducedForm_correct [of ?c] by simp
qed

section \<open>Merging and lookup\<close>

lemma map_of_merge_map:
  "map_of (merge_map m other) k = (case map_of m k of Some v \<Rightarrow> Some v | None \<Rightarrow> map_of other k)"
proof (induction other arbitrary: m)
  case (Cons p other)
  obtain a ts where p: "p = (a, ts)" by fastforce
  have "merge_map m (p # other) = merge_map (if map_of m a \<noteq> None then m else insert_map a ts m) other"
    by (simp add: merge_map_def p)
  then show ?case using Cons.IH p by (auto split: option.splits)
qed (simp add: merge_map_def split: option.splits)

lemma wf_merge_map: "wf_map m \<Longrightarrow> wf_map (merge_map m other)"
  unfolding merge_map_def by (induction other arbitrary: m) auto

text \<open>
  Merging keeps every entry of the first configuration and adds the entries of the
  second under the aliases the first does not have, for plain and for underscore aliases.
\<close>

theorem Merge_lookup:
  "map_of (c_aliases (Merge c other)) a =
     (case map_of (c_aliases c) a of Some ts \<Rightarrow> Some ts | None \<Rightarrow> map_of (c_aliases other) a) \<and>
   map_of (c_underscoreAliases (Merge c other)) a =
     (case map_of (c_underscoreAliases c) a of
        Some ts \<Rightarrow> Some ts | None \<Rightarrow> map_of (c_underscoreAliases other) a)"
  by (simp add: Merge_def Let_def map_of_merge_map)

section \<open>Well-formed configurations\<close>

definition lower_keys :: "(string, 'v) gomap \<Rightarrow> bool" where
  "lower_keys m \<longleftrightarrow> (\<forall>h\<in>set (keys m). is_lower h)"

lemma lower_keys_insert: "lower_keys m \<Longrightarrow> is_lower k \<Longrightarrow> lower_keys (insert_map k v m)"
  unfolding lower_keys_def set_keys_insert_map by blast

lemma lower_keys_merge: "lower_keys m \<Longrightarrow> lower_keys other \<Longrightarrow> lower_keys (merge_map m other)"
proof (induction other arbitrary: m)
  case (Cons p other)
  obtain a ts where p: "p = (a, ts)" by fastforce
  have "merge_map m (p # other) = merge_map (if map_of m a \<noteq> None then m else insert_map a ts m) other"
    by (simp add: merge_map_def p)
  moreover have "is_lower a" "lower_keys other" using Cons.prems(2) p by (auto simp: lower_keys_def)
  ultimately show ?case using Cons.IH Cons.prems(1) by (simp add: lower_keys_insert)
qed (simp add: merge_map_def)

definition wf_config :: "alias_config \<Rightarrow> bool" where
  "wf_config c \<longleftrightarrow> wf_map (c_aliases c) \<and> wf_map (c_underscoreAliases c) \<and>
     lower_keys (c_aliases c) \<and> lower_keys (c_underscoreAliases c)"

lemma is_lower_Fqdn: "is_lower s \<Longrightarrow> is_lower (Fqdn s)"
  by (simp add: is_lower_def Fqdn_def ToLower_def lower_char_def less_eq_char_def)

lemma is_lower_tail: "is_lower s \<Longrightarrow> SplitN2 c s = [a, b] \<Longrightarrow> is_lower b"
  by (cases c s rule: SplitN2_cases) (auto simp: is_lower_def ToLower_def)

lemma wf_NewConfig: "wf_config NewConfig"
  by (simp add: wf_config_def lower_keys_def NewConfig_def)

lemma wf_setAlias: "wf_config c \<Longrightarrow> setAlias a ds c = Inr c' \<Longrightarrow> wf_config c'"
proof -
  assume wf: "wf_config c" and set: "setAlias a ds c = Inr c'"
  have "is_lower (SplitN2 CHR ''.'' (ToLower a) ! 1)"
    if "HasPrefix (ToLower a) ''_.''"
  proof (cases "CHR ''.''" "ToLower a" rule: SplitN2_cases)
    case one
    with that show ?thesis by (auto simp: HasPrefix_iff prefix_def)
  next
    case (two x y)
    then show ?thesis using is_lower_tail [OF is_lower_ToLower two(1)] by simp
  qed
  with wf set show ?thesis
    by (auto simp: wf_config_def setAlias_def Let_def is_lower_Fqdn lower_keys_insert split: if_splits)
qed

lemma wf_set_aliases: "wf_config c \<Longrightarrow> set_aliases load c = Inr c' \<Longrightarrow> wf_config c'"
  by (induction load c rule: set_aliases.induct) (auto simp: res_bind_Inr_iff dest: wf_setAlias)

lemma wf_config_hosts [simp]: "wf_config (c\<lparr>c_aliasHosts := hs\<rparr>) = wf_config c"
  by (simp add: wf_config_def)

lemma wf_NewConfigFromMap: "NewConfigFromMap load = Inr c \<Longrightarrow> wf_config c"
  by (auto simp: NewConfigFromMap_def res_bind_Inr_iff dest: wf_set_aliases [OF wf_NewConfig])

lemma wf_Merge: "wf_config c \<Longrightarrow> wf_config other \<Longrightarrow> wf_config (Merge c other)"
  by (simp add: wf_config_def Merge_def Let_def wf_merge_map lower_keys_merge)

section \<open>Alias hosts\<close>

text \<open>
  The alias hosts of a configuration cover it: every plain or underscore alias is
  a subdomain of one of them, and none of them is a subdomain of another. They are
  what the server registers its internal handler for.
\<close>

theorem aliasHosts_cover:
  assumes "wf_config c" and "\<forall>h\<in>set (allAliasHosts c). IsFqdn h"
  shows "(\<forall>h\<in>set (allAliasHosts c). \<exists>p\<in>set (getAliasHosts c). IsSubDomain p h) \<and>
    (\<forall>p\<in>set (getAliasHosts c). \<forall>q\<in>set (getAliasHosts c). IsSubDomain p q \<longrightarrow> p = q)"
proof -
  let ?H = "set (allAliasHosts c)"
  have low: "is_lower h" if "h \<in> ?H" for h
    using that assms(1) by (auto simp: wf_config_def lower_keys_def allAliasHosts_def)
  have hosts: "set (getAliasHosts c) = {p \<in> ?H. \<not> (\<exists>other\<in>?H. other \<noteq> p \<and> IsSubDomain other p)}"
    using assms(2) by (force simp: getAliasHosts_def Let_def Fqdn_def)
  have "\<exists>p\<in>set (getAliasHosts c). IsSubDomain p h" if h: "h \<in> ?H" for h
  proof -
    obtain p where p: "p \<in> ?H" "IsSubDomain p h"
      and min: "\<And>q. q \<in> ?H \<Longrightarrow> IsSubDomain q h \<Longrightarrow> CountLabel p \<le> CountLabel q"
      using ex_has_least_nat [of "\<lambda>p. p \<in> ?H \<and> IsSubDomain p h" h CountLabel] h by auto
    have "q = p" if q: "q \<in> ?H" "IsSubDomain q p" for q
      using IsSubDomain_same_count [OF low [OF q(1)] low [OF p(1)] q(2)] min [OF q(1)]
        IsSubDomain_trans [OF q(2) p(2)] by blast
    with p show ?thesis unfolding hosts by blast
  qed
  then show ?thesis unfolding hosts by blast
qed

theorem aliasHosts_cover_witness:
  "\<exists>p\<in>set (getAliasHosts \<lparr>c_aliases = [(''a.b.'', []), (''b.'', [])],
       c_underscoreAliases = [], c_aliasHosts = []\<rparr>). IsSubDomain p ''a.b.''"
proof -
  let ?c = "\<lparr>c_aliases = [(''a.b.'', []), (''b.'', [])], c_underscoreAliases = [], c_aliasHosts = []\<rparr>"
  have "wf_config ?c" by (simp add: wf_config_def lower_keys_def is_lower_def ToLower_def lower_char_def less_eq_char_def)
  moreover have "set (allAliasHosts ?c) = {''a.b.'', ''b.''}" by (auto simp: allAliasHosts_def)
  moreover have "IsFqdn ''a.b.''" "IsFqdn ''b.''" by (simp_all add: IsFqdn_def)
  ultimately show ?thesis using aliasHosts_cover [of ?c] by simp
qed

end
