(* ===== verification/Transcript.thy ===== *)
theory Transcript
  imports Prelude "HOL-Library.Word" "HOL-Library.Monad_Syntax"
begin

text \<open>
  The priority-limited transcript (\<^verbatim>\<open>src/bosh-dns/dns/server/tracker/transcript.go\<close>): a
  doubly linked list of names with sentinels at both ends, and a map from names to
  links. Links live in a store with one function per field; a pointer is an address or
  nil, and following nil is a panic, the value \<open>None\<close>. The counters are 64-bit words.
  The lemmas show that \<open>Touch\<close> never panics for a positive capacity and implements a
  least-recently-used list.
\<close>

section \<open>Links\<close>

type_synonym addr = nat

record link_store =
  lk_name :: "addr \<Rightarrow> string"
  lk_prev :: "addr \<Rightarrow> addr option"
  lk_next :: "addr \<Rightarrow> addr option"

text \<open>\<^verbatim>\<open>l.prev.next = l.next; l.next.prev = l.prev\<close>\<close>

definition link_remove :: "addr \<Rightarrow> link_store \<Rightarrow> link_store option" where
  "link_remove l h = do {
     p \<leftarrow> lk_prev h l;
     let h = h\<lparr>lk_next := (lk_next h)(p := lk_next h l)\<rparr>;
     q \<leftarrow> lk_next h l;
     Some (h\<lparr>lk_prev := (lk_prev h)(q := lk_prev h l)\<rparr>)
   }"

text \<open>\<^verbatim>\<open>after.next = l.next; l.next.prev = after; l.next = after; after.prev = l\<close>\<close>

definition link_append :: "addr \<Rightarrow> addr \<Rightarrow> link_store \<Rightarrow> link_store option" where
  "link_append l after h = do {
     let h = h\<lparr>lk_next := (lk_next h)(after := lk_next h l)\<rparr>;
     q \<leftarrow> lk_next h l;
     let h = h\<lparr>lk_prev := (lk_prev h)(q := Some after)\<rparr>;
     let h = h\<lparr>lk_next := (lk_next h)(l := Some after)\<rparr>;
     Some (h\<lparr>lk_prev := (lk_prev h)(after := Some l)\<rparr>)
   }"

section \<open>The transcript\<close>

record transcript =
  t_store :: link_store
  t_fresh :: addr
  t_names :: "(string, addr) gomap"
  t_tail :: addr
  t_head :: addr
  t_length :: "64 word"
  t_cap :: "64 word"

definition NewPriorityLimitedTranscript :: "64 word \<Rightarrow> transcript" where
  "NewPriorityLimitedTranscript cap =
     \<lparr>t_store = \<lparr>lk_name = (\<lambda>_. ''''), lk_prev = (\<lambda>_. None)(0 := Some 1), lk_next = (\<lambda>_. None)(1 := Some 0)\<rparr>,
      t_fresh = 2, t_names = [], t_tail = 1, t_head = 0, t_length = 0, t_cap = cap\<rparr>"

definition oldest :: "transcript \<Rightarrow> addr option" where
  "oldest t = lk_next (t_store t) (t_tail t)"

definition newest :: "transcript \<Rightarrow> addr option" where
  "newest t = lk_prev (t_store t) (t_head t)"

text \<open>The link of the name: the old one, taken out of the list, or a new one.\<close>

definition touch_link :: "transcript \<Rightarrow> string \<Rightarrow> (addr \<times> transcript) option" where
  "touch_link t s =
     (case map_of (t_names t) s of
        Some that \<Rightarrow> do {
          h \<leftarrow> link_remove that (t_store t);
          Some (that, t\<lparr>t_store := h, t_length := t_length t - 1\<rparr>)
        }
      | None \<Rightarrow>
          (let that = t_fresh t; h = t_store t in
           Some (that, t\<lparr>t_store := h\<lparr>lk_name := (lk_name h)(that := s), lk_prev := (lk_prev h)(that := None),
                                     lk_next := (lk_next h)(that := None)\<rparr>,
                         t_fresh := that + 1, t_names := insert_map s that (t_names t)\<rparr>)))"

definition evict :: "transcript \<Rightarrow> (string \<times> transcript) option" where
  "evict t =
     (if t_length t \<ge> t_cap t then do {
        l \<leftarrow> oldest t;
        h \<leftarrow> link_remove l (t_store t);
        Some (lk_name h l, t\<lparr>t_store := h, t_names := delete_map (lk_name h l) (t_names t),
                             t_length := t_length t - 1\<rparr>)
      } else Some ('''', t))"

definition Touch :: "transcript \<Rightarrow> string \<Rightarrow> (string \<times> transcript) option" where
  "Touch t s = do {
     (that, t) \<leftarrow> touch_link t s;
     (removed, t) \<leftarrow> evict t;
     l \<leftarrow> newest t;
     h \<leftarrow> link_append l that (t_store t);
     Some (removed, t\<lparr>t_store := h, t_length := t_length t + 1\<rparr>)
   }"

definition Registry :: "transcript \<Rightarrow> string list" where
  "Registry t = keys (t_names t)"

section \<open>Doubly linked segments\<close>

fun dseg :: "link_store \<Rightarrow> addr list \<Rightarrow> bool" where
  "dseg h [] = True"
| "dseg h [a] = True"
| "dseg h (a # b # r) = (lk_next h a = Some b \<and> lk_prev h b = Some a \<and> dseg h (b # r))"

lemma dseg_append: "dseg h (xs @ a # ys) \<longleftrightarrow> dseg h (xs @ [a]) \<and> dseg h (a # ys)"
proof (induction xs)
  case (Cons x xs)
  then show ?case by (cases xs) auto
qed simp

text \<open>Only the next fields of all but the last and the prev fields of all but the first matter.\<close>

lemma dseg_frame:
  "(\<And>a. a \<in> set (butlast xs) \<Longrightarrow> lk_next h' a = lk_next h a) \<Longrightarrow>
   (\<And>a. a \<in> set (tl xs) \<Longrightarrow> lk_prev h' a = lk_prev h a) \<Longrightarrow> dseg h' xs = dseg h xs"
proof (induction xs)
  case (Cons x xs)
  then show ?case by (cases xs) auto
qed simp

abbreviation unlink :: "addr \<Rightarrow> addr \<Rightarrow> link_store \<Rightarrow> link_store" where
  "unlink p q h \<equiv> h\<lparr>lk_next := (lk_next h)(p := Some q), lk_prev := (lk_prev h)(q := Some p)\<rparr>"

lemma link_remove_dseg:
  assumes "dseg h (xs @ l # ys)" "distinct (xs @ l # ys)" "xs \<noteq> []" "ys \<noteq> []"
  shows "link_remove l h = Some (unlink (last xs) (hd ys) h) \<and> dseg (unlink (last xs) (hd ys) h) (xs @ ys)"
proof -
  obtain xs' p where xs: "xs = xs' @ [p]" using assms(3) by (cases xs rule: rev_cases) auto
  obtain q ys' where ys: "ys = q # ys'" using assms(4) by (cases ys) auto
  have d: "dseg h (xs' @ [p])" "dseg h (q # ys')"
    and links: "lk_next h p = Some l" "lk_prev h l = Some p" "lk_next h l = Some q"
    using assms(1) dseg_append [of h xs' p "l # ys"] xs ys by auto
  let ?h = "unlink p q h"
  have "link_remove l h = Some ?h"
    using links assms(2) xs by (simp add: link_remove_def)
  moreover have "dseg ?h (xs' @ [p]) = dseg h (xs' @ [p])" "dseg ?h (q # ys') = dseg h (q # ys')"
    by (rule dseg_frame; use assms(2) xs ys in \<open>auto dest: in_set_tlD in_set_butlastD split: if_splits\<close>)+
  with d have "dseg ?h (xs' @ p # q # ys')" using dseg_append [of ?h xs' p "q # ys'"] by simp
  ultimately show ?thesis using xs ys by simp
qed

abbreviation splice :: "addr \<Rightarrow> addr \<Rightarrow> addr \<Rightarrow> link_store \<Rightarrow> link_store" where
  "splice l after q h \<equiv> h\<lparr>lk_next := (lk_next h)(after := Some q, l := Some after),
                           lk_prev := (lk_prev h)(q := Some after, after := Some l)\<rparr>"

lemma link_append_dseg:
  assumes "dseg h (xs @ ys)" "distinct (xs @ ys)" "after \<notin> set (xs @ ys)" "xs \<noteq> []" "ys \<noteq> []"
  shows "link_append (last xs) after h = Some (splice (last xs) after (hd ys) h) \<and>
    dseg (splice (last xs) after (hd ys) h) (xs @ after # ys)"
proof -
  obtain xs' l where xs: "xs = xs' @ [l]" using assms(4) by (cases xs rule: rev_cases) auto
  obtain q ys' where ys: "ys = q # ys'" using assms(5) by (cases ys) auto
  have d: "dseg h (xs' @ [l])" "dseg h (q # ys')" and links: "lk_next h l = Some q"
    using assms(1) dseg_append [of h xs' l ys] xs ys by auto
  let ?h = "splice l after q h"
  have "link_append l after h = Some ?h"
    using links assms(3) xs by (simp add: link_append_def)
  moreover have "dseg ?h (xs' @ [l]) = dseg h (xs' @ [l])" "dseg ?h (q # ys') = dseg h (q # ys')"
    by (rule dseg_frame; use assms(2,3) xs ys in \<open>auto dest: in_set_tlD in_set_butlastD split: if_splits\<close>)+
  with d have "dseg ?h (xs' @ l # after # q # ys')"
    using dseg_append [of ?h xs' l "after # q # ys'"] assms(3) xs ys by auto
  ultimately show ?thesis using xs ys by simp
qed

section \<open>Representation of a list of names\<close>

definition names_of :: "transcript \<Rightarrow> addr list \<Rightarrow> bool" where
  "names_of t as \<longleftrightarrow> wf_map (t_names t) \<and> distinct (map (lk_name (t_store t)) as) \<and>
     (\<forall>n a. map_of (t_names t) n = Some a \<longleftrightarrow> a \<in> set as \<and> lk_name (t_store t) a = n)"

definition listed :: "transcript \<Rightarrow> addr list \<Rightarrow> bool" where
  "listed t as \<longleftrightarrow> distinct (t_tail t # as @ [t_head t]) \<and>
     dseg (t_store t) (t_tail t # as @ [t_head t]) \<and>
     (\<forall>a\<in>set (t_tail t # as @ [t_head t]). a < t_fresh t) \<and>
     unat (t_length t) = length as \<and> length as \<le> unat (t_cap t)"

definition represents :: "transcript \<Rightarrow> string list \<Rightarrow> bool" where
  "represents t xs \<longleftrightarrow> (\<exists>as. listed t as \<and> names_of t as \<and> xs = map (lk_name (t_store t)) as)"

text \<open>The abstract operation: names from least to most recently used.\<close>

definition lru_touch :: "nat \<Rightarrow> string list \<Rightarrow> string \<Rightarrow> string \<times> string list" where
  "lru_touch cap xs s =
     (let ys = removeAll s xs
      in if length ys \<ge> cap then (hd ys, tl ys @ [s]) else ('''', ys @ [s]))"

lemma represents_New: "represents (NewPriorityLimitedTranscript cap) []"
  unfolding represents_def listed_def names_of_def
  by (intro exI [of _ "[]"]) (simp add: NewPriorityLimitedTranscript_def)

lemma touch_link_new:
  assumes "listed t as" "names_of t as" "map_of (t_names t) s = None"
  shows "\<exists>that t'. touch_link t s = Some (that, t') \<and> listed t' as \<and> names_of t' (as @ [that]) \<and>
    that \<notin> set (t_tail t' # as @ [t_head t']) \<and> that < t_fresh t' \<and> lk_name (t_store t') that = s \<and>
    map (lk_name (t_store t')) as = map (lk_name (t_store t)) as \<and> t_cap t' = t_cap t"
proof -
  let ?a = "t_fresh t"
  define h where "h = (t_store t)\<lparr>lk_name := (lk_name (t_store t))(?a := s),
    lk_prev := (lk_prev (t_store t))(?a := None), lk_next := (lk_next (t_store t))(?a := None)\<rparr>"
  define t' where "t' = t\<lparr>t_store := h, t_fresh := ?a + 1, t_names := insert_map s ?a (t_names t)\<rparr>"
  have new: "?a \<notin> set (t_tail t # as @ [t_head t])" using assms(1) by (auto simp: listed_def)
  have same: "map (lk_name h) as = map (lk_name (t_store t)) as" using new by (auto simp: h_def)
  have "dseg h (t_tail t # as @ [t_head t]) = dseg (t_store t) (t_tail t # as @ [t_head t])"
    by (rule dseg_frame) (use new in \<open>auto simp: h_def dest: in_set_butlastD\<close>)
  then have "listed t' as" using assms(1) by (auto simp: listed_def t'_def less_Suc_eq)
  moreover have "s \<notin> set (map (lk_name (t_store t)) as)"
    using assms(2,3) by (auto simp: names_of_def)
  then have "names_of t' (as @ [?a])"
    using assms(2,3) new same by (auto simp: names_of_def t'_def h_def)
  moreover have "touch_link t s = Some (?a, t')"
    using assms(3) by (simp add: touch_link_def t'_def h_def Let_def)
  ultimately show ?thesis using new same by (intro exI [of _ ?a] exI [of _ t']) (auto simp: t'_def h_def)
qed

lemma touch_link_old:
  assumes l: "listed t as" and n: "names_of t as" and a: "map_of (t_names t) s = Some that"
  shows "\<exists>t'. touch_link t s = Some (that, t') \<and> listed t' (removeAll that as) \<and>
    names_of t' (removeAll that as @ [that]) \<and> that \<notin> set (t_tail t' # removeAll that as @ [t_head t']) \<and>
    that < t_fresh t' \<and> lk_name (t_store t') = lk_name (t_store t) \<and>
    lk_name (t_store t) that = s \<and> t_cap t' = t_cap t"
proof -
  have that: "that \<in> set as" "lk_name (t_store t) that = s" using n a by (auto simp: names_of_def)
  then obtain as1 as2 where as: "as = as1 @ that # as2" by (meson split_list)
  let ?xs = "t_tail t # as1" and ?ys = "as2 @ [t_head t]"
  have d: "distinct (?xs @ that # ?ys)" "dseg (t_store t) (?xs @ that # ?ys)"
    using l as by (auto simp: listed_def)
  have rm: "removeAll that as = as1 @ as2" using d(1) as by auto
  define h where "h = unlink (last ?xs) (hd ?ys) (t_store t)"
  define t' where "t' = t\<lparr>t_store := h, t_length := t_length t - 1\<rparr>"
  have h: "link_remove that (t_store t) = Some h" "dseg h (?xs @ ?ys)"
    using link_remove_dseg [OF d(2,1)] unfolding h_def by auto
  have "t_length t \<noteq> 0" using l as by (auto simp: listed_def)
  then have len: "unat (t_length t - 1) = unat (t_length t) - 1" by (metis unat_minus_one)
  have "listed t' (as1 @ as2)"
    using l as h(2) len by (auto simp: listed_def t'_def)
  moreover have "names_of t' ((as1 @ as2) @ [that])"
    using n as by (auto simp: names_of_def t'_def h_def)
  moreover have "touch_link t s = Some (that, t')" using a h(1) by (simp add: touch_link_def t'_def)
  moreover have "that < t_fresh t" using l as by (auto simp: listed_def)
  ultimately show ?thesis using d(1) rm that(2) by (intro exI [of _ t']) (auto simp: t'_def h_def)
qed

lemma evict_full:
  assumes l: "listed t (a # as)" and n: "names_of t (a # as @ [that])" and full: "t_length t \<ge> t_cap t"
  shows "\<exists>t'. evict t = Some (lk_name (t_store t) a, t') \<and> listed t' as \<and> names_of t' (as @ [that]) \<and>
    lk_name (t_store t') = lk_name (t_store t) \<and> t_cap t' = t_cap t \<and> t_tail t' = t_tail t \<and>
    t_head t' = t_head t \<and> t_fresh t' = t_fresh t \<and> t_length t' < t_cap t'"
proof -
  let ?xs = "[t_tail t]" and ?ys = "as @ [t_head t]"
  have d: "distinct (?xs @ a # ?ys)" "dseg (t_store t) (?xs @ a # ?ys)"
    using l by (auto simp: listed_def)
  define h where "h = unlink (last ?xs) (hd ?ys) (t_store t)"
  define t' where "t' = t\<lparr>t_store := h, t_names := delete_map (lk_name h a) (t_names t),
    t_length := t_length t - 1\<rparr>"
  have h: "link_remove a (t_store t) = Some h" "dseg h (?xs @ ?ys)"
    using link_remove_dseg [OF d(2,1)] unfolding h_def by auto
  have "t_length t \<noteq> 0" using l by (auto simp: listed_def)
  then have len: "unat (t_length t - 1) = unat (t_length t) - 1" by (metis unat_minus_one)
  have "listed t' as" using l h(2) len by (auto simp: listed_def t'_def)
  moreover have "names_of t' (as @ [that])"
    using n d(1) by (auto simp: names_of_def t'_def h_def image_iff)
  moreover have "evict t = Some (lk_name (t_store t) a, t')"
    using full l h(1) by (simp add: evict_def oldest_def listed_def t'_def h_def)
  moreover have "t_length t - 1 < t_cap t"
    using l len by (auto simp: listed_def word_less_nat_alt)
  ultimately show ?thesis by (intro exI [of _ t']) (auto simp: t'_def h_def)
qed

lemma unat_succ: "w < c \<Longrightarrow> unat (w + 1) = unat w + 1" for w c :: "64 word"
proof -
  assume "w < c"
  then have "unat w + 1 \<le> unat c" by (simp add: word_less_nat_alt)
  moreover have "unat c < 2 ^ LENGTH(64)" by (rule unsigned_less)
  ultimately show ?thesis by (simp add: unat_word_ariths)
qed

lemma push_newest:
  assumes l: "listed t as" and n: "names_of t (as @ [that])" and room: "t_length t < t_cap t"
    and out: "that \<notin> set (t_tail t # as @ [t_head t])" "that < t_fresh t"
  shows "\<exists>l h. newest t = Some l \<and> link_append l that (t_store t) = Some h \<and>
    listed (t\<lparr>t_store := h, t_length := t_length t + 1\<rparr>) (as @ [that]) \<and>
    names_of (t\<lparr>t_store := h, t_length := t_length t + 1\<rparr>) (as @ [that]) \<and>
    lk_name h = lk_name (t_store t)"
proof -
  let ?xs = "t_tail t # as" and ?ys = "[t_head t]"
  have d: "distinct (?xs @ ?ys)" "dseg (t_store t) (?xs @ ?ys)" using l by (auto simp: listed_def)
  let ?h = "splice (last ?xs) that (hd ?ys) (t_store t)"
  have h: "link_append (last ?xs) that (t_store t) = Some ?h" "dseg ?h (?xs @ that # ?ys)"
    using link_append_dseg [OF d(2,1)] out(1) by auto
  have "newest t = Some (last ?xs)"
    using d(2) dseg_append [of "t_store t" "t_tail t # butlast as" "last as" ?ys]
    by (cases as rule: rev_cases) (simp_all add: newest_def)
  moreover have "unat (t_length t + 1) = unat (t_length t) + 1"
    using room by (rule unat_succ)
  then have "listed (t\<lparr>t_store := ?h, t_length := t_length t + 1\<rparr>) (as @ [that])"
    using l h(2) out room by (auto simp: listed_def word_less_nat_alt)
  moreover have "names_of (t\<lparr>t_store := ?h, t_length := t_length t + 1\<rparr>) (as @ [that])"
    using n by (simp add: names_of_def)
  ultimately show ?thesis using h(1) by auto
qed

text \<open>Touching, once the link of the name is out of the list.\<close>

lemma Touch_from_link:
  assumes tl: "touch_link t s = Some (that, t1)" and l: "listed t1 as" and n: "names_of t1 (as @ [that])"
    and out: "that \<notin> set (t_tail t1 # as @ [t_head t1])" "that < t_fresh t1"
    and name: "lk_name (t_store t1) that = s" and cap: "t_cap t1 \<noteq> 0"
  shows "\<exists>t'. Touch t s = Some (fst (lru_touch (unat (t_cap t1)) (map (lk_name (t_store t1)) as @ [s]) s), t') \<and>
    represents t' (snd (lru_touch (unat (t_cap t1)) (map (lk_name (t_store t1)) as @ [s]) s)) \<and> t_cap t' = t_cap t1"
proof -
  let ?nm = "lk_name (t_store t1)"
  have no_s: "s \<notin> set (map ?nm as)" using n name by (auto simp: names_of_def)
  then have rem: "removeAll s (map ?nm as @ [s]) = map ?nm as" by simp
  show ?thesis
  proof (cases "t_length t1 \<ge> t_cap t1")
    case True
    with l cap have full: "length as \<ge> unat (t_cap t1)" by (auto simp: listed_def word_le_nat_alt)
    with cap obtain a as' where as: "as = a # as'"
      by (cases as) (auto simp: unat_eq_0)
    then obtain t2 where t2: "evict t1 = Some (?nm a, t2)" "listed t2 as'" "names_of t2 (as' @ [that])"
      "lk_name (t_store t2) = ?nm" "t_cap t2 = t_cap t1" "t_tail t2 = t_tail t1" "t_head t2 = t_head t1"
      "t_fresh t2 = t_fresh t1" "t_length t2 < t_cap t2"
      using evict_full [of t1 a as' that] l n True by auto
    moreover from this obtain l' h where "newest t2 = Some l'" "link_append l' that (t_store t2) = Some h"
      "listed (t2\<lparr>t_store := h, t_length := t_length t2 + 1\<rparr>) (as' @ [that])"
      "names_of (t2\<lparr>t_store := h, t_length := t_length t2 + 1\<rparr>) (as' @ [that])" "lk_name h = lk_name (t_store t2)"
      using push_newest [OF t2(2,3,9)] out as by auto
    ultimately show ?thesis
      using tl name rem full as
      by (intro exI [of _ "t2\<lparr>t_store := h, t_length := t_length t2 + 1\<rparr>"])
         (auto simp: Touch_def lru_touch_def represents_def Let_def)
  next
    case False
    with l have room: "\<not> length as \<ge> unat (t_cap t1)" by (auto simp: listed_def word_le_nat_alt)
    have e: "evict t1 = Some ('''', t1)" using False by (simp add: evict_def)
    obtain l' h where "newest t1 = Some l'" "link_append l' that (t_store t1) = Some h"
      "listed (t1\<lparr>t_store := h, t_length := t_length t1 + 1\<rparr>) (as @ [that])"
      "names_of (t1\<lparr>t_store := h, t_length := t_length t1 + 1\<rparr>) (as @ [that])" "lk_name h = ?nm"
      using push_newest [OF l n _ out] False by (auto simp: not_le)
    with tl e name rem room show ?thesis
      by (intro exI [of _ "t1\<lparr>t_store := h, t_length := t_length t1 + 1\<rparr>"])
         (auto simp: Touch_def lru_touch_def represents_def Let_def)
  qed
qed

lemma map_removeAll_distinct:
  "distinct (map f xs) \<Longrightarrow> x \<in> set xs \<Longrightarrow> map f (removeAll x xs) = removeAll (f x) (map f xs)"
proof (induction xs)
  case (Cons a xs)
  then show ?case
  proof (cases "a = x")
    case True
    with Cons.prems have "x \<notin> set xs" "f x \<notin> set (map f xs)" by auto
    with True show ?thesis by (simp add: removeAll_id)
  next
    case False
    with Cons have "f a \<noteq> f x" by auto
    with Cons False show ?thesis by auto
  qed
qed simp

lemma Touch_represents:
  assumes "represents t xs" "t_cap t \<noteq> 0"
  shows "\<exists>t'. Touch t s = Some (fst (lru_touch (unat (t_cap t)) xs s), t') \<and>
    represents t' (snd (lru_touch (unat (t_cap t)) xs s)) \<and> t_cap t' = t_cap t"
proof -
  obtain as where as: "listed t as" "names_of t as" "xs = map (lk_name (t_store t)) as"
    using assms(1) by (auto simp: represents_def)
  show ?thesis
  proof (cases "map_of (t_names t) s")
    case None
    then have "s \<notin> set xs" using as(2,3) by (auto simp: names_of_def)
    then have "lru_touch c (xs @ [s]) s = lru_touch c xs s" for c by (simp add: lru_touch_def)
    with touch_link_new [OF as(1,2) None] as(3) assms(2) show ?thesis
      using Touch_from_link [of t s] by metis
  next
    case (Some that)
    obtain t1 where t1: "touch_link t s = Some (that, t1)" "listed t1 (removeAll that as)"
      "names_of t1 (removeAll that as @ [that])" "that \<notin> set (t_tail t1 # removeAll that as @ [t_head t1])"
      "that < t_fresh t1" "lk_name (t_store t1) = lk_name (t_store t)" "lk_name (t_store t) that = s" "t_cap t1 = t_cap t"
      using touch_link_old [OF as(1,2) Some] by auto
    have "map (lk_name (t_store t)) (removeAll that as) = removeAll s xs"
      using as(2,3) Some t1(7) map_removeAll_distinct [of "lk_name (t_store t)" as that]
      by (auto simp: names_of_def)
    then have "lru_touch c (map (lk_name (t_store t)) (removeAll that as) @ [s]) s = lru_touch c xs s" for c
      by (simp add: lru_touch_def)
    with Touch_from_link [OF t1(1-5)] t1(6-8) assms(2) show ?thesis by simp
  qed
qed

section \<open>The contract of the transcript\<close>

text \<open>
  The promise to the tracker. The abstract state of a transcript is the list of the names
  it holds, the least recently touched first.
\<close>

locale limited_transcript =
  fixes touch :: "'t \<Rightarrow> string \<Rightarrow> (string \<times> 't) option"
    and invar :: "'t \<Rightarrow> bool"
    and history :: "'t \<Rightarrow> string list"
    and limit :: "'t \<Rightarrow> nat"
  assumes touch_lru: "invar t \<Longrightarrow> \<exists>t'. touch t s = Some (fst (lru_touch (limit t) (history t) s), t') \<and>
      invar t' \<and> history t' = snd (lru_touch (limit t) (history t) s) \<and> limit t' = limit t"
    and history_distinct: "invar t \<Longrightarrow> distinct (history t)"
    and history_limit: "invar t \<Longrightarrow> length (history t) \<le> limit t \<and> 0 < limit t"
begin

lemma touch_cases:
  assumes "invar t"
  obtains (held) t' where "length (history t) < limit t \<or> s \<in> set (history t)" "touch t s = Some ('''', t')"
      "invar t'" "history t' = removeAll s (history t) @ [s]" "limit t' = limit t"
  | (evicted) d r t' where "history t = d # r" "s \<notin> set (history t)" "limit t = length (history t)"
      "touch t s = Some (d, t')" "invar t'" "history t' = r @ [s]" "limit t' = limit t"
proof -
  obtain t' where t': "touch t s = Some (fst (lru_touch (limit t) (history t) s), t')" "invar t'"
    "history t' = snd (lru_touch (limit t) (history t) s)" "limit t' = limit t"
    using touch_lru [OF assms] by blast
  show thesis
  proof (cases "length (removeAll s (history t)) < limit t")
    case True
    have "s \<in> set (history t) \<or> length (history t) < limit t"
      using True by (cases "s \<in> set (history t)") (auto simp: removeAll_id)
    then show thesis using True t' by (intro held [of t']) (auto simp: lru_touch_def Let_def)
  next
    case False
    then have s: "s \<notin> set (history t)"
      using history_limit [OF assms] length_removeAll_less [of s "history t"] by auto
    with False have l: "length (history t) = limit t"
      using history_limit [OF assms] by (simp add: removeAll_id)
    then obtain d r where "history t = d # r" using history_limit [OF assms] by (cases "history t") auto
    then show thesis using s l t' by (intro evicted [of d r t']) (auto simp: lru_touch_def Let_def)
  qed
qed

end

text \<open>The names read off the store, following the next pointers from the oldest link.\<close>

fun walk :: "link_store \<Rightarrow> nat \<Rightarrow> addr option \<Rightarrow> string list" where
  "walk h (Suc n) (Some a) = lk_name h a # walk h n (lk_next h a)"
| "walk h _ _ = []"

definition history_of :: "transcript \<Rightarrow> string list" where
  "history_of t = walk (t_store t) (unat (t_length t)) (oldest t)"

definition sound :: "transcript \<Rightarrow> bool" where
  "sound t \<longleftrightarrow> represents t (history_of t) \<and> t_cap t \<noteq> 0"

lemma walk_dseg: "dseg h (as @ [z]) \<Longrightarrow> walk h (length as) (Some (hd (as @ [z]))) = map (lk_name h) as"
proof (induction as)
  case (Cons a as)
  then show ?case by (cases as) auto
qed simp

lemma represents_history: "represents t xs \<Longrightarrow> history_of t = xs"
proof -
  assume "represents t xs"
  then obtain as where as: "listed t as" "xs = map (lk_name (t_store t)) as" by (auto simp: represents_def)
  then have "dseg (t_store t) (as @ [t_head t])" "oldest t = Some (hd (as @ [t_head t]))"
    by (cases as; auto simp: listed_def oldest_def)+
  with as walk_dseg show ?thesis by (simp add: history_of_def listed_def)
qed

lemma represents_facts:
  assumes "represents t xs"
  shows "distinct xs" "length xs \<le> unat (t_cap t)" "set (Registry t) = set xs" "unat (t_length t) = length xs"
    "distinct (Registry t)"
proof -
  obtain as where as: "listed t as" "names_of t as" "xs = map (lk_name (t_store t)) as"
    using assms by (auto simp: represents_def)
  then show "distinct xs" "length xs \<le> unat (t_cap t)" "unat (t_length t) = length xs" "distinct (Registry t)"
    by (auto simp: listed_def names_of_def Registry_def)
  have "n \<in> set (Registry t) \<longleftrightarrow> (\<exists>a. map_of (t_names t) n = Some a)" for n
    unfolding Registry_def using map_of_None_keys [of "t_names t" n] by (cases "map_of (t_names t) n") auto
  then show "set (Registry t) = set xs"
    using as(2,3) by (auto simp: names_of_def)
qed

lemma sound_New: "cap \<noteq> 0 \<Longrightarrow> sound (NewPriorityLimitedTranscript cap) \<and> history_of (NewPriorityLimitedTranscript cap) = []"
  using represents_New [of cap] represents_history [OF represents_New [of cap]]
  by (simp add: sound_def NewPriorityLimitedTranscript_def)

interpretation plt: limited_transcript Touch sound history_of "\<lambda>t. unat (t_cap t)"
proof unfold_locales
  fix t s
  assume "sound t"
  then show "\<exists>t'. Touch t s = Some (fst (lru_touch (unat (t_cap t)) (history_of t) s), t') \<and> sound t' \<and>
    history_of t' = snd (lru_touch (unat (t_cap t)) (history_of t) s) \<and> unat (t_cap t') = unat (t_cap t)"
    using Touch_represents [of t "history_of t" s] represents_history by (fastforce simp: sound_def)
next
  fix t
  assume "sound t"
  then show "distinct (history_of t)" "length (history_of t) \<le> unat (t_cap t) \<and> 0 < unat (t_cap t)"
    using represents_facts [of t "history_of t"] by (auto simp: sound_def unat_gt_0)
qed

text \<open>Runs of touches, and the abstract run they implement.\<close>

fun Touch_all :: "transcript \<Rightarrow> string list \<Rightarrow> (string list \<times> transcript) option" where
  "Touch_all t [] = Some ([], t)"
| "Touch_all t (s # ss) = do { (r, t) \<leftarrow> Touch t s; (rs, t) \<leftarrow> Touch_all t ss; Some (r # rs, t) }"

fun lru_all :: "nat \<Rightarrow> string list \<Rightarrow> string list \<Rightarrow> string list \<times> string list" where
  "lru_all cap xs [] = ([], xs)"
| "lru_all cap xs (s # ss) =
     (let (r, xs) = lru_touch cap xs s; (rs, xs) = lru_all cap xs ss in (r # rs, xs))"

lemma Touch_all_lru:
  "sound t \<Longrightarrow> \<exists>t'. Touch_all t ss = Some (fst (lru_all (unat (t_cap t)) (history_of t) ss), t') \<and>
     sound t' \<and> history_of t' = snd (lru_all (unat (t_cap t)) (history_of t) ss) \<and> t_cap t' = t_cap t"
proof (induction ss arbitrary: t)
  case (Cons s ss)
  obtain t1 where t1: "Touch t s = Some (fst (lru_touch (unat (t_cap t)) (history_of t) s), t1)" "sound t1"
    "history_of t1 = snd (lru_touch (unat (t_cap t)) (history_of t) s)" "unat (t_cap t1) = unat (t_cap t)"
    using plt.touch_lru [OF Cons.prems] by blast
  then have "t_cap t1 = t_cap t" by (simp add: word_unat_eq_iff)
  with t1 Cons.IH [OF t1(2)] show ?case by (auto simp: case_prod_beta)
qed simp

text \<open>C14: from a new transcript of positive capacity every run of touches returns: nothing
  panics on a nil pointer. What each touch reports removed, and which names the registry
  holds at the end, is what a least-recently-used list of that capacity gives, the
  registry never holds more names than the capacity, and the length field is the number
  of names.\<close>

theorem Touch_is_lru:
  assumes "cap \<noteq> 0"
  shows "\<exists>t. Touch_all (NewPriorityLimitedTranscript cap) ss = Some (fst (lru_all (unat cap) [] ss), t) \<and>
    set (Registry t) = set (snd (lru_all (unat cap) [] ss)) \<and> distinct (Registry t) \<and>
    length (Registry t) \<le> unat cap \<and> unat (t_length t) = length (Registry t)"
proof -
  let ?t = "NewPriorityLimitedTranscript cap"
  have cap: "t_cap ?t = cap" by (simp add: NewPriorityLimitedTranscript_def)
  have new: "sound ?t" "history_of ?t = []" using sound_New [OF assms] by blast+
  from Touch_all_lru [OF new(1), of ss] obtain t
    where t: "Touch_all ?t ss = Some (fst (lru_all (unat cap) [] ss), t)" "sound t"
    "history_of t = snd (lru_all (unat cap) [] ss)" "t_cap t = cap"
    unfolding cap new(2) by blast
  then have r: "represents t (snd (lru_all (unat cap) [] ss))" by (simp add: sound_def)
  have "length (Registry t) = card (set (Registry t))" using represents_facts(5) [OF r] by (simp add: distinct_card)
  also have "\<dots> = length (snd (lru_all (unat cap) [] ss))"
    using represents_facts(1,3) [OF r] by (simp add: distinct_card)
  finally show ?thesis using represents_facts(2-5) [OF r] t(1,4) by simp
qed

theorem Touch_is_lru_witness:
  "\<exists>t. Touch_all (NewPriorityLimitedTranscript 2) [''a'', ''b'', ''a'', ''c''] = Some (['''', '''', '''', ''b''], t) \<and>
    set (Registry t) = {''a'', ''c''} \<and> distinct (Registry t) \<and>
    length (Registry t) \<le> 2 \<and> unat (t_length t) = length (Registry t)"
proof -
  have "lru_all 2 [] [''a'', ''b'', ''a'', ''c''] = (['''', '''', '''', ''b''], [''a'', ''c''])"
    by (simp add: lru_touch_def)
  moreover have "(2 :: 64 word) \<noteq> 0" "unat (2 :: 64 word) = 2" by simp_all
  ultimately show ?thesis
    using Touch_is_lru [of 2 "[''a'', ''b'', ''a'', ''c'']"] by (simp only: fst_conv snd_conv list.set not_False_eq_True)
qed

text \<open>With capacity zero the first touch follows the nil pointer of the empty list's
  sentinel and panics.\<close>

theorem Touch_zero_capacity: "Touch (NewPriorityLimitedTranscript 0) s = None"
  by (simp add: Touch_def touch_link_def evict_def oldest_def link_remove_def NewPriorityLimitedTranscript_def)

text \<open>What the tracker reads back: the registry, in no particular order.\<close>

locale registered_transcript = limited_transcript +
  fixes registry :: "'t \<Rightarrow> string list"
  assumes registry_history: "invar t \<Longrightarrow> set (registry t) = set (history t)"

interpretation plt: registered_transcript Touch sound history_of "\<lambda>t. unat (t_cap t)" Registry
  by unfold_locales (simp add: sound_def represents_facts)

end
