(* ===== verification/Tracker.thy ===== *)
theory Tracker
  imports Transcript Criteria
begin

text \<open>
  The tracker (\<^verbatim>\<open>src/bosh-dns/dns/server/tracker/tracker.go\<close>): which IPs the health watcher
  is told to track, because a recently queried domain resolves to them. The transcript,
  the health watcher and the record filter are the interfaces of the code: the operations
  take the transcript's \<open>touch\<close> and \<open>registry\<close> and the filter as arguments, and return the
  calls they make on the health watcher in order. The lemmas about the tracker are proved
  once in the contract of the transcript.
\<close>

section \<open>Operations\<close>

datatype healther_call = Track string | Untrack string

record 't tracker =
  trackedDomains :: 't
  trackedIPs :: "(string, string set) gomap"

definition Start :: "'t \<Rightarrow> 't tracker" where
  "Start d = \<lparr>trackedDomains = d, trackedIPs = []\<rparr>"

text \<open>The loop that forgets an evicted domain, over the entries of the map.\<close>

fun forget_domain :: "string \<Rightarrow> (string, string set) gomap \<Rightarrow> (string, string set) gomap \<times> healther_call list" where
  "forget_domain remove [] = ([], [])"
| "forget_domain remove ((ip, domains) # m) =
     (let (m', calls) = forget_domain remove m in
      if remove \<in> domains
      then ((ip, domains - {remove}) # m', (if domains - {remove} = {} then [Untrack ip] else []) @ calls)
      else ((ip, domains) # m', calls))"

definition monitor ::
  "('t \<Rightarrow> string \<Rightarrow> (string \<times> 't) option) \<Rightarrow> 't tracker \<Rightarrow> string \<Rightarrow> string \<Rightarrow> ('t tracker \<times> healther_call list) option" where
  "monitor touch t ip fqdn = do {
     (remove, d) \<leftarrow> touch (trackedDomains t) fqdn;
     let (ips, calls) = (if remove \<noteq> '''' then forget_domain remove (trackedIPs t) else (trackedIPs t, []));
     let ips = insert_map ip {} ips;
     let ips = insert_map ip (insert fqdn (case map_of ips ip of None \<Rightarrow> {} | Some ds \<Rightarrow> ds)) ips;
     Some (\<lparr>trackedDomains = d, trackedIPs = ips\<rparr>, calls @ [Track ip])
   }"

text \<open>The loops of the refresh: new map, what is left of the old map, calls so far.\<close>

type_synonym refresh_state = "(string, string set) gomap \<times> (string, string set) gomap \<times> healther_call list"

definition refresh_ip :: "string \<Rightarrow> string \<Rightarrow> refresh_state \<Rightarrow> refresh_state" where
  "refresh_ip domain ip st =
     (let (new, old, calls) = st;
          firstOccurrence = (map_of new ip = None);
          new = (if firstOccurrence then insert_map ip {} new else new);
          new = insert_map ip (insert domain (case map_of new ip of None \<Rightarrow> {} | Some ds \<Rightarrow> ds)) new;
          previouslyTracked = (map_of old ip \<noteq> None);
          old = (if previouslyTracked then delete_map ip old else old)
      in (new, old, if firstOccurrence \<and> \<not> previouslyTracked then calls @ [Track ip] else calls))"

definition refresh_domain ::
  "(criteria \<Rightarrow> rec list \<Rightarrow> rec list) \<Rightarrow> rec list \<Rightarrow> string \<Rightarrow> refresh_state \<Rightarrow> refresh_state" where
  "refresh_domain qf newRecords domain st =
     (case NewCriteria domain (map r_Domain newRecords) of
        Inl err \<Rightarrow> st
      | Inr crit \<Rightarrow> fold (\<lambda>r. refresh_ip domain (r_IP r)) (qf crit newRecords) st)"

definition refresh ::
  "('t \<Rightarrow> string list) \<Rightarrow> (criteria \<Rightarrow> rec list \<Rightarrow> rec list) \<Rightarrow> 't tracker \<Rightarrow> rec list \<Rightarrow>
   't tracker \<times> healther_call list" where
  "refresh registry qf t newRecords =
     (let (new, old, calls) =
            fold (refresh_domain qf newRecords) (registry (trackedDomains t)) ([], trackedIPs t, [])
      in (t\<lparr>trackedIPs := new\<rparr>, calls @ map Untrack (keys old)))"

text \<open>One round of the loop of \<open>Start\<close>, and a run of it; the shutdown ends the sequence.\<close>

datatype tracker_event = HealthMonitor host | Subscription "rec list"

fun tracker_step where
  "tracker_step touch registry qf t (HealthMonitor h) = monitor touch t (h_IP h) (h_FQDN h)"
| "tracker_step touch registry qf t (Subscription rs) = Some (refresh registry qf t rs)"

fun tracker_run where
  "tracker_run touch registry qf t [] = Some (t, [])"
| "tracker_run touch registry qf t (e # es) = do {
     (t, calls) \<leftarrow> tracker_step touch registry qf t e;
     (t, calls') \<leftarrow> tracker_run touch registry qf t es;
     Some (t, calls @ calls')
   }"

section \<open>What the calls mean\<close>

text \<open>The set of IPs a health watcher has been told to track.\<close>

fun apply_call :: "healther_call \<Rightarrow> string set \<Rightarrow> string set" where
  "apply_call (Track ip) W = insert ip W"
| "apply_call (Untrack ip) W = W - {ip}"

definition watched :: "healther_call list \<Rightarrow> string set" where
  "watched calls = fold apply_call calls {}"

text \<open>The IPs some domain refers to, and the domains referred to.\<close>

definition live_ips :: "(string, string set) gomap \<Rightarrow> string set" where
  "live_ips m = {ip. \<exists>ds. map_of m ip = Some ds \<and> ds \<noteq> {}}"

lemma fold_Track: "fold apply_call (map Track ips) W = W \<union> set ips"
  by (induction ips arbitrary: W) auto

lemma fold_Untrack: "fold apply_call (map Untrack ips) W = W - set ips"
  by (induction ips arbitrary: W) auto

lemma live_ips_insert: "live_ips (insert_map ip ds m) = (if ds = {} then live_ips m - {ip} else insert ip (live_ips m))"
  by (auto simp: live_ips_def map_of_insert_map split: if_splits)

lemma live_ips_keys: "live_ips m \<subseteq> set (keys m)"
proof
  fix ip
  assume "ip \<in> live_ips m"
  then have "map_of m ip \<noteq> None" by (auto simp: live_ips_def)
  then show "ip \<in> set (keys m)" by (simp only: map_of_None_keys not_not)
qed

section \<open>Forgetting a domain\<close>

lemma keys_forget: "keys (fst (forget_domain d m)) = keys m"
  by (induction m) (auto simp: case_prod_beta Let_def)

lemma lookup_forget: "map_of (fst (forget_domain d m)) ip = map_option (\<lambda>ds. ds - {d}) (map_of m ip)"
  by (induction m) (auto simp: case_prod_beta Let_def)

lemma calls_forget:
  "snd (forget_domain d m) = map Untrack (map fst (filter (\<lambda>(ip, ds). ds = {d}) m))"
proof (induction m)
  case (Cons a m)
  obtain ip ds where a: "a = (ip, ds)" by (cases a)
  have "ds = {d} \<longleftrightarrow> d \<in> ds \<and> ds - {d} = {}" by auto
  with Cons a show ?case by (simp add: case_prod_beta Let_def)
qed simp

lemma live_forget:
  assumes "wf_map m"
  shows "fold apply_call (snd (forget_domain d m)) (live_ips m) = live_ips (fst (forget_domain d m))"
proof -
  have calls: "ip \<in> set (map fst (filter (\<lambda>(ip, ds). ds = {d}) m)) \<longleftrightarrow> map_of m ip = Some {d}" for ip
    using assms by (force simp: image_iff)
  have "ip \<in> live_ips m - set (map fst (filter (\<lambda>(ip, ds). ds = {d}) m)) \<longleftrightarrow> ip \<in> live_ips (fst (forget_domain d m))" for ip
    unfolding Diff_iff calls by (cases "map_of m ip") (auto simp: live_ips_def lookup_forget)
  then show ?thesis unfolding calls_forget fold_Untrack by blast
qed

section \<open>Refreshing\<close>

text \<open>Reference: the domains of the registry with the IPs they resolve to.\<close>

definition references :: "(criteria \<Rightarrow> rec list \<Rightarrow> rec list) \<Rightarrow> rec list \<Rightarrow> string list \<Rightarrow> (string \<times> string) list" where
  "references qf rs ds = concat (map (\<lambda>d. case NewCriteria d (map r_Domain rs) of
       Inl _ \<Rightarrow> [] | Inr c \<Rightarrow> map (\<lambda>r. (d, r_IP r)) (qf c rs)) ds)"

definition domains_at :: "(string \<times> string) list \<Rightarrow> string \<Rightarrow> string set" where
  "domains_at ps ip = {d. (d, ip) \<in> set ps}"

lemma fold_refresh_domain:
  "fold (refresh_domain qf rs) ds st = fold (\<lambda>(d, ip). refresh_ip d ip) (references qf rs ds) st"
  by (induction ds arbitrary: st)
     (auto simp: references_def refresh_domain_def fold_map comp_def split: sum.splits)

lemma refresh_fold:
  assumes "fold (\<lambda>(d, ip). refresh_ip d ip) ps ([], old0, []) = (new, old, calls)" "wf_map old0"
  shows "wf_map new \<and> wf_map old \<and>
    (\<forall>ip. map_of new ip = (if domains_at ps ip = {} then None else Some (domains_at ps ip))) \<and>
    (\<forall>ip. map_of old ip = (if domains_at ps ip = {} then map_of old0 ip else None)) \<and>
    (\<exists>ips. calls = map Track ips \<and> distinct ips \<and> set ips = {ip. domains_at ps ip \<noteq> {} \<and> map_of old0 ip = None})"
  using assms
proof (induction ps arbitrary: new old calls rule: rev_induct)
  case Nil
  then show ?case by (simp add: domains_at_def)
next
  case (snoc p ps)
  obtain d ip where p: "p = (d, ip)" by (cases p)
  obtain new1 old1 calls1 where st: "fold (\<lambda>(d, ip). refresh_ip d ip) ps ([], old0, []) = (new1, old1, calls1)"
    by (metis prod_cases3)
  note IH = snoc.IH [OF st snoc.prems(2)]
  then obtain ips where ips: "calls1 = map Track ips" "distinct ips"
    "set ips = {ip. domains_at ps ip \<noteq> {} \<and> map_of old0 ip = None}" by blast
  have at: "domains_at (ps @ [p]) ip' = (if ip' = ip then insert d (domains_at ps ip) else domains_at ps ip')" for ip'
    using p by (auto simp: domains_at_def)
  have step: "(new, old, calls) = refresh_ip d ip (new1, old1, calls1)"
    using snoc.prems(1) st p by simp
  have lookups: "map_of new1 ip = (if domains_at ps ip = {} then None else Some (domains_at ps ip))"
    "map_of old1 ip = (if domains_at ps ip = {} then map_of old0 ip else None)" using IH by auto
  have new: "map_of new ip' = (if ip' = ip then Some (insert d (domains_at ps ip)) else map_of new1 ip')" for ip'
    using step lookups(1) by (auto simp: refresh_ip_def Let_def map_of_insert_map split: if_splits)
  have old: "map_of old ip' = (if ip' = ip then None else map_of old1 ip')" for ip'
    using step lookups(2) by (auto simp: refresh_ip_def Let_def delete_conv' split: if_splits)
  have wf: "wf_map new" "wf_map old"
    using step IH by (auto simp: refresh_ip_def Let_def distinct_update distinct_delete)
  have calls: "calls = map Track (if domains_at ps ip = {} \<and> map_of old0 ip = None then ips @ [ip] else ips)"
    using step lookups ips(1) by (simp add: refresh_ip_def Let_def)
  have "\<exists>ips'. calls = map Track ips' \<and> distinct ips' \<and>
    set ips' = {i. domains_at (ps @ [p]) i \<noteq> {} \<and> map_of old0 i = None}"
    using ips(2,3) by (intro exI [of _ "if domains_at ps ip = {} \<and> map_of old0 ip = None then ips @ [ip] else ips"])
      (auto simp: calls at)
  moreover have "map_of new i = (if domains_at (ps @ [p]) i = {} then None else Some (domains_at (ps @ [p]) i))"
    "map_of old i = (if domains_at (ps @ [p]) i = {} then map_of old0 i else None)" for i
    unfolding new old at using IH by auto
  ultimately show ?case using wf by blast
qed

lemma refresh_cases:
  assumes "wf_map (trackedIPs t)" and ps: "ps = references qf rs (registry (trackedDomains t))"
  obtains t' new gone where "refresh registry qf t rs = (t', map Track new @ map Untrack gone)"
    "trackedDomains t' = trackedDomains t" "wf_map (trackedIPs t')"
    "\<And>ip. map_of (trackedIPs t') ip = (if domains_at ps ip = {} then None else Some (domains_at ps ip))"
    "distinct new" "set new = {ip. domains_at ps ip \<noteq> {} \<and> map_of (trackedIPs t) ip = None}"
    "distinct gone" "set gone = {ip. domains_at ps ip = {} \<and> map_of (trackedIPs t) ip \<noteq> None}"
proof -
  obtain new old calls where st: "fold (\<lambda>(d, ip). refresh_ip d ip) ps ([], trackedIPs t, []) = (new, old, calls)"
    by (metis prod_cases3)
  note F = refresh_fold [OF st assms(1)]
  then obtain ips where ips: "calls = map Track ips" "distinct ips"
    "set ips = {ip. domains_at ps ip \<noteq> {} \<and> map_of (trackedIPs t) ip = None}" by blast
  have "refresh registry qf t rs = (t\<lparr>trackedIPs := new\<rparr>, map Track ips @ map Untrack (keys old))"
    using st ips(1) by (simp add: refresh_def fold_refresh_domain ps)
  moreover have "ip \<in> set (keys old) \<longleftrightarrow> domains_at ps ip = {} \<and> map_of (trackedIPs t) ip \<noteq> None" for ip
    using F map_of_None_keys [of old ip] by (cases "domains_at ps ip = {}") auto
  moreover have "distinct (keys old)" using F by blast
  ultimately show thesis using F ips(2,3) by (intro that [of "t\<lparr>trackedIPs := new\<rparr>" ips "keys old"]) auto
qed

text \<open>A refresh rebuilds the tracked IPs from the new records: an IP is tracked exactly
  when a domain of the registry resolves to it through the filter, together with all the
  domains that do. The health watcher is told to track each new IP once and to untrack
  once each IP that no domain of the registry resolves to any more, and nothing else.\<close>

theorem refresh_correct:
  assumes "wf_map (trackedIPs t)" and "ps = references qf rs (registry (trackedDomains t))"
  shows "\<exists>t' new gone. refresh registry qf t rs = (t', map Track new @ map Untrack gone) \<and>
    trackedDomains t' = trackedDomains t \<and> wf_map (trackedIPs t') \<and>
    (\<forall>ip. map_of (trackedIPs t') ip = (if domains_at ps ip = {} then None else Some (domains_at ps ip))) \<and>
    distinct new \<and> set new = {ip. domains_at ps ip \<noteq> {} \<and> map_of (trackedIPs t) ip = None} \<and>
    distinct gone \<and> set gone = {ip. domains_at ps ip = {} \<and> map_of (trackedIPs t) ip \<noteq> None}"
  by (rule refresh_cases [where registry = registry, OF assms]) blast

section \<open>Monitoring, against any transcript that keeps its contract\<close>

context limited_transcript
begin

text \<open>The tracker is sound for a health watcher that tracks \<open>W\<close>: it watches no IP but those
  a remembered domain refers to.\<close>

definition tracker_ok :: "'t tracker \<Rightarrow> string set \<Rightarrow> bool" where
  "tracker_ok t W \<longleftrightarrow> invar (trackedDomains t) \<and> wf_map (trackedIPs t) \<and>
     '''' \<notin> set (history (trackedDomains t)) \<and>
     (\<forall>ip ds. map_of (trackedIPs t) ip = Some ds \<longrightarrow> ds \<subseteq> set (history (trackedDomains t))) \<and>
     W \<subseteq> live_ips (trackedIPs t)"

lemma tracker_ok_monitor:
  assumes ok: "tracker_ok t W" and "fqdn \<noteq> ''''"
  shows "\<exists>t' calls. monitor touch t ip fqdn = Some (t', calls) \<and> tracker_ok t' (fold apply_call calls W) \<and>
    limit (trackedDomains t') = limit (trackedDomains t)"
proof -
  let ?h = "history (trackedDomains t)"
  have inv: "invar (trackedDomains t)" and wf: "wf_map (trackedIPs t)" and ne: "'''' \<notin> set ?h"
    and W: "W \<subseteq> live_ips (trackedIPs t)" using ok by (simp_all add: tracker_ok_def)
  have ds: "map_of (trackedIPs t) i = Some x \<Longrightarrow> x \<subseteq> set ?h" for i x
    using ok by (simp add: tracker_ok_def)
  from inv show ?thesis
  proof (cases rule: touch_cases [where s = fqdn])
    case (held d)
    then have "monitor touch t ip fqdn =
        Some (\<lparr>trackedDomains = d, trackedIPs = insert_map ip {fqdn} (insert_map ip {} (trackedIPs t))\<rparr>, [Track ip])"
      by (simp add: monitor_def map_of_insert_map)
    moreover have "x \<subseteq> set (history d)" if "map_of (insert_map ip {fqdn} (insert_map ip {} (trackedIPs t))) i = Some x" for i x
      using that ds [of i x] held by (auto simp: map_of_insert_map split: if_splits)
    ultimately show ?thesis using held wf ne W assms(2)
      by (auto simp: tracker_ok_def live_ips_insert distinct_update)
  next
    case (evicted r rs d)
    let ?m = "fst (forget_domain r (trackedIPs t))"
    have wf': "wf_map ?m" using wf by (simp only: keys_forget)
    have calls: "monitor touch t ip fqdn =
        Some (\<lparr>trackedDomains = d, trackedIPs = insert_map ip {fqdn} (insert_map ip {} ?m)\<rparr>,
              snd (forget_domain r (trackedIPs t)) @ [Track ip])"
      using evicted ne by (auto simp: monitor_def map_of_insert_map case_prod_beta)
    have "x \<subseteq> set (history d)" if "map_of (insert_map ip {fqdn} (insert_map ip {} ?m)) i = Some x" for i x
      using that ds [of i] evicted by (auto simp: map_of_insert_map lookup_forget split: if_splits)
    moreover have "fold apply_call (snd (forget_domain r (trackedIPs t))) W \<subseteq> live_ips ?m"
      using W unfolding live_forget [OF wf, symmetric] calls_forget fold_Untrack by blast
    ultimately show ?thesis using calls evicted wf' ne assms(2)
      by (auto simp: tracker_ok_def live_ips_insert distinct_update)
  qed
qed

end

section \<open>Runs of the tracker\<close>

definition named_events :: "tracker_event list \<Rightarrow> bool" where
  "named_events es \<longleftrightarrow> (\<forall>h. HealthMonitor h \<in> set es \<longrightarrow> h_FQDN h \<noteq> '''')"

fun event_domain :: "tracker_event \<Rightarrow> string list" where
  "event_domain (HealthMonitor h) = [h_FQDN h]"
| "event_domain (Subscription rs) = []"

context registered_transcript
begin

lemma references_registry:
  "d \<in> domains_at (references qf rs (registry t)) ip \<Longrightarrow> invar t \<Longrightarrow> d \<in> set (history t)"
  using registry_history [of t] by (auto simp: domains_at_def references_def split: sum.splits)

lemma tracker_ok_refresh:
  assumes ok: "tracker_ok t W"
  shows "\<exists>t' calls. refresh registry qf t rs = (t', calls) \<and> tracker_ok t' (fold apply_call calls W) \<and>
    trackedDomains t' = trackedDomains t"
proof -
  have inv: "invar (trackedDomains t)" and wf: "wf_map (trackedIPs t)" and W: "W \<subseteq> live_ips (trackedIPs t)"
    using ok by (simp_all add: tracker_ok_def)
  define ps where "ps = references qf rs (registry (trackedDomains t))"
  note refs = references_registry [of _ qf rs "trackedDomains t", OF _ inv]
  obtain t' new gone where r: "refresh registry qf t rs = (t', map Track new @ map Untrack gone)"
    "trackedDomains t' = trackedDomains t" "wf_map (trackedIPs t')"
    "\<And>ip. map_of (trackedIPs t') ip = (if domains_at ps ip = {} then None else Some (domains_at ps ip))"
    "set new = {ip. domains_at ps ip \<noteq> {} \<and> map_of (trackedIPs t) ip = None}"
    "set gone = {ip. domains_at ps ip = {} \<and> map_of (trackedIPs t) ip \<noteq> None}"
    by (rule refresh_cases [where registry = registry, OF wf ps_def]) blast
  have "W \<union> set new - set gone \<subseteq> live_ips (trackedIPs t')"
    using W r(4-6) by (auto simp: live_ips_def split: if_splits)
  then have "tracker_ok t' (fold apply_call (map Track new @ map Untrack gone) W)"
    using ok r(2-4) refs by (auto simp: tracker_ok_def fold_Track fold_Untrack ps_def split: if_splits)
  with r(1,2) show ?thesis by blast
qed

lemma tracker_ok_run:
  "tracker_ok t W \<Longrightarrow> named_events es \<Longrightarrow>
   \<exists>t' calls. tracker_run touch registry qf t es = Some (t', calls) \<and> tracker_ok t' (fold apply_call calls W) \<and>
     limit (trackedDomains t') = limit (trackedDomains t)"
proof (induction es arbitrary: t W)
  case (Cons e es)
  have "\<exists>t' calls. tracker_step touch registry qf t e = Some (t', calls) \<and> tracker_ok t' (fold apply_call calls W) \<and>
    limit (trackedDomains t') = limit (trackedDomains t)"
  proof (cases e)
    case (HealthMonitor h)
    with tracker_ok_monitor [OF Cons.prems(1), of "h_FQDN h" "h_IP h"] Cons.prems(2) show ?thesis
      by (auto simp: named_events_def)
  next
    case (Subscription rs)
    with tracker_ok_refresh [OF Cons.prems(1), of qf rs] show ?thesis by auto
  qed
  moreover have "named_events es" using Cons.prems(2) by (simp add: named_events_def)
  ultimately show ?case using Cons.IH by (fastforce simp: fold_append)
qed simp

text \<open>As long as nothing is evicted the watched IPs are exactly the live ones.\<close>

definition tracker_exact :: "string set \<Rightarrow> 't tracker \<Rightarrow> string set \<Rightarrow> bool" where
  "tracker_exact S t W \<longleftrightarrow> tracker_ok t W \<and> set (history (trackedDomains t)) \<subseteq> S \<and>
     W = live_ips (trackedIPs t) \<and> (\<forall>ip. map_of (trackedIPs t) ip \<noteq> None \<longrightarrow> ip \<in> W)"

lemma tracker_exact_step:
  assumes ex: "tracker_exact S t W" and S: "finite S" "card S \<le> limit (trackedDomains t)" "'''' \<notin> S"
    and e: "set (event_domain e) \<subseteq> S"
  shows "\<exists>t' calls. tracker_step touch registry qf t e = Some (t', calls) \<and> tracker_exact S t' (fold apply_call calls W) \<and>
    limit (trackedDomains t') = limit (trackedDomains t)"
proof (cases e)
  case (HealthMonitor h)
  let ?s = "h_FQDN h" and ?ip = "h_IP h"
  have ok: "tracker_ok t W" and inv: "invar (trackedDomains t)" using ex by (simp_all add: tracker_exact_def tracker_ok_def)
  have s: "?s \<in> S" "?s \<noteq> ''''" using e HealthMonitor S(3) by auto
  from inv show ?thesis
  proof (cases rule: touch_cases [where s = ?s])
    case (held d)
    then have m: "monitor touch t ?ip ?s =
        Some (\<lparr>trackedDomains = d, trackedIPs = insert_map ?ip {?s} (insert_map ?ip {} (trackedIPs t))\<rparr>, [Track ?ip])"
      by (simp add: monitor_def map_of_insert_map)
    obtain t' calls where "monitor touch t ?ip ?s = Some (t', calls)" "tracker_ok t' (fold apply_call calls W)"
      "limit (trackedDomains t') = limit (trackedDomains t)"
      using tracker_ok_monitor [OF ok s(2)] by blast
    with m HealthMonitor ex held(4) s(1) show ?thesis
      by (auto simp: tracker_exact_def live_ips_insert map_of_insert_map)
  next
    case (evicted r rs d)
    have "Suc (card (set (history (trackedDomains t)))) \<le> card S"
      using evicted(2) s(1) ex S(1) card_mono [of S "insert ?s (set (history (trackedDomains t)))"]
      by (auto simp: tracker_exact_def)
    with S(2) evicted(3) history_distinct [OF inv] show ?thesis by (simp add: distinct_card)
  qed
next
  case (Subscription rs)
  have ok: "tracker_ok t W" and inv: "invar (trackedDomains t)" and wf: "wf_map (trackedIPs t)"
    using ex by (simp_all add: tracker_exact_def tracker_ok_def)
  define ps where "ps = references qf rs (registry (trackedDomains t))"
  obtain t' new gone where r: "refresh registry qf t rs = (t', map Track new @ map Untrack gone)"
    "trackedDomains t' = trackedDomains t"
    "\<And>ip. map_of (trackedIPs t') ip = (if domains_at ps ip = {} then None else Some (domains_at ps ip))"
    "set new = {ip. domains_at ps ip \<noteq> {} \<and> map_of (trackedIPs t) ip = None}"
    "set gone = {ip. domains_at ps ip = {} \<and> map_of (trackedIPs t) ip \<noteq> None}"
    by (rule refresh_cases [where registry = registry, OF wf ps_def]) blast
  have W: "ip \<in> W \<longleftrightarrow> map_of (trackedIPs t) ip \<noteq> None" for ip
    using ex by (auto simp: tracker_exact_def live_ips_def)
  have "fold apply_call (map Track new @ map Untrack gone) W = {ip. domains_at ps ip \<noteq> {}}"
    using W r(4,5) by (auto simp: fold_Track fold_Untrack)
  moreover have "live_ips (trackedIPs t') = {ip. domains_at ps ip \<noteq> {}}"
    using r(3) by (auto simp: live_ips_def)
  ultimately show ?thesis
    using r(1-3) ex tracker_ok_refresh [OF ok, of qf rs] Subscription by (auto simp: tracker_exact_def)
qed

lemma tracker_exact_run:
  "tracker_exact S t W \<Longrightarrow> finite S \<Longrightarrow> card S \<le> limit (trackedDomains t) \<Longrightarrow> '''' \<notin> S \<Longrightarrow>
   \<forall>e\<in>set es. set (event_domain e) \<subseteq> S \<Longrightarrow>
   \<exists>t' calls. tracker_run touch registry qf t es = Some (t', calls) \<and> tracker_exact S t' (fold apply_call calls W)"
proof (induction es arbitrary: t W)
  case (Cons e es)
  obtain t1 calls where "tracker_step touch registry qf t e = Some (t1, calls)"
    "tracker_exact S t1 (fold apply_call calls W)" "limit (trackedDomains t1) = limit (trackedDomains t)"
    using tracker_exact_step [OF Cons.prems(1-4), of e qf] Cons.prems(5) by auto
  with Cons.IH [of t1 "fold apply_call calls W"] Cons.prems show ?case by (fastforce simp: fold_append)
qed simp

end

section \<open>The tracker on the priority-limited transcript\<close>

lemma tracker_ok_Start:
  assumes "cap \<noteq> 0"
  shows "plt.tracker_ok (Start (NewPriorityLimitedTranscript cap)) {}"
    "plt.tracker_exact S (Start (NewPriorityLimitedTranscript cap)) {}"
  using sound_New [OF assms] by (simp_all add: plt.tracker_ok_def plt.tracker_exact_def Start_def live_ips_def)

lemma t_cap_Start: "t_cap (trackedDomains (Start (NewPriorityLimitedTranscript cap))) = cap"
  by (simp add: Start_def NewPriorityLimitedTranscript_def)

text \<open>C19: whatever sequence of monitored hosts (of non-empty name) and record updates the
  tracker receives, with a transcript of positive capacity it never panics; every domain
  a tracked IP is remembered for is in the transcript's registry, which stays within its
  capacity; and the health watcher is left tracking only IPs that such a domain refers
  to.\<close>

theorem tracker_run_sound:
  assumes "cap \<noteq> 0" "named_events es"
  shows "\<exists>t calls. tracker_run Touch Registry qf (Start (NewPriorityLimitedTranscript cap)) es = Some (t, calls) \<and>
    watched calls \<subseteq> live_ips (trackedIPs t) \<and> length (Registry (trackedDomains t)) \<le> unat cap \<and>
    (\<forall>ip ds. map_of (trackedIPs t) ip = Some ds \<longrightarrow> ds \<subseteq> set (Registry (trackedDomains t)))"
proof -
  obtain t calls where t: "tracker_run Touch Registry qf (Start (NewPriorityLimitedTranscript cap)) es = Some (t, calls)"
    "plt.tracker_ok t (watched calls)" "unat (t_cap (trackedDomains t)) = unat cap"
    using plt.tracker_ok_run [OF tracker_ok_Start(1) [OF assms(1)] assms(2), of qf]
    unfolding watched_def t_cap_Start by blast
  then have r: "represents (trackedDomains t) (history_of (trackedDomains t))"
    by (simp add: plt.tracker_ok_def sound_def)
  have "length (Registry (trackedDomains t)) = card (set (history_of (trackedDomains t)))"
    using represents_facts(3,5) [OF r] by (metis distinct_card)
  also have "\<dots> \<le> unat cap" using represents_facts(1,2) [OF r] t(3) by (simp add: distinct_card)
  finally show ?thesis using t represents_facts(3) [OF r] unfolding plt.tracker_ok_def by blast
qed

definition example_events :: "tracker_event list" where
  "example_events = [HealthMonitor \<lparr>h_IP = ''ip'', h_FQDN = ''d1.''\<rparr>, HealthMonitor \<lparr>h_IP = ''ip'', h_FQDN = ''d2.''\<rparr>,
     HealthMonitor \<lparr>h_IP = ''ip2'', h_FQDN = ''d1.''\<rparr>, HealthMonitor \<lparr>h_IP = ''ip3'', h_FQDN = ''d3.''\<rparr>]"

theorem tracker_run_sound_witness:
  "\<exists>t calls. tracker_run Touch Registry (\<lambda>c rs. rs) (Start (NewPriorityLimitedTranscript 2)) example_events = Some (t, calls) \<and>
    watched calls \<subseteq> live_ips (trackedIPs t) \<and> length (Registry (trackedDomains t)) \<le> unat (2 :: 64 word) \<and>
    (\<forall>ip ds. map_of (trackedIPs t) ip = Some ds \<longrightarrow> ds \<subseteq> set (Registry (trackedDomains t)))"
proof -
  have "named_events example_events" by (auto simp: named_events_def example_events_def)
  moreover have "(2 :: 64 word) \<noteq> 0" by simp
  ultimately show ?thesis using tracker_run_sound [of 2 example_events "\<lambda>c rs. rs"] by blast
qed

text \<open>While the domains queried so far fit the transcript, so that nothing is evicted,
  the health watcher tracks exactly the IPs the tracker remembers.\<close>

theorem tracker_run_exact:
  assumes "cap \<noteq> 0" "named_events es" "length (remdups (concat (map event_domain es))) \<le> unat cap"
  shows "\<exists>t calls. tracker_run Touch Registry qf (Start (NewPriorityLimitedTranscript cap)) es = Some (t, calls) \<and>
    watched calls = live_ips (trackedIPs t) \<and> (\<forall>ip. map_of (trackedIPs t) ip \<noteq> None \<longrightarrow> ip \<in> watched calls)"
proof -
  let ?S = "set (concat (map event_domain es))"
  have S: "card ?S \<le> unat (t_cap (trackedDomains (Start (NewPriorityLimitedTranscript cap))))"
    using assms(3) by (simp add: t_cap_Start length_remdups_card_conv)
  have "'''' \<notin> set (event_domain e)" if "e \<in> set es" for e
    using assms(2) that by (cases e) (auto simp: named_events_def)
  then have ne: "'''' \<notin> ?S" by auto
  show ?thesis
    using plt.tracker_exact_run [OF tracker_ok_Start(2) [OF assms(1)] _ S ne, of es qf]
    unfolding watched_def plt.tracker_exact_def by fastforce
qed

theorem tracker_run_exact_witness:
  "\<exists>t calls. tracker_run Touch Registry (\<lambda>c rs. rs) (Start (NewPriorityLimitedTranscript 3)) example_events = Some (t, calls) \<and>
    watched calls = live_ips (trackedIPs t) \<and> (\<forall>ip. map_of (trackedIPs t) ip \<noteq> None \<longrightarrow> ip \<in> watched calls)"
proof -
  have "named_events example_events" by (auto simp: named_events_def example_events_def)
  moreover have "(3 :: 64 word) \<noteq> 0" by simp
  moreover have "length (remdups (concat (map event_domain example_events))) \<le> unat (3 :: 64 word)"
    by (simp add: example_events_def)
  ultimately show ?thesis using tracker_run_exact [of 3 example_events "\<lambda>c rs. rs"] by blast
qed

theorem refresh_correct_witness:
  "\<exists>t' new gone. refresh (\<lambda>t. t) (\<lambda>c rs. rs)
      \<lparr>trackedDomains = [''q-s0.q-g1.bosh.''], trackedIPs = [(''1.1.1.1'', {''q-s0.q-g1.bosh.''})]\<rparr> [] =
      (t', map Track new @ map Untrack gone) \<and>
    trackedDomains t' = [''q-s0.q-g1.bosh.''] \<and> wf_map (trackedIPs t') \<and>
    (\<forall>ip. map_of (trackedIPs t') ip = None) \<and> distinct new \<and> set new = {} \<and> distinct gone \<and> set gone = {''1.1.1.1''}"
proof -
  have "references (\<lambda>c rs. rs) [] [''q-s0.q-g1.bosh.''] = []"
    by (auto simp: references_def split: sum.splits)
  moreover have "{ip. \<exists>y. (if ip = ''1.1.1.1'' then Some {''q-s0.q-g1.bosh.''} else None) = Some y} = {''1.1.1.1''}"
    by auto
  ultimately show ?thesis
    using refresh_correct [of "\<lparr>trackedDomains = [''q-s0.q-g1.bosh.''], trackedIPs = [(''1.1.1.1'', {''q-s0.q-g1.bosh.''})]\<rparr>"
        "[]" "\<lambda>c rs. rs" "[]" "\<lambda>t. t"]
    by (simp add: domains_at_def)
qed

text \<open>
  The two ways in which the watched IPs fall short of the remembered ones. First, the
  domains of an IP are overwritten by the latest query, so evicting that domain untracks
  an IP another remembered domain resolves to. Second, an evicted IP keeps an empty entry,
  so a refresh that finds it again takes it for tracked.
\<close>

text \<open>With room for two domains, the fourth query below evicts the domain that
  overwrote the entry of the first IP, and the health watcher is told to untrack that IP
  although the domain queried first for it is still in the registry.\<close>

theorem monitor_forgets_other_domain:
  "map_option (\<lambda>(t, calls). (Registry (trackedDomains t), calls))
     (tracker_run Touch Registry qf (Start (NewPriorityLimitedTranscript 2)) example_events) =
   Some ([''d1.'', ''d3.''], [Track ''ip'', Track ''ip'', Track ''ip2'', Untrack ''ip'', Track ''ip3''])"
  by (simp add: example_events_def monitor_def Start_def NewPriorityLimitedTranscript_def Touch_def touch_link_def
      evict_def oldest_def newest_def link_remove_def link_append_def Registry_def word_le_nat_alt)

text \<open>With room for one domain, the second query evicts the first domain and untracks
  its IP; when the records change so that the second domain resolves to that IP, the
  refresh finds its empty entry and does not track it: the tracker remembers the IP and
  the health watcher tracks nothing.\<close>

theorem refresh_skips_evicted:
  fixes r :: rec
  assumes "r_IP r = ''ip''" "r_Domain r = ''bosh.''"
  shows "\<exists>t calls. tracker_run Touch Registry (\<lambda>c rs. rs) (Start (NewPriorityLimitedTranscript 1))
       [HealthMonitor \<lparr>h_IP = ''ip'', h_FQDN = ''d1.''\<rparr>, HealthMonitor \<lparr>h_IP = ''ip2'', h_FQDN = ''d2.''\<rparr>,
        Subscription [r]] = Some (t, calls) \<and>
     trackedIPs t = [(''ip'', {''d2.''})] \<and> watched calls = {}"
proof -
  have "\<exists>c. NewCriteria ''d2.'' [''bosh.''] = Inr c"
    by (simp add: NewCriteria_def ParseQuery_def SplitN2_def BoshAgentTLD_def HasSuffix_def res_bind.simps)
  then obtain c where "NewCriteria ''d2.'' [''bosh.''] = Inr c" ..
  then show ?thesis
    using assms
    by (simp add: monitor_def refresh_def refresh_domain_def refresh_ip_def Start_def NewPriorityLimitedTranscript_def
      Touch_def touch_link_def evict_def oldest_def newest_def link_remove_def link_append_def Registry_def
      word_le_nat_alt watched_def)
qed

definition example_record :: rec where
  "example_record = \<lparr>r_ID = ''i'', r_NumID = ''1'', r_Group = ''g'', r_GroupIDs = [''1''], r_Network = ''n'', r_NetworkID = ''1'',
     r_Deployment = ''d'', r_IP = ''ip'', r_Domain = ''bosh.'', r_AZ = ''z1'', r_AZID = ''1'', r_AgentID = ''a'',
     r_InstanceIndex = ''0''\<rparr>"

theorem refresh_skips_evicted_witness:
  "\<exists>t calls. tracker_run Touch Registry (\<lambda>c rs. rs) (Start (NewPriorityLimitedTranscript 1))
       [HealthMonitor \<lparr>h_IP = ''ip'', h_FQDN = ''d1.''\<rparr>, HealthMonitor \<lparr>h_IP = ''ip2'', h_FQDN = ''d2.''\<rparr>,
        Subscription [example_record]] = Some (t, calls) \<and>
     trackedIPs t = [(''ip'', {''d2.''})] \<and> watched calls = {}"
  by (rule refresh_skips_evicted) (simp_all add: example_record_def)

end
