(* ===== verification/Health_Watcher.thy ===== *)
theory Health_Watcher
  imports Tracker
begin

text \<open>
  The health watcher and the health checker
  (\<^verbatim>\<open>src/bosh-dns/dns/server/healthiness/*.go\<close>, \<^verbatim>\<open>src/bosh-dns/healthcheck/api\<close>). The watcher
  is a state machine: the goroutines that run its methods are threads, and a step is what
  one of them does while it holds the mutex, so every interleaving of the goroutines is a
  sequence of steps. The answer of the checker is an argument of the step that stores it.
  The lemmas show that an IP has at most one check in flight, that no goroutine waits
  forever, and that the stored states are the results of the latest checks.
\<close>

section \<open>Health results and the checker\<close>

type_synonym health_status = string

record health_result =
  hr_State :: health_status
  hr_GroupState :: "(string, health_status) gomap"

definition StatusRunning :: health_status where "StatusRunning = ''running''"

definition StatusFailing :: health_status where "StatusFailing = ''failing''"

definition StateUnknown :: health_status where "StateUnknown = ''unknown''"

definition StateUnchecked :: health_status where "StateUnchecked = ''unchecked''"

definition result_of :: "health_status \<Rightarrow> health_result" where
  "result_of s = \<lparr>hr_State = s, hr_GroupState = []\<rparr>"

text \<open>\<^verbatim>\<open>net.JoinHostPort\<close> of the standard library.\<close>

definition JoinHostPort :: "string \<Rightarrow> string \<Rightarrow> string" where
  "JoinHostPort h port = (if CHR '':'' \<in> set h then ''['' @ h @ '']:'' @ port else h @ '':'' @ port)"

definition health_endpoint :: "int \<Rightarrow> string \<Rightarrow> string" where
  "health_endpoint port ip = ''https://'' @ JoinHostPort ip (itoa_int port) @ ''/health''"

text \<open>
  The HTTP client answers an endpoint with an error or with a status code and a body, which
  is what reading it gives; \<open>unmarshal\<close> is the JSON decoder into a health result. The
  error case of each is \<open>None\<close>.
\<close>

definition GetStatus ::
  "(string \<Rightarrow> (int \<times> string option) option) \<Rightarrow> (string \<Rightarrow> health_result option) \<Rightarrow> int \<Rightarrow> string \<Rightarrow> health_result" where
  "GetStatus get unmarshal port ip =
     (case get (health_endpoint port ip) of
        None \<Rightarrow> result_of StateUnknown
      | Some (code, body) \<Rightarrow>
          if code \<noteq> 200 then result_of StateUnknown
          else case body of
            None \<Rightarrow> result_of StateUnknown
          | Some bytes \<Rightarrow>
              (case unmarshal bytes of None \<Rightarrow> result_of StateUnknown | Some r \<Rightarrow> r))"

definition Disabled_GetStatus :: "string \<Rightarrow> health_result" where
  "Disabled_GetStatus ip = result_of ''''"

section \<open>The watcher\<close>

text \<open>
  Where a goroutine is: the closure submitted by \<open>Track\<close>, a call of \<open>RunCheck\<close> before it
  takes the lock, its check in flight, waiting for the check of another goroutine, woken
  by it, or returned (with no result when \<open>Track\<close> found a state).
\<close>

datatype pc =
    Submitted string
  | Calling string
  | Checking string nat
  | Waiting string nat
  | Woken string
  | Returned "health_result option"

record watcher =
  w_state :: "(string, health_result) gomap"
  w_currentChecks :: "(string, nat option) gomap"
  w_nextCond :: nat
  w_threads :: "pc list"
  w_round :: "nat list"

definition NewHealthWatcher :: watcher where
  "NewHealthWatcher = \<lparr>w_state = [], w_currentChecks = [], w_nextCond = 0, w_threads = [], w_round = []\<rparr>"

definition HealthState :: "watcher \<Rightarrow> string \<Rightarrow> health_result" where
  "HealthState w ip = (case map_of (w_state w) ip of None \<Rightarrow> result_of StateUnchecked | Some r \<Rightarrow> r)"

definition HealthStateString :: "watcher \<Rightarrow> string \<Rightarrow> string" where
  "HealthStateString w ip = hr_State (HealthState w ip)"

definition Track_submit :: "watcher \<Rightarrow> string \<Rightarrow> watcher" where
  "Track_submit w ip = w\<lparr>w_threads := w_threads w @ [Submitted ip]\<rparr>"

definition RunCheck_call :: "watcher \<Rightarrow> string \<Rightarrow> watcher" where
  "RunCheck_call w ip = w\<lparr>w_threads := w_threads w @ [Calling ip]\<rparr>"

definition Untrack_ip :: "watcher \<Rightarrow> string \<Rightarrow> watcher" where
  "Untrack_ip w ip = w\<lparr>w_state := delete_map ip (w_state w)\<rparr>"

text \<open>The condition variable of an IP; an absent key reads as nil.\<close>

definition current :: "watcher \<Rightarrow> string \<Rightarrow> nat option" where
  "current w ip = (case map_of (w_currentChecks w) ip of None \<Rightarrow> None | Some c \<Rightarrow> c)"

definition set_thread :: "nat \<Rightarrow> pc \<Rightarrow> watcher \<Rightarrow> watcher" where
  "set_thread i p w = w\<lparr>w_threads := (w_threads w)[i := p]\<rparr>"

text \<open>\<^verbatim>\<open>cond.Broadcast()\<close>\<close>

fun wake :: "nat \<Rightarrow> pc \<Rightarrow> pc" where
  "wake c (Waiting ip c') = (if c' = c then Woken ip else Waiting ip c')"
| "wake c p = p"

text \<open>The first critical section of \<open>RunCheck\<close>, up to the wait or the release of the lock.\<close>

definition RunCheck_enter :: "watcher \<Rightarrow> nat \<Rightarrow> string \<Rightarrow> watcher" where
  "RunCheck_enter w i ip =
     (case current w ip of
        Some c \<Rightarrow> set_thread i (Waiting ip c) w
      | None \<Rightarrow> set_thread i (Checking ip (w_nextCond w))
                  (w\<lparr>w_currentChecks := insert_map ip (Some (w_nextCond w)) (w_currentChecks w),
                     w_nextCond := w_nextCond w + 1\<rparr>))"

text \<open>The second critical section, with the result of the check.\<close>

definition RunCheck_finish :: "watcher \<Rightarrow> nat \<Rightarrow> string \<Rightarrow> nat \<Rightarrow> health_result \<Rightarrow> watcher" where
  "RunCheck_finish w i ip c healthInfo =
     (let w = w\<lparr>w_currentChecks := insert_map ip None (w_currentChecks w),
                w_state := insert_map ip healthInfo (w_state w)\<rparr>;
          w = w\<lparr>w_threads := map (wake c) (w_threads w)\<rparr>
      in set_thread i (Returned (Some healthInfo)) w)"

text \<open>What is left of the call after the wait: the stored state, or the zero value.\<close>

definition RunCheck_woken :: "watcher \<Rightarrow> nat \<Rightarrow> string \<Rightarrow> watcher" where
  "RunCheck_woken w i ip =
     set_thread i (Returned (Some (case map_of (w_state w) ip of None \<Rightarrow> result_of '''' | Some r \<Rightarrow> r))) w"

definition thread_step :: "watcher \<Rightarrow> nat \<Rightarrow> health_result \<Rightarrow> watcher option" where
  "thread_step w i r =
     (if i < length (w_threads w) then
        case w_threads w ! i of
          Submitted ip \<Rightarrow> Some (set_thread i (if map_of (w_state w) ip \<noteq> None then Returned None else Calling ip) w)
        | Calling ip \<Rightarrow> Some (RunCheck_enter w i ip)
        | Checking ip c \<Rightarrow> Some (RunCheck_finish w i ip c r)
        | Waiting ip c \<Rightarrow> None
        | Woken ip \<Rightarrow> Some (RunCheck_woken w i ip)
        | Returned x \<Rightarrow> None
      else None)"

text \<open>
  The tick of the timer in \<open>Run\<close>: one check for every IP with a state. The throttler
  returns, and the timer is reset, when all of them have returned.
\<close>

fun returned :: "pc \<Rightarrow> bool" where
  "returned (Returned x) = True"
| "returned p = False"

definition Run_tick :: "watcher \<Rightarrow> watcher option" where
  "Run_tick w =
     (if list_all (\<lambda>i. i < length (w_threads w) \<and> returned (w_threads w ! i)) (w_round w)
      then Some (w\<lparr>w_threads := w_threads w @ map Calling (keys (w_state w)),
                   w_round := [length (w_threads w)..<length (w_threads w) + length (w_state w)]\<rparr>)
      else None)"

datatype watcher_action =
    CallTrack string
  | CallRunCheck string
  | CallUntrack string
  | Tick
  | Step nat health_result

fun watcher_step :: "watcher \<Rightarrow> watcher_action \<Rightarrow> watcher option" where
  "watcher_step w (CallTrack ip) = Some (Track_submit w ip)"
| "watcher_step w (CallRunCheck ip) = Some (RunCheck_call w ip)"
| "watcher_step w (CallUntrack ip) = Some (Untrack_ip w ip)"
| "watcher_step w Tick = Run_tick w"
| "watcher_step w (Step i r) = thread_step w i r"

inductive reachable :: "watcher \<Rightarrow> bool" where
  start: "reachable NewHealthWatcher"
| step: "reachable w \<Longrightarrow> watcher_step w a = Some w' \<Longrightarrow> reachable w'"

section \<open>The watcher when health checks are off\<close>

definition nop_HealthState :: "string \<Rightarrow> health_result" where
  "nop_HealthState ip = result_of StatusRunning"

definition nop_HealthStateString :: "string \<Rightarrow> string" where
  "nop_HealthStateString ip = StatusRunning"

definition nop_RunCheck :: "string \<Rightarrow> health_result" where
  "nop_RunCheck ip = result_of StatusRunning"

section \<open>One check in flight per IP\<close>

definition flight_inv :: "watcher \<Rightarrow> bool" where
  "flight_inv w \<longleftrightarrow>
     (\<forall>ip c. current w ip = Some c \<longrightarrow> Checking ip c \<in> set (w_threads w)) \<and>
     (\<forall>ip c. Checking ip c \<in> set (w_threads w) \<longrightarrow> current w ip = Some c) \<and>
     (\<forall>ip c. Waiting ip c \<in> set (w_threads w) \<longrightarrow> current w ip = Some c) \<and>
     (\<forall>i j ip c c'. i < length (w_threads w) \<longrightarrow> j < length (w_threads w) \<longrightarrow>
        w_threads w ! i = Checking ip c \<longrightarrow> w_threads w ! j = Checking ip c' \<longrightarrow> i = j)"

lemma flight_invD:
  assumes "flight_inv w"
  shows "current w ip = Some c \<Longrightarrow> Checking ip c \<in> set (w_threads w)"
    "Checking ip c \<in> set (w_threads w) \<Longrightarrow> current w ip = Some c"
    "Waiting ip c \<in> set (w_threads w) \<Longrightarrow> current w ip = Some c"
    "i < length (w_threads w) \<Longrightarrow> j < length (w_threads w) \<Longrightarrow>
     w_threads w ! i = Checking ip c \<Longrightarrow> w_threads w ! j = Checking ip c' \<Longrightarrow> i = j"
  using assms unfolding flight_inv_def by blast+

lemma flight_invI:
  assumes "\<And>ip c. current w ip = Some c \<Longrightarrow> Checking ip c \<in> set (w_threads w)"
    "\<And>ip c. Checking ip c \<in> set (w_threads w) \<Longrightarrow> current w ip = Some c"
    "\<And>ip c. Waiting ip c \<in> set (w_threads w) \<Longrightarrow> current w ip = Some c"
    "\<And>i j ip c c'. i < length (w_threads w) \<Longrightarrow> j < length (w_threads w) \<Longrightarrow>
       w_threads w ! i = Checking ip c \<Longrightarrow> w_threads w ! j = Checking ip c' \<Longrightarrow> i = j"
  shows "flight_inv w"
  using assms unfolding flight_inv_def by blast

lemma current_simps [simp]:
  "current (w\<lparr>w_threads := ts\<rparr>) ip = current w ip"
  "current (w\<lparr>w_state := st\<rparr>) ip = current w ip"
  "current (w\<lparr>w_nextCond := n\<rparr>) ip = current w ip"
  "current (w\<lparr>w_round := r\<rparr>) ip = current w ip"
  "current (set_thread i p w) ip = current w ip"
  "current (w\<lparr>w_currentChecks := insert_map ip' c (w_currentChecks w)\<rparr>) ip = (if ip = ip' then c else current w ip)"
  by (simp_all add: current_def set_thread_def map_of_insert_map)

text \<open>Threads other than those that check or wait may be replaced and added freely.\<close>

fun busy :: "pc \<Rightarrow> bool" where
  "busy (Checking ip c) = True"
| "busy (Waiting ip c) = True"
| "busy p = False"

lemma flight_inv_threads:
  assumes inv: "flight_inv w" and cur: "\<And>ip. current w' ip = current w ip"
    and len: "length (w_threads w) \<le> length (w_threads w')"
    and same: "\<And>i. i < length (w_threads w') \<Longrightarrow>
      i < length (w_threads w) \<and> w_threads w' ! i = w_threads w ! i \<or>
      \<not> busy (w_threads w' ! i) \<and> (i < length (w_threads w) \<longrightarrow> \<not> busy (w_threads w ! i))"
  shows "flight_inv w'"
proof -
  have keep: "p \<in> set (w_threads w') \<longleftrightarrow> p \<in> set (w_threads w)" if "busy p" for p
    unfolding in_set_conv_nth using same len that by (metis order_less_le_trans)
  have old: "w_threads w ! i = Checking ip c \<and> i < length (w_threads w)"
    if "i < length (w_threads w')" "w_threads w' ! i = Checking ip c" for i ip c
    using same [OF that(1)] that(2) by auto
  show ?thesis
  proof (rule flight_invI, goal_cases)
    case (1 ip c)
    then show ?case using flight_invD(1) [OF inv] cur keep [of "Checking ip c"] by simp
  next
    case (2 ip c)
    then show ?case using flight_invD(2) [OF inv] cur keep [of "Checking ip c"] by simp
  next
    case (3 ip c)
    then show ?case using flight_invD(3) [OF inv] cur keep [of "Waiting ip c"] by simp
  next
    case (4 i j ip c c')
    then show ?case using old [of i ip c] old [of j ip c'] flight_invD(4) [OF inv] by blast
  qed
qed

lemma flight_inv_calls:
  assumes "flight_inv w"
  shows "flight_inv (Track_submit w ip)" "flight_inv (RunCheck_call w ip)" "flight_inv (Untrack_ip w ip)"
    "Run_tick w = Some w' \<Longrightarrow> flight_inv w'"
  by (rule flight_inv_threads [OF assms];
      auto simp: Track_submit_def RunCheck_call_def Untrack_ip_def Run_tick_def nth_append split: if_splits)+

lemma in_set_list_update:
  "i < length xs \<Longrightarrow> p \<noteq> xs ! i \<Longrightarrow> p \<in> set (xs[i := x]) \<longleftrightarrow> p = x \<or> p \<in> set xs"
  by (auto simp: in_set_conv_nth nth_list_update split: if_splits)

lemma flight_inv_enter:
  assumes inv: "flight_inv w" and i: "i < length (w_threads w)" "w_threads w ! i = Calling ip"
  shows "flight_inv (RunCheck_enter w i ip)"
proof (cases "current w ip")
  case (Some c)
  then have e: "RunCheck_enter w i ip = set_thread i (Waiting ip c) w" by (simp add: RunCheck_enter_def)
  have mem: "p \<in> set (w_threads (RunCheck_enter w i ip)) \<longleftrightarrow> p = Waiting ip c \<or> p \<in> set (w_threads w)"
    if "p \<noteq> Calling ip" for p using in_set_list_update [OF i(1)] i(2) that by (simp add: e set_thread_def)
  show ?thesis
  proof (rule flight_invI, goal_cases)
    case (4 k j ip c c')
    then show ?case using flight_invD(4) [OF inv, of k j ip c c'] i
      by (auto simp: e set_thread_def nth_list_update split: if_splits)
  next
    case (1 ip' c')
    then show ?case using flight_invD(1) [OF inv, of ip' c'] mem by (simp add: e)
  next
    case (2 ip' c')
    then show ?case using flight_invD(2) [OF inv, of ip' c'] mem by (simp add: e)
  next
    case (3 ip' c')
    then show ?case using flight_invD(3) [OF inv, of ip' c'] mem Some by (auto simp: e)
  qed
next
  case None
  let ?c = "w_nextCond w"
  have e: "w_threads (RunCheck_enter w i ip) = (w_threads w)[i := Checking ip ?c]"
    "current (RunCheck_enter w i ip) ip' = (if ip' = ip then Some ?c else current w ip')" for ip'
    using None by (simp_all add: RunCheck_enter_def set_thread_def current_def map_of_insert_map)
  have mem: "p \<in> set (w_threads (RunCheck_enter w i ip)) \<longleftrightarrow> p = Checking ip ?c \<or> p \<in> set (w_threads w)"
    if "p \<noteq> Calling ip" for p using in_set_list_update [OF i(1)] i(2) that by (simp add: e)
  have fresh: "w_threads w ! j \<noteq> Checking ip c" if "j < length (w_threads w)" for j c
    using flight_invD(2) [OF inv, of ip c] None nth_mem [OF that] by auto
  show ?thesis
  proof (rule flight_invI, goal_cases)
    case (1 ip' c)
    then show ?case using flight_invD(1) [OF inv, of ip' c] mem by (auto simp: e(2) split: if_splits)
  next
    case (2 ip' c)
    then show ?case using flight_invD(2) [OF inv, of ip' c] mem None by (auto simp: e(2))
  next
    case (3 ip' c)
    then show ?case using flight_invD(3) [OF inv, of ip' c] mem None by (auto simp: e(2))
  next
    case (4 k j ip' c c')
    then show ?case using flight_invD(4) [OF inv, of k j ip' c c'] i fresh
      by (auto simp: e(1) nth_list_update split: if_splits)
  qed
qed

lemma wake_eq: "wake c p = Checking ip c' \<longleftrightarrow> p = Checking ip c'" "wake c p = Waiting ip c' \<longleftrightarrow> p = Waiting ip c' \<and> c' \<noteq> c"
  by (cases p; auto)+

lemma flight_inv_finish:
  assumes inv: "flight_inv w" and i: "i < length (w_threads w)" "w_threads w ! i = Checking ip c"
  shows "flight_inv (RunCheck_finish w i ip c r)"
proof -
  let ?w = "RunCheck_finish w i ip c r"
  have th: "w_threads ?w = (map (wake c) (w_threads w))[i := Returned (Some r)]"
    and cur: "current ?w ip' = (if ip' = ip then None else current w ip')" for ip'
    by (simp_all add: RunCheck_finish_def Let_def set_thread_def current_def map_of_insert_map)
  have ip: "current w ip = Some c" using flight_invD(2) [OF inv] i nth_mem by metis
  have old: "w_threads w ! k = Checking ip' c' \<and> k \<noteq> i \<and> k < length (w_threads w)"
    if "k < length (w_threads ?w)" "w_threads ?w ! k = Checking ip' c'" for k ip' c'
    using that by (cases "k = i") (simp_all add: th wake_eq)
  show ?thesis
  proof (rule flight_invI, goal_cases)
    case (1 ip' c')
    then have "ip' \<noteq> ip" "Checking ip' c' \<in> set (w_threads w)" using flight_invD(1) [OF inv, of ip' c'] by (auto simp: cur split: if_splits)
    then obtain k where "k < length (w_threads w)" "w_threads w ! k = Checking ip' c'" "k \<noteq> i"
      using i(2) unfolding in_set_conv_nth by (metis pc.inject(3))
    then show ?case by (auto simp: th in_set_conv_nth nth_list_update wake_eq intro!: exI [of _ k])
  next
    case (2 ip' c')
    then obtain k where k: "k < length (w_threads ?w)" "w_threads ?w ! k = Checking ip' c'" by (auto simp: in_set_conv_nth)
    note k = old [OF k]
    then have "ip' \<noteq> ip" using flight_invD(4) [OF inv, of k i ip' c' c] i by auto
    then show ?case using flight_invD(2) [OF inv, of ip' c'] k by (auto simp: cur in_set_conv_nth)
  next
    case (3 ip' c')
    then obtain p where "p \<in> set (w_threads w)" "wake c p = Waiting ip' c'"
      using set_update_subset_insert [of "map (wake c) (w_threads w)" i "Returned (Some r)"] by (force simp: th)
    then have "Waiting ip' c' \<in> set (w_threads w)" "c' \<noteq> c" by (auto simp: wake_eq)
    then show ?case using flight_invD(3) [OF inv, of ip' c'] ip by (auto simp: cur)
  next
    case (4 k j ip' c' c'')
    then show ?case using old flight_invD(4) [OF inv] by blast
  qed
qed

lemma flight_inv_step:
  assumes inv: "flight_inv w" and st: "watcher_step w a = Some w'"
  shows "flight_inv w'"
proof (cases a)
  case (Step i r)
  then have i: "i < length (w_threads w)" and ts: "thread_step w i r = Some w'" using st by (auto simp: thread_step_def split: if_splits)
  have quiet: "flight_inv (set_thread i p w)" if "\<not> busy p" "\<not> busy (w_threads w ! i)" for p
    using that i by (intro flight_inv_threads [OF inv]) (auto simp: set_thread_def nth_list_update)
  show ?thesis
  proof (cases "w_threads w ! i")
    case (Submitted ip)
    then show ?thesis using ts i quiet by (auto simp: thread_step_def)
  next
    case (Calling ip)
    then show ?thesis using ts i flight_inv_enter [OF inv i] by (auto simp: thread_step_def)
  next
    case (Checking ip c)
    then show ?thesis using ts i flight_inv_finish [OF inv i] by (auto simp: thread_step_def)
  next
    case (Woken ip)
    then show ?thesis using ts i quiet by (auto simp: thread_step_def RunCheck_woken_def)
  qed (use ts i in \<open>auto simp: thread_step_def\<close>)
qed (use st flight_inv_calls [OF inv] in auto)

lemma reachable_flight_inv: "reachable w \<Longrightarrow> flight_inv w"
proof (induction rule: reachable.induct)
  case start
  show ?case by (simp add: flight_inv_def NewHealthWatcher_def current_def)
qed (rule flight_inv_step)

text \<open>C16: whatever the interleaving of the goroutines, an IP has at most one check in
  flight, and a goroutine that waits for a check waits for the condition variable of a
  check that is in flight.\<close>

theorem single_flight:
  assumes "reachable w"
  shows "card {i. i < length (w_threads w) \<and> (\<exists>c. w_threads w ! i = Checking ip c)} \<le> 1 \<and>
    (Waiting ip c \<in> set (w_threads w) \<longrightarrow> current w ip = Some c \<and> Checking ip c \<in> set (w_threads w))"
proof -
  note inv = flight_invD [OF reachable_flight_inv [OF assms]]
  let ?I = "{i. i < length (w_threads w) \<and> (\<exists>c. w_threads w ! i = Checking ip c)}"
  have "i = j" if "i \<in> ?I" "j \<in> ?I" for i j using that inv(4) by blast
  then have "card ?I \<le> 1" by (simp add: card_le_Suc0_iff_eq)
  with inv(1,3) show ?thesis by blast
qed

section \<open>Every goroutine returns\<close>

fun weight :: "pc \<Rightarrow> nat" where
  "weight (Submitted ip) = 5"
| "weight (Calling ip) = 4"
| "weight (Checking ip c) = 3"
| "weight (Waiting ip c) = 3"
| "weight (Woken ip) = 1"
| "weight (Returned x) = 0"

definition work_left :: "watcher \<Rightarrow> nat" where
  "work_left w = sum_list (map weight (w_threads w))"

lemma sum_list_replace: "i < length xs \<Longrightarrow> f x < f (xs ! i) \<Longrightarrow> sum_list (map f (xs[i := x])) < sum_list (map f xs)"
  for f :: "'a \<Rightarrow> nat"
proof (induction xs arbitrary: i)
  case (Cons a xs)
  then show ?case by (cases i) auto
qed simp

lemma work_left_set_thread:
  "i < length (w_threads w) \<Longrightarrow> weight p < weight (w_threads w ! i) \<Longrightarrow> work_left (set_thread i p w) < work_left w"
  by (simp add: work_left_def set_thread_def sum_list_replace del: map_update)

lemma work_left_step:
  assumes st: "thread_step w i r = Some w'"
  shows "work_left w' < work_left w \<and> length (w_threads w') = length (w_threads w)"
proof -
  have i: "i < length (w_threads w)" using st by (auto simp: thread_step_def split: if_splits)
  show ?thesis
  proof (cases "w_threads w ! i")
    case (Submitted ip)
    then show ?thesis using st i work_left_set_thread [OF i]
      by (auto simp: thread_step_def) (simp_all add: set_thread_def)
  next
    case (Calling ip)
    have "work_left (w\<lparr>w_currentChecks := cc, w_nextCond := n\<rparr>) = work_left w" for cc n by (simp add: work_left_def)
    with Calling show ?thesis using st i work_left_set_thread [OF i]
        work_left_set_thread [of i "w\<lparr>w_currentChecks := _, w_nextCond := _\<rparr>"]
      by (auto simp: thread_step_def RunCheck_enter_def split: option.splits) (simp_all add: set_thread_def)
  next
    case (Checking ip c)
    let ?ts = "map (wake c) (w_threads w)"
    have "weight (wake c p) \<le> weight p" for p by (cases p) auto
    then have "sum_list (map weight ?ts) \<le> work_left w"
      unfolding work_left_def map_map comp_def by (intro sum_list_mono)
    moreover have "sum_list (map weight (?ts[i := Returned (Some r)])) < sum_list (map weight ?ts)"
      using i Checking by (intro sum_list_replace) auto
    ultimately show ?thesis using st i Checking
      by (auto simp: thread_step_def RunCheck_finish_def Let_def work_left_def set_thread_def simp del: map_update)
  next
    case (Woken ip)
    then show ?thesis using st i work_left_set_thread [OF i]
      by (auto simp: thread_step_def RunCheck_woken_def) (simp_all add: set_thread_def)
  qed (use st i in \<open>auto simp: thread_step_def\<close>)
qed

lemma some_thread_steps:
  assumes inv: "flight_inv w" and p: "p \<in> set (w_threads w)" "\<not> returned p"
  shows "\<exists>i w'. thread_step w i r = Some w'"
proof -
  have runs: "\<exists>i w'. thread_step w i r = Some w'" if q: "q \<in> set (w_threads w)" "\<not> returned q" "\<And>ip c. q \<noteq> Waiting ip c" for q
  proof -
    obtain i where "i < length (w_threads w)" "w_threads w ! i = q" using q(1) by (auto simp: in_set_conv_nth)
    with q(2,3) show ?thesis by (cases q) (auto simp: thread_step_def intro!: exI [of _ i])
  qed
  show ?thesis
  proof (cases p)
    case (Waiting ip c)
    then have "Checking ip c \<in> set (w_threads w)" using flight_invD(1,3) [OF inv] p(1) by blast
    then show ?thesis using runs by fastforce
  qed (use p runs in auto)
qed

text \<open>A schedule of the goroutines, with the answers of the checker.\<close>

fun run_threads :: "watcher \<Rightarrow> (nat \<times> health_result) list \<Rightarrow> watcher option" where
  "run_threads w [] = Some w"
| "run_threads w ((i, r) # s) = do { w \<leftarrow> thread_step w i r; run_threads w s }"

lemma run_threads_inv:
  "flight_inv w \<Longrightarrow> run_threads w s = Some w' \<Longrightarrow>
   flight_inv w' \<and> length s + work_left w' \<le> work_left w"
proof (induction s arbitrary: w)
  case (Cons x s)
  obtain i r where x: "x = (i, r)" by (cases x)
  with Cons.prems obtain w1 where w1: "thread_step w i r = Some w1" "run_threads w1 s = Some w'"
    by (auto split: bind_splits)
  with Cons.IH [OF flight_inv_step [OF Cons.prems(1), of "Step i r"]] work_left_step [OF w1(1)] show ?case by auto
qed simp

lemma sum_weight_le: "sum_list (map weight ps) \<le> 5 * length ps"
proof (induction ps)
  case (Cons p ps)
  have "weight p \<le> 5" by (cases p) auto
  with Cons show ?case by simp
qed simp

text \<open>C17: no goroutine of the watcher is stuck. Left to themselves the goroutines take at
  most five steps each, and until all have returned one of them can take a step, whatever
  the checker answers.\<close>

theorem goroutines_return:
  assumes "reachable w" "run_threads w s = Some w'"
  shows "length s \<le> 5 * length (w_threads w) \<and>
    (list_all returned (w_threads w') \<or> (\<exists>i. thread_step w' i r \<noteq> None))"
proof -
  note F = run_threads_inv [OF reachable_flight_inv [OF assms(1)] assms(2)]
  have "work_left w \<le> 5 * length (w_threads w)"
    unfolding work_left_def by (rule sum_weight_le)
  moreover have "\<exists>i. thread_step w' i r \<noteq> None" if "\<not> list_all returned (w_threads w')"
    using that F some_thread_steps by (fastforce simp: list_all_iff)
  moreover have "length s \<le> work_left w" using F by linarith
  ultimately show ?thesis by force
qed

lemma reachable_examples:
  "reachable (RunCheck_call (RunCheck_call NewHealthWatcher ip) ip)"
  using reachable.step [OF reachable.step [OF reachable.start], of "CallRunCheck ip" _ "CallRunCheck ip"] by simp

lemma wait_example:
  "run_threads (RunCheck_call (RunCheck_call NewHealthWatcher ip) ip) [(0, r), (1, r)] =
   Some \<lparr>w_state = [], w_currentChecks = [(ip, Some 0)], w_nextCond = 1, w_threads = [Checking ip 0, Waiting ip 0], w_round = []\<rparr>"
  by (simp add: RunCheck_call_def NewHealthWatcher_def thread_step_def RunCheck_enter_def current_def set_thread_def)

lemma reachable_run_threads: "reachable w \<Longrightarrow> run_threads w s = Some w' \<Longrightarrow> reachable w'"
proof (induction s arbitrary: w)
  case (Cons x s)
  then show ?case using reachable.step [of w "Step (fst x) (snd x)"] by (cases x) (auto split: bind_splits)
qed simp

theorem single_flight_witness:
  "let w = \<lparr>w_state = [], w_currentChecks = [(''1.2.3.4'', Some 0)], w_nextCond = 1,
            w_threads = [Checking ''1.2.3.4'' 0, Waiting ''1.2.3.4'' 0], w_round = []\<rparr> in
   card {i. i < length (w_threads w) \<and> (\<exists>c. w_threads w ! i = Checking ''1.2.3.4'' c)} \<le> 1 \<and>
   current w ''1.2.3.4'' = Some 0 \<and> Checking ''1.2.3.4'' 0 \<in> set (w_threads w)"
  unfolding Let_def
  using single_flight [OF reachable_run_threads [OF reachable_examples wait_example [of "''1.2.3.4''" "result_of ''''"]],
      of "''1.2.3.4''" 0] by simp

theorem goroutines_return_witness:
  "length [(0 :: nat, result_of ''''), (1, result_of '''')] \<le>
     5 * length (w_threads (RunCheck_call (RunCheck_call NewHealthWatcher ''1.2.3.4'') ''1.2.3.4'')) \<and>
   (list_all returned [Checking ''1.2.3.4'' 0, Waiting ''1.2.3.4'' 0] \<or>
    (\<exists>i. thread_step \<lparr>w_state = [], w_currentChecks = [(''1.2.3.4'', Some 0)], w_nextCond = 1,
            w_threads = [Checking ''1.2.3.4'' 0, Waiting ''1.2.3.4'' 0], w_round = []\<rparr> i (result_of StatusRunning) \<noteq> None))"
  using goroutines_return [OF reachable_examples wait_example [of "''1.2.3.4''" "result_of ''''"], of "result_of StatusRunning"]
  by simp

section \<open>What the watcher remembers\<close>

text \<open>The log of a run: results stored and IPs untracked, in order.\<close>

definition log_of :: "watcher \<Rightarrow> watcher_action \<Rightarrow> (string \<times> health_result option) list" where
  "log_of w a =
     (case a of
        CallUntrack ip \<Rightarrow> [(ip, None)]
      | Step i r \<Rightarrow> (case w_threads w ! i of Checking ip c \<Rightarrow> [(ip, Some r)] | _ \<Rightarrow> [])
      | _ \<Rightarrow> [])"

fun watcher_run :: "watcher \<Rightarrow> watcher_action list \<Rightarrow> (watcher \<times> (string \<times> health_result option) list) option" where
  "watcher_run w [] = Some (w, [])"
| "watcher_run w (a # as) = do {
     w' \<leftarrow> watcher_step w a;
     (w'', l) \<leftarrow> watcher_run w' as;
     Some (w'', log_of w a @ l)
   }"

definition last_result :: "(string \<times> health_result option) list \<Rightarrow> string \<Rightarrow> health_result option" where
  "last_result l ip = (case map_of (rev l) ip of None \<Rightarrow> None | Some x \<Rightarrow> x)"

lemma w_state_set_thread [simp]: "w_state (set_thread i p w) = w_state w"
  by (simp add: set_thread_def)

lemma state_step:
  assumes "watcher_step w a = Some w'"
  shows "map_of (w_state w') ip =
    (case map_of (rev (log_of w a)) ip of None \<Rightarrow> map_of (w_state w) ip | Some x \<Rightarrow> x)"
proof (cases a)
  case (Step i r)
  with assms show ?thesis
    by (cases "w_threads w ! i")
       (auto simp: thread_step_def log_of_def RunCheck_enter_def RunCheck_finish_def RunCheck_woken_def Let_def
          map_of_insert_map split: if_splits option.splits)
qed (use assms in \<open>auto simp: log_of_def Track_submit_def RunCheck_call_def Untrack_ip_def Run_tick_def delete_conv'
      split: if_splits\<close>)

lemma state_run:
  "watcher_run w as = Some (w', l) \<Longrightarrow>
   map_of (w_state w') ip = (case map_of (rev l) ip of None \<Rightarrow> map_of (w_state w) ip | Some x \<Rightarrow> x)"
proof (induction as arbitrary: w l)
  case (Cons a as)
  then obtain w1 l1 where "watcher_step w a = Some w1" "watcher_run w1 as = Some (w', l1)" "l = log_of w a @ l1"
    by (auto split: bind_splits)
  with Cons.IH state_step [of w a w1 ip] show ?case by (auto simp: map_add_def split: option.splits)
qed simp

text \<open>In every run of the watcher, the health reported for an IP is the result of the
  latest check that finished since the IP was last untracked, and ``unchecked'' if there
  is none.\<close>

theorem HealthState_latest:
  assumes "watcher_run NewHealthWatcher as = Some (w, l)"
  shows "HealthState w ip = (case last_result l ip of None \<Rightarrow> result_of StateUnchecked | Some r \<Rightarrow> r)"
  using state_run [OF assms, of ip]
  by (auto simp: HealthState_def last_result_def NewHealthWatcher_def split: option.splits)

theorem HealthState_latest_witness:
  "\<exists>w l. watcher_run NewHealthWatcher [CallTrack ''10.0.0.1'', Step 0 (result_of ''''), Step 0 (result_of ''''),
       Step 0 (result_of StatusFailing)] = Some (w, l) \<and>
     HealthState w ''10.0.0.1'' = (case last_result l ''10.0.0.1'' of None \<Rightarrow> result_of StateUnchecked | Some r \<Rightarrow> r) \<and>
     last_result l ''10.0.0.1'' = Some (result_of StatusFailing)"
proof -
  let ?as = "[CallTrack ''10.0.0.1'', Step 0 (result_of ''''), Step 0 (result_of ''''), Step 0 (result_of StatusFailing)]"
  obtain w l where r: "watcher_run NewHealthWatcher ?as = Some (w, l)" "l = [(''10.0.0.1'', Some (result_of StatusFailing))]"
    by (simp add: NewHealthWatcher_def Track_submit_def thread_step_def set_thread_def RunCheck_enter_def current_def
        RunCheck_finish_def Let_def log_of_def)
  with HealthState_latest [OF r(1), of "''10.0.0.1''"] show ?thesis by (auto simp: last_result_def)
qed

text \<open>Untracking an IP while its check is in flight has no lasting effect: the check
  stores its result afterwards, and the next tick checks the IP again.\<close>

theorem Untrack_in_flight_undone:
  "\<exists>w l w'. watcher_run NewHealthWatcher [CallTrack ip, Step 0 r, Step 0 r, CallUntrack ip, Step 0 r] = Some (w, l) \<and>
     HealthState w ip = r \<and> Run_tick w = Some w' \<and> Calling ip \<in> set (w_threads w')"
  by (simp add: NewHealthWatcher_def Track_submit_def thread_step_def set_thread_def RunCheck_enter_def current_def
      RunCheck_finish_def Let_def log_of_def Untrack_ip_def HealthState_def Run_tick_def)

section \<open>The watcher as the tracker's healther\<close>

text \<open>
  The tracker calls \<open>Track\<close> and \<open>Untrack\<close> one after the other; in between, in any order, the
  goroutines of the watcher move, the timer ticks and requests run checks of their own.
\<close>

fun tracker_call :: "watcher_action \<Rightarrow> healther_call option" where
  "tracker_call (CallTrack ip) = Some (Track ip)"
| "tracker_call (CallUntrack ip) = Some (Untrack ip)"
| "tracker_call a = None"

definition calls_in :: "watcher_action list \<Rightarrow> healther_call list" where
  "calls_in as = List.map_filter tracker_call as"

fun action_effect :: "watcher_action \<Rightarrow> string set \<Rightarrow> string set" where
  "action_effect (CallTrack ip) W = insert ip W"
| "action_effect (CallUntrack ip) W = W - {ip}"
| "action_effect a W = W"

lemma calls_in_effect: "fold apply_call (calls_in as) W = fold action_effect as W"
proof (induction as arbitrary: W)
  case (Cons a as)
  then show ?case by (cases a) (simp_all add: calls_in_def map_filter_simps)
qed (simp add: calls_in_def map_filter_simps)

text \<open>A goroutine that is on its way to a check of an IP.\<close>

fun will_check :: "string \<Rightarrow> pc \<Rightarrow> bool" where
  "will_check ip (Submitted ip') \<longleftrightarrow> ip' = ip"
| "will_check ip (Calling ip') \<longleftrightarrow> ip' = ip"
| "will_check ip (Checking ip' c) \<longleftrightarrow> ip' = ip"
| "will_check ip p \<longleftrightarrow> False"

definition on_its_way :: "watcher \<Rightarrow> string \<Rightarrow> bool" where
  "on_its_way w ip \<longleftrightarrow> (\<exists>p\<in>set (w_threads w). will_check ip p)"

lemma on_its_way_nth: "on_its_way w ip \<longleftrightarrow> (\<exists>i<length (w_threads w). will_check ip (w_threads w ! i))"
  unfolding on_its_way_def by (metis in_set_conv_nth)

definition has_state :: "watcher \<Rightarrow> string \<Rightarrow> bool" where
  "has_state w ip \<longleftrightarrow> map_of (w_state w) ip \<noteq> None"

lemma will_check_wake [simp]: "will_check ip (wake c p) = will_check ip p"
  by (cases p) auto

text \<open>A step of a goroutine: it stays on its way, or the IP has a state, or another goroutine is checking it.\<close>

lemma thread_step_kept:
  assumes inv: "flight_inv w" and st: "thread_step w i r = Some w'" and old: "has_state w ip \<or> on_its_way w ip"
  shows "has_state w' ip \<or> on_its_way w' ip"
proof -
  have i: "i < length (w_threads w)" using st by (auto simp: thread_step_def split: if_splits)
  note D = thread_step_def set_thread_def RunCheck_enter_def RunCheck_finish_def RunCheck_woken_def Let_def
  have len: "length (w_threads w') = length (w_threads w)" using st i by (auto simp: D split: pc.splits option.splits)
  have has_state: "has_state w ip \<Longrightarrow> has_state w' ip" using st i by (auto simp: D has_state_def split: pc.splits option.splits if_splits)
  have others: "will_check ip (w_threads w' ! j)" if "will_check ip (w_threads w ! j)" "j \<noteq> i" "j < length (w_threads w)" for j
    using st i that by (auto simp: D split: pc.splits option.splits)
  have own: "has_state w' ip \<or> on_its_way w' ip" if own: "will_check ip (w_threads w ! i)"
  proof (cases "w_threads w ! i")
    case (Calling a)
    show ?thesis
    proof (cases "current w ip")
      case None
      then have "will_check ip (w_threads w' ! i)" using st i own Calling by (auto simp: D)
      then show ?thesis using i len by (auto simp: on_its_way_nth)
    next
      case (Some c)
      then obtain j where j: "j < length (w_threads w)" "w_threads w ! j = Checking ip c"
        using flight_invD(1) [OF inv, of ip c] by (auto simp: in_set_conv_nth)
      then have "will_check ip (w_threads w' ! j)" using Calling others [of j] by (cases "j = i") auto
      then show ?thesis using j len by (auto simp: on_its_way_nth)
    qed
  next
    case (Submitted a)
    then have "has_state w' ip \<or> will_check ip (w_threads w' ! i)" using st i own by (auto simp: D has_state_def split: if_splits)
    then show ?thesis using i len by (auto simp: on_its_way_nth)
  qed (use own st i in \<open>auto simp: D has_state_def\<close>)
  show ?thesis
  proof (cases "has_state w ip")
    case False
    then obtain j where "j < length (w_threads w)" "will_check ip (w_threads w ! j)" using old by (auto simp: on_its_way_nth)
    then show ?thesis using own others len by (cases "j = i") (auto simp: on_its_way_nth)
  qed (use has_state in simp)
qed

lemma thread_step_no_other:
  assumes st: "thread_step w i r = Some w'" and "has_state w' ip \<or> on_its_way w' ip"
  shows "has_state w ip \<or> on_its_way w ip"
proof -
  have i: "i < length (w_threads w)" using st by (auto simp: thread_step_def split: if_splits)
  note D = thread_step_def set_thread_def RunCheck_enter_def RunCheck_finish_def RunCheck_woken_def Let_def
  have len: "length (w_threads w') = length (w_threads w)" using st i by (auto simp: D split: pc.splits option.splits)
  have "will_check ip (w_threads w ! j)" if "will_check ip (w_threads w' ! j)" "j < length (w_threads w)" for j
    using st i that by (cases "j = i") (auto simp: D split: pc.splits option.splits if_splits)
  moreover have "will_check ip (w_threads w ! i)" if "has_state w' ip" "\<not> has_state w ip"
    using st i that by (auto simp: D has_state_def split: pc.splits option.splits if_splits)
  ultimately show ?thesis using assms(2) i len by (auto simp: on_its_way_nth)
qed

text \<open>An IP is in hand when it has a state or a goroutine is on its way to check it.\<close>

definition in_hand :: "watcher \<Rightarrow> string set" where
  "in_hand w = {ip. has_state w ip \<or> on_its_way w ip}"

lemma in_hand_calls:
  "in_hand (Track_submit w ip) = insert ip (in_hand w)" "in_hand (RunCheck_call w ip) = insert ip (in_hand w)"
  "in_hand w - {ip} \<subseteq> in_hand (Untrack_ip w ip)" "\<not> on_its_way w ip \<Longrightarrow> in_hand (Untrack_ip w ip) = in_hand w - {ip}"
  "Run_tick w = Some w' \<Longrightarrow> in_hand w' = in_hand w"
proof -
  assume "Run_tick w = Some w'"
  then have w': "w_threads w' = w_threads w @ map Calling (keys (w_state w))" "w_state w' = w_state w"
    by (auto simp: Run_tick_def split: if_splits)
  have "has_state w ip \<longleftrightarrow> ip \<in> set (keys (w_state w))" for ip by (simp only: has_state_def map_of_None_keys not_not)
  then have "on_its_way w' ip \<longleftrightarrow> on_its_way w ip \<or> has_state w ip" for ip
    unfolding on_its_way_def w' by (simp del: set_map add: bex_Un) (auto simp: image_iff)
  then show "in_hand w' = in_hand w" using w'(2) by (auto simp: in_hand_def has_state_def)
qed (auto simp: Track_submit_def RunCheck_call_def Untrack_ip_def in_hand_def on_its_way_def has_state_def delete_conv' split: if_splits)

text \<open>
  What the calls ask for: a check that a request runs is of a tracked IP, and no IP is
  untracked while a goroutine is on its way to check it.
\<close>

fun orderly_action :: "string set \<Rightarrow> watcher \<Rightarrow> watcher_action \<Rightarrow> bool" where
  "orderly_action W w (CallUntrack ip) \<longleftrightarrow> \<not> on_its_way w ip"
| "orderly_action W w (CallRunCheck ip) \<longleftrightarrow> ip \<in> W"
| "orderly_action W w a \<longleftrightarrow> True"

fun orderly :: "string set \<Rightarrow> watcher \<Rightarrow> watcher_action list \<Rightarrow> bool" where
  "orderly W w [] \<longleftrightarrow> True"
| "orderly W w (a # as) \<longleftrightarrow> orderly_action W w a \<and>
     (case watcher_step w a of None \<Rightarrow> True | Some w' \<Rightarrow> orderly (action_effect a W) w' as)"

lemma in_hand_step:
  assumes "flight_inv w" "watcher_step w a = Some w'"
  shows "W \<subseteq> in_hand w \<Longrightarrow> action_effect a W \<subseteq> in_hand w'"
    "orderly_action W w a \<Longrightarrow> in_hand w \<subseteq> W \<Longrightarrow> in_hand w' \<subseteq> action_effect a W"
proof -
  have "W \<subseteq> in_hand w \<Longrightarrow> W \<subseteq> in_hand w'" "in_hand w \<subseteq> W \<Longrightarrow> in_hand w' \<subseteq> W" if "thread_step w i r = Some w'" for i r
    using thread_step_kept [OF assms(1) that] thread_step_no_other [OF that] by (auto simp: in_hand_def)
  note thread = this
  show "W \<subseteq> in_hand w \<Longrightarrow> action_effect a W \<subseteq> in_hand w'"
  proof (cases a)
    case (CallUntrack ip)
    assume "W \<subseteq> in_hand w"
    then show ?thesis using assms(2) CallUntrack in_hand_calls(3) [of w ip] by auto
  qed (use assms(2) thread in_hand_calls(1,2,5) in auto)
  show "orderly_action W w a \<Longrightarrow> in_hand w \<subseteq> W \<Longrightarrow> in_hand w' \<subseteq> action_effect a W"
    using assms(2) thread in_hand_calls(1,2,4,5) by (cases a) auto
qed

lemma in_hand_run:
  assumes "reachable w" "watcher_run w as = Some (w', l)"
  shows "W \<subseteq> in_hand w \<Longrightarrow> fold action_effect as W \<subseteq> in_hand w'"
    "orderly W w as \<Longrightarrow> in_hand w \<subseteq> W \<Longrightarrow> in_hand w' \<subseteq> fold action_effect as W"
  using assms
proof (induction as arbitrary: w W l)
  case (Cons a as)
  case 1
  then obtain w1 l1 where w1: "watcher_step w a = Some w1" "watcher_run w1 as = Some (w', l1)" by (auto split: bind_splits)
  then show ?case using Cons.IH(1) [OF _ reachable.step [OF 1(2) w1(1)] w1(2)] in_hand_step(1) [OF reachable_flight_inv [OF 1(2)] w1(1) 1(1)] by simp
next
  case (Cons a as)
  case 2
  then obtain w1 l1 where w1: "watcher_step w a = Some w1" "watcher_run w1 as = Some (w', l1)" by (auto split: bind_splits)
  then show ?case using Cons.IH(2) [OF _ _ reachable.step [OF 2(3) w1(1)] w1(2)] in_hand_step(2) [OF reachable_flight_inv [OF 2(3)] w1(1) _ 2(2)] 2(1) by simp
qed simp_all

lemma in_hand_settled: "list_all returned (w_threads w) \<Longrightarrow> in_hand w = {ip. has_state w ip}"
proof -
  have "returned p \<Longrightarrow> \<not> will_check ip p" for p ip by (cases p) auto
  then show "list_all returned (w_threads w) \<Longrightarrow> in_hand w = {ip. has_state w ip}" by (auto simp: in_hand_def on_its_way_def list_all_iff)
qed

lemma in_hand_New: "in_hand NewHealthWatcher = {}"
  by (simp add: in_hand_def has_state_def on_its_way_def NewHealthWatcher_def)

text \<open>
  C29: Tracker and health watcher together, over every interleaving of the tracker's calls with the
  goroutines of the watcher, its ticks and the checks of requests: once the goroutines have
  returned, every IP that the tracker has told the watcher to track, and not to untrack since,
  is one a remembered domain refers to, and the health reported for it is the result of a
  check that finished since it was last untracked. If no IP was untracked while a
  goroutine was on its way to check it, and requests ran checks of tracked IPs only, every
  other IP is reported unchecked.
\<close>

theorem tracker_drives_watcher:
  assumes "cap \<noteq> 0" "named_events es" "tracker_run Touch Registry qf (Start (NewPriorityLimitedTranscript cap)) es = Some (t, calls)"
    and "calls_in as = calls" "watcher_run NewHealthWatcher as = Some (w, l)" "list_all returned (w_threads w)"
  shows "watched calls \<subseteq> live_ips (trackedIPs t) \<and>
    (\<forall>ip\<in>watched calls. \<exists>r. last_result l ip = Some r \<and> HealthState w ip = r) \<and>
    (orderly {} NewHealthWatcher as \<longrightarrow> (\<forall>ip. ip \<notin> watched calls \<longrightarrow> HealthState w ip = result_of StateUnchecked))"
proof -
  have ok: "plt.tracker_ok t (watched calls)"
    using plt.tracker_ok_run [OF tracker_ok_Start(1) [OF assms(1)] assms(2), of qf] assms(3) unfolding watched_def by auto
  have W: "watched calls = fold action_effect as {}" using calls_in_effect [of as "{}"] assms(4) by (simp add: watched_def)
  note run = in_hand_run [OF reachable.start assms(5)] and settled = in_hand_settled [OF assms(6)]
  have state: "map_of (w_state w) ip = last_result l ip" for ip
    using state_run [OF assms(5), of ip] by (simp add: last_result_def NewHealthWatcher_def split: option.splits)
  have "has_state w ip" if "ip \<in> watched calls" for ip using run(1) [of "{}"] settled that unfolding W by auto
  then have "\<forall>ip\<in>watched calls. \<exists>r. last_result l ip = Some r \<and> HealthState w ip = r"
    by (fastforce simp: has_state_def state HealthState_def split: option.splits)
  moreover have "HealthState w ip = result_of StateUnchecked" if "orderly {} NewHealthWatcher as" "ip \<notin> watched calls" for ip
  proof -
    have "\<not> has_state w ip" using run(2) [OF that(1)] in_hand_New settled that(2) unfolding W by auto
    then show ?thesis by (simp add: has_state_def HealthState_def)
  qed
  ultimately show ?thesis using ok unfolding plt.tracker_ok_def by blast
qed

text \<open>With room for one domain the second query untracks the IP of the first, here after its check.\<close>

definition example_queries :: "tracker_event list" where
  "example_queries = [HealthMonitor \<lparr>h_IP = ''ip1'', h_FQDN = ''d1.''\<rparr>, HealthMonitor \<lparr>h_IP = ''ip2'', h_FQDN = ''d2.''\<rparr>]"

definition example_actions :: "watcher_action list" where
  "example_actions = [CallTrack ''ip1'', Step 0 (result_of ''''), Step 0 (result_of ''''), Step 0 (result_of StatusFailing), CallUntrack ''ip1'',
     CallTrack ''ip2'', Step 1 (result_of ''''), Step 1 (result_of ''''), Step 1 (result_of StatusRunning)]"

theorem tracker_drives_watcher_witness:
  "\<exists>t calls w l. tracker_run Touch Registry (\<lambda>c rs. rs) (Start (NewPriorityLimitedTranscript 1)) example_queries = Some (t, calls) \<and>
     calls_in example_actions = calls \<and> watcher_run NewHealthWatcher example_actions = Some (w, l) \<and>
     HealthState w ''ip2'' = result_of StatusRunning \<and> HealthState w ''ip1'' = result_of StateUnchecked"
proof -
  obtain t calls where t: "tracker_run Touch Registry (\<lambda>c rs. rs) (Start (NewPriorityLimitedTranscript 1)) example_queries = Some (t, calls)"
    "calls = [Track ''ip1'', Untrack ''ip1'', Track ''ip2'']"
    by (simp add: example_queries_def monitor_def Start_def NewPriorityLimitedTranscript_def Touch_def touch_link_def
        evict_def oldest_def newest_def link_remove_def link_append_def Registry_def word_le_nat_alt)
  have a: "calls_in example_actions = calls" by (simp add: t(2) example_actions_def calls_in_def map_filter_simps)
  note E = example_actions_def NewHealthWatcher_def Track_submit_def Untrack_ip_def thread_step_def set_thread_def RunCheck_enter_def current_def
    RunCheck_finish_def Let_def log_of_def
  obtain w l where w: "watcher_run NewHealthWatcher example_actions = Some (w, l)"
    and r: "last_result l ''ip2'' = Some (result_of StatusRunning)" "list_all returned (w_threads w)"
    by (simp add: E last_result_def)
  have o: "orderly {} NewHealthWatcher example_actions" by (simp add: E on_its_way_def)
  have n: "named_events example_queries" by (simp add: named_events_def example_queries_def)
  have "''ip2'' \<in> watched calls" "''ip1'' \<notin> watched calls" by (simp_all add: t(2) watched_def)
  then show ?thesis using tracker_drives_watcher [OF _ n t(1) a w r(2)] o t(1) a w r(1) by fastforce
qed

end
