(* ===== verification/Health_Filter.thy ===== *)
theory Health_Filter
  imports Health_Watcher
begin

text \<open>
  The record filters (\<^verbatim>\<open>src/bosh-dns/dns/server/records/{query_filter,health_filter,filterer_factory,reducer}.go\<close>).
  The query filter keeps the records that match the criteria. The health filter applies
  it and then the health strategy of the query. What it does on the way (hosts sent to
  the tracker, checks submitted, the wait for them) is returned as a list of effects; the
  health states are read from the watcher twice, before the checks and after the wait, so
  the two readings are separate arguments.
\<close>

section \<open>The query filter\<close>

text \<open>A \<^verbatim>\<open>MatchMaker\<close> is a map of criteria or some other implementation of the interface.\<close>

datatype match_maker = CriteriaMaker criteria | OtherMaker matcher

fun matcher_of :: "match_maker \<Rightarrow> matcher" where
  "matcher_of (CriteriaMaker c) = Matcher c"
| "matcher_of (OtherMaker m) = m"

fun match_loop :: "matcher \<Rightarrow> rec list \<Rightarrow> rec list" where
  "match_loop m [] = []"
| "match_loop m (r # rs) = (if m r then r # match_loop m rs else match_loop m rs)"

definition QueryFilter_Filter :: "match_maker \<Rightarrow> rec list \<Rightarrow> rec list" where
  "QueryFilter_Filter mm recs = match_loop (matcher_of mm) recs"

section \<open>The health filter\<close>

text \<open>Reading a Go map of slices: an absent key is the empty slice.\<close>

definition crit_values :: "criteria \<Rightarrow> string \<Rightarrow> string list" where
  "crit_values c k = (case map_of c k of None \<Rightarrow> [] | Some vs \<Rightarrow> vs)"

fun group_states :: "(string, health_status) gomap \<Rightarrow> string list \<Rightarrow> health_status \<Rightarrow> health_status" where
  "group_states gs [] healthState = healthState"
| "group_states gs (groupID # ids) healthState =
     (case map_of gs groupID of
        None \<Rightarrow> group_states gs ids healthState
      | Some groupState \<Rightarrow>
          if groupState = StatusFailing then StatusFailing else group_states gs ids groupState)"

definition interpretHealthState :: "(string \<Rightarrow> health_result) \<Rightarrow> string \<Rightarrow> string list \<Rightarrow> health_status" where
  "interpretHealthState w ip queriedGroupIDs =
     group_states (hr_GroupState (w ip)) queriedGroupIDs (hr_State (w ip))"

fun sort_loop ::
  "(string \<Rightarrow> health_result) \<Rightarrow> string list \<Rightarrow> rec list \<Rightarrow> rec list \<times> rec list \<times> rec list \<times> rec list \<Rightarrow>
   rec list \<times> rec list \<times> rec list \<times> rec list" where
  "sort_loop w gs [] acc = acc"
| "sort_loop w gs (r # rs) (healthy, unhealthy, unknown, unchecked) =
     (let s = interpretHealthState w (r_IP r) gs in
      sort_loop w gs rs
        (if s = StatusRunning then (healthy @ [r], unhealthy, unknown, unchecked)
         else if s = StatusFailing then (healthy, unhealthy @ [r], unknown, unchecked)
         else if s = StateUnknown then (healthy, unhealthy, unknown @ [r], unchecked)
         else if s = StateUnchecked then (healthy, unhealthy, unknown, unchecked @ [r])
         else (healthy, unhealthy, unknown, unchecked)))"

definition sortRecords ::
  "(string \<Rightarrow> health_result) \<Rightarrow> rec list \<Rightarrow> string list \<Rightarrow> rec list \<times> rec list \<times> rec list" where
  "sortRecords w records gs =
     (let (healthy, unhealthy, unknown, unchecked) = sort_loop w gs records ([], [], [], [])
      in (healthy, unhealthy, healthy @ unchecked))"

text \<open>What the filter does besides choosing records.\<close>

datatype filter_effect = SendHost host | SubmitCheck string | WaitForChecks

definition synchronousHealthCheck :: "(string \<Rightarrow> health_result) \<Rightarrow> string \<Rightarrow> string \<Rightarrow> bool \<times> filter_effect list" where
  "synchronousHealthCheck w strategy ip =
     (if strategy = ''1''
      then (True, if hr_State (w ip) = StateUnchecked then [SubmitCheck ip] else [])
      else (False, []))"

fun process_loop :: "(string \<Rightarrow> health_result) \<Rightarrow> criteria \<Rightarrow> rec list \<Rightarrow> bool \<Rightarrow> bool \<times> filter_effect list" where
  "process_loop w crit [] used = (used, [])"
| "process_loop w crit (r # rs) used =
     (case map_of crit ''fqdn'' of
        None \<Rightarrow> process_loop w crit rs used
      | Some fqdn \<Rightarrow>
          (let (u, es) = (case crit_values crit ''y'' of
                            [] \<Rightarrow> (False, [])
                          | y # ys \<Rightarrow> synchronousHealthCheck w y (r_IP r));
               (used', es') = process_loop w crit rs (used \<or> u)
           in (used', SendHost \<lparr>h_IP = r_IP r, h_FQDN = hd fqdn\<rparr> # es @ es')))"

definition processRecords :: "(string \<Rightarrow> health_result) \<Rightarrow> criteria \<Rightarrow> rec list \<Rightarrow> filter_effect list" where
  "processRecords w crit records =
     (let (used, es) = process_loop w crit records False
      in if used then es @ [WaitForChecks] else es)"

text \<open>The criteria the filter works with: those it is given, or what the empty name gives.\<close>

fun filter_criteria :: "match_maker \<Rightarrow> criteria" where
  "filter_criteria (CriteriaMaker c) = c"
| "filter_criteria (OtherMaker m) = (case NewCriteria '''' [] of Inl e \<Rightarrow> [] | Inr c \<Rightarrow> c)"

definition healthStrategy :: "criteria \<Rightarrow> string" where
  "healthStrategy crit = (case crit_values crit ''s'' of [] \<Rightarrow> ''0'' | s # ss \<Rightarrow> s)"

definition filter_tracks :: "bool \<Rightarrow> criteria \<Rightarrow> rec list \<Rightarrow> bool" where
  "filter_tracks shouldTrack crit records =
     (let skipTracking = (healthStrategy crit = ''0'' \<and> length records = 1)
      in shouldTrack \<and> \<not> skipTracking)"

definition choose_records :: "(string \<Rightarrow> health_result) \<Rightarrow> criteria \<Rightarrow> rec list \<Rightarrow> rec list" where
  "choose_records w crit records =
     (let (healthy, unhealthy, maybeHealthy) = sortRecords w records (crit_values crit ''g'') in
      if healthStrategy crit = ''1'' then unhealthy
      else if healthStrategy crit = ''3'' then healthy
      else if healthStrategy crit = ''4'' then records
      else if maybeHealthy = [] then records else maybeHealthy)"

definition healthFilter_Filter ::
  "(match_maker \<Rightarrow> rec list \<Rightarrow> rec list) \<Rightarrow> bool \<Rightarrow> (string \<Rightarrow> health_result) \<Rightarrow> (string \<Rightarrow> health_result) \<Rightarrow>
   match_maker \<Rightarrow> rec list \<Rightarrow> filter_effect list \<times> rec list" where
  "healthFilter_Filter nextFilter shouldTrack before after mm recs =
     (let crit = filter_criteria mm;
          records = nextFilter (CriteriaMaker crit) recs;
          effects = (if filter_tracks shouldTrack crit records then processRecords before crit records else [])
      in (effects, choose_records after crit records))"

section \<open>The contract of a filter\<close>

text \<open>What the users of a filter rely on: it invents no record and keeps to the criteria.\<close>

locale filterer =
  fixes flt :: "criteria \<Rightarrow> rec list \<Rightarrow> rec list"
  assumes flt_matching: "r \<in> set (flt c rs) \<Longrightarrow> r \<in> set rs \<and> Matcher c r"
begin

lemma flt_none: "(\<And>r. r \<in> set rs \<Longrightarrow> \<not> Matcher c r) \<Longrightarrow> flt c rs = []"
proof -
  assume "\<And>r. r \<in> set rs \<Longrightarrow> \<not> Matcher c r"
  then have "r \<notin> set (flt c rs)" for r using flt_matching [of r c rs] by blast
  then show ?thesis by (cases "flt c rs") auto
qed

end

text \<open>The query filter keeps every matching record, in order.\<close>

locale exact_filterer = filterer +
  assumes flt_all: "r \<in> set rs \<Longrightarrow> Matcher c r \<Longrightarrow> r \<in> set (flt c rs)"
begin

lemma flt_set: "set (flt c rs) = {r \<in> set rs. Matcher c r}"
  using flt_matching flt_all by blast

lemma flt_flt_set: "set (flt c (flt c' rs)) = {r \<in> set rs. Matcher c r \<and> Matcher c' r}"
  using flt_set by auto

end

lemma match_loop_filter: "match_loop m rs = filter m rs"
  by (induction rs) auto

interpretation qf: exact_filterer "\<lambda>c. QueryFilter_Filter (CriteriaMaker c)"
  by unfold_locales (auto simp: QueryFilter_Filter_def match_loop_filter)

section \<open>Sorting by health\<close>

abbreviation with_state :: "(string \<Rightarrow> health_result) \<Rightarrow> string list \<Rightarrow> health_status \<Rightarrow> rec list \<Rightarrow> rec list" where
  "with_state w gs s \<equiv> filter (\<lambda>r. interpretHealthState w (r_IP r) gs = s)"

lemmas status_defs = StatusRunning_def StatusFailing_def StateUnknown_def StateUnchecked_def

lemma status_distinct [simp]:
  "StatusRunning \<noteq> StatusFailing" "StatusRunning \<noteq> StateUnknown" "StatusRunning \<noteq> StateUnchecked"
  "StatusFailing \<noteq> StateUnknown" "StatusFailing \<noteq> StateUnchecked" "StateUnknown \<noteq> StateUnchecked"
  "StatusFailing \<noteq> StatusRunning" "StateUnknown \<noteq> StatusRunning" "StateUnchecked \<noteq> StatusRunning"
  "StateUnknown \<noteq> StatusFailing" "StateUnchecked \<noteq> StatusFailing" "StateUnchecked \<noteq> StateUnknown"
  by (simp_all add: status_defs)

lemma sort_loop_filters:
  "sort_loop w gs rs (a, b, c, d) =
     (a @ with_state w gs StatusRunning rs, b @ with_state w gs StatusFailing rs,
      c @ with_state w gs StateUnknown rs, d @ with_state w gs StateUnchecked rs)"
  by (induction rs arbitrary: a b c d) (simp_all add: Let_def)

lemma sortRecords_filters:
  "sortRecords w rs gs =
     (with_state w gs StatusRunning rs, with_state w gs StatusFailing rs,
      with_state w gs StatusRunning rs @ with_state w gs StateUnchecked rs)"
  by (simp add: sortRecords_def sort_loop_filters)

lemma choose_records_subset: "set (choose_records w c rs) \<subseteq> set rs"
  by (auto simp: choose_records_def sortRecords_filters split: if_splits)

interpretation hf: filterer "\<lambda>c rs. snd (healthFilter_Filter QueryFilter_Filter track before after (CriteriaMaker c) rs)"
  for track before after
proof
  fix r c rs
  assume "r \<in> set (snd (healthFilter_Filter QueryFilter_Filter track before after (CriteriaMaker c) rs))"
  then have "r \<in> set (QueryFilter_Filter (CriteriaMaker c) rs)"
    using choose_records_subset by (auto simp: healthFilter_Filter_def Let_def)
  then show "r \<in> set rs \<and> Matcher c r" by (rule qf.flt_matching)
qed

section \<open>Group health\<close>

definition reported_groups :: "(string, health_status) gomap \<Rightarrow> string list \<Rightarrow> health_status list" where
  "reported_groups gs ids = List.map_filter (map_of gs) ids"

lemma group_states_spec:
  "group_states gs ids s =
     (if StatusFailing \<in> set (reported_groups gs ids) then StatusFailing else last (s # reported_groups gs ids))"
  by (induction ids arbitrary: s) (auto simp: reported_groups_def map_filter_simps split: option.splits)

text \<open>C18: the health filter with the query filter behind it answers a query with the matching
  records chosen by the strategy of the query: strategy 1 the failing ones, 3 the running
  ones, 4 all of them, and any other (smart) the running ones followed by the unchecked
  ones, or all when there is none of these; so a smart query that matches a record never
  comes back empty. A record is failing as soon as one queried group of it is, and
  otherwise has the state of the last queried group it reports, if any, or its own.\<close>

theorem healthFilter_strategies:
  "snd (healthFilter_Filter QueryFilter_Filter track before after (CriteriaMaker c) rs) =
     (let ms = filter (Matcher c) rs;
          state = (\<lambda>r. let gs = reported_groups (hr_GroupState (after (r_IP r))) (crit_values c ''g'') in
                     if StatusFailing \<in> set gs then StatusFailing else last (hr_State (after (r_IP r)) # gs));
          smart = filter (\<lambda>r. state r = StatusRunning) ms @ filter (\<lambda>r. state r = StateUnchecked) ms
      in if healthStrategy c = ''1'' then filter (\<lambda>r. state r = StatusFailing) ms
         else if healthStrategy c = ''3'' then filter (\<lambda>r. state r = StatusRunning) ms
         else if healthStrategy c = ''4'' then ms
         else if smart = [] then ms else smart)"
proof -
  have s: "interpretHealthState after (r_IP r) (crit_values c ''g'') =
     (let gs = reported_groups (hr_GroupState (after (r_IP r))) (crit_values c ''g'') in
      if StatusFailing \<in> set gs then StatusFailing else last (hr_State (after (r_IP r)) # gs))" for r
    by (simp only: interpretHealthState_def group_states_spec Let_def)
  show ?thesis
    unfolding healthFilter_Filter_def Let_def snd_conv filter_criteria.simps choose_records_def
      sortRecords_filters prod.case QueryFilter_Filter_def match_loop_filter matcher_of.simps
    by (simp only: s Let_def)
qed

section \<open>Effects\<close>

definition checked_synchronously :: "criteria \<Rightarrow> bool" where
  "checked_synchronously c \<longleftrightarrow> map_of c ''fqdn'' \<noteq> None \<and> (\<exists>ys. crit_values c ''y'' = ''1'' # ys)"

lemma process_loop_spec:
  assumes "map_of c ''fqdn'' = Some [f]"
  shows "process_loop w c rs used =
    (used \<or> rs \<noteq> [] \<and> checked_synchronously c,
     concat (map (\<lambda>r. SendHost \<lparr>h_IP = r_IP r, h_FQDN = f\<rparr> #
       (if checked_synchronously c \<and> hr_State (w (r_IP r)) = StateUnchecked then [SubmitCheck (r_IP r)] else [])) rs))"
  using assms
  by (induction rs arbitrary: used)
     (auto simp: checked_synchronously_def synchronousHealthCheck_def Let_def split: list.splits)

lemma processRecords_spec:
  assumes "map_of c ''fqdn'' = Some [f]"
  shows "processRecords w c rs =
     concat (map (\<lambda>r. SendHost \<lparr>h_IP = r_IP r, h_FQDN = f\<rparr> #
       (if checked_synchronously c \<and> hr_State (w (r_IP r)) = StateUnchecked then [SubmitCheck (r_IP r)] else [])) rs) @
     (if rs \<noteq> [] \<and> checked_synchronously c then [WaitForChecks] else [])"
  by (simp add: processRecords_def process_loop_spec [OF assms])

text \<open>The health once the submitted checks have stored their results.\<close>

definition after_checks :: "(string \<Rightarrow> health_result) \<Rightarrow> filter_effect list \<Rightarrow> (string \<Rightarrow> health_result) \<Rightarrow> string \<Rightarrow> health_result" where
  "after_checks before effects checker ip = (if SubmitCheck ip \<in> set effects then checker ip else before ip)"

text \<open>A tracked query sends the tracker one host per matching record, with the queried
  name. If the query asks for synchronous checks, every matching IP that is still
  unchecked is checked, the filter waits, and when the checks have finished the smart
  strategy no longer falls back on unchecked records: it answers with the matching
  records that are running, or with all of them if none is.\<close>

theorem synchronous_checks:
  assumes "map_of c ''fqdn'' = Some [f]" and "filter_tracks track c (filter (Matcher c) rs)"
    and "checked_synchronously c" and "crit_values c ''g'' = []" and "healthStrategy c = ''0''"
    and "\<forall>ip. hr_State (checker ip) \<noteq> StateUnchecked"
    and "effects = fst (healthFilter_Filter QueryFilter_Filter track before after (CriteriaMaker c) rs)"
    and "after = after_checks before effects checker"
  shows "[e \<leftarrow> effects. \<exists>h. e = SendHost h] = map (\<lambda>r. SendHost \<lparr>h_IP = r_IP r, h_FQDN = f\<rparr>) (filter (Matcher c) rs) \<and>
    {ip. SubmitCheck ip \<in> set effects} =
      {r_IP r |r. r \<in> set rs \<and> Matcher c r \<and> hr_State (before (r_IP r)) = StateUnchecked} \<and>
    (filter (Matcher c) rs \<noteq> [] \<longrightarrow> last effects = WaitForChecks) \<and>
    snd (healthFilter_Filter QueryFilter_Filter track before after (CriteriaMaker c) rs) =
      (let up = filter (\<lambda>r. Matcher c r \<and> hr_State (after (r_IP r)) = StatusRunning) rs
       in if up = [] then filter (Matcher c) rs else up)"
proof -
  let ?ms = "filter (Matcher c) rs"
  have e: "effects = concat (map (\<lambda>r. SendHost \<lparr>h_IP = r_IP r, h_FQDN = f\<rparr> #
       (if hr_State (before (r_IP r)) = StateUnchecked then [SubmitCheck (r_IP r)] else [])) ?ms) @
       (if ?ms \<noteq> [] then [WaitForChecks] else [])"
    using assms(2,3,7) by (simp add: healthFilter_Filter_def Let_def QueryFilter_Filter_def match_loop_filter
        processRecords_spec [OF assms(1)])
  have sent: "[e \<leftarrow> concat (map (\<lambda>r. SendHost (h r) # (if P r then [SubmitCheck (g r)] else [])) rs). \<exists>h. e = SendHost h] =
    map (\<lambda>r. SendHost (h r)) rs" for h P g and rs :: "rec list"
    by (induction rs) auto
  have sub: "SubmitCheck ip \<in> set effects \<longleftrightarrow> (\<exists>r\<in>set ?ms. r_IP r = ip \<and> hr_State (before ip) = StateUnchecked)" for ip
    by (auto simp: e split: if_splits)
  have none: "with_state after [] StateUnchecked ?ms = []"
    unfolding filter_empty_conv using sub assms(6)
    by (auto simp: assms(8) after_checks_def interpretHealthState_def)
  have "snd (healthFilter_Filter QueryFilter_Filter track before after (CriteriaMaker c) rs) =
      (let up = with_state after [] StatusRunning ?ms in if up = [] then ?ms else up)"
    using none assms(4,5) by (simp add: healthFilter_Filter_def Let_def QueryFilter_Filter_def match_loop_filter
        choose_records_def sortRecords_filters)
  moreover have "with_state after [] StatusRunning ?ms = filter (\<lambda>r. Matcher c r \<and> hr_State (after (r_IP r)) = StatusRunning) rs"
    by (simp add: interpretHealthState_def conj_commute)
  moreover have "[e \<leftarrow> effects. \<exists>h. e = SendHost h] = map (\<lambda>r. SendHost \<lparr>h_IP = r_IP r, h_FQDN = f\<rparr>) ?ms"
    unfolding e filter_append sent by simp
  moreover have "?ms \<noteq> [] \<longrightarrow> last effects = WaitForChecks" by (simp add: e)
  ultimately show ?thesis using sub by auto
qed

theorem synchronous_checks_witness:
  "let c = [(''y'', [''1'']), (''fqdn'', [''q-y1.''])]; before = (\<lambda>_. result_of StateUnchecked);
       rs = [example_record, example_record\<lparr>r_IP := ''ip2''\<rparr>];
       effects = [SendHost \<lparr>h_IP = ''ip'', h_FQDN = ''q-y1.''\<rparr>, SubmitCheck ''ip'',
                  SendHost \<lparr>h_IP = ''ip2'', h_FQDN = ''q-y1.''\<rparr>, SubmitCheck ''ip2'', WaitForChecks];
       after = after_checks before effects (\<lambda>ip. result_of (if ip = ''ip'' then StatusRunning else StatusFailing))
   in healthFilter_Filter QueryFilter_Filter True before after (CriteriaMaker c) rs = (effects, [example_record])"
proof -
  let ?c = "[(''y'', [''1'']), (''fqdn'', [''q-y1.''])]" and ?b = "\<lambda>_ :: string. result_of StateUnchecked"
  let ?rs = "[example_record, example_record\<lparr>r_IP := ''ip2''\<rparr>]"
  let ?es = "[SendHost \<lparr>h_IP = ''ip'', h_FQDN = ''q-y1.''\<rparr>, SubmitCheck ''ip'',
    SendHost \<lparr>h_IP = ''ip2'', h_FQDN = ''q-y1.''\<rparr>, SubmitCheck ''ip2'', WaitForChecks]"
  let ?ch = "\<lambda>ip. result_of (if ip = ''ip'' then StatusRunning else StatusFailing)"
  let ?a = "after_checks ?b ?es ?ch"
  have m: "filter (Matcher ?c) ?rs = ?rs" by (simp add: Matcher_Cons)
  have t: "filter_tracks True ?c (filter (Matcher ?c) ?rs)" by (simp add: Matcher_Cons filter_tracks_def)
  have y: "checked_synchronously ?c" by (simp add: checked_synchronously_def crit_values_def)
  have e: "?es = fst (healthFilter_Filter QueryFilter_Filter True ?b ?a (CriteriaMaker ?c) ?rs)"
    using t m y by (simp add: healthFilter_Filter_def Let_def QueryFilter_Filter_def match_loop_filter
        processRecords_spec [of ?c "''q-y1.''"] result_of_def example_record_def)
  have "snd (healthFilter_Filter QueryFilter_Filter True ?b ?a (CriteriaMaker ?c) ?rs) = [example_record]"
    using synchronous_checks [of ?c "''q-y1.''" True ?rs ?ch ?es ?b ?a] t y e
    by (simp add: crit_values_def healthStrategy_def result_of_def Matcher_Cons after_checks_def example_record_def)
  with e show ?thesis by (simp add: Let_def prod_eq_iff)
qed

end
