(* ===== verification/Record_Set.thy ===== *)
theory Record_Set
  imports Complex_Main Alias_Encoder Aliases Health_Filter
begin

text \<open>
  The record set (\<^verbatim>\<open>src/bosh-dns/dns/server/records/record_set.go\<close>): reading the records
  file, and answering names from it. The JSON decoder is an argument: it turns the bytes of
  the file into the struct \<^verbatim>\<open>swap\<close>, or fails. A Go map is ranged over in an order the
  language leaves open, so \<open>update\<close> takes the order of the domains as an argument too.
  The lemmas give the records a file yields, and what a name resolves to.
\<close>

section \<open>The records file\<close>

text \<open>The values of an \<^verbatim>\<open>interface{}\<close> decoded from JSON; a number is a float64.\<close>

datatype json =
    JNull
  | JBool bool
  | JNum rat
  | JStr string
  | JArr "json list"
  | JObj "(string \<times> json) list"

record swap =
  sw_Keys :: "string list"
  sw_Infos :: "json list list"
  sw_Aliases :: "(string, alias_definition list) gomap"
  sw_Version :: "64 word"
  sw_Records :: "(string \<times> string) list"

text \<open>The index of a key: the last position that holds it, -1 (\<open>None\<close>) without one.\<close>

fun key_index :: "string \<Rightarrow> string list \<Rightarrow> nat \<Rightarrow> nat option \<Rightarrow> nat option" where
  "key_index k [] i idx = idx"
| "key_index k (x # xs) i idx = key_index k xs (i + 1) (if x = k then Some i else idx)"

text \<open>
  \<^verbatim>\<open>int(f)\<close> drops the fraction; out of the range of int64 the result is left to the
  implementation, and amd64 gives the least integer.
\<close>

definition float_to_int :: "rat \<Rightarrow> int" where
  "float_to_int f =
     (let i = (if f \<ge> 0 then \<lfloor>f\<rfloor> else \<lceil>f\<rceil>)
      in if - (2 ^ 63) \<le> i \<and> i < 2 ^ 63 then i else - (2 ^ 63))"

definition assertStringIntegerValue :: "json list \<Rightarrow> nat option \<Rightarrow> string" where
  "assertStringIntegerValue info fieldIdx =
     (case fieldIdx of
        None \<Rightarrow> ''''
      | Some i \<Rightarrow> (case info ! i of JNum f \<Rightarrow> itoa_int (float_to_int f) | _ \<Rightarrow> itoa_int (float_to_int 0)))"

definition convertToStringValue :: "json list \<Rightarrow> nat \<Rightarrow> string option" where
  "convertToStringValue info i = (case info ! i of JStr s \<Rightarrow> Some s | _ \<Rightarrow> None)"

definition optionalStringValue :: "json list \<Rightarrow> nat option \<Rightarrow> string option" where
  "optionalStringValue info fieldIdx =
     (case fieldIdx of
        None \<Rightarrow> Some ''''
      | Some i \<Rightarrow> if info ! i = JNull then Some '''' else convertToStringValue info i)"

definition requiredStringValue :: "json list \<Rightarrow> nat option \<Rightarrow> string option" where
  "requiredStringValue info fieldIdx =
     (case fieldIdx of None \<Rightarrow> None | Some i \<Rightarrow> convertToStringValue info i)"

fun strings_of :: "json list \<Rightarrow> string list option" where
  "strings_of [] = Some []"
| "strings_of (v # vs) = (case v of JStr s \<Rightarrow> map_option (\<lambda>ss. s # ss) (strings_of vs) | _ \<Rightarrow> None)"

definition assertStringArrayOfStringValue :: "json list \<Rightarrow> nat \<Rightarrow> string list option" where
  "assertStringArrayOfStringValue info i = (case info ! i of JArr vs \<Rightarrow> strings_of vs | _ \<Rightarrow> None)"

text \<open>One round of the loop over the infos: a record, or \<open>None\<close> for a \<^verbatim>\<open>continue\<close>.\<close>

definition info_record :: "string list \<Rightarrow> json list \<Rightarrow> rec option" where
  "info_record ks info =
     (let idx = (\<lambda>k. key_index k ks 0 None) in
      if length info \<noteq> length ks then None
      else do {
        domainIndexStr \<leftarrow> requiredStringValue info (idx ''domain'');
        let domain = Fqdn domainIndexStr;
        id \<leftarrow> requiredStringValue info (idx ''id'');
        grp \<leftarrow> requiredStringValue info (idx ''instance_group'');
        network \<leftarrow> requiredStringValue info (idx ''network'');
        deployment \<leftarrow> requiredStringValue info (idx ''deployment'');
        ip \<leftarrow> requiredStringValue info (idx ''ip'');
        az \<leftarrow> optionalStringValue info (idx ''az'');
        azid \<leftarrow> optionalStringValue info (idx ''az_id'');
        networkid \<leftarrow> optionalStringValue info (idx ''network_id'');
        numid \<leftarrow> optionalStringValue info (idx ''num_id'');
        agentid \<leftarrow> optionalStringValue info (idx ''agent_id'');
        groupids \<leftarrow> (case idx ''group_ids'' of None \<Rightarrow> Some [] | Some i \<Rightarrow> assertStringArrayOfStringValue info i);
        Some \<lparr>r_ID = id, r_NumID = numid, r_Group = grp, r_GroupIDs = groupids, r_Network = network,
              r_NetworkID = networkid, r_Deployment = deployment, r_IP = ip, r_Domain = domain, r_AZ = az,
              r_AZID = azid, r_AgentID = agentid,
              r_InstanceIndex = assertStringIntegerValue info (idx ''instance_index'')\<rparr>
      })"

fun info_loop :: "string list \<Rightarrow> json list list \<Rightarrow> rec list" where
  "info_loop ks [] = []"
| "info_loop ks (info # infos) =
     (case info_record ks info of None \<Rightarrow> info_loop ks infos | Some r \<Rightarrow> r # info_loop ks infos)"

type_synonym alias_query_encoder = "rec list \<Rightarrow> (string, alias_definition list) gomap \<Rightarrow> (string, string list) gomap"

definition createFromJSON ::
  "(string \<Rightarrow> swap option) \<Rightarrow> alias_query_encoder \<Rightarrow> string \<Rightarrow> (rec list \<times> alias_config \<times> host list \<times> 64 word) option" where
  "createFromJSON unmarshal encoder j =
     (case unmarshal j of
        None \<Rightarrow> None
      | Some sw \<Rightarrow>
          (let records = info_loop (sw_Keys sw) (sw_Infos sw) in
           case NewConfigFromMap (encoder records (sw_Aliases sw)) of
             Inl err \<Rightarrow> None
           | Inr updatedAliases \<Rightarrow>
               Some (records, updatedAliases, map (\<lambda>(ip, fqdn). \<lparr>h_IP = ip, h_FQDN = fqdn\<rparr>) (sw_Records sw), sw_Version sw)))"

section \<open>The record set\<close>

record record_set =
  rs_aliasList :: alias_config
  rs_mergedAliasList :: alias_config
  rs_domains :: "string list"
  rs_records :: "rec list"
  rs_hosts :: "host list"
  rs_version :: "64 word"

text \<open>
  Reads the file again. The second component is what is sent to the tracker, if anything.
  \<open>contents\<close> is what the file reader returns.
\<close>

definition update ::
  "(string \<Rightarrow> swap option) \<Rightarrow> alias_query_encoder \<Rightarrow> (string list \<Rightarrow> string list) \<Rightarrow> string option \<Rightarrow> record_set \<Rightarrow>
   record_set \<times> rec list list" where
  "update unmarshal encoder order contents r =
     (case contents of
        None \<Rightarrow> (r, [])
      | Some j \<Rightarrow>
          (case createFromJSON unmarshal encoder j of
             None \<Rightarrow> (r, [])
           | Some (records, updatedAliases, hosts, version) \<Rightarrow>
               (r\<lparr>rs_version := version, rs_records := records, rs_hosts := hosts,
                  rs_mergedAliasList := Merge (Merge NewConfig (rs_aliasList r)) updatedAliases,
                  rs_domains := order (remdups (map r_Domain records))\<rparr>, [records])))"

definition NewRecordSet ::
  "(string \<Rightarrow> swap option) \<Rightarrow> alias_query_encoder \<Rightarrow> (string list \<Rightarrow> string list) \<Rightarrow> string option \<Rightarrow> alias_config \<Rightarrow>
   record_set \<times> rec list list" where
  "NewRecordSet unmarshal encoder order contents aliasList =
     update unmarshal encoder order contents
       \<lparr>rs_aliasList = aliasList, rs_mergedAliasList = Merge NewConfig aliasList, rs_domains = [], rs_records = [],
        rs_hosts = [], rs_version = 0\<rparr>"

datatype record_error = CriteriaError | DomainError

definition unsafeExpandAliases :: "record_set \<Rightarrow> string \<Rightarrow> string list" where
  "unsafeExpandAliases r fqdn =
     (let resolutions = Resolutions (rs_mergedAliasList r) fqdn
      in if length resolutions = 0 then [fqdn] else resolutions)"

fun parse_all :: "string list \<Rightarrow> string list \<Rightarrow> criteria_error + criteria list" where
  "parse_all domains [] = Inr []"
| "parse_all domains (resolution # rest) =
     res_bind (NewCriteria resolution domains) (\<lambda>crit.
     res_bind (parse_all domains rest) (\<lambda>crits. Inr (crit # crits)))"

text \<open>A filter with its effects; \<open>factory\<close> gives the health filter for a value of \<open>shouldTrack\<close>.\<close>

type_synonym effect_filter = "criteria \<Rightarrow> rec list \<Rightarrow> filter_effect list \<times> rec list"

fun filterRecords :: "effect_filter \<Rightarrow> criteria list \<Rightarrow> rec list \<Rightarrow> filter_effect list \<times> rec list" where
  "filterRecords flt [] records = ([], [])"
| "filterRecords flt (crit # crits) records =
     (let (es, results) = flt crit records; (es', results') = filterRecords flt crits records
      in (es @ es', results @ results'))"

definition unsafeResolveRecords ::
  "effect_filter \<Rightarrow> (bool \<Rightarrow> effect_filter) \<Rightarrow> record_set \<Rightarrow> string list \<Rightarrow> bool \<Rightarrow>
   filter_effect list \<times> (record_error + rec list)" where
  "unsafeResolveRecords domainFilter factory r domains shouldTrack =
     (case parse_all (rs_domains r) domains of
        Inl err \<Rightarrow> ([], Inl CriteriaError)
      | Inr allCriteria \<Rightarrow>
          (let (es, domainRecords) = filterRecords domainFilter allCriteria (rs_records r) in
           if length domainRecords = 0 then (es, Inl DomainError)
           else let (es', finalRecords) = filterRecords (factory shouldTrack) allCriteria domainRecords
                in (es @ es', Inr finalRecords)))"

definition Resolve ::
  "effect_filter \<Rightarrow> (bool \<Rightarrow> effect_filter) \<Rightarrow> record_set \<Rightarrow> string \<Rightarrow> filter_effect list \<times> (record_error + string list)" where
  "Resolve domainFilter factory r fqdnRaw =
     (let fqdn = ToLower fqdnRaw;
          aliasExpansions = unsafeExpandAliases r fqdn;
          aliasIPs = filter (\<lambda>e. ParseIP e \<noteq> None) aliasExpansions;
          (es, res) = unsafeResolveRecords domainFilter factory r aliasExpansions True
      in case res of
           Inl err \<Rightarrow> if err \<noteq> DomainError \<or> length aliasIPs = 0 then (es, Inl err) else (es, Inr ([] @ aliasIPs))
         | Inr finalRecords \<Rightarrow> (es, Inr (map r_IP finalRecords @ aliasIPs)))"

definition HasIP :: "record_set \<Rightarrow> string \<Rightarrow> bool" where
  "HasIP r ip = list_ex (\<lambda>rec. r_IP rec = ip) (rs_records r)"

text \<open>The keys of the map of unique names, in the order they are first inserted.\<close>

definition GetFQDNs :: "record_set \<Rightarrow> string \<Rightarrow> string list" where
  "GetFQDNs r ip =
     (let add = (\<lambda>alias m. insert_map alias True m);
          unique = fold add (AliasResolutions (rs_mergedAliasList r) ip) [];
          unique = fold (\<lambda>h m. if h_IP h = ip
                     then (let domain = Fqdn (h_FQDN h); m = insert_map domain True m
                           in fold add (AliasResolutions (rs_mergedAliasList r) domain) m)
                     else m) (rs_hosts r) unique
      in keys unique)"

definition Domains :: "record_set \<Rightarrow> string list" where
  "Domains r = rs_domains r @ c_aliasHosts (rs_mergedAliasList r)"

text \<open>The filters of the factory; the health filter reads the watcher before and after its checks.\<close>

definition NewQueryFilterer :: effect_filter where
  "NewQueryFilterer c rs = ([], QueryFilter_Filter (CriteriaMaker c) rs)"

definition NewHealthFilterer :: "(string \<Rightarrow> health_result) \<Rightarrow> (string \<Rightarrow> health_result) \<Rightarrow> bool \<Rightarrow> effect_filter" where
  "NewHealthFilterer before after shouldTrack c rs =
     healthFilter_Filter QueryFilter_Filter shouldTrack before after (CriteriaMaker c) rs"

section \<open>Reading the file\<close>

lemma key_index_hit: "k \<in> set ks \<Longrightarrow> \<exists>i<length ks. ks ! i = k \<and> key_index k ks n idx = Some (n + i)"
proof (induction ks arbitrary: n idx)
  case (Cons x ks)
  show ?case
  proof (cases "k \<in> set ks")
    case True
    with Cons.IH [of "n + 1" "if x = k then Some n else idx"] show ?thesis by force
  next
    case False
    then have "key_index k ks m j = j" for m j by (induction ks arbitrary: m j) auto
    with Cons.prems False show ?thesis by (auto intro!: exI [of _ 0])
  qed
qed simp

lemma key_index_miss: "k \<notin> set ks \<Longrightarrow> key_index k ks n idx = idx"
  by (induction ks arbitrary: n idx) auto

text \<open>The cell of a column, for a record and its instance index; other columns hold anything.\<close>

definition cell :: "(string \<Rightarrow> json) \<Rightarrow> rec \<Rightarrow> int \<Rightarrow> string \<Rightarrow> json" where
  "cell other r n k =
     (if k = ''id'' then JStr (r_ID r) else if k = ''num_id'' then JStr (r_NumID r)
      else if k = ''instance_group'' then JStr (r_Group r) else if k = ''group_ids'' then JArr (map JStr (r_GroupIDs r))
      else if k = ''network'' then JStr (r_Network r) else if k = ''network_id'' then JStr (r_NetworkID r)
      else if k = ''deployment'' then JStr (r_Deployment r) else if k = ''ip'' then JStr (r_IP r)
      else if k = ''domain'' then JStr (r_Domain r) else if k = ''az'' then JStr (r_AZ r)
      else if k = ''az_id'' then JStr (r_AZID r) else if k = ''agent_id'' then JStr (r_AgentID r)
      else if k = ''instance_index'' then JNum (of_int n) else other k)"

lemma strings_of_map [simp]: "strings_of (map JStr ss) = Some ss"
  by (induction ss) auto

lemma column_cases:
  obtains (hit) i where "k \<in> set ks" "key_index k ks 0 None = Some i" "map f ks ! i = f k"
  | (miss) "k \<notin> set ks" "key_index k ks 0 None = None"
  using key_index_hit [of k ks 0 None] key_index_miss [of k ks 0 None] by (cases "k \<in> set ks") auto

lemma required_column: "k \<in> set ks \<Longrightarrow> f k = JStr s \<Longrightarrow> requiredStringValue (map f ks) (key_index k ks 0 None) = Some s"
  by (rule column_cases [of k ks f]) (auto simp: requiredStringValue_def convertToStringValue_def)

lemma optional_column:
  "f k = JStr s \<Longrightarrow> optionalStringValue (map f ks) (key_index k ks 0 None) = Some (if k \<in> set ks then s else '''')"
  by (rule column_cases [of k ks f]) (auto simp: optionalStringValue_def convertToStringValue_def)

lemma groups_column:
  "f k = JArr (map JStr ss) \<Longrightarrow>
   (case key_index k ks 0 None of None \<Rightarrow> Some [] | Some i \<Rightarrow> assertStringArrayOfStringValue (map f ks) i) =
   Some (if k \<in> set ks then ss else [])"
  by (rule column_cases [of k ks f]) (auto simp: assertStringArrayOfStringValue_def)

lemma float_to_int_of_int: "- (2 ^ 63) \<le> n \<Longrightarrow> n < 2 ^ 63 \<Longrightarrow> float_to_int (of_int n) = n"
  by (simp add: float_to_int_def Let_def)

lemma index_column:
  "f k = JNum (of_int n) \<Longrightarrow> - (2 ^ 63) \<le> n \<Longrightarrow> n < 2 ^ 63 \<Longrightarrow>
   assertStringIntegerValue (map f ks) (key_index k ks 0 None) = (if k \<in> set ks then itoa_int n else '''')"
  by (rule column_cases [of k ks f]) (auto simp: assertStringIntegerValue_def float_to_int_of_int)

text \<open>The columns of the records file may come in any order and with unknown columns
  among them. A row that holds the fields of a record in the columns the keys name is read
  back as that record, with the domain fully qualified, the instance index as a numeral,
  and the fields without a column empty.\<close>

theorem info_record_roundtrip:
  assumes "{''domain'', ''id'', ''instance_group'', ''network'', ''deployment'', ''ip''} \<subseteq> set ks"
    and "- (2 ^ 63) \<le> n" "n < 2 ^ 63"
  shows "info_record ks (map (cell other r n) ks) =
    Some (r\<lparr>r_Domain := Fqdn (r_Domain r),
            r_AZ := (if ''az'' \<in> set ks then r_AZ r else ''''),
            r_AZID := (if ''az_id'' \<in> set ks then r_AZID r else ''''),
            r_NetworkID := (if ''network_id'' \<in> set ks then r_NetworkID r else ''''),
            r_NumID := (if ''num_id'' \<in> set ks then r_NumID r else ''''),
            r_AgentID := (if ''agent_id'' \<in> set ks then r_AgentID r else ''''),
            r_GroupIDs := (if ''group_ids'' \<in> set ks then r_GroupIDs r else []),
            r_InstanceIndex := (if ''instance_index'' \<in> set ks then itoa_int n else '''')\<rparr>)"
proof -
  note cols = required_column [of _ ks "cell other r n"] optional_column [of "cell other r n" _ _ ks]
    groups_column [of "cell other r n" _ _ ks] index_column [of "cell other r n" _ n ks, OF _ assms(2,3)]
  have req: "requiredStringValue (map (cell other r n) ks) (key_index ''domain'' ks 0 None) = Some (r_Domain r)"
    "requiredStringValue (map (cell other r n) ks) (key_index ''id'' ks 0 None) = Some (r_ID r)"
    "requiredStringValue (map (cell other r n) ks) (key_index ''instance_group'' ks 0 None) = Some (r_Group r)"
    "requiredStringValue (map (cell other r n) ks) (key_index ''network'' ks 0 None) = Some (r_Network r)"
    "requiredStringValue (map (cell other r n) ks) (key_index ''deployment'' ks 0 None) = Some (r_Deployment r)"
    "requiredStringValue (map (cell other r n) ks) (key_index ''ip'' ks 0 None) = Some (r_IP r)"
    using assms(1) by (auto intro!: cols(1) simp: cell_def)
  have opt: "optionalStringValue (map (cell other r n) ks) (key_index ''az'' ks 0 None) = Some (if ''az'' \<in> set ks then r_AZ r else '''')"
    "optionalStringValue (map (cell other r n) ks) (key_index ''az_id'' ks 0 None) = Some (if ''az_id'' \<in> set ks then r_AZID r else '''')"
    "optionalStringValue (map (cell other r n) ks) (key_index ''network_id'' ks 0 None) = Some (if ''network_id'' \<in> set ks then r_NetworkID r else '''')"
    "optionalStringValue (map (cell other r n) ks) (key_index ''num_id'' ks 0 None) = Some (if ''num_id'' \<in> set ks then r_NumID r else '''')"
    "optionalStringValue (map (cell other r n) ks) (key_index ''agent_id'' ks 0 None) = Some (if ''agent_id'' \<in> set ks then r_AgentID r else '''')"
    by (rule cols(2); simp add: cell_def)+
  have grp: "(case key_index ''group_ids'' ks 0 None of None \<Rightarrow> Some []
      | Some i \<Rightarrow> assertStringArrayOfStringValue (map (cell other r n) ks) i) = Some (if ''group_ids'' \<in> set ks then r_GroupIDs r else [])"
    by (rule cols(3)) (simp add: cell_def)
  have idx: "assertStringIntegerValue (map (cell other r n) ks) (key_index ''instance_index'' ks 0 None) =
      (if ''instance_index'' \<in> set ks then itoa_int n else '''')"
    by (rule cols(4)) (simp add: cell_def)
  show ?thesis unfolding info_record_def Let_def by (simp only: req opt grp idx length_map bind.simps) simp
qed

theorem info_record_roundtrip_witness:
  "info_record [''ip'', ''colour'', ''domain'', ''deployment'', ''network'', ''instance_group'', ''id'', ''instance_index'']
     (map (cell (\<lambda>_. JBool True) (example_record\<lparr>r_Domain := ''bosh''\<rparr>) 7)
        [''ip'', ''colour'', ''domain'', ''deployment'', ''network'', ''instance_group'', ''id'', ''instance_index'']) =
   Some \<lparr>r_ID = ''i'', r_NumID = '''', r_Group = ''g'', r_GroupIDs = [], r_Network = ''n'', r_NetworkID = '''',
     r_Deployment = ''d'', r_IP = ''ip'', r_Domain = Fqdn ''bosh'', r_AZ = '''', r_AZID = '''', r_AgentID = '''',
     r_InstanceIndex = itoa_int 7\<rparr>"
  by (subst info_record_roundtrip) (simp_all add: example_record_def)

text \<open>Rows of the wrong length and rows without a required string are skipped, one by one.\<close>

lemma info_loop_filter: "info_loop ks infos = List.map_filter (info_record ks) infos"
  by (induction infos) (auto simp: map_filter_simps split: option.splits)

lemma info_record_row: "info_record ks info = Some r \<Longrightarrow> length info = length ks \<and> r_Domain r \<noteq> '''' \<and> last (r_Domain r) = CHR ''.''"
  by (auto simp: info_record_def Let_def Fqdn_ends_dot split: bind_splits if_splits)

lemma info_loop_domains: "r \<in> set (info_loop ks infos) \<Longrightarrow> r_Domain r \<noteq> '''' \<and> last (r_Domain r) = CHR ''.''"
  unfolding info_loop_filter using info_record_row by (auto simp: List.map_filter_def) 

lemma createFromJSON_domains:
  "createFromJSON unmarshal encoder j = Some (records, x) \<Longrightarrow> r \<in> set records \<Longrightarrow>
   r_Domain r \<noteq> '''' \<and> last (r_Domain r) = CHR ''.''"
  by (auto simp: createFromJSON_def Let_def dest: info_loop_domains split: option.splits sum.splits)

section \<open>Updates\<close>

text \<open>An update that cannot read the file, decode it or build the aliases leaves the record
  set as it was and tells the tracker nothing. Otherwise the records, hosts and version are
  those of the file, the served domains are the domains of the records without repetition,
  each ending in a dot, the aliases of the configuration take precedence over
  those of the file, and the tracker is sent exactly the records.\<close>

theorem update_spec:
  assumes "\<forall>xs. mset (order xs) = mset xs"
  shows "case (case contents of None \<Rightarrow> None | Some j \<Rightarrow> createFromJSON unmarshal encoder j) of
      None \<Rightarrow> update unmarshal encoder order contents r = (r, [])
    | Some (records, updatedAliases, hosts, version) \<Rightarrow>
        \<exists>r'. update unmarshal encoder order contents r = (r', [records]) \<and>
          rs_records r' = records \<and> rs_hosts r' = hosts \<and> rs_version r' = version \<and> rs_aliasList r' = rs_aliasList r \<and>
          distinct (rs_domains r') \<and> set (rs_domains r') = r_Domain ` set records \<and> list_all (\<lambda>d. d \<noteq> '''' \<and> last d = CHR ''.'') (rs_domains r') \<and>
          (\<forall>alias. map_of (c_aliases (rs_mergedAliasList r')) alias =
             (case map_of (c_aliases (rs_aliasList r)) alias of
                None \<Rightarrow> map_of (c_aliases updatedAliases) alias | Some ts \<Rightarrow> Some ts))"
proof (cases "case contents of None \<Rightarrow> None | Some j \<Rightarrow> createFromJSON unmarshal encoder j")
  case None
  then show ?thesis by (auto simp: update_def split: option.splits)
next
  case (Some q)
  obtain records updatedAliases hosts version where q: "q = (records, updatedAliases, hosts, version)"
    by (metis prod_cases4)
  with Some obtain j where j: "contents = Some j" "createFromJSON unmarshal encoder j = Some (records, updatedAliases, hosts, version)"
    by (auto split: option.splits)
  have dom: "mset (order (remdups (map r_Domain records))) = mset (remdups (map r_Domain records))" using assms by blast
  have "distinct (order (remdups (map r_Domain records)))"
    using mset_eq_imp_distinct_iff [OF dom] by simp
  moreover have "set (order (remdups (map r_Domain records))) = r_Domain ` set records"
    using mset_eq_setD [OF dom] by simp
  moreover from this have "list_all (\<lambda>d. d \<noteq> '''' \<and> last d = CHR ''.'') (order (remdups (map r_Domain records)))"
    using createFromJSON_domains [OF j(2)] by (auto simp: list_all_iff)
  ultimately show ?thesis unfolding Some q
    using j by (auto simp: update_def Merge_def NewConfig_def Let_def map_of_merge_map split: option.splits)
qed

theorem update_spec_witness:
  "\<exists>r'. update (\<lambda>_. Some \<lparr>sw_Keys = [], sw_Infos = [[]], sw_Aliases = [], sw_Version = 3, sw_Records = [(''1.1.1.1'', ''a.bosh'')]\<rparr>)
      EncodeAliasesIntoQueries id (Some ''{}'')
      \<lparr>rs_aliasList = NewConfig, rs_mergedAliasList = NewConfig, rs_domains = [], rs_records = [], rs_hosts = [], rs_version = 0\<rparr> =
      (r', [[]]) \<and> rs_hosts r' = [\<lparr>h_IP = ''1.1.1.1'', h_FQDN = ''a.bosh''\<rparr>] \<and> rs_version r' = 3"
proof -
  let ?u = "\<lambda>_ :: string. Some \<lparr>sw_Keys = [], sw_Infos = [[]], sw_Aliases = [], sw_Version = 3, sw_Records = [(''1.1.1.1'', ''a.bosh'')]\<rparr>"
  have "createFromJSON ?u EncodeAliasesIntoQueries ''{}'' = Some ([], NewConfig, [\<lparr>h_IP = ''1.1.1.1'', h_FQDN = ''a.bosh''\<rparr>], 3)"
    by (simp add: createFromJSON_def info_record_def requiredStringValue_def EncodeAliasesIntoQueries_def encodeDomains_def
        NewConfigFromMap_def NewConfig_def getAliasHosts_def allAliasHosts_def)
  then show ?thesis
    using update_spec [where order = id and contents = "Some ''{}''" and unmarshal = ?u and encoder = EncodeAliasesIntoQueries and r =
        "\<lparr>rs_aliasList = NewConfig, rs_mergedAliasList = NewConfig, rs_domains = [], rs_records = [], rs_hosts = [], rs_version = 0\<rparr>"]
    by auto
qed

text \<open>What makes a record set over an alias configuration well formed.\<close>

definition record_set_wf :: "alias_config \<Rightarrow> record_set \<Rightarrow> bool" where
  "record_set_wf aliasList r \<longleftrightarrow> rs_aliasList r = aliasList \<and> wf_config (rs_mergedAliasList r) \<and>
     distinct (rs_domains r) \<and> set (rs_domains r) = r_Domain ` set (rs_records r) \<and>
     list_all (\<lambda>d. d \<noteq> '''' \<and> last d = CHR ''.'') (rs_domains r) \<and>
     (\<forall>alias ts. map_of (c_aliases aliasList) alias = Some ts \<longrightarrow> map_of (c_aliases (rs_mergedAliasList r)) alias = Some ts)"

lemma NewConfig_aliases [simp]: "c_aliases NewConfig = []"
  by (simp add: NewConfig_def)

lemma wf_update:
  assumes "record_set_wf aliasList r" "wf_config aliasList" "\<forall>xs. mset (order xs) = mset xs"
  shows "record_set_wf aliasList (fst (update unmarshal encoder order contents r))"
proof -
  have "record_set_wf aliasList (r\<lparr>rs_version := v, rs_records := records, rs_hosts := hosts,
      rs_mergedAliasList := Merge (Merge NewConfig (rs_aliasList r)) up, rs_domains := order (remdups (map r_Domain records))\<rparr>)"
    if j: "createFromJSON unmarshal encoder j = Some (records, up, hosts, v)" for j records up hosts v
  proof -
    have "wf_config up" using j by (auto simp: createFromJSON_def Let_def dest: wf_NewConfigFromMap split: option.splits sum.splits)
    moreover have dom: "mset (order (remdups (map r_Domain records))) = mset (remdups (map r_Domain records))" using assms(3) by blast
    ultimately show ?thesis
      using assms(1,2) mset_eq_imp_distinct_iff [OF dom] mset_eq_setD [OF dom] createFromJSON_domains [OF j] Merge_lookup
      by (auto simp: record_set_wf_def list_all_iff wf_Merge wf_NewConfig)
  qed
  then show ?thesis using assms(1) by (auto simp: update_def split: option.split)
qed

text \<open>
  C28: Whatever the records file held at each of any number of updates, the record set stays
  well formed: it serves exactly the domains of its records, each once and ending in a dot,
  its aliases are in lower case and without repetition, and every alias of the
  configuration has the targets the configuration gives it.
\<close>

theorem record_set_wellformed:
  assumes "wf_config aliasList" "\<forall>xs. mset (order xs) = mset xs"
  shows "record_set_wf aliasList (fold (\<lambda>contents r. fst (update unmarshal encoder order contents r)) later
    (fst (NewRecordSet unmarshal encoder order first aliasList)))"
proof -
  have "record_set_wf aliasList (fst (NewRecordSet unmarshal encoder order first aliasList))"
    unfolding NewRecordSet_def
    by (rule wf_update [OF _ assms]) (simp add: record_set_wf_def wf_Merge [OF wf_NewConfig assms(1)] Merge_lookup)
  then show ?thesis by (induction later rule: rev_induct) (simp_all add: wf_update assms)
qed

theorem record_set_wellformed_witness:
  "let unmarshal = (\<lambda>j. if j = ''{}'' then Some \<lparr>sw_Keys = [], sw_Infos = [[]], sw_Aliases = [], sw_Version = 3, sw_Records = []\<rparr> else None)
   in record_set_wf NewConfig (fold (\<lambda>contents r. fst (update unmarshal EncodeAliasesIntoQueries rev contents r)) [None, Some ''{}'']
        (fst (NewRecordSet unmarshal EncodeAliasesIntoQueries rev (Some ''x'') NewConfig)))"
  unfolding Let_def by (rule record_set_wellformed [OF wf_NewConfig]) simp

section \<open>Resolving\<close>

lemma filterRecords_concat:
  "filterRecords flt cs rs = (concat (map (\<lambda>c. fst (flt c rs)) cs), concat (map (\<lambda>c. snd (flt c rs)) cs))"
  by (induction cs) (auto simp: case_prod_beta Let_def)

lemma choose_records_cong:
  assumes "set xs = set ys"
  shows "set (choose_records w c xs) = set (choose_records w c ys)"
proof -
  have "filter P xs = [] \<longleftrightarrow> filter P ys = []" for P using assms by (simp add: filter_empty_conv)
  then show ?thesis using assms by (simp add: choose_records_def sortRecords_filters)
qed

definition matching :: "record_set \<Rightarrow> criteria \<Rightarrow> rec list" where
  "matching r c = filter (Matcher c) (rs_records r)"

definition literal_ips :: "string list \<Rightarrow> string list" where
  "literal_ips es = filter (\<lambda>e. ParseIP e \<noteq> None) es"

lemma domain_records:
  "snd (filterRecords NewQueryFilterer cs (rs_records r)) = concat (map (matching r) cs)"
  by (simp add: filterRecords_concat NewQueryFilterer_def QueryFilter_Filter_def match_loop_filter matching_def [abs_def])

lemma health_records:
  "c \<in> set cs \<Longrightarrow> set (snd (NewHealthFilterer before after track c (concat (map (matching r) cs)))) =
     set (choose_records after c (matching r c))"
proof -
  assume c: "c \<in> set cs"
  have "set (filter (Matcher c) (concat (map (matching r) cs))) = set (matching r c)"
    using c by (auto simp: matching_def)
  then show ?thesis
    using choose_records_cong [of "filter (Matcher c) (concat (map (matching r) cs))" "matching r c"]
    by (simp add: NewHealthFilterer_def healthFilter_Filter_def Let_def QueryFilter_Filter_def match_loop_filter)
qed

lemma parse_all_Inr_iff: "parse_all ds es = Inr cs \<longleftrightarrow> list_all2 (\<lambda>e c. NewCriteria e ds = Inr c) es cs"
  by (induction es arbitrary: cs) (auto simp: list_all2_Cons1 res_bind_Inr_iff)

lemma parse_all_Inl_iff: "(\<exists>err. parse_all ds es = Inl err) \<longleftrightarrow> (\<exists>e\<in>set es. \<exists>err. NewCriteria e ds = Inl err)"
proof (induction es)
  case (Cons e es)
  show ?case
  proof (cases "NewCriteria e ds")
    case (Inr c)
    with Cons show ?thesis by (cases "parse_all ds es") auto
  qed simp
qed simp

lemma Resolve_parsed:
  assumes "es = unsafeExpandAliases r (ToLower q)" "parse_all (rs_domains r) es = Inr cs"
  shows "snd (Resolve NewQueryFilterer (NewHealthFilterer before after) r q) = Inl DomainError \<and> (\<forall>c\<in>set cs. matching r c = []) \<and> literal_ips es = [] \<or>
    (\<exists>ips. snd (Resolve NewQueryFilterer (NewHealthFilterer before after) r q) = Inr ips \<and>
       (literal_ips es \<noteq> [] \<or> (\<exists>c\<in>set cs. matching r c \<noteq> [])) \<and>
       set ips = set (literal_ips es) \<union> r_IP ` (\<Union>c\<in>set cs. set (choose_records after c (matching r c))))"
proof -
  let ?dr = "concat (map (matching r) cs)"
  show ?thesis
  proof (cases "?dr = []")
    case True
    then have none: "\<forall>c\<in>set cs. matching r c = []" by simp
    then have "choose_records after c (matching r c) = []" if "c \<in> set cs" for c
      using that choose_records_subset [of after c "matching r c"] by auto
    moreover have "snd (Resolve NewQueryFilterer (NewHealthFilterer before after) r q) =
        (if literal_ips es = [] then Inl DomainError else Inr (literal_ips es))"
      using True assms domain_records [of cs r]
      by (simp add: Resolve_def unsafeResolveRecords_def Let_def case_prod_beta literal_ips_def)
    ultimately show ?thesis using none by auto
  next
    case False
    then have "snd (Resolve NewQueryFilterer (NewHealthFilterer before after) r q) =
        Inr (map r_IP (snd (filterRecords (NewHealthFilterer before after True) cs ?dr)) @ literal_ips es)"
      using assms domain_records [of cs r]
      by (auto simp: Resolve_def unsafeResolveRecords_def Let_def case_prod_beta literal_ips_def)
    moreover have "set (snd (filterRecords (NewHealthFilterer before after True) cs ?dr)) =
        (\<Union>c\<in>set cs. set (choose_records after c (matching r c)))"
      using health_records [of _ cs before after True r] by (simp add: filterRecords_concat)
    moreover have "\<exists>c\<in>set cs. matching r c \<noteq> []" using False by auto
    ultimately show ?thesis by auto
  qed
qed

lemma Resolve_unparsed:
  assumes "es = unsafeExpandAliases r (ToLower q)" "parse_all (rs_domains r) es = Inl err"
  shows "snd (Resolve domainFilter factory r q) = Inl CriteriaError"
  using assms by (simp add: Resolve_def unsafeResolveRecords_def Let_def)

text \<open>C3: what a name resolves to. The name is lower-cased and expanded by the aliases. If an
  expansion is no well-formed name the query is a criteria error. Otherwise the answer is,
  as a set, the literal IPs among the expansions together with, for every expansion, the
  IPs of the records that match it and that its health strategy chooses. Only when no
  record matches any expansion and there is no literal IP is it a domain error.\<close>

theorem Resolve_spec:
  assumes "es = unsafeExpandAliases r (ToLower q)"
  shows "case snd (Resolve NewQueryFilterer (NewHealthFilterer before after) r q) of
      Inl CriteriaError \<Rightarrow> (\<exists>e\<in>set es. \<exists>err. NewCriteria e (rs_domains r) = Inl err)
    | Inl DomainError \<Rightarrow> (\<exists>cs. list_all2 (\<lambda>e c. NewCriteria e (rs_domains r) = Inr c) es cs \<and>
        (\<forall>c\<in>set cs. matching r c = [])) \<and> literal_ips es = []
    | Inr ips \<Rightarrow> (\<exists>cs. list_all2 (\<lambda>e c. NewCriteria e (rs_domains r) = Inr c) es cs \<and>
        (literal_ips es \<noteq> [] \<or> (\<exists>c\<in>set cs. matching r c \<noteq> [])) \<and>
        set ips = set (literal_ips es) \<union> r_IP ` (\<Union>c\<in>set cs. set (choose_records after c (matching r c))))"
proof (cases "parse_all (rs_domains r) es")
  case (Inl err)
  then show ?thesis using parse_all_Inl_iff [of "rs_domains r" es] Resolve_unparsed [OF assms Inl] by auto
next
  case (Inr cs)
  then have "list_all2 (\<lambda>e c. NewCriteria e (rs_domains r) = Inr c) es cs" by (simp add: parse_all_Inr_iff)
  with Resolve_parsed [OF assms Inr, of before after] show ?thesis
    by (elim disjE exE conjE) (simp_all, blast+)
qed

definition example_set :: "alias_config \<Rightarrow> record_set" where
  "example_set c = \<lparr>rs_aliasList = c, rs_mergedAliasList = c, rs_domains = [''bosh.''], rs_records = [example_record],
     rs_hosts = [], rs_version = 1\<rparr>"

abbreviation all_unchecked :: "string \<Rightarrow> health_result" where
  "all_unchecked \<equiv> \<lambda>_. result_of StateUnchecked"

theorem Resolve_spec_witness:
  "\<exists>cs. list_all2 (\<lambda>e c. NewCriteria e [''bosh.''] = Inr c) [''i.g.n.d.bosh.''] cs \<and>
     (literal_ips [''i.g.n.d.bosh.''] \<noteq> [] \<or> (\<exists>c\<in>set cs. matching (example_set NewConfig) c \<noteq> [])) \<and>
     set [''ip''] = set (literal_ips [''i.g.n.d.bosh.'']) \<union>
       r_IP ` (\<Union>c\<in>set cs. set (choose_records all_unchecked c (matching (example_set NewConfig) c)))"
proof -
  have "unsafeExpandAliases (example_set NewConfig) (ToLower ''I.g.n.D.Bosh.'') = [''i.g.n.d.bosh.'']" by code_simp
  moreover have "snd (Resolve NewQueryFilterer (NewHealthFilterer all_unchecked all_unchecked) (example_set NewConfig) ''I.g.n.D.Bosh.'') =
    Inr [''ip'']" by code_simp
  moreover have "rs_domains (example_set NewConfig) = [''bosh.'']" by (simp add: example_set_def)
  ultimately show ?thesis
    using Resolve_spec [OF refl, of "example_set NewConfig" "''I.g.n.D.Bosh.''" all_unchecked all_unchecked]
    by (simp only: sum.case)
qed

text \<open>
  Three behaviours of the code that the set of the answers does not show. An alias of an
  IPv6 address is never resolved, since the address is no well-formed name. A record that
  two expansions match is answered four times. And when one served domain is a suffix of
  another, which names are well-formed depends on the order in which the map of domains
  is ranged over.
\<close>

text \<open>An expansion without a dot, as an IPv6 address has none, makes the whole query a
  criteria error, although the literal IPs among the expansions are collected for the
  answer; an alias of an IPv4 address resolves.\<close>

theorem IPv6_alias_fails:
  "\<exists>c. NewConfigFromMap [(''v6'', [''2001:db8::1'']), (''v4'', [''10.1.2.3''])] = Inr c \<and>
     snd (Resolve NewQueryFilterer (NewHealthFilterer all_unchecked all_unchecked) (example_set c) ''v6.'') = Inl CriteriaError \<and>
     literal_ips (unsafeExpandAliases (example_set c) ''v6.'') = [''2001:db8::1''] \<and>
     snd (Resolve NewQueryFilterer (NewHealthFilterer all_unchecked all_unchecked) (example_set c) ''v4.'') = Inr [''10.1.2.3'']"
proof -
  let ?c = "\<lparr>c_aliases = [(''v6.'', [''2001:db8::1'']), (''v4.'', [''10.1.2.3''])], c_underscoreAliases = [],
      c_aliasHosts = [''v4.'', ''v6.'']\<rparr>"
  have "NewConfigFromMap [(''v6'', [''2001:db8::1'']), (''v4'', [''10.1.2.3''])] = Inr ?c" by code_simp
  moreover have "snd (Resolve NewQueryFilterer (NewHealthFilterer all_unchecked all_unchecked) (example_set ?c) ''v6.'') =
    Inl CriteriaError" by code_simp
  moreover have "literal_ips (unsafeExpandAliases (example_set ?c) ''v6.'') = [''2001:db8::1'']" by code_simp
  moreover have "snd (Resolve NewQueryFilterer (NewHealthFilterer all_unchecked all_unchecked) (example_set ?c) ''v4.'') =
    Inr [''10.1.2.3'']" by code_simp
  ultimately show ?thesis by blast
qed

text \<open>An alias whose two targets both select a record answers with its IP four times:
  each target selects the record, and the health filter is applied for each target to the
  records selected for both.\<close>

theorem overlapping_targets_repeat:
  "\<exists>c. NewConfigFromMap [(''both'', [''i.g.n.d.bosh'', ''*.g.n.d.bosh''])] = Inr c \<and>
     snd (Resolve NewQueryFilterer (NewHealthFilterer all_unchecked all_unchecked) (example_set c) ''both.'') =
       Inr [''ip'', ''ip'', ''ip'', ''ip'']"
proof -
  let ?c = "\<lparr>c_aliases = [(''both.'', [''i.g.n.d.bosh.'', ''q-s0.g.n.d.bosh.''])], c_underscoreAliases = [],
      c_aliasHosts = [''both.'']\<rparr>"
  have "NewConfigFromMap [(''both'', [''i.g.n.d.bosh'', ''*.g.n.d.bosh''])] = Inr ?c" by code_simp
  moreover have "snd (Resolve NewQueryFilterer (NewHealthFilterer all_unchecked all_unchecked) (example_set ?c) ''both.'') =
    Inr [''ip'', ''ip'', ''ip'', ''ip'']" by code_simp
  ultimately show ?thesis by blast
qed

text \<open>With the domains \<open>bosh.\<close> and \<open>foo.bosh.\<close> served, a full name under the second is
  resolved or rejected depending on the order of the two in the list of domains, which is
  the iteration order of a Go map.\<close>

theorem domain_order_matters:
  "let r = (example_set NewConfig)\<lparr>rs_records := [example_record, example_record\<lparr>r_Domain := ''foo.bosh.''\<rparr>]\<rparr>;
       answer = (\<lambda>ds. snd (Resolve NewQueryFilterer (NewHealthFilterer all_unchecked all_unchecked) (r\<lparr>rs_domains := ds\<rparr>) ''i.g.n.d.foo.bosh.''))
   in answer [''foo.bosh.'', ''bosh.''] = Inr [''ip''] \<and> answer [''bosh.'', ''foo.bosh.''] = Inl CriteriaError"
  by code_simp

section \<open>Reverse lookups\<close>

lemma fold_insert_keys: "set (keys (fold (\<lambda>a m. insert_map a True m) as m)) = set (keys m) \<union> set as"
proof (induction as arbitrary: m)
  case (Cons a as)
  show ?case unfolding fold_Cons comp_apply Cons.IH set_keys_insert_map list.set by blast
qed simp

lemma fold_insert_wf: "wf_map m \<Longrightarrow> wf_map (fold (\<lambda>a m. insert_map a True m) as m)"
  by (induction as arbitrary: m) (auto simp: distinct_update)

text \<open>The loop over the hosts.\<close>

definition add_host :: "alias_config \<Rightarrow> string \<Rightarrow> host \<Rightarrow> (string, bool) gomap \<Rightarrow> (string, bool) gomap" where
  "add_host c ip h m = (if h_IP h = ip
     then fold (\<lambda>a m. insert_map a True m) (AliasResolutions c (Fqdn (h_FQDN h))) (insert_map (Fqdn (h_FQDN h)) True m)
     else m)"

lemma add_hosts_keys:
  "set (keys (fold (add_host c ip) hs m)) = set (keys m) \<union>
     (\<Union>h\<in>{h \<in> set hs. h_IP h = ip}. insert (Fqdn (h_FQDN h)) (set (AliasResolutions c (Fqdn (h_FQDN h)))))"
proof (induction hs arbitrary: m)
  case (Cons h hs)
  have "set (keys (add_host c ip h m)) = set (keys m) \<union>
      (if h_IP h = ip then insert (Fqdn (h_FQDN h)) (set (AliasResolutions c (Fqdn (h_FQDN h)))) else {})"
    unfolding add_host_def using fold_insert_keys [of "AliasResolutions c (Fqdn (h_FQDN h))" "insert_map (Fqdn (h_FQDN h)) True m"]
    by (simp only: set_keys_insert_map split: if_splits) blast
  then show ?case unfolding fold_Cons comp_apply Cons.IH by auto
qed simp

lemma add_hosts_wf: "wf_map m \<Longrightarrow> wf_map (fold (add_host c ip) hs m)"
  by (induction hs arbitrary: m) (simp_all add: add_host_def fold_insert_wf distinct_update)

lemma set_AliasResolutions: "set (AliasResolutions c d) = {a. \<exists>ts. (a, ts) \<in> set (c_aliases c) \<and> d \<in> set ts}"
  by (force simp: AliasResolutions_def)

text \<open>The names of an IP are, each once, the aliases of the IP itself, the names of the
  hosts of the records file with that IP, and the aliases of these names.\<close>

theorem GetFQDNs_spec:
  "distinct (GetFQDNs r ip) \<and>
   set (GetFQDNs r ip) = {a. \<exists>ts. (a, ts) \<in> set (c_aliases (rs_mergedAliasList r)) \<and> ip \<in> set ts} \<union>
     (\<Union>h\<in>{h \<in> set (rs_hosts r). h_IP h = ip}.
        insert (Fqdn (h_FQDN h))
          {a. \<exists>ts. (a, ts) \<in> set (c_aliases (rs_mergedAliasList r)) \<and> Fqdn (h_FQDN h) \<in> set ts})"
proof -
  let ?c = "rs_mergedAliasList r" and ?m = "fold (\<lambda>a m. insert_map a True m) (AliasResolutions (rs_mergedAliasList r) ip) []"
  have g: "GetFQDNs r ip = keys (fold (add_host ?c ip) (rs_hosts r) ?m)"
    unfolding GetFQDNs_def add_host_def [abs_def] Let_def by (rule refl)
  have "distinct (GetFQDNs r ip)" unfolding g by (intro add_hosts_wf fold_insert_wf) simp
  moreover have "set (GetFQDNs r ip) = set (AliasResolutions ?c ip) \<union>
     (\<Union>h\<in>{h \<in> set (rs_hosts r). h_IP h = ip}. insert (Fqdn (h_FQDN h)) (set (AliasResolutions ?c (Fqdn (h_FQDN h)))))"
    unfolding g add_hosts_keys fold_insert_keys by simp
  ultimately show ?thesis unfolding set_AliasResolutions by blast
qed

end
