(* ===== verification/Dns_Wire.thy ===== *)
theory Dns_Wire
  imports Dns_Names "HOL-Library.Word"
begin

text \<open>
  DNS messages (\<^verbatim>\<open>src/bosh-dns/vendor/github.com/miekg/dns/{types,dns,msg,defaults,edns}.go\<close>, the
  parts the handlers use), the length of a message on the wire, with and without the
  compression of names (\<^verbatim>\<open>msg.go\<close>, \<^verbatim>\<open>ztypes.go\<close>), and the cut of a message to a size
  (\<^verbatim>\<open>msg_truncate.go\<close>). Records are never nil.
\<close>

section \<open>Messages\<close>

record question =
  qn_Name :: string
  qn_Qtype :: "16 word"
  qn_Qclass :: "16 word"

record rr_header =
  hdr_Name :: string
  hdr_Rrtype :: "16 word"
  hdr_Class :: "16 word"
  hdr_Ttl :: "32 word"

type_synonym go_ip = "nat list option"

text \<open>
  The resource records the program builds or looks into; \<open>OtherRR\<close> stands for those it only
  passes on. The data of such a record are octets and domain names, in the order the record
  has them, a name with whether it may be compressed; an option of an OPT record is its
  code and its data.
\<close>

datatype rdata_part = Octets string | DName string bool

datatype rr =
    RR_A rr_header go_ip
  | RR_AAAA rr_header go_ip
  | RR_PTR rr_header string
  | RR_OPT rr_header "(16 word \<times> string) list"
  | OtherRR rr_header "rdata_part list"

record msg =
  m_Id :: "16 word"
  m_Response :: bool
  m_Opcode :: int
  m_Authoritative :: bool
  m_Truncated :: bool
  m_RecursionDesired :: bool
  m_RecursionAvailable :: bool
  m_Zero :: bool
  m_AuthenticatedData :: bool
  m_CheckingDisabled :: bool
  m_Rcode :: int
  m_Compress :: bool
  m_Question :: "question list"
  m_Answer :: "rr list"
  m_Ns :: "rr list"
  m_Extra :: "rr list"

definition new_msg :: msg where
  "new_msg = \<lparr>m_Id = 0, m_Response = False, m_Opcode = 0, m_Authoritative = False, m_Truncated = False,
     m_RecursionDesired = False, m_RecursionAvailable = False, m_Zero = False,
     m_AuthenticatedData = False, m_CheckingDisabled = False, m_Rcode = 0, m_Compress = False,
     m_Question = [], m_Answer = [], m_Ns = [], m_Extra = []\<rparr>"

abbreviation (input) RcodeSuccess :: "int" where "RcodeSuccess \<equiv> 0"
abbreviation (input) RcodeFormatError :: "int" where "RcodeFormatError \<equiv> 1"
abbreviation (input) RcodeServerFailure :: "int" where "RcodeServerFailure \<equiv> 2"
abbreviation (input) RcodeNameError :: "int" where "RcodeNameError \<equiv> 3"
abbreviation (input) RcodeRefused :: "int" where "RcodeRefused \<equiv> 5"
abbreviation (input) OpcodeQuery :: "int" where "OpcodeQuery \<equiv> 0"
abbreviation (input) TypeA :: "16 word" where "TypeA \<equiv> 1"
abbreviation (input) TypePTR :: "16 word" where "TypePTR \<equiv> 12"
abbreviation (input) TypeAAAA :: "16 word" where "TypeAAAA \<equiv> 28"
abbreviation (input) TypeOPT :: "16 word" where "TypeOPT \<equiv> 41"
abbreviation (input) TypeTSIG :: "16 word" where "TypeTSIG \<equiv> 250"
abbreviation (input) TypeANY :: "16 word" where "TypeANY \<equiv> 255"
abbreviation (input) ClassINET :: "16 word" where "ClassINET \<equiv> 1"
abbreviation (input) MinMsgSize :: "nat" where "MinMsgSize \<equiv> 512"
abbreviation (input) MaxMsgSize :: "nat" where "MaxMsgSize \<equiv> 65535"

definition SetReply :: "msg \<Rightarrow> msg \<Rightarrow> msg" where
  "SetReply request m =
     (let m = m\<lparr>m_Id := m_Id request, m_Response := True, m_Opcode := m_Opcode request\<rparr>;
          m = (if m_Opcode m = OpcodeQuery
               then m\<lparr>m_RecursionDesired := m_RecursionDesired request, m_CheckingDisabled := m_CheckingDisabled request\<rparr>
               else m);
          m = m\<lparr>m_Rcode := RcodeSuccess\<rparr>
      in if length (m_Question request) > 0 then m\<lparr>m_Question := [hd (m_Question request)]\<rparr> else m)"

definition SetRcode :: "msg \<Rightarrow> int \<Rightarrow> msg \<Rightarrow> msg" where
  "SetRcode request rcode m = (SetReply request m)\<lparr>m_Rcode := rcode\<rparr>"

fun rr_type :: "rr \<Rightarrow> 16 word" where
  "rr_type (RR_A h ip) = hdr_Rrtype h"
| "rr_type (RR_AAAA h ip) = hdr_Rrtype h"
| "rr_type (RR_PTR h s) = hdr_Rrtype h"
| "rr_type (RR_OPT h os) = hdr_Rrtype h"
| "rr_type (OtherRR h s) = hdr_Rrtype h"

fun rr_hdr :: "rr \<Rightarrow> rr_header" where
  "rr_hdr (RR_A h ip) = h"
| "rr_hdr (RR_AAAA h ip) = h"
| "rr_hdr (RR_PTR h s) = h"
| "rr_hdr (RR_OPT h os) = h"
| "rr_hdr (OtherRR h s) = h"

text \<open>The last record of the additional section of type OPT.\<close>

definition IsEdns0 :: "msg \<Rightarrow> rr option" where
  "IsEdns0 m = List.find (\<lambda>r. rr_type r = TypeOPT) (rev (m_Extra m))"

definition UDPSize :: "rr \<Rightarrow> 16 word" where
  "UDPSize r = hdr_Class (rr_hdr r)"

definition SetEdns0 :: "16 word \<Rightarrow> msg \<Rightarrow> msg" where
  "SetEdns0 udpsize m =
     m\<lparr>m_Extra := m_Extra m @ [RR_OPT \<lparr>hdr_Name = ''.'', hdr_Rrtype = TypeOPT, hdr_Class = udpsize, hdr_Ttl = 0\<rparr> []]\<rparr>"

section \<open>The length of a message\<close>

abbreviation (input) headerSize :: nat where "headerSize \<equiv> 12"
abbreviation (input) maxCompressionOffset :: nat where "maxCompressionOffset \<equiv> 16384"

text \<open>The names already in the message, \<open>None\<close> when nothing is compressed.\<close>

type_synonym compression = "string set option"

definition isDDD :: "string \<Rightarrow> bool" where
  "isDDD s \<longleftrightarrow> length s \<ge> 3 \<and> list_all is_digit (take 3 s)"

fun escapedNameLen :: "string \<Rightarrow> nat" where
  "escapedNameLen [] = 0"
| "escapedNameLen (c # s) =
     (if c \<noteq> CHR 92 then 1 + escapedNameLen s
      else if isDDD s then 1 + escapedNameLen (drop 3 s)
      else length (take 1 s) + escapedNameLen (drop 1 s))"

text \<open>The search goes over the suffixes that start at a label; \<open>off\<close> is where the current one starts.\<close>

fun compressionLenSearch_loop :: "string set \<Rightarrow> nat \<Rightarrow> nat \<Rightarrow> string list \<Rightarrow> nat option \<times> string set" where
  "compressionLenSearch_loop c msgOff off [] = (None, c)"
| "compressionLenSearch_loop c msgOff off (p # ps) =
     (if concat (p # ps) \<in> c then (Some off, c)
      else compressionLenSearch_loop (if msgOff + off < maxCompressionOffset then insert (concat (p # ps)) c else c)
             msgOff (off + length p) ps)"

definition compressionLenSearch :: "string set \<Rightarrow> string \<Rightarrow> nat \<Rightarrow> nat option \<times> string set" where
  "compressionLenSearch c s msgOff = compressionLenSearch_loop c msgOff 0 (label_pieces s)"

definition domainNameLen :: "string \<Rightarrow> nat \<Rightarrow> compression \<Rightarrow> bool \<Rightarrow> nat \<times> compression" where
  "domainNameLen s off compression compress =
     (if s = '''' \<or> s = ''.'' then (1, compression)
      else
        let escaped = CHR 92 \<in> set s;
            span = (\<lambda>t. if escaped then escapedNameLen t else length t)
        in case compression of
             None \<Rightarrow> (span s + 1, None)
           | Some c \<Rightarrow>
               if compress \<or> off < maxCompressionOffset then
                 (case compressionLenSearch c s off of
                    (Some l, c) \<Rightarrow> (if compress then span (take l s) + 2 else span s + 1, Some c)
                  | (None, c) \<Rightarrow> (span s + 1, Some c))
               else (span s + 1, Some c))"

definition question_len :: "question \<Rightarrow> nat \<Rightarrow> compression \<Rightarrow> nat \<times> compression" where
  "question_len q off compression = (let (l, c) = domainNameLen (qn_Name q) off compression True in (l + 2 + 2, c))"

definition header_len :: "rr_header \<Rightarrow> nat \<Rightarrow> compression \<Rightarrow> nat \<times> compression" where
  "header_len h off compression = (let (l, c) = domainNameLen (hdr_Name h) off compression True in (l + 10, c))"

fun parts_len :: "rdata_part list \<Rightarrow> nat \<Rightarrow> nat \<Rightarrow> compression \<Rightarrow> nat \<times> compression" where
  "parts_len [] off l c = (l, c)"
| "parts_len (Octets s # ps) off l c = parts_len ps off (l + length s) c"
| "parts_len (DName n compress # ps) off l c =
     (let (k, c) = domainNameLen n (off + l) c compress in parts_len ps off (l + k) c)"

fun options_len :: "(16 word \<times> string) list \<Rightarrow> nat" where
  "options_len [] = 0"
| "options_len ((code, data) # os) = 4 + length data + options_len os"

definition ip_len :: "nat \<Rightarrow> go_ip \<Rightarrow> nat" where
  "ip_len n ip = (case ip of None \<Rightarrow> 0 | Some b \<Rightarrow> if length b \<noteq> 0 then n else 0)"

fun rr_len :: "rr \<Rightarrow> nat \<Rightarrow> compression \<Rightarrow> nat \<times> compression" where
  "rr_len (RR_A h ip) off c = (let (l, c) = header_len h off c in (l + ip_len 4 ip, c))"
| "rr_len (RR_AAAA h ip) off c = (let (l, c) = header_len h off c in (l + ip_len 16 ip, c))"
| "rr_len (RR_PTR h s) off c =
     (let (l, c) = header_len h off c; (k, c) = domainNameLen s (off + l) c True in (l + k, c))"
| "rr_len (RR_OPT h os) off c = (let (l, c) = header_len h off c in (l + options_len os, c))"
| "rr_len (OtherRR h ps) off c = (let (l, c) = header_len h off c in parts_len ps off l c)"

definition questions_len :: "question list \<Rightarrow> nat \<times> compression \<Rightarrow> nat \<times> compression" where
  "questions_len qs = fold (\<lambda>q (l, c). let (k, c) = question_len q l c in (l + k, c)) qs"

definition rrs_len :: "rr list \<Rightarrow> nat \<times> compression \<Rightarrow> nat \<times> compression" where
  "rrs_len rs = fold (\<lambda>r (l, c). let (k, c) = rr_len r l c in (l + k, c)) rs"

definition msgLenWithCompressionMap :: "msg \<Rightarrow> compression \<Rightarrow> nat" where
  "msgLenWithCompressionMap m compression =
     (let p = questions_len (m_Question m) (headerSize, compression);
          p = rrs_len (m_Answer m) p;
          p = rrs_len (m_Ns m) p;
          (l, c) = rrs_len (m_Extra m) p
      in l)"

definition isCompressible :: "msg \<Rightarrow> bool" where
  "isCompressible m \<longleftrightarrow> length (m_Question m) > 1 \<or> length (m_Answer m) > 0 \<or> length (m_Ns m) > 0 \<or> length (m_Extra m) > 0"

definition Len :: "msg \<Rightarrow> nat" where
  "Len m = (if m_Compress m \<and> isCompressible m then msgLenWithCompressionMap m (Some {}) else msgLenWithCompressionMap m None)"

definition rr_Len :: "rr \<Rightarrow> nat" where
  "rr_Len r = fst (rr_len r 0 None)"

section \<open>The cut to a size\<close>

definition IsTsig :: "msg \<Rightarrow> bool" where
  "IsTsig m \<longleftrightarrow> length (m_Extra m) > 0 \<and> rr_type (last (m_Extra m)) = TypeTSIG"

fun pop_first :: "('a \<Rightarrow> bool) \<Rightarrow> 'a list \<Rightarrow> 'a option \<times> 'a list" where
  "pop_first P [] = (None, [])"
| "pop_first P (x # xs) = (if P x then (Some x, xs) else let (y, ys) = pop_first P xs in (y, x # ys))"

definition popEdns0 :: "msg \<Rightarrow> rr option \<times> msg" where
  "popEdns0 m =
     (let (opt, rest) = pop_first (\<lambda>r. rr_type r = TypeOPT) (rev (m_Extra m)) in (opt, m\<lparr>m_Extra := rev rest\<rparr>))"

text \<open>\<open>i\<close> counts the records passed; the compression map is shared with the sections that follow.\<close>

fun truncateLoop :: "rr list \<Rightarrow> nat \<Rightarrow> nat \<Rightarrow> compression \<Rightarrow> nat \<Rightarrow> (nat \<times> nat) \<times> compression" where
  "truncateLoop [] sz l c i = ((l, i), c)"
| "truncateLoop (r # rs) sz l c i =
     (let (k, c) = rr_len r l c; l = l + k in
      if l > sz then ((sz, i), c)
      else if l = sz then ((l, i + 1), c)
      else truncateLoop rs sz l c (i + 1))"

definition truncate_section :: "rr list \<Rightarrow> nat \<Rightarrow> nat \<Rightarrow> compression \<Rightarrow> (nat \<times> nat) \<times> compression" where
  "truncate_section rs sz l c = (if l < sz then truncateLoop rs sz l c 0 else ((l, 0), c))"

text \<open>
  With an OPT record longer than the size the room left is negative in the code and 0 here;
  with the header alone longer than either, no record is kept.
\<close>

definition Truncate :: "nat \<Rightarrow> msg \<Rightarrow> msg" where
  "Truncate sz m =
     (if IsTsig m then m
      else
        let sz = (if sz < MinMsgSize then MinMsgSize else sz) in
        if msgLenWithCompressionMap m None \<le> sz then m\<lparr>m_Compress := False\<rparr>
        else
          let m = m\<lparr>m_Compress := True\<rparr>;
              (edns0, m) = popEdns0 m;
              sz = (case edns0 of None \<Rightarrow> sz | Some opt \<Rightarrow> sz - rr_Len opt);
              (l, c) = questions_len (m_Question m) (headerSize, Some {});
              ((l, numAnswer), c) = truncate_section (m_Answer m) sz l c;
              ((l, numNS), c) = truncate_section (m_Ns m) sz l c;
              ((l, numExtra), c) = truncate_section (m_Extra m) sz l c;
              m = m\<lparr>m_Truncated := m_Truncated m \<or> length (m_Answer m) > numAnswer \<or> length (m_Ns m) > numNS
                      \<or> length (m_Extra m) > numExtra\<rparr>;
              m = m\<lparr>m_Answer := take numAnswer (m_Answer m), m_Ns := take numNS (m_Ns m), m_Extra := take numExtra (m_Extra m)\<rparr>
          in case edns0 of None \<Rightarrow> m | Some opt \<Rightarrow> m\<lparr>m_Extra := m_Extra m @ [opt]\<rparr>)"

section \<open>What the cut keeps\<close>

lemma Truncate_header [simp]:
  "m_Id (Truncate n m) = m_Id m" "m_Response (Truncate n m) = m_Response m" "m_Opcode (Truncate n m) = m_Opcode m"
  "m_Rcode (Truncate n m) = m_Rcode m" "m_Question (Truncate n m) = m_Question m"
  "m_Authoritative (Truncate n m) = m_Authoritative m" "m_RecursionAvailable (Truncate n m) = m_RecursionAvailable m"
  by (auto simp: Truncate_def Let_def popEdns0_def split: prod.split option.split)

lemma Truncate_prefix:
  "\<exists>k\<le>length (m_Answer m). m_Answer (Truncate n m) = take k (m_Answer m) \<and> (k < length (m_Answer m) \<longrightarrow> m_Truncated (Truncate n m))"
proof -
  have eq: "\<exists>k\<le>length (m_Answer m). m_Answer (Truncate n m) = take k (m_Answer m) \<and> (k < length (m_Answer m) \<longrightarrow> m_Truncated (Truncate n m))"
    if "m_Answer (Truncate n m) = take j (m_Answer m)" "m_Truncated (Truncate n m) \<or> j \<ge> length (m_Answer m)" for j
    using that by (intro exI [of _ "min j (length (m_Answer m))"]) (auto simp: min_def)
  show ?thesis
  proof (cases "IsTsig m \<or> msgLenWithCompressionMap m None \<le> max n MinMsgSize")
    case True
    then show ?thesis by (intro eq [of "length (m_Answer m)"]) (auto simp: Truncate_def Let_def max_def)
  next
    case False
    have "\<exists>j. m_Answer (Truncate n m) = take j (m_Answer m) \<and> (m_Truncated (Truncate n m) \<or> j \<ge> length (m_Answer m))"
      using False by (auto simp: Truncate_def Let_def popEdns0_def max_def not_le split: prod.split option.split if_splits)
    then show ?thesis using eq by blast
  qed
qed

lemma Truncate_keeps_truncated: "m_Truncated m \<Longrightarrow> m_Truncated (Truncate n m)"
  by (auto simp: Truncate_def Let_def popEdns0_def split: prod.split option.split)

section \<open>The cut fits\<close>

lemma rrs_len_simps [simp]:
  "rrs_len [] p = p" "rrs_len (rs @ rs') p = rrs_len rs' (rrs_len rs p)"
  "rrs_len (r # rs) (l, c) = rrs_len rs (l + fst (rr_len r l c), snd (rr_len r l c))"
  by (simp_all add: rrs_len_def case_prod_beta Let_def)

lemma truncateLoop_bound:
  assumes "truncateLoop rs sz l c i = ((l', j), c')" "l < sz"
  shows "\<exists>k. j = i + k \<and> k \<le> length rs \<and> fst (rrs_len (take k rs) (l, c)) \<le> sz \<and>
    (l' < sz \<longrightarrow> k = length rs \<and> rrs_len rs (l, c) = (l', c'))"
  using assms
proof (induction rs arbitrary: l c i)
  case (Cons r rs)
  obtain k0 c0 where k: "rr_len r l c = (k0, c0)" by fastforce
  consider "l + k0 > sz" | "l + k0 = sz" | "l + k0 < sz" by linarith
  then show ?case
  proof cases
    case 1
    then show ?thesis using Cons.prems k by (intro exI [of _ 0]) auto
  next
    case 2
    then show ?thesis using Cons.prems k by (intro exI [of _ 1]) auto
  next
    case 3
    then obtain n where "j = i + 1 + n" "n \<le> length rs" "fst (rrs_len (take n rs) (l + k0, c0)) \<le> sz"
      "l' < sz \<longrightarrow> n = length rs \<and> rrs_len rs (l + k0, c0) = (l', c')"
      using Cons.IH [of "l + k0" c0 "i + 1"] Cons.prems k by auto
    then show ?thesis using k by (intro exI [of _ "Suc n"]) auto
  qed
qed auto

text \<open>
  While the length followed is below the size it is the length of the records kept; the
  records kept fit in any case.
\<close>

definition within :: "nat \<Rightarrow> nat \<times> compression \<Rightarrow> nat \<times> compression \<Rightarrow> bool" where
  "within sz kept followed \<longleftrightarrow> fst kept \<le> sz \<and> (fst followed < sz \<longrightarrow> kept = followed)"

lemma within_section:
  assumes "within sz p (l, c)" "truncate_section rs sz l c = ((l', k), c')"
  shows "within sz (rrs_len (take k rs) p) (l', c')"
proof (cases "l < sz")
  case True
  with assms show ?thesis
    using truncateLoop_bound [of rs sz l c 0 l' k c'] by (auto simp: within_def truncate_section_def)
next
  case False
  with assms show ?thesis by (auto simp: within_def truncate_section_def)
qed

text \<open>A single name in a message has nothing to refer to.\<close>

lemma label_pieces_aux_not_empty: "cur \<noteq> [] \<or> s \<noteq> [] \<Longrightarrow> p \<in> set (label_pieces_aux e cur s) \<Longrightarrow> p \<noteq> []"
  by (induction e cur s rule: label_pieces_aux.induct) (auto split: if_splits)

lemma search_none:
  assumes "\<forall>t\<in>c. length (concat ps) < length t" "\<forall>p\<in>set ps. p \<noteq> []"
  shows "fst (compressionLenSearch_loop c msgOff off ps) = None"
  using assms
proof (induction ps arbitrary: c off)
  case (Cons p ps)
  have "concat (p # ps) \<notin> c" using Cons.prems(1) by auto
  moreover have "\<forall>t\<in>insert (concat (p # ps)) c. length (concat ps) < length t" using Cons.prems by fastforce
  then have "fst (compressionLenSearch_loop (if b then insert (concat (p # ps)) c else c) msgOff (off + length p) ps) = None" for b
    using Cons.prems(2) by (intro Cons.IH) (auto split: if_splits)
  ultimately show ?case by simp
qed simp

lemma domainNameLen_alone: "fst (domainNameLen s off (Some {}) True) = fst (domainNameLen s off None True)"
proof -
  have "fst (compressionLenSearch {} s off) = None" if "s \<noteq> []"
    unfolding compressionLenSearch_def
    by (rule search_none) (use that label_pieces_aux_not_empty [of "[]" s _ False] in \<open>auto simp: label_pieces_def\<close>)
  then show ?thesis by (auto simp: domainNameLen_def Let_def split: prod.split option.split)
qed

lemma questions_len_alone:
  "length qs \<le> 1 \<Longrightarrow> fst (questions_len qs (l, Some {})) = fst (questions_len qs (l, None))"
  using domainNameLen_alone [of _ l] by (cases qs) (auto simp: questions_len_def question_len_def case_prod_beta Let_def)

lemma Len_compressed: "m_Compress m \<Longrightarrow> Len m = msgLenWithCompressionMap m (Some {})"
  using questions_len_alone [of "m_Question m" headerSize]
  by (auto simp: Len_def isCompressible_def msgLenWithCompressionMap_def case_prod_beta Let_def)


text \<open>An OPT record has the root as its name, which is never compressed.\<close>

fun plain_opt :: "rr \<Rightarrow> bool" where
  "plain_opt (RR_OPT h os) \<longleftrightarrow> hdr_Name h = '''' \<or> hdr_Name h = ''.''"
| "plain_opt r \<longleftrightarrow> False"

definition opts_plain :: "msg \<Rightarrow> bool" where
  "opts_plain m \<longleftrightarrow> list_all (\<lambda>r. rr_type r = TypeOPT \<longrightarrow> plain_opt r) (m_Extra m)"

lemma plain_opt_len: "plain_opt r \<Longrightarrow> rr_len r off c = (rr_Len r, c)"
  by (cases r) (auto simp: rr_Len_def header_len_def domainNameLen_def)

lemma pop_first_find: "fst (pop_first P xs) = List.find P xs"
  by (induction xs) (auto simp: case_prod_beta)

text \<open>What a message holds whatever is cut: its header, its questions and its OPT record.\<close>

definition fixed_len :: "msg \<Rightarrow> nat" where
  "fixed_len m = fst (questions_len (m_Question m) (headerSize, Some {})) + (case IsEdns0 m of None \<Rightarrow> 0 | Some opt \<Rightarrow> rr_Len opt)"

lemma Truncate_fits:
  assumes "\<not> IsTsig m" "opts_plain m" "fixed_len m \<le> max n MinMsgSize"
  shows "Len (Truncate n m) \<le> max n MinMsgSize"
proof (cases "msgLenWithCompressionMap m None \<le> max n MinMsgSize")
  case True
  then have "Truncate n m = m\<lparr>m_Compress := False\<rparr>" using assms(1) by (auto simp: Truncate_def Let_def max_def)
  then show ?thesis using True by (simp add: Len_def msgLenWithCompressionMap_def)
next
  case False
  obtain edns0 rest where pop: "pop_first (\<lambda>r. rr_type r = TypeOPT) (rev (m_Extra m)) = (edns0, rest)" by fastforce
  have e: "edns0 = IsEdns0 m" using pop pop_first_find by (metis IsEdns0_def fst_conv)
  define r where "r = (case edns0 of None \<Rightarrow> 0 | Some opt \<Rightarrow> rr_Len opt)"
  define sz where "sz = max n MinMsgSize - r"
  obtain l0 c0 where q: "questions_len (m_Question m) (headerSize, Some {}) = (l0, c0)" by fastforce
  obtain l1 na c1 where s1: "truncate_section (m_Answer m) sz l0 c0 = ((l1, na), c1)" by (metis prod.exhaust)
  obtain l2 nn c2 where s2: "truncate_section (m_Ns m) sz l1 c1 = ((l2, nn), c2)" by (metis prod.exhaust)
  obtain l3 ne c3 where s3: "truncate_section (rev rest) sz l2 c2 = ((l3, ne), c3)" by (metis prod.exhaust)
  have room: "l0 + r \<le> max n MinMsgSize" using assms(3) by (simp add: fixed_len_def q e r_def)
  then have "within sz (l0, c0) (l0, c0)" by (simp add: within_def sz_def)
  note w = within_section [OF within_section [OF within_section [OF this s1] s2] s3]
  have m': "m_Compress (Truncate n m)" "m_Answer (Truncate n m) = take na (m_Answer m)" "m_Ns (Truncate n m) = take nn (m_Ns m)"
    "m_Extra (Truncate n m) = take ne (rev rest) @ (case edns0 of None \<Rightarrow> [] | Some opt \<Rightarrow> [opt])"
    using False assms(1) s1 s2 s3 q
    by (auto simp: Truncate_def Let_def popEdns0_def pop max_def sz_def r_def split: option.splits if_splits)
  have tail: "fst (rrs_len (case edns0 of None \<Rightarrow> [] | Some opt \<Rightarrow> [opt]) p) = fst p + r" for p
  proof (cases edns0)
    case (Some opt)
    then have "rr_type opt = TypeOPT" "opt \<in> set (m_Extra m)" using e find_SomeD [of _ "rev (m_Extra m)" opt] by (auto simp: IsEdns0_def)
    then have "plain_opt opt" using assms(2) by (auto simp: opts_plain_def list_all_iff)
    then show ?thesis using Some by (cases p) (simp add: plain_opt_len r_def)
  qed (simp add: r_def)
  have "Len (Truncate n m) = fst (rrs_len (take ne (rev rest)) (rrs_len (take nn (m_Ns m)) (rrs_len (take na (m_Answer m)) (l0, c0)))) + r"
    by (simp add: Len_compressed [OF m'(1)] msgLenWithCompressionMap_def m' q tail case_prod_beta)
  then show ?thesis using w room unfolding within_def sz_def by linarith
qed


section \<open>The cut keeps as many answers as fit\<close>

lemma header_len_pos: "fst (header_len h off c) > 0"
  by (auto simp: header_len_def case_prod_beta Let_def)

lemma parts_len_ge: "l \<le> fst (parts_len ps off l c)"
proof (induction ps off l c rule: parts_len.induct)
  case (3 n compress ps off l c)
  then show ?case by (cases "domainNameLen n (off + l) c compress") (fastforce intro: order_trans [OF le_add1])
qed (auto intro: order_trans [OF le_add1])

lemma rr_len_pos: "fst (rr_len r off c) > 0"
  by (cases r) (auto simp: case_prod_beta Let_def header_len_pos intro: less_le_trans [OF header_len_pos parts_len_ge])

lemma truncateLoop_maximal:
  assumes "truncateLoop rs sz l c i = ((l', i + k), c')" "l < sz" "k < length rs"
  shows "sz < fst (rrs_len (take (Suc k) rs) (l, c))"
  using assms
proof (induction rs arbitrary: l c i k)
  case (Cons r rs)
  obtain k0 c0 where k0: "rr_len r l c = (k0, c0)" by fastforce
  consider "l + k0 > sz" | "l + k0 = sz" | "l + k0 < sz" by linarith
  then show ?case
  proof cases
    case 1
    then show ?thesis using Cons.prems k0 by auto
  next
    case 2
    then have "k = 1" using Cons.prems k0 by auto
    moreover obtain r' rs' where "rs = r' # rs'" using Cons.prems(3) \<open>k = 1\<close> by (cases rs) auto
    ultimately show ?thesis using 2 k0 rr_len_pos [of r' "l + k0" c0] by simp
  next
    case 3
    have "k \<noteq> 0" using Cons.prems k0 3 truncateLoop_bound [of rs sz "l + k0" c0 "Suc i" l' "i + k" c'] by auto
    then obtain n where "k = Suc n" by (cases k) auto
    then show ?thesis using Cons.IH [of "l + k0" c0 "Suc i" n] Cons.prems k0 3 by simp
  qed
qed simp

lemma section_maximal:
  assumes "truncate_section rs sz l c = ((l', k), c')" "l \<le> sz" "k < length rs"
  shows "sz < fst (rrs_len (take (Suc k) rs) (l, c))"
proof (cases "l < sz")
  case True
  then show ?thesis using assms truncateLoop_maximal [of rs sz l c 0 l' k c'] by (simp add: truncate_section_def)
next
  case False
  then show ?thesis using assms rr_len_pos [of "hd rs" l c] by (cases rs) (auto simp: truncate_section_def)
qed

text \<open>The length of a reply with only its questions, its first answers and its OPT record.\<close>

definition answers_len :: "nat \<Rightarrow> msg \<Rightarrow> nat" where
  "answers_len k m = fst (rrs_len (take k (m_Answer m)) (questions_len (m_Question m) (headerSize, Some {})))
     + (case IsEdns0 m of None \<Rightarrow> 0 | Some opt \<Rightarrow> rr_Len opt)"

lemma Truncate_maximal:
  assumes "fixed_len m \<le> max n MinMsgSize" "length (m_Answer (Truncate n m)) = k" "k < length (m_Answer m)"
  shows "max n MinMsgSize < answers_len (Suc k) m"
proof -
  have t: "\<not> IsTsig m" "\<not> msgLenWithCompressionMap m None \<le> max n MinMsgSize"
    using assms(2,3) by (auto simp: Truncate_def Let_def max_def split: if_splits)
  obtain edns0 rest where pop: "pop_first (\<lambda>r. rr_type r = TypeOPT) (rev (m_Extra m)) = (edns0, rest)" by fastforce
  have e: "edns0 = IsEdns0 m" using pop pop_first_find by (metis IsEdns0_def fst_conv)
  define r where "r = (case edns0 of None \<Rightarrow> 0 | Some opt \<Rightarrow> rr_Len opt)"
  define sz where "sz = max n MinMsgSize - r"
  obtain l0 c0 where q: "questions_len (m_Question m) (headerSize, Some {}) = (l0, c0)" by fastforce
  obtain l1 na c1 where s1: "truncate_section (m_Answer m) sz l0 c0 = ((l1, na), c1)" by (metis prod.exhaust)
  have "m_Answer (Truncate n m) = take na (m_Answer m)"
    using t s1 q by (auto simp: Truncate_def Let_def popEdns0_def pop max_def sz_def r_def split: option.splits if_splits prod.splits)
  then have "k = na" using assms(2,3) by auto
  moreover have "l0 + r \<le> max n MinMsgSize" using assms(1) by (simp add: fixed_len_def q e r_def)
  ultimately have "sz < fst (rrs_len (take (Suc k) (m_Answer m)) (l0, c0))"
    using section_maximal [OF s1] assms(3) by (simp add: sz_def)
  then show ?thesis unfolding answers_len_def q e [symmetric] r_def [symmetric] sz_def by linarith
qed

end
