(* ===== verification/Dns_Msg.thy ===== *)
theory Dns_Msg
  imports Record_Set Dns_Wire
begin

text \<open>
  The response truncater and the local domain
  (\<^verbatim>\<open>src/bosh-dns/dns/server/records/dnsresolver/{truncater,local_domain}.go\<close>), and the
  handlers that answer without asking another server
  (\<^verbatim>\<open>src/bosh-dns/dns/server/handlers/{discovery,deny,upcheck}_handler.go\<close>). A handler returns
  the messages it writes, in order.
\<close>

section \<open>The truncater\<close>

text \<open>The network of the remote address of a response writer.\<close>

datatype network = UDP | TCP | OtherNetwork

definition TruncateIfNeeded :: "network \<Rightarrow> msg \<Rightarrow> msg \<Rightarrow> msg" where
  "TruncateIfNeeded network req resp =
     (let (maxLength, resp) =
            (if network = UDP then
               (case IsEdns0 req of
                  Some reqEdns \<Rightarrow>
                    (let maxLength = unat (UDPSize reqEdns)
                     in (maxLength, if IsEdns0 resp = None then SetEdns0 (of_nat maxLength) resp else resp))
                | None \<Rightarrow> (MinMsgSize, resp))
             else (MaxMsgSize, resp))
      in if m_Truncated resp \<and> Len resp < maxLength then resp
         else let upstreamTruncated = m_Truncated resp;
                  resp = Truncate maxLength resp
              in if upstreamTruncated then resp\<lparr>m_Truncated := True\<rparr> else resp)"

section \<open>The local domain\<close>

datatype lookup_error = RecordError record_error | OtherLookupError

definition header_for :: "string \<Rightarrow> 16 word \<Rightarrow> 32 word \<Rightarrow> rr_header" where
  "header_for name rrtype ttl = \<lparr>hdr_Name = name, hdr_Rrtype = rrtype, hdr_Class = ClassINET, hdr_Ttl = ttl\<rparr>"

text \<open>One round of the loop over the IPs; a nil IP has no IPv4 form.\<close>

definition ip_answer :: "question \<Rightarrow> string \<Rightarrow> rr list" where
  "ip_answer question ipStr =
     (let ip = ParseIP ipStr in
      if To4 ip \<noteq> None then
        (if qn_Qtype question = TypeA \<or> qn_Qtype question = TypeANY
         then [RR_A (header_for (qn_Name question) TypeA 0) ip] else [])
      else
        (if qn_Qtype question = TypeAAAA \<or> qn_Qtype question = TypeANY
         then [RR_AAAA (header_for (qn_Name question) TypeAAAA 0) ip] else []))"

text \<open>\<open>shuffle\<close> is \<^verbatim>\<open>rand.Shuffle\<close>, \<open>resolve\<close> the record set.\<close>

definition LocalDomain_resolve ::
  "(rr list \<Rightarrow> rr list) \<Rightarrow> (string \<Rightarrow> lookup_error + string list) \<Rightarrow> question \<Rightarrow> rr list \<times> int" where
  "LocalDomain_resolve shuffle resolve question =
     (case resolve (ToLower (qn_Name question)) of
        Inl (RecordError CriteriaError) \<Rightarrow> ([], RcodeFormatError)
      | Inl (RecordError DomainError) \<Rightarrow> ([], RcodeNameError)
      | Inl OtherLookupError \<Rightarrow> ([], RcodeServerFailure)
      | Inr ipStrs \<Rightarrow> (shuffle (concat (map (ip_answer question) ipStrs)), RcodeSuccess))"

text \<open>The request has a question: its handler checks that.\<close>

definition LocalDomain_Resolve ::
  "(rr list \<Rightarrow> rr list) \<Rightarrow> (string \<Rightarrow> lookup_error + string list) \<Rightarrow> (network \<Rightarrow> msg \<Rightarrow> msg \<Rightarrow> msg) \<Rightarrow>
   network \<Rightarrow> msg \<Rightarrow> msg" where
  "LocalDomain_Resolve shuffle resolve truncateIfNeeded network requestMsg =
     (let (answers, rCode) = LocalDomain_resolve shuffle resolve (hd (m_Question requestMsg));
          m = new_msg\<lparr>m_RecursionAvailable := True, m_Authoritative := True, m_Answer := answers\<rparr>;
          m = SetRcode requestMsg rCode m
      in truncateIfNeeded network requestMsg m)"

section \<open>Handlers\<close>

definition DiscoveryHandler_ServeDNS ::
  "(network \<Rightarrow> msg \<Rightarrow> msg) \<Rightarrow> network \<Rightarrow> msg \<Rightarrow> msg list" where
  "DiscoveryHandler_ServeDNS localResolve network requestMsg =
     (let responseMsg =
            (if length (m_Question requestMsg) > 0 then
               let hostResponse = localResolve network requestMsg;
                   qtype = qn_Qtype (hd (m_Question requestMsg))
               in if qtype = TypeA \<or> qtype = TypeANY \<or> qtype = TypeAAAA then hostResponse
                  else if m_Rcode hostResponse = RcodeNameError then SetRcode requestMsg RcodeNameError new_msg
                  else SetRcode requestMsg RcodeSuccess new_msg
             else new_msg)
      in [responseMsg\<lparr>m_Authoritative := True, m_RecursionAvailable := True\<rparr>])"

definition NewDenyHandler :: "string \<Rightarrow> int" where
  "NewDenyHandler responseType = (if responseType = ''REFUSED'' then RcodeRefused else RcodeNameError)"

definition DenyHandler_ServeDNS :: "int \<Rightarrow> msg \<Rightarrow> msg list" where
  "DenyHandler_ServeDNS responseCode r =
     (let response = SetReply r new_msg;
          response = SetRcode r responseCode response
      in [response\<lparr>m_Authoritative := True, m_RecursionAvailable := True\<rparr>])"

definition localhostIP :: go_ip where "localhostIP = ParseIP ''127.0.0.1''"

definition localhostIPv6 :: go_ip where "localhostIPv6 = ParseIP ''::1''"

definition UpcheckHandler_ServeDNS :: "msg \<Rightarrow> msg list" where
  "UpcheckHandler_ServeDNS req =
     (let out = new_msg\<lparr>m_Authoritative := True, m_RecursionAvailable := True\<rparr>;
          out = (if length (m_Question req) > 0 then
                   let q = hd (m_Question req); reqType = qn_Qtype q;
                       out = (if reqType = TypeANY \<or> reqType = TypeA
                              then out\<lparr>m_Answer := m_Answer out @ [RR_A (header_for (qn_Name q) TypeA 0) localhostIP]\<rparr>
                              else out)
                   in if reqType = TypeANY \<or> reqType = TypeAAAA
                      then out\<lparr>m_Answer := m_Answer out @ [RR_AAAA (header_for (qn_Name q) TypeAAAA 0) localhostIPv6]\<rparr>
                      else out
                 else out)
      in [SetReply req out])"

section \<open>Replies\<close>

text \<open>What makes a message a reply to a request.\<close>

definition is_reply :: "msg \<Rightarrow> msg \<Rightarrow> bool" where
  "is_reply request m \<longleftrightarrow> m_Response m \<and> m_Id m = m_Id request \<and> m_Opcode m = m_Opcode request \<and>
     (m_Question request \<noteq> [] \<longrightarrow> m_Question m = [hd (m_Question request)])"

lemma SetReply_simps [simp]:
  "m_Rcode (SetReply r m) = RcodeSuccess" "m_Answer (SetReply r m) = m_Answer m" "m_Extra (SetReply r m) = m_Extra m"
  "m_Authoritative (SetReply r m) = m_Authoritative m" "m_RecursionAvailable (SetReply r m) = m_RecursionAvailable m"
  "m_Truncated (SetReply r m) = m_Truncated m" "m_Ns (SetReply r m) = m_Ns m"
  by (simp_all add: SetReply_def Let_def)

lemma is_reply_SetReply [simp]: "is_reply r (SetReply r m)"
  by (auto simp: is_reply_def SetReply_def Let_def)

lemma SetRcode_simps [simp]:
  "m_Rcode (SetRcode r c m) = c" "m_Answer (SetRcode r c m) = m_Answer m" "m_Extra (SetRcode r c m) = m_Extra m"
  "m_Authoritative (SetRcode r c m) = m_Authoritative m" "m_RecursionAvailable (SetRcode r c m) = m_RecursionAvailable m"
  "m_Truncated (SetRcode r c m) = m_Truncated m" "is_reply r (SetRcode r c m)"
  using is_reply_SetReply [of r m] by (simp_all add: SetRcode_def is_reply_def)

lemma is_reply_update [simp]:
  "is_reply r (m\<lparr>m_Authoritative := a\<rparr>) = is_reply r m" "is_reply r (m\<lparr>m_RecursionAvailable := b\<rparr>) = is_reply r m"
  "is_reply r (m\<lparr>m_Answer := as\<rparr>) = is_reply r m" "is_reply r (m\<lparr>m_Truncated := t\<rparr>) = is_reply r m"
  "is_reply r (m\<lparr>m_Rcode := c\<rparr>) = is_reply r m" "is_reply r (m\<lparr>m_Extra := es\<rparr>) = is_reply r m"
  by (simp_all add: is_reply_def)

section \<open>Truncation\<close>

text \<open>The room a client leaves for the reply.\<close>

definition reply_limit :: "network \<Rightarrow> msg \<Rightarrow> nat" where
  "reply_limit network req =
     (if network = UDP then (case IsEdns0 req of None \<Rightarrow> MinMsgSize | Some opt \<Rightarrow> max (unat (UDPSize opt)) MinMsgSize)
      else MaxMsgSize)"

definition truncation_target :: "network \<Rightarrow> msg \<Rightarrow> msg \<Rightarrow> nat \<times> msg" where
  "truncation_target network req resp =
     (if network = UDP then
        (case IsEdns0 req of
           Some opt \<Rightarrow> (unat (UDPSize opt), if IsEdns0 resp = None then SetEdns0 (UDPSize opt) resp else resp)
         | None \<Rightarrow> (MinMsgSize, resp))
      else (MaxMsgSize, resp))"

lemma TruncateIfNeeded_target:
  "TruncateIfNeeded network req resp =
     (let (n, m) = truncation_target network req resp in
      if m_Truncated m \<and> Len m < n then m
      else if m_Truncated m then (Truncate n m)\<lparr>m_Truncated := True\<rparr> else Truncate n m)"
  by (auto simp: TruncateIfNeeded_def truncation_target_def Let_def split: option.splits)

lemma is_reply_Truncate [simp]: "is_reply r (Truncate n m) = is_reply r m"
  by (simp add: is_reply_def)

lemma truncation_target_simps:
  assumes "truncation_target network req resp = (n, m)"
  shows "max n MinMsgSize = reply_limit network req" "m_Rcode m = m_Rcode resp" "m_Answer m = m_Answer resp"
    "m_Truncated m = m_Truncated resp" "is_reply r m = is_reply r resp"
  using assms by (auto simp: truncation_target_def reply_limit_def SetEdns0_def max_def split: if_splits option.splits)

lemma TruncateIfNeeded_keeps:
  fixes network req resp
  defines "m \<equiv> TruncateIfNeeded network req resp"
  shows "m_Rcode m = m_Rcode resp" "is_reply r m = is_reply r resp"
    "\<exists>k. m_Answer m = take k (m_Answer resp)" "m_Truncated m \<or> m_Answer m = m_Answer resp"
    "m_Truncated resp \<Longrightarrow> m_Truncated m"
proof -
  obtain n t where t: "truncation_target network req resp = (n, t)" by fastforce
  note T = truncation_target_simps [OF t]
  show "m_Rcode m = m_Rcode resp" "is_reply r m = is_reply r resp" "m_Truncated resp \<Longrightarrow> m_Truncated m"
    using T unfolding m_def TruncateIfNeeded_target t by (auto simp: Let_def Truncate_keeps_truncated)
  obtain k where "k \<le> length (m_Answer resp)" "m_Answer (Truncate n t) = take k (m_Answer resp)"
    "k < length (m_Answer resp) \<longrightarrow> m_Truncated (Truncate n t)" using Truncate_prefix [of t n] T(3) by auto
  then show "\<exists>k. m_Answer m = take k (m_Answer resp)" "m_Truncated m \<or> m_Answer m = m_Answer resp"
    using T(3,4) unfolding m_def TruncateIfNeeded_target t by (auto simp: Let_def intro: exI [of _ "length (m_Answer resp)"] exI [of _ k])
qed

text \<open>What the truncater may add to the fixed part of a reply: an OPT record without options.\<close>

lemma truncation_target_fixed:
  assumes "truncation_target network req resp = (n, m)" "\<not> IsTsig resp" "opts_plain resp" "fixed_len resp + 11 \<le> reply_limit network req"
  shows "\<not> IsTsig m" "opts_plain m" "fixed_len m \<le> max n MinMsgSize"
proof -
  show "\<not> IsTsig m" "opts_plain m"
    using assms(1-3) by (auto simp: truncation_target_def SetEdns0_def IsTsig_def opts_plain_def split: if_splits option.splits)
  have "IsEdns0 resp = None \<Longrightarrow> fixed_len (SetEdns0 u resp) = fixed_len resp + 11" for u
    by (simp add: fixed_len_def IsEdns0_def SetEdns0_def rr_Len_def header_len_def domainNameLen_def)
  then have "fixed_len m \<le> fixed_len resp + 11" using assms(1) by (auto simp: truncation_target_def split: if_splits option.splits)
  then show "fixed_len m \<le> max n MinMsgSize" using assms(4) truncation_target_simps(1) [OF assms(1)] by linarith
qed

lemma truncation_target_answers:
  assumes "truncation_target network req resp = (n, m)"
  shows "answers_len k m \<le> answers_len k resp + 11"
proof -
  have "IsEdns0 resp = None \<Longrightarrow> answers_len k (SetEdns0 u resp) = answers_len k resp + 11" for u
    by (simp add: answers_len_def IsEdns0_def SetEdns0_def rr_Len_def header_len_def domainNameLen_def)
  then show ?thesis using assms by (auto simp: truncation_target_def split: if_splits option.splits)
qed

lemma Len_flags [simp]:
  "Len (m\<lparr>m_Truncated := b\<rparr>) = Len m" "Len (m\<lparr>m_Authoritative := b\<rparr>) = Len m" "Len (m\<lparr>m_RecursionAvailable := b\<rparr>) = Len m"
  by (auto simp: Len_def msgLenWithCompressionMap_def isCompressible_def)

lemma TruncateIfNeeded_Len:
  assumes "\<not> IsTsig resp" "opts_plain resp" "fixed_len resp + 11 \<le> reply_limit network req"
  shows "Len (TruncateIfNeeded network req resp) \<le> reply_limit network req"
proof -
  obtain n t where t: "truncation_target network req resp = (n, t)" by fastforce
  show ?thesis
    using Truncate_fits [OF truncation_target_fixed [OF t assms]] truncation_target_simps(1) [OF t]
    unfolding TruncateIfNeeded_target t by (auto simp: Let_def)
qed

text \<open>
  C6: A reply without a signature, whose header and question leave room for an OPT record,
  fits after truncation into the room the client has: 512 bytes over UDP, or what its EDNS0
  option announces, and 65535 bytes otherwise. It still answers the request with the same
  rcode and as many of the first answers as fit, the next one and an OPT record being too
  long; it has the truncation bit whenever answers were dropped, and never loses the
  truncation bit of an upstream server.
\<close>

theorem TruncateIfNeeded_fits:
  assumes "m = TruncateIfNeeded network req resp"
    and "\<not> IsTsig resp" "opts_plain resp" "fixed_len resp + 11 \<le> reply_limit network req"
  shows "Len m \<le> reply_limit network req \<and> m_Rcode m = m_Rcode resp \<and> (is_reply req m = is_reply req resp) \<and>
    (\<exists>k\<le>length (m_Answer resp). m_Answer m = take k (m_Answer resp) \<and>
       (k < length (m_Answer resp) \<longrightarrow> m_Truncated m \<and> reply_limit network req < answers_len (Suc k) resp + 11)) \<and>
    (m_Truncated resp \<longrightarrow> m_Truncated m)"
proof -
  obtain n t where t: "truncation_target network req resp = (n, t)" by fastforce
  have "Len m \<le> reply_limit network req" using TruncateIfNeeded_Len [OF assms(2-4)] assms(1) by simp
  moreover obtain k where k: "m_Answer m = take k (m_Answer resp)" "k \<le> length (m_Answer resp)"
    using TruncateIfNeeded_keeps(3) [of network req resp] unfolding assms(1) by (metis nat_le_linear take_all order_refl)
  moreover have "reply_limit network req < answers_len (Suc k) resp + 11" if "k < length (m_Answer resp)"
  proof -
    have "m_Answer (Truncate n t) = take k (m_Answer resp)"
      using k that truncation_target_simps(3) [OF t] unfolding assms(1) TruncateIfNeeded_target t
      by (auto simp: Let_def split: if_splits)
    then have "max n MinMsgSize < answers_len (Suc k) t"
      using Truncate_maximal [OF truncation_target_fixed(3) [OF t assms(2-4)]] k(2) that truncation_target_simps(3) [OF t] by simp
    then show ?thesis using truncation_target_answers [OF t, of "Suc k"] truncation_target_simps(1) [OF t] by linarith
  qed
  ultimately show ?thesis
    using TruncateIfNeeded_keeps [where network = network and req = req and resp = resp] unfolding assms(1) by auto
qed

theorem TruncateIfNeeded_fits_witness:
  "let req = new_msg\<lparr>m_Id := 7, m_Question := [\<lparr>qn_Name = ''a.'', qn_Qtype = TypeA, qn_Qclass = ClassINET\<rparr>]\<rparr>;
       resp = SetReply req (new_msg\<lparr>m_Answer := replicate 40 (RR_A (header_for ''a.'' TypeA 0) (Some [10, 0, 0, 1]))\<rparr>);
       m = TruncateIfNeeded UDP req resp
   in Len m \<le> 512 \<and> length (m_Answer m) = 30 \<and> m_Truncated m \<and> is_reply req m"
proof -
  let ?req = "new_msg\<lparr>m_Id := 7, m_Question := [\<lparr>qn_Name = ''a.'', qn_Qtype = TypeA, qn_Qclass = ClassINET\<rparr>]\<rparr>"
  let ?resp = "SetReply ?req (new_msg\<lparr>m_Answer := replicate 40 (RR_A (header_for ''a.'' TypeA 0) (Some [10, 0, 0, 1]))\<rparr>)"
  have h: "\<not> IsTsig ?resp" "opts_plain ?resp" "reply_limit UDP ?req = 512" "is_reply ?req ?resp"
    by (simp_all add: IsTsig_def opts_plain_def new_msg_def reply_limit_def IsEdns0_def)
  have "fixed_len ?resp = 19" by code_simp
  then have "fixed_len ?resp + 11 \<le> reply_limit UDP ?req" by (simp add: h)
  note F = TruncateIfNeeded_fits [OF refl h(1,2) this]
  have "length (m_Answer (TruncateIfNeeded UDP ?req ?resp)) = 30" "m_Truncated (TruncateIfNeeded UDP ?req ?resp)" by code_simp+
  then show ?thesis using F h(3,4) unfolding Let_def by auto
qed

section \<open>Answers from the record set\<close>

definition address_question :: "question \<Rightarrow> bool" where
  "address_question q \<longleftrightarrow> qn_Qtype q = TypeA \<or> qn_Qtype q = TypeANY \<or> qn_Qtype q = TypeAAAA"

lemma ip_answer_header:
  "a \<in> set (ip_answer q ip) \<Longrightarrow> hdr_Name (rr_hdr a) = qn_Name q \<and> hdr_Ttl (rr_hdr a) = 0 \<and>
     (qn_Qtype q = TypeANY \<or> rr_type a = qn_Qtype q)"
  by (auto simp: ip_answer_def Let_def header_for_def split: if_splits)

text \<open>The rcode of the errors of a lookup.\<close>

fun lookup_rcode :: "lookup_error \<Rightarrow> int" where
  "lookup_rcode (RecordError CriteriaError) = RcodeFormatError"
| "lookup_rcode (RecordError DomainError) = RcodeNameError"
| "lookup_rcode OtherLookupError = RcodeServerFailure"

lemma LocalDomain_resolve_cases:
  "LocalDomain_resolve shuffle resolve q =
     (case resolve (ToLower (qn_Name q)) of
        Inl e \<Rightarrow> ([], lookup_rcode e)
      | Inr ips \<Rightarrow> (shuffle (concat (map (ip_answer q) ips)), RcodeSuccess))"
  by (simp add: LocalDomain_resolve_def split: sum.splits lookup_error.splits record_error.splits)

text \<open>The discovery handler answers a question with exactly one message, an authoritative
  reply to the request. For an address question the rcode tells a malformed name (FORMERR),
  an unknown one (NXDOMAIN) and another failure (SERVFAIL) apart; on success the answers
  are, up to their order, the addresses of the record set that the question asks for, each
  under the name as it was asked, unless the truncation bit says that some are missing.
  Other questions get no answers, and NXDOMAIN exactly for unknown names.\<close>

theorem discovery_reply:
  assumes "\<forall>xs. mset (shuffle xs) = mset xs" and "m_Question req = q # qs"
  shows "\<exists>m. DiscoveryHandler_ServeDNS (LocalDomain_Resolve shuffle resolve TruncateIfNeeded) network req = [m] \<and>
    is_reply req m \<and> m_Authoritative m \<and> m_RecursionAvailable m \<and>
    (if address_question q
     then (case resolve (ToLower (qn_Name q)) of
             Inl e \<Rightarrow> m_Answer m = [] \<and> m_Rcode m = lookup_rcode e
           | Inr ips \<Rightarrow> m_Rcode m = RcodeSuccess \<and>
               set (m_Answer m) \<subseteq> (\<Union>ip\<in>set ips. set (ip_answer q ip)) \<and>
               (m_Truncated m \<or> mset (m_Answer m) = mset (concat (map (ip_answer q) ips))))
     else m_Answer m = [] \<and>
       m_Rcode m = (if resolve (ToLower (qn_Name q)) = Inl (RecordError DomainError) then RcodeNameError else RcodeSuccess))"
proof -
  define answers where "answers = fst (LocalDomain_resolve shuffle resolve q)"
  define rcode where "rcode = snd (LocalDomain_resolve shuffle resolve q)"
  define m0 where "m0 = SetRcode req rcode (new_msg\<lparr>m_RecursionAvailable := True, m_Authoritative := True, m_Answer := answers\<rparr>)"
  define m1 where "m1 = TruncateIfNeeded network req m0"
  have m1: "m_Rcode m1 = rcode" "is_reply req m1" "set (m_Answer m1) \<subseteq> set answers" "m_Truncated m1 \<or> m_Answer m1 = answers"
    using TruncateIfNeeded_keeps [where network = network and req = req and resp = m0] unfolding m1_def [symmetric] by (auto simp: m0_def dest: in_set_takeD)
  have r: "LocalDomain_Resolve shuffle resolve TruncateIfNeeded network req = m1"
    using assms(2) by (simp add: LocalDomain_Resolve_def m1_def m0_def answers_def rcode_def case_prod_beta)
  have succ: "rcode = (case resolve (ToLower (qn_Name q)) of Inl e \<Rightarrow> lookup_rcode e | Inr ips \<Rightarrow> RcodeSuccess)"
    "mset answers = (case resolve (ToLower (qn_Name q)) of Inl e \<Rightarrow> {#} | Inr ips \<Rightarrow> mset (concat (map (ip_answer q) ips)))"
    using assms(1) by (simp_all add: rcode_def answers_def LocalDomain_resolve_cases split: sum.splits)
  have nx: "rcode = RcodeNameError \<longleftrightarrow> resolve (ToLower (qn_Name q)) = Inl (RecordError DomainError)"
    using succ(1) by (auto split: sum.splits elim: lookup_rcode.elims)
  show ?thesis
  proof (cases "address_question q")
    case True
    then have "DiscoveryHandler_ServeDNS (LocalDomain_Resolve shuffle resolve TruncateIfNeeded) network req =
        [m1\<lparr>m_Authoritative := True, m_RecursionAvailable := True\<rparr>]"
      using assms(2) r by (auto simp: DiscoveryHandler_ServeDNS_def address_question_def Let_def)
    moreover have "set answers = set_mset (mset answers)" by simp
    ultimately show ?thesis using True m1 succ by (cases "resolve (ToLower (qn_Name q))") auto
  next
    case False
    then have "DiscoveryHandler_ServeDNS (LocalDomain_Resolve shuffle resolve TruncateIfNeeded) network req =
        [(SetRcode req (if rcode = RcodeNameError then RcodeNameError else RcodeSuccess) new_msg)
          \<lparr>m_Authoritative := True, m_RecursionAvailable := True\<rparr>]"
      using assms(2) r m1(1) by (auto simp: DiscoveryHandler_ServeDNS_def address_question_def Let_def)
    with False nx show ?thesis by (simp add: new_msg_def)
  qed
qed

text \<open>Such a reply fits into the room of the client when the name asked is as short as the protocol wants it.\<close>

lemma reply_limit_ge: "512 \<le> reply_limit network req"
  by (simp add: reply_limit_def split: option.split)

lemma discovery_fits:
  assumes "m_Question req = q # qs" "address_question q" "fst (domainNameLen (qn_Name q) headerSize None True) \<le> 255"
    and "m \<in> set (DiscoveryHandler_ServeDNS (LocalDomain_Resolve shuffle resolve TruncateIfNeeded) network req)"
  shows "Len m \<le> reply_limit network req"
proof -
  obtain answers rcode where a: "LocalDomain_resolve shuffle resolve q = (answers, rcode)" by fastforce
  let ?m = "SetRcode req rcode (new_msg\<lparr>m_RecursionAvailable := True, m_Authoritative := True, m_Answer := answers\<rparr>)"
  have m: "m = (TruncateIfNeeded network req ?m)\<lparr>m_Authoritative := True, m_RecursionAvailable := True\<rparr>"
    using assms(1,2,4) a by (auto simp: DiscoveryHandler_ServeDNS_def LocalDomain_Resolve_def address_question_def Let_def)
  have "m_Question ?m = [q]" "m_Extra ?m = []" using assms(1) by (simp_all add: SetRcode_def SetReply_def new_msg_def Let_def)
  moreover have "fixed_len ?m \<le> headerSize + 255 + 4"
    using calculation assms(3) domainNameLen_alone [of "qn_Name q" headerSize]
    by (simp add: fixed_len_def IsEdns0_def questions_len_def question_len_def case_prod_beta Let_def)
  ultimately have "Len (TruncateIfNeeded network req ?m) \<le> reply_limit network req"
    using reply_limit_ge [of network req] by (intro TruncateIfNeeded_Len) (auto simp: IsTsig_def opts_plain_def)
  then show ?thesis by (simp add: m)
qed

theorem discovery_reply_witness:
  "let q = \<lparr>qn_Name = ''Web.bosh.'', qn_Qtype = TypeA, qn_Qclass = ClassINET\<rparr>; req = new_msg\<lparr>m_Id := 9, m_Question := [q]\<rparr> in
   \<exists>m. DiscoveryHandler_ServeDNS (LocalDomain_Resolve rev (\<lambda>n. if n = ''web.bosh.'' then Inr [''10.0.0.1'', ''2001:db8::1'', ''10.0.0.2''] else Inl OtherLookupError)
         TruncateIfNeeded) UDP req = [m] \<and> is_reply req m \<and> m_Rcode m = RcodeSuccess \<and>
     (m_Truncated m \<or> mset (m_Answer m) = mset [RR_A (header_for ''Web.bosh.'' TypeA 0) (ParseIP ''10.0.0.1''),
                                           RR_A (header_for ''Web.bosh.'' TypeA 0) (ParseIP ''10.0.0.2'')])"
proof -
  let ?q = "\<lparr>qn_Name = ''Web.bosh.'', qn_Qtype = TypeA, qn_Qclass = ClassINET\<rparr>"
  let ?res = "\<lambda>n. if n = ''web.bosh.'' then Inr [''10.0.0.1'', ''2001:db8::1'', ''10.0.0.2''] else Inl OtherLookupError"
  have ips: "?res (ToLower (qn_Name ?q)) = Inr [''10.0.0.1'', ''2001:db8::1'', ''10.0.0.2'']" by code_simp
  have ans: "concat (map (ip_answer ?q) [''10.0.0.1'', ''2001:db8::1'', ''10.0.0.2'']) =
    [RR_A (header_for ''Web.bosh.'' TypeA 0) (ParseIP ''10.0.0.1''), RR_A (header_for ''Web.bosh.'' TypeA 0) (ParseIP ''10.0.0.2'')]"
    by code_simp
  have addr: "address_question ?q" by (simp add: address_question_def)
  have sh: "\<forall>xs. mset (rev xs) = mset xs" by simp
  have qs: "m_Question (new_msg\<lparr>m_Id := 9, m_Question := [?q]\<rparr>) = ?q # []" by simp
  from discovery_reply [OF sh qs, of ?res UDP] show ?thesis
    unfolding Let_def ips sum.case ans by (simp only: addr if_True) blast
qed

text \<open>A request without a question is answered by the discovery handler with a message
  that is not a reply: its id is zero and its response bit is clear. The deny and the
  upcheck handler always reply, to a question or none.\<close>

theorem no_question_reply:
  "(m_Question req = [] \<longrightarrow> (\<exists>m. DiscoveryHandler_ServeDNS f network req = [m] \<and> m_Id m = 0 \<and> \<not> m_Response m)) \<and>
   (\<exists>m. DenyHandler_ServeDNS (NewDenyHandler t) req = [m] \<and> is_reply req m \<and> m_Answer m = [] \<and>
      m_Rcode m = (if t = ''REFUSED'' then RcodeRefused else RcodeNameError)) \<and>
   (\<exists>m. UpcheckHandler_ServeDNS req = [m] \<and> is_reply req m \<and> m_Rcode m = RcodeSuccess)"
  by (simp add: DiscoveryHandler_ServeDNS_def DenyHandler_ServeDNS_def UpcheckHandler_ServeDNS_def NewDenyHandler_def
      Let_def new_msg_def)

theorem no_question_reply_witness:
  "\<exists>m. DiscoveryHandler_ServeDNS (\<lambda>n r. r) UDP (new_msg\<lparr>m_Id := 5\<rparr>) = [m] \<and> m_Id m = 0 \<and> \<not> m_Response m"
  using no_question_reply [of "new_msg\<lparr>m_Id := 5\<rparr>" "\<lambda>n r. r" UDP "''''"] by (simp add: new_msg_def)

text \<open>An address of the record set that does not parse is still answered: to a question
  for IPv6 addresses, or for any, with an AAAA record that has no address.\<close>

theorem unparsable_address_answered:
  "ParseIP s = None \<Longrightarrow> qn_Qtype q = TypeAAAA \<or> qn_Qtype q = TypeANY \<Longrightarrow>
   ip_answer q s = [RR_AAAA (header_for (qn_Name q) TypeAAAA 0) None]"
  by (simp add: ip_answer_def To4_def)

theorem unparsable_address_answered_witness:
  "ip_answer \<lparr>qn_Name = ''a.bosh.'', qn_Qtype = TypeANY, qn_Qclass = ClassINET\<rparr> ''not-an-ip'' =
   [RR_AAAA (header_for ''a.bosh.'' TypeAAAA 0) None]"
proof -
  have "ParseIP ''not-an-ip'' = None" by code_simp
  then show ?thesis
    using unparsable_address_answered [of "''not-an-ip''" "\<lparr>qn_Name = ''a.bosh.'', qn_Qtype = TypeANY, qn_Qclass = ClassINET\<rparr>"]
    by simp
qed

end
