(* ===== verification/Recursor_Pool.thy ===== *)
theory Recursor_Pool
  imports Dns_Msg
begin

text \<open>
  The recursor pools and the forward handler
  (\<^verbatim>\<open>src/bosh-dns/dns/server/handlers/{failover_recursor_pool,forward_handler}.go\<close>,
  \<^verbatim>\<open>src/bosh-dns/dns/server/errors.go\<close>). The work a pool performs is a function on a state of
  its own (what the network answers, what has been written), which returns an error or none. A
  panic is \<open>None\<close>. The fail counts are 32-bit and the preferred index is a 64-bit word, as
  in the code.
\<close>

section \<open>Errors and retries\<close>

text \<open>What the code tells apart of an error: network errors, DNS errors with their rcode, others.\<close>

datatype work_error = NetError | DnsError int | OtherError

type_synonym 's work = "'s \<Rightarrow> string \<Rightarrow> work_error option \<times> 's"

text \<open>
  The loop, with the number of rounds left and the error of the previous round. When it ends
  without an error at hand the call of \<^verbatim>\<open>err.Error()\<close> that follows is on nil.
\<close>

fun retry_loop :: "'s work \<Rightarrow> string \<Rightarrow> nat \<Rightarrow> work_error option \<Rightarrow> 's \<Rightarrow> (work_error option \<times> 's) option" where
  "retry_loop work recursor 0 err s = (case err of None \<Rightarrow> None | Some e \<Rightarrow> Some (Some e, s))"
| "retry_loop work recursor (Suc n) err s =
     (case work s recursor of
        (None, s') \<Rightarrow> Some (None, s')
      | (Some e, s') \<Rightarrow> if e \<noteq> NetError then Some (Some e, s') else retry_loop work recursor n (Some e) s')"

definition performWithRetryLogic :: "'s work \<Rightarrow> string \<Rightarrow> int \<Rightarrow> 's \<Rightarrow> (work_error option \<times> 's) option" where
  "performWithRetryLogic work recursor maxRetries s = retry_loop work recursor (nat (maxRetries + 1)) None s"

section \<open>The serial pool\<close>

record serial_pool =
  sp_recursors :: "string list"
  sp_maxRetries :: int

text \<open>The result \<open>True\<close> is a nil error, \<open>False\<close> is \<^verbatim>\<open>ErrNoRecursorResponse\<close>.\<close>

fun serial_loop :: "'s work \<Rightarrow> int \<Rightarrow> string list \<Rightarrow> 's \<Rightarrow> (bool \<times> 's) option" where
  "serial_loop work maxRetries [] s = Some (False, s)"
| "serial_loop work maxRetries (r # rs) s = do {
     (err, s) \<leftarrow> performWithRetryLogic work r maxRetries s;
     if err = None then Some (True, s) else serial_loop work maxRetries rs s
   }"

definition serial_PerformStrategically :: "serial_pool \<Rightarrow> 's work \<Rightarrow> 's \<Rightarrow> (bool \<times> serial_pool \<times> 's) option" where
  "serial_PerformStrategically q work s =
     map_option (\<lambda>(ok, s). (ok, q, s)) (serial_loop work (sp_maxRetries q) (sp_recursors q) s)"

section \<open>The smart pool\<close>

definition FailHistoryLength :: nat where "FailHistoryLength = 25"

definition FailHistoryThreshold :: int where "FailHistoryThreshold = 5"

record recursor_history =
  rh_name :: string
  rh_failBuffer :: "bool list"
  rh_failCount :: "32 word"

record smart_pool =
  mp_preferred :: "64 word"
  mp_recursors :: "recursor_history list"
  mp_maxRetries :: int

definition newSmartFailoverRecursorPool :: "string list \<Rightarrow> int \<Rightarrow> smart_pool" where
  "newSmartFailoverRecursorPool recursors maxRetries =
     \<lparr>mp_preferred = 0,
      mp_recursors = map (\<lambda>name. \<lparr>rh_name = name, rh_failBuffer = replicate FailHistoryLength False, rh_failCount = 0\<rparr>) recursors,
      mp_maxRetries = maxRetries\<rparr>"

definition newSerialFailoverRecursorPool :: "string list \<Rightarrow> int \<Rightarrow> serial_pool" where
  "newSerialFailoverRecursorPool recursors maxRetries = \<lparr>sp_recursors = recursors, sp_maxRetries = maxRetries\<rparr>"

text \<open>Receiving from the full buffer and sending to it: the oldest result leaves the queue.\<close>

definition registerResult :: "smart_pool \<Rightarrow> nat \<Rightarrow> bool \<Rightarrow> 32 word \<times> smart_pool" where
  "registerResult q index wasError =
     (let r = mp_recursors q ! index;
          oldestResult = hd (rh_failBuffer r);
          change = (0 :: 32 word);
          change = (if oldestResult then change - 1 else change);
          change = (if wasError then change + 1 else change);
          r' = r\<lparr>rh_failBuffer := tl (rh_failBuffer r) @ [wasError], rh_failCount := rh_failCount r + change\<rparr>
      in (rh_failCount r', q\<lparr>mp_recursors := (mp_recursors q)[index := r']\<rparr>))"

definition shiftPreference :: "smart_pool \<Rightarrow> smart_pool" where
  "shiftPreference q = q\<lparr>mp_preferred := mp_preferred q + 1\<rparr>"

definition smart_index :: "64 word \<Rightarrow> nat \<Rightarrow> nat \<Rightarrow> nat" where
  "smart_index offset n i = unat ((of_nat i + offset) mod (of_nat n))"

text \<open>The rounds \<open>i, i+1, \<dots>, n-1\<close>.\<close>

function smart_loop :: "'s work \<Rightarrow> 64 word \<Rightarrow> nat \<Rightarrow> nat \<Rightarrow> smart_pool \<Rightarrow> 's \<Rightarrow> (bool \<times> smart_pool \<times> 's) option" where
  "smart_loop work offset n i q s =
     (if i < n then do {
        let index = smart_index offset n i;
        (err, s) \<leftarrow> performWithRetryLogic work (rh_name (mp_recursors q ! index)) (mp_maxRetries q) s;
        if err = None then Some (True, snd (registerResult q index False), s)
        else
          let (failures, q) = registerResult q index True;
              q = (if i = 0 \<and> sint failures \<ge> FailHistoryThreshold then shiftPreference q else q)
          in smart_loop work offset n (i + 1) q s
      } else Some (False, q, s))"
  by pat_completeness auto
termination
  by (relation "measure (\<lambda>(work, offset, n, i, q, s). n - i)") auto

declare smart_loop.simps [simp del]

definition smart_PerformStrategically :: "smart_pool \<Rightarrow> 's work \<Rightarrow> 's \<Rightarrow> (bool \<times> smart_pool \<times> 's) option" where
  "smart_PerformStrategically q work s = smart_loop work (mp_preferred q) (length (mp_recursors q)) 0 q s"

section \<open>The contract of a pool\<close>

text \<open>
  A pool performs the work on its recursors until one attempt succeeds. What failing attempts
  keep holds if it fails; what a successful attempt establishes holds if it succeeds, since
  there is no attempt after it.
\<close>

definition attempts :: "'s work \<Rightarrow> string set \<Rightarrow> ('s \<Rightarrow> bool) \<Rightarrow> ('s \<Rightarrow> bool) \<Rightarrow> bool" where
  "attempts work R I J \<longleftrightarrow>
     (\<forall>s. \<forall>r\<in>R. I s \<longrightarrow> (case work s r of (None, s') \<Rightarrow> J s' | (Some e, s') \<Rightarrow> I s'))"

lemma attempts_subset: "attempts work R I J \<Longrightarrow> R' \<subseteq> R \<Longrightarrow> attempts work R' I J"
  unfolding attempts_def by (metis (lifting) subsetD)

lemma attempts_fail: "\<forall>s. \<forall>r\<in>R. fst (work s r) \<noteq> None \<Longrightarrow> attempts work R (\<lambda>_. True) (\<lambda>_. False)"
  unfolding attempts_def by (metis (no_types, lifting) fst_conv case_prod_beta option.case_eq_if)

locale recursor_pool =
  fixes perform :: "'p \<Rightarrow> ('s \<Rightarrow> string \<Rightarrow> work_error option \<times> 's) \<Rightarrow> 's \<Rightarrow> (bool \<times> 'p \<times> 's) option"
    and ready :: "'p \<Rightarrow> bool" and members :: "'p \<Rightarrow> string set"
  assumes perform_total: "ready p \<Longrightarrow> \<exists>ok p' s'. perform p work s = Some (ok, p', s') \<and> ready p' \<and> members p' = members p"
    and perform_outcome: "ready p \<Longrightarrow> perform p work s = Some (ok, p', s') \<Longrightarrow> I s \<Longrightarrow>
      attempts work (members p) I J \<Longrightarrow> if ok then J s' else I s'"
begin

lemma perform_failure:
  "ready p \<Longrightarrow> perform p work s = Some (ok, p', s') \<Longrightarrow> \<forall>s. \<forall>r\<in>members p. fst (work s r) \<noteq> None \<Longrightarrow> \<not> ok"
  using perform_outcome [of p work s ok p' s' "\<lambda>_. True" "\<lambda>_. False"] attempts_fail [of "members p" work] by auto

end

text \<open>A pool that tries every recursor before it gives up.\<close>

locale covering_pool = recursor_pool +
  assumes perform_success: "ready p \<Longrightarrow> perform p work s = Some (ok, p', s') \<Longrightarrow> r \<in> members p \<Longrightarrow>
      (\<And>s. fst (work s r) = None) \<Longrightarrow> ok"

section \<open>Retries\<close>

lemma retry_total: "n > 0 \<or> err \<noteq> None \<Longrightarrow> \<exists>e s'. retry_loop work r n err s = Some (e, s')"
  by (induction n arbitrary: err s) (auto split: option.splits prod.splits)

lemma retry_outcome:
  "retry_loop work r n err s = Some (res, s') \<Longrightarrow> I s \<Longrightarrow> attempts work {r} I J \<Longrightarrow> if res = None then J s' else I s'"
proof (induction n arbitrary: err s)
  case 0
  then show ?case by (auto split: option.splits)
next
  case (Suc n)
  obtain e s1 where w: "work s r = (e, s1)" by fastforce
  then have "case e of None \<Rightarrow> J s1 | Some x \<Rightarrow> I s1" using Suc.prems(2,3) by (auto simp: attempts_def split: option.splits)
  then show ?case using Suc w by (cases e) (auto split: if_splits)
qed

lemma retry_success: "n > 0 \<Longrightarrow> (\<And>s. fst (work s r) = None) \<Longrightarrow> retry_loop work r n err s = Some (e, s') \<Longrightarrow> e = None"
  by (cases n) (auto split: option.splits prod.splits dest: spec [of _ s], metis fst_conv option.distinct(1))

lemma retry_log:
  "\<exists>k\<le>n. retry_loop (\<lambda>log r. (answers (length log), log @ [r])) r (Suc n) err l =
     Some (answers (length l + k), l @ replicate (Suc k) r) \<and>
     (\<forall>i<k. answers (length l + i) = Some NetError) \<and> (k = n \<or> answers (length l + k) \<noteq> Some NetError)"
proof (induction n arbitrary: err l)
  case 0
  show ?case by (auto split: option.splits)
next
  case (Suc n)
  show ?case
  proof (cases "answers (length l) = Some NetError")
    case False
    then show ?thesis by (intro exI [of _ 0]) (auto split: option.splits)
  next
    case True
    obtain k where k: "k \<le> n" "retry_loop (\<lambda>log r. (answers (length log), log @ [r])) r (Suc n) (Some NetError) (l @ [r]) =
        Some (answers (length (l @ [r]) + k), (l @ [r]) @ replicate (Suc k) r)"
      "\<forall>i<k. answers (length (l @ [r]) + i) = Some NetError" "k = n \<or> answers (length (l @ [r]) + k) \<noteq> Some NetError"
      using Suc.IH [of "Some NetError" "l @ [r]"] by blast
    have "\<forall>i<Suc k. answers (length l + i) = Some NetError"
      using k(3) True by (auto simp: less_Suc_eq_0_disj)
    moreover have "retry_loop (\<lambda>log r. (answers (length log), log @ [r])) r (Suc (Suc n)) err l =
        retry_loop (\<lambda>log r. (answers (length log), log @ [r])) r (Suc n) (Some NetError) (l @ [r])"
      using True by (subst retry_loop.simps(2)) (simp del: retry_loop.simps)
    ultimately show ?thesis using k by (intro exI [of _ "Suc k"]) (simp del: retry_loop.simps)
  qed
qed

text \<open>A request to a recursor that fails with a network error is repeated up to the
  configured number of retries, any other result ends it at once; so at most one more
  request than retries is sent. A negative number of retries sends none and panics.\<close>

theorem retry_bounded:
  "(maxRetries \<ge> 0 \<longrightarrow> (\<exists>err log. performWithRetryLogic (\<lambda>log r. (answers (length log), log @ [r])) r maxRetries [] = Some (err, log) \<and>
      set log = {r} \<and> length log \<le> nat maxRetries + 1 \<and> err = answers (length log - 1) \<and>
      (\<forall>i<length log - 1. answers i = Some NetError) \<and>
      (length log = nat maxRetries + 1 \<or> err \<noteq> Some NetError))) \<and>
   (maxRetries < 0 \<longrightarrow> performWithRetryLogic work r maxRetries s = None)"
proof (cases "maxRetries \<ge> 0")
  case True
  then have n: "nat (maxRetries + 1) = Suc (nat maxRetries)" by simp
  obtain k where k: "k \<le> nat maxRetries"
    "performWithRetryLogic (\<lambda>log r. (answers (length log), log @ [r])) r maxRetries [] = Some (answers k, replicate (Suc k) r)"
    "\<forall>i<k. answers i = Some NetError" "k = nat maxRetries \<or> answers k \<noteq> Some NetError"
    using retry_log [of "nat maxRetries" answers r None "[]"] unfolding performWithRetryLogic_def n by auto
  show ?thesis using True k by (intro conjI impI exI [of _ "answers k"] exI [of _ "replicate (Suc k) r"]) auto
qed (simp add: performWithRetryLogic_def)

theorem retry_bounded_witness:
  "\<exists>err log. performWithRetryLogic (\<lambda>log r. ([Some NetError, None] ! length log, log @ [r])) ''8.8.8.8:53'' 1 [] = Some (err, log) \<and>
     set log = {''8.8.8.8:53''} \<and> length log \<le> 2"
  using retry_bounded [of 1 "\<lambda>i. [Some NetError, None] ! i" "''8.8.8.8:53''" "\<lambda>s r. (None, s)" "()"] by auto

section \<open>The serial pool keeps the contract\<close>

lemma perform_retry_total: "maxRetries \<ge> 0 \<Longrightarrow> \<exists>e s'. performWithRetryLogic work r maxRetries s = Some (e, s')"
  unfolding performWithRetryLogic_def by (rule retry_total) simp

lemma perform_retry_success:
  "maxRetries \<ge> 0 \<Longrightarrow> performWithRetryLogic work r maxRetries s = Some (e, s') \<Longrightarrow> (\<And>s. fst (work s r) = None) \<Longrightarrow> e = None"
  unfolding performWithRetryLogic_def by (rule retry_success [of "nat (maxRetries + 1)"]) simp_all

lemma perform_retry_outcome:
  "performWithRetryLogic work r maxRetries s = Some (res, s') \<Longrightarrow> I s \<Longrightarrow> attempts work {r} I J \<Longrightarrow>
   if res = None then J s' else I s'"
  unfolding performWithRetryLogic_def by (rule retry_outcome)

lemma serial_total: "m \<ge> 0 \<Longrightarrow> \<exists>ok s'. serial_loop work m rs s = Some (ok, s')"
proof (induction rs arbitrary: s)
  case (Cons r rs)
  obtain e s1 where "performWithRetryLogic work r m s = Some (e, s1)" using perform_retry_total [OF Cons.prems, of work r s] by blast
  with Cons show ?case by (cases "e = None") auto
qed auto

lemma serial_outcome:
  "serial_loop work m rs s = Some (ok, s') \<Longrightarrow> I s \<Longrightarrow> attempts work (set rs) I J \<Longrightarrow> if ok then J s' else I s'"
proof (induction rs arbitrary: s)
  case (Cons r rs)
  then obtain e s1 where s1: "performWithRetryLogic work r m s = Some (e, s1)" by (auto split: bind_splits)
  have "if e = None then J s1 else I s1"
    by (rule perform_retry_outcome [where I = I and J = J, OF s1 Cons.prems(2)], rule attempts_subset [OF Cons.prems(3)]) simp
  moreover have "attempts work (set rs) I J" using attempts_subset [OF Cons.prems(3)] by (simp add: subset_insertI)
  ultimately show ?case using Cons.IH [of s1] Cons.prems(1) s1 by (cases "e = None") auto
qed simp

lemma serial_success:
  "m \<ge> 0 \<Longrightarrow> serial_loop work m rs s = Some (ok, s') \<Longrightarrow> r \<in> set rs \<Longrightarrow> (\<And>s. fst (work s r) = None) \<Longrightarrow> ok"
proof (induction rs arbitrary: s)
  case (Cons x rs)
  then obtain e s1 where s1: "performWithRetryLogic work x m s = Some (e, s1)" by (auto split: bind_splits)
  have "x = r \<Longrightarrow> e = None" using perform_retry_success [OF Cons.prems(1) s1] Cons.prems(4) by blast
  then show ?case using Cons s1 by (cases "e = None") auto
qed simp

interpretation serial: covering_pool serial_PerformStrategically "\<lambda>q. sp_maxRetries q \<ge> 0" "\<lambda>q. set (sp_recursors q)"
proof (unfold_locales, goal_cases)
  case (1 p work s)
  then show ?case using serial_total [of "sp_maxRetries p" work "sp_recursors p" s] by (auto simp: serial_PerformStrategically_def)
next
  case (2 p work s ok p' s' I J)
  then show ?case using serial_outcome [of work "sp_maxRetries p" "sp_recursors p" s ok s' I J]
    by (auto simp: serial_PerformStrategically_def)
next
  case (3 p work s ok p' s' r)
  then show ?case using serial_success [of "sp_maxRetries p" work "sp_recursors p" s ok s' r]
    by (auto simp: serial_PerformStrategically_def)
qed

section \<open>The smart pool keeps its history and the contract\<close>

definition failures :: "bool list \<Rightarrow> nat" where
  "failures b = length (filter id b)"

definition history_ok :: "recursor_history \<Rightarrow> bool" where
  "history_ok r \<longleftrightarrow> length (rh_failBuffer r) = FailHistoryLength \<and> unat (rh_failCount r) = failures (rh_failBuffer r)"

definition pool_ok :: "smart_pool \<Rightarrow> bool" where
  "pool_ok q \<longleftrightarrow> mp_maxRetries q \<ge> 0 \<and> (\<forall>r\<in>set (mp_recursors q). history_ok r) \<and> length (mp_recursors q) < 2 ^ 64"

definition pool_names :: "smart_pool \<Rightarrow> string list" where
  "pool_names q = map rh_name (mp_recursors q)"

lemma failures_le: "failures b \<le> length b"
  by (simp add: failures_def)

lemma history_count:
  assumes "unat (c :: 32 word) = failures (b # bs)" "length bs < 25"
  shows "unat (c + ((if b then 0 - 1 else 0) + (if w then 1 else 0))) = failures (bs @ [w])"
proof -
  have le: "unat c \<le> 25" using assms failures_le [of "b # bs"] by simp
  have up: "unat (c + 1) = unat c + 1" using le by (simp add: unat_word_ariths)
  have down: "unat (c - 1) = unat c - 1" if "b"
    using assms(1) that by (intro unat_minus_one) (auto simp: failures_def)
  show ?thesis using assms(1) up down by (cases b; cases w) (simp_all add: failures_def)
qed

lemma registerResult_spec:
  assumes "pool_ok q" "i < length (mp_recursors q)" "registerResult q i w = (f, q')"
  shows "pool_ok q' \<and> pool_names q' = pool_names q \<and> mp_maxRetries q' = mp_maxRetries q \<and>
    length (mp_recursors q') = length (mp_recursors q) \<and> mp_preferred q' = mp_preferred q \<and>
    rh_failBuffer (mp_recursors q' ! i) = tl (rh_failBuffer (mp_recursors q ! i)) @ [w] \<and>
    unat f = failures (rh_failBuffer (mp_recursors q' ! i)) \<and>
    (\<forall>j. j \<noteq> i \<longrightarrow> mp_recursors q' ! j = mp_recursors q ! j)"
proof -
  let ?r = "mp_recursors q ! i"
  have ok: "history_ok ?r" using assms(1,2) by (simp add: pool_ok_def)
  then obtain b bs where b: "rh_failBuffer ?r = b # bs" "length bs < 25" "length (bs @ [w]) = FailHistoryLength"
    by (cases "rh_failBuffer ?r") (auto simp: history_ok_def FailHistoryLength_def)
  define ch :: "32 word" where "ch = (if b then 0 - 1 else 0) + (if w then 1 else 0)"
  define r' where "r' = ?r\<lparr>rh_failBuffer := bs @ [w], rh_failCount := rh_failCount ?r + ch\<rparr>"
  have cnt: "unat (rh_failCount ?r + ch) = failures (bs @ [w])"
    unfolding ch_def using ok b by (intro history_count) (simp_all add: history_ok_def)
  then have "history_ok r'" using b(3) by (simp add: r'_def history_ok_def)
  moreover have e: "f = rh_failCount r'" "q' = q\<lparr>mp_recursors := (mp_recursors q)[i := r']\<rparr>"
    using assms(3) b(1) by (auto simp: registerResult_def Let_def r'_def ch_def split: if_splits)
  moreover have "map rh_name ((mp_recursors q)[i := r']) = map rh_name (mp_recursors q)"
    using assms(2) by (simp add: map_update r'_def list_update_same_conv)
  ultimately show ?thesis
    using assms(1,2) b(1) cnt
    by (auto simp: pool_ok_def pool_names_def r'_def dest: set_update_subset_insert [THEN subsetD])
qed

lemma smart_index_less: "n < 2 ^ 64 \<Longrightarrow> n > 0 \<Longrightarrow> smart_index offset n i < n"
  by (simp add: smart_index_def unat_mod unat_of_nat take_bit_eq_mod mod_less_divisor)

text \<open>What holds of the pool after each failed round.\<close>

definition same_pool :: "smart_pool \<Rightarrow> smart_pool \<Rightarrow> bool" where
  "same_pool q q' \<longleftrightarrow> pool_ok q' \<and> pool_names q' = pool_names q \<and> mp_maxRetries q' = mp_maxRetries q \<and>
     length (mp_recursors q') = length (mp_recursors q)"

lemma same_pool_shift: "same_pool q q' \<Longrightarrow> same_pool q (shiftPreference q')"
  by (simp add: same_pool_def shiftPreference_def pool_ok_def pool_names_def)

lemma same_pool_trans: "same_pool q q' \<Longrightarrow> same_pool q' q'' \<Longrightarrow> same_pool q q''"
  by (simp add: same_pool_def)

lemma same_pool_register:
  "pool_ok q \<Longrightarrow> i < length (mp_recursors q) \<Longrightarrow> same_pool q (snd (registerResult q i w))"
  using registerResult_spec [of q i w] by (cases "registerResult q i w") (auto simp: same_pool_def)

definition after_failure :: "smart_pool \<Rightarrow> nat \<Rightarrow> nat \<Rightarrow> smart_pool" where
  "after_failure q i index =
     (if i = 0 \<and> sint (fst (registerResult q index True)) \<ge> FailHistoryThreshold
      then shiftPreference (snd (registerResult q index True)) else snd (registerResult q index True))"

lemma same_pool_failure: "pool_ok q \<Longrightarrow> k < length (mp_recursors q) \<Longrightarrow> same_pool q (after_failure q i k)"
  using same_pool_register [of q k True] same_pool_shift by (simp add: after_failure_def)

lemma smart_step:
  assumes "i < n" "performWithRetryLogic work (rh_name (mp_recursors q ! smart_index offset n i)) (mp_maxRetries q) s = Some (e, s1)"
  shows "smart_loop work offset n i q s =
    (if e = None then Some (True, snd (registerResult q (smart_index offset n i) False), s1)
     else smart_loop work offset n (i + 1) (after_failure q i (smart_index offset n i)) s1)"
  using assms by (subst smart_loop.simps) (simp add: Let_def case_prod_beta after_failure_def)

lemma smart_end: "\<not> i < n \<Longrightarrow> smart_loop work offset n i q s = Some (False, q, s)"
  by (subst smart_loop.simps) simp

text \<open>Induction along the rounds of the loop.\<close>

lemma smart_rounds:
  assumes ok: "pool_ok q" "n = length (mp_recursors q)"
    and last: "\<And>i q s. i \<ge> n \<Longrightarrow> P i q s (False, q, s)"
    and hit: "\<And>i q s s1. pool_ok q \<Longrightarrow> n = length (mp_recursors q) \<Longrightarrow> i < n \<Longrightarrow> smart_index offset n i < n \<Longrightarrow>
      performWithRetryLogic work (rh_name (mp_recursors q ! smart_index offset n i)) (mp_maxRetries q) s = Some (None, s1) \<Longrightarrow>
      P i q s (True, snd (registerResult q (smart_index offset n i) False), s1)"
    and miss: "\<And>i q s e s1 r. pool_ok q \<Longrightarrow> n = length (mp_recursors q) \<Longrightarrow> i < n \<Longrightarrow> smart_index offset n i < n \<Longrightarrow>
      performWithRetryLogic work (rh_name (mp_recursors q ! smart_index offset n i)) (mp_maxRetries q) s = Some (Some e, s1) \<Longrightarrow>
      P (i + 1) (after_failure q i (smart_index offset n i)) s1 r \<Longrightarrow> P i q s r"
  shows "\<exists>r. smart_loop work offset n i q s = Some r \<and> P i q s r"
  using ok
proof (induction "n - i" arbitrary: i q s)
  case 0
  then show ?case using last [of i q s] smart_end [of i n work offset q s] by (intro exI [of _ "(False, q, s)"]) simp
next
  case (Suc d)
  then have i: "i < n" and d: "d = n - (i + 1)" by simp_all
  have idx: "smart_index offset n i < n" using Suc.prems i by (auto simp: pool_ok_def intro: smart_index_less)
  obtain e s1 where s1: "performWithRetryLogic work (rh_name (mp_recursors q ! smart_index offset n i)) (mp_maxRetries q) s = Some (e, s1)"
    using Suc.prems perform_retry_total by (fastforce simp: pool_ok_def)
  show ?case
  proof (cases e)
    case None
    with smart_step [OF i s1] hit [OF Suc.prems i idx] s1 show ?thesis by auto
  next
    case (Some x)
    have "same_pool q (after_failure q i (smart_index offset n i))"
      using Suc.prems idx by (intro same_pool_failure) auto
    then obtain r where "smart_loop work offset n (i + 1) (after_failure q i (smart_index offset n i)) s1 = Some r"
      "P (i + 1) (after_failure q i (smart_index offset n i)) s1 r"
      using Suc.hyps(1) [of "i + 1" "after_failure q i (smart_index offset n i)" s1] d Suc.prems
      by (auto simp: same_pool_def)
    with smart_step [OF i s1] miss [OF Suc.prems i idx] s1 Some show ?thesis by auto
  qed
qed

lemma smart_total:
  assumes "pool_ok q" "n = length (mp_recursors q)"
  shows "\<exists>ok q' s'. smart_loop work offset n i q s = Some (ok, q', s') \<and> (pool_ok q \<longrightarrow> same_pool q q')"
proof -
  have "\<exists>r. smart_loop work offset n i q s = Some r \<and> (pool_ok q \<longrightarrow> same_pool q (fst (snd r)))"
  proof (rule smart_rounds [OF assms], goal_cases)
    case (3 i q s e s1 r)
    then show ?case using same_pool_failure [of q "smart_index offset n i" i] same_pool_trans by (auto simp: same_pool_def)
  qed (auto simp: same_pool_def same_pool_register [unfolded same_pool_def])
  then show ?thesis by auto
qed

lemma name_member: "i < length (mp_recursors q) \<Longrightarrow> rh_name (mp_recursors q ! i) \<in> set (pool_names q)"
  by (simp add: pool_names_def)

lemma smart_outcome:
  assumes "pool_ok q" "n = length (mp_recursors q)" "smart_loop work offset n i q s = Some (ok, q', s')" "I s"
    and "attempts work (set (pool_names q)) I J"
  shows "if ok then J s' else I s'"
proof -
  define N where "N = pool_names q"
  have round: "pool_names p = N \<longrightarrow> I s \<longrightarrow> (if res = None then J s1 else I s1)"
    if "performWithRetryLogic work (rh_name (mp_recursors p ! k)) m s = Some (res, s1)" "k < length (mp_recursors p)" for p k m s res s1
  proof (intro impI)
    assume "pool_names p = N" "I s"
    then have "attempts work {rh_name (mp_recursors p ! k)} I J"
      using name_member [OF that(2)] by (intro attempts_subset [OF assms(5)]) (simp add: N_def)
    then show "if res = None then J s1 else I s1" by (rule perform_retry_outcome [where I = I, OF that(1) \<open>I s\<close>])
  qed
  have "\<exists>r. smart_loop work offset n i q s = Some r \<and>
    (pool_names q = N \<longrightarrow> I s \<longrightarrow> (if fst r then J (snd (snd r)) else I (snd (snd r))))"
  proof (rule smart_rounds [OF assms(1,2)], goal_cases)
    case (2 i p s s1)
    have "pool_names p = N \<longrightarrow> I s \<longrightarrow> J s1" by (rule round [OF 2(5), simplified]) (use 2(2,4) in simp)
    then show ?case by simp
  next
    case (3 i p s e s1 r)
    have "pool_names p = N \<longrightarrow> I s \<longrightarrow> I s1" by (rule round [OF 3(5), simplified]) (use 3(2,4) in simp)
    moreover have "pool_names (after_failure p i (smart_index offset n i)) = pool_names p"
      using same_pool_failure [of p "smart_index offset n i" i] 3 by (simp add: same_pool_def)
    ultimately show ?case using 3(6) by simp
  qed auto
  with assms(3,4) show ?thesis by (auto simp: N_def)
qed

interpretation smart: recursor_pool smart_PerformStrategically pool_ok "\<lambda>q. set (pool_names q)"
proof (unfold_locales, goal_cases)
  case (1 p work s)
  then show ?case
    using smart_total [OF 1 refl, of work "mp_preferred p" 0 s] by (auto simp: smart_PerformStrategically_def same_pool_def)
next
  case (2 p work s ok p' s' I J)
  then show ?case using smart_outcome [of p "length (mp_recursors p)" work "mp_preferred p" 0 s ok p' s' I J]
    by (simp add: smart_PerformStrategically_def)
qed

lemma small_sint: "unat (c :: 32 word) \<le> 25 \<Longrightarrow> sint c = int (unat c)"
proof -
  assume c: "unat c \<le> 25"
  have u: "uint c = int (unat c)" by simp
  then have le: "0 \<le> uint c" "uint c \<le> 25" using c by linarith+
  have big: "- (2 ^ 31) \<le> (0 :: int)" "(25 :: int) < 2 ^ 31" by simp_all
  have "- (2 ^ 31) \<le> uint c" "uint c < 2 ^ 31" by (rule order_trans [OF big(1) le(1)], rule le_less_trans [OF le(2) big(2)])
  then have st: "signed_take_bit 31 (uint c) = uint c" by (rule signed_take_bit_int_eq_self)
  have l: "LENGTH(32) - Suc 0 = 31" by simp
  show ?thesis unfolding sint_uint l using st u by (rule trans)
qed

lemma pool_ok_new: "m \<ge> 0 \<Longrightarrow> length rs < 2 ^ 64 \<Longrightarrow> pool_ok (newSmartFailoverRecursorPool rs m)"
  by (auto simp: pool_ok_def newSmartFailoverRecursorPool_def history_ok_def failures_def)

text \<open>A sequence of requests, each with its own work and state.\<close>

fun smart_runs :: "smart_pool \<Rightarrow> ('s work \<times> 's) list \<Rightarrow> smart_pool option" where
  "smart_runs q [] = Some q"
| "smart_runs q ((work, s) # ws) = do { (ok, q, s') \<leftarrow> smart_PerformStrategically q work s; smart_runs q ws }"

lemma smart_runs_ok: "pool_ok q \<Longrightarrow> \<exists>q'. smart_runs q ws = Some q' \<and> same_pool q q'"
proof (induction ws arbitrary: q)
  case (Cons x ws)
  obtain work s where x: "x = (work, s)" by (cases x)
  obtain ok q1 s1 where q1: "smart_PerformStrategically q work s = Some (ok, q1, s1)" "same_pool q q1"
    using smart_total [OF Cons.prems refl, of work "mp_preferred q" 0 s] Cons.prems by (auto simp: smart_PerformStrategically_def)
  then show ?case using Cons.IH [of q1] x same_pool_trans by (auto simp: same_pool_def)
qed (simp add: same_pool_def)

text \<open>
  The results a request gives: the recursors are asked in order until one answers, and the result
  of a recursor is a failure when its last attempt, after the retries, ended with an error.
\<close>

fun asked_in_order :: "'s work \<Rightarrow> string list \<Rightarrow> int \<Rightarrow> nat list \<Rightarrow> 's \<Rightarrow> (nat \<times> bool) list" where
  "asked_in_order work names maxRetries [] s = []"
| "asked_in_order work names maxRetries (k # ks) s =
     (case performWithRetryLogic work (names ! k) maxRetries s of
        None \<Rightarrow> []
      | Some (None, s') \<Rightarrow> [(k, False)]
      | Some (Some e, s') \<Rightarrow> (k, True) # asked_in_order work names maxRetries ks s')"

definition request_results :: "smart_pool \<Rightarrow> 's work \<Rightarrow> 's \<Rightarrow> (nat \<times> bool) list" where
  "request_results q work s =
     (let n = length (mp_recursors q)
      in asked_in_order work (pool_names q) (mp_maxRetries q) (map (smart_index (mp_preferred q) n) [0..<n]) s)"

fun all_results :: "smart_pool \<Rightarrow> ('s work \<times> 's) list \<Rightarrow> (nat \<times> bool) list" where
  "all_results q [] = []"
| "all_results q ((work, s) # ws) =
     request_results q work s @
     (case smart_PerformStrategically q work s of None \<Rightarrow> [] | Some (ok, q', s') \<Rightarrow> all_results q' ws)"

definition results_of :: "nat \<Rightarrow> (nat \<times> bool) list \<Rightarrow> bool list" where
  "results_of i es = map snd (filter (\<lambda>e. fst e = i) es)"

definition slide :: "'a list \<Rightarrow> 'a list \<Rightarrow> 'a list" where
  "slide b ws = drop (length ws) (b @ ws)"

lemma results_of_simps [simp]:
  "results_of i [] = []" "results_of i ((k, w) # es) = (if k = i then w # results_of i es else results_of i es)"
  "results_of i (es @ es') = results_of i es @ results_of i es'"
  by (simp_all add: results_of_def)

lemma slide_Nil [simp]: "slide b [] = b"
  by (simp add: slide_def)

lemma slide_Cons: "b \<noteq> [] \<Longrightarrow> slide b (w # ws) = slide (tl b @ [w]) ws"
  by (cases b) (simp_all add: slide_def)

lemma slide_append: "slide b (ws @ ws') = slide (slide b ws) ws'"
proof -
  have "drop (length ws) ((b @ ws) @ ws') = drop (length ws) (b @ ws) @ ws'" by simp
  then have "drop (length ws') (drop (length ws) (b @ ws @ ws')) = drop (length ws') (drop (length ws) (b @ ws) @ ws')" by simp
  then show ?thesis by (simp only: slide_def drop_drop length_append add.commute)
qed

lemma buffer_nonempty: "pool_ok q \<Longrightarrow> j < length (mp_recursors q) \<Longrightarrow> rh_failBuffer (mp_recursors q ! j) \<noteq> []"
  by (auto simp: pool_ok_def history_ok_def FailHistoryLength_def dest!: bspec [OF _ nth_mem, of _ _ j])

lemma register_buffer:
  assumes "pool_ok q" "k < length (mp_recursors q)" "j < length (mp_recursors q)"
  shows "rh_failBuffer (mp_recursors (snd (registerResult q k w)) ! j) =
    (if j = k then tl (rh_failBuffer (mp_recursors q ! j)) @ [w] else rh_failBuffer (mp_recursors q ! j))"
  using registerResult_spec [OF assms(1,2), of w] by (cases "registerResult q k w") auto

lemma failure_buffer:
  assumes "pool_ok q" "k < length (mp_recursors q)" "j < length (mp_recursors q)"
  shows "rh_failBuffer (mp_recursors (after_failure q i k) ! j) =
    (if j = k then tl (rh_failBuffer (mp_recursors q ! j)) @ [True] else rh_failBuffer (mp_recursors q ! j))"
  using register_buffer [OF assms, of True] by (auto simp: after_failure_def shiftPreference_def)

lemma request_buffers:
  assumes "pool_ok q" "smart_PerformStrategically q work s = Some (ok, q', s')" "j < length (mp_recursors q)"
  shows "rh_failBuffer (mp_recursors q' ! j) = slide (rh_failBuffer (mp_recursors q ! j)) (results_of j (request_results q work s))"
proof -
  let ?n = "length (mp_recursors q)" and ?o = "mp_preferred q" and ?N = "pool_names q" and ?m = "mp_maxRetries q"
  let ?rest = "\<lambda>i s. asked_in_order work ?N ?m (map (smart_index ?o ?n) [i..<?n]) s"
  let ?P = "\<lambda>i p s r. pool_names p = ?N \<longrightarrow> mp_maxRetries p = ?m \<longrightarrow>
    rh_failBuffer (mp_recursors (fst (snd r)) ! j) = slide (rh_failBuffer (mp_recursors p ! j)) (results_of j (?rest i s))"
  have "\<exists>r. smart_loop work ?o ?n 0 q s = Some r \<and> ?P 0 q s r"
  proof (rule smart_rounds [where P = ?P, OF assms(1) refl], goal_cases)
    case (2 i p s s1)
    let ?k = "smart_index ?o ?n i"
    have name: "pool_names p ! ?k = rh_name (mp_recursors p ! ?k)" using 2(2,4) by (simp add: pool_names_def)
    show ?case using 2 name register_buffer [OF 2(1), of ?k j False] buffer_nonempty [OF 2(1), of j] assms(3)
      by (auto simp: upt_conv_Cons slide_Cons)
  next
    case (3 i p s e s1 r)
    let ?k = "smart_index ?o ?n i"
    have name: "pool_names p ! ?k = rh_name (mp_recursors p ! ?k)" using 3(2,4) by (simp add: pool_names_def)
    have "same_pool p (after_failure p i ?k)" using 3(2,4) by (intro same_pool_failure [OF 3(1)]) simp
    with 3 name failure_buffer [OF 3(1), of ?k j i] buffer_nonempty [OF 3(1), of j] assms(3) show ?case
      by (auto simp: upt_conv_Cons slide_Cons same_pool_def)
  qed auto
  with assms(2) show ?thesis by (auto simp: smart_PerformStrategically_def request_results_def Let_def)
qed

lemma runs_buffers:
  "pool_ok q \<Longrightarrow> smart_runs q ws = Some q' \<Longrightarrow> j < length (mp_recursors q) \<Longrightarrow>
   rh_failBuffer (mp_recursors q' ! j) = slide (rh_failBuffer (mp_recursors q ! j)) (results_of j (all_results q ws))"
proof (induction ws arbitrary: q)
  case (Cons x ws)
  obtain work s where x: "x = (work, s)" by (cases x)
  obtain ok q1 s1 where q1: "smart_PerformStrategically q work s = Some (ok, q1, s1)" "same_pool q q1"
    using smart_total [OF Cons.prems(1) refl, of work "mp_preferred q" 0 s] Cons.prems by (auto simp: smart_PerformStrategically_def)
  then show ?case
    using Cons.IH [of q1] Cons.prems x request_buffers [OF Cons.prems(1) q1(1) Cons.prems(3)]
    by (simp add: same_pool_def slide_append)
qed simp

text \<open>C20: however many requests the smart pool has served, the buffer of a recursor holds the
  results of the last 25 requests that asked it, a failure where the last attempt of the
  request ended with an error and a success where it was answered (successes before the first
  ones), its fail count is the number of failures among them, and the recursors are those the
  pool was made with. The number of retries is not negative.\<close>

theorem smart_history:
  assumes "maxRetries \<ge> 0" "length rs < 2 ^ 64"
  shows "\<exists>q. smart_runs (newSmartFailoverRecursorPool rs maxRetries) ws = Some q \<and> map rh_name (mp_recursors q) = rs \<and>
    (\<forall>i<length rs. let r = mp_recursors q ! i;
         results = replicate 25 False @ results_of i (all_results (newSmartFailoverRecursorPool rs maxRetries) ws);
         newest = drop (length results - 25) results
       in rh_failBuffer r = newest \<and> sint (rh_failCount r) = int (length (filter id newest)))"
proof -
  let ?new = "newSmartFailoverRecursorPool rs maxRetries"
  have ok: "pool_ok ?new" by (rule pool_ok_new [OF assms])
  obtain q where q: "smart_runs ?new ws = Some q" "same_pool ?new q" using smart_runs_ok [OF ok] by blast
  have new: "length (mp_recursors ?new) = length rs" "i < length rs \<Longrightarrow> rh_failBuffer (mp_recursors ?new ! i) = replicate 25 False" for i
    by (simp_all add: newSmartFailoverRecursorPool_def FailHistoryLength_def)
  have count: "sint (rh_failCount r) = int (length (filter id (rh_failBuffer r)))" if "history_ok r" for r
    using that failures_le [of "rh_failBuffer r"] small_sint [of "rh_failCount r"]
    by (simp add: history_ok_def FailHistoryLength_def failures_def)
  have names: "map rh_name (mp_recursors q) = rs" "length (mp_recursors q) = length rs"
    using q(2) by (simp_all add: same_pool_def pool_names_def newSmartFailoverRecursorPool_def comp_def)
  have "rh_failBuffer (mp_recursors q ! i) = slide (replicate 25 False) (results_of i (all_results ?new ws)) \<and> history_ok (mp_recursors q ! i)"
    if "i < length rs" for i
    using runs_buffers [OF ok q(1), of i] q(2) names(2) new that by (simp add: same_pool_def pool_ok_def)
  then show ?thesis using q(1) names(1) count by (intro exI [of _ q]) (auto simp: Let_def slide_def)
qed

theorem smart_history_witness:
  "\<exists>q. smart_runs (newSmartFailoverRecursorPool [''8.8.8.8:53'', ''1.1.1.1:53''] 0)
       [(\<lambda>s r. (if r = ''8.8.8.8:53'' then Some NetError else None, s), ()), (\<lambda>s r. (Some OtherError, s), ())] = Some q \<and>
     map (\<lambda>r. sint (rh_failCount r)) (mp_recursors q) = [2, 1] \<and>
     rh_failBuffer (mp_recursors q ! 1) = replicate 23 False @ [False, True]"
proof -
  let ?ws = "[(\<lambda>s r. (if r = ''8.8.8.8:53'' then Some NetError else None, s), ()), (\<lambda>s r. (Some OtherError, s), ())]"
  let ?new = "newSmartFailoverRecursorPool [''8.8.8.8:53'', ''1.1.1.1:53''] 0"
  define log25 where "log25 = (\<lambda>i. results_of i (all_results ?new ?ws))"
  have r: "log25 0 = [True, True]" "log25 1 = [False, True]" unfolding log25_def by code_simp+
  obtain q where q: "smart_runs ?new ?ws = Some q" "map rh_name (mp_recursors q) = [''8.8.8.8:53'', ''1.1.1.1:53'']"
    and h: "\<forall>i<2. let r = mp_recursors q ! i; results = replicate 25 False @ log25 i; newest = drop (length results - 25) results
       in rh_failBuffer r = newest \<and> sint (rh_failCount r) = int (length (filter id newest))"
    using smart_history [of 0 "[''8.8.8.8:53'', ''1.1.1.1:53'']" ?ws] unfolding log25_def by auto
  obtain a b where ab: "mp_recursors q = [a, b]" using arg_cong [OF q(2), of length] by (auto simp: length_Suc_conv)
  have "rh_failBuffer b = replicate 23 False @ [False, True]" "sint (rh_failCount a) = 2" "sint (rh_failCount b) = 1"
    using h [rule_format, of 0] h [rule_format, of 1] unfolding Let_def r ab by (simp_all add: eval_nat_numeral)
  then show ?thesis using q(1) ab by (intro exI [of _ q]) simp
qed

text \<open>The preferred recursor of the smart pool changes by at most one step per request, and
  only when the preferred recursor itself has failed the request and failed at least 5 of
  its last 25.\<close>

theorem preference_shift:
  assumes "pool_ok q" "mp_recursors q \<noteq> []" "smart_PerformStrategically q work s = Some (ok, q', s')"
    and "k = smart_index (mp_preferred q) (length (mp_recursors q)) 0"
    and "performWithRetryLogic work (rh_name (mp_recursors q ! k)) (mp_maxRetries q) s = Some (err, s1)"
  shows "mp_preferred q' = mp_preferred q +
    (if err \<noteq> None \<and> failures (tl (rh_failBuffer (mp_recursors q ! k)) @ [True]) \<ge> 5 then 1 else 0)"
proof -
  let ?n = "length (mp_recursors q)"
  have k: "k < ?n" using assms(1,2,4) by (auto simp: pool_ok_def intro: smart_index_less)
  have step: "smart_loop work (mp_preferred q) ?n 0 q s =
    (if err = None then Some (True, snd (registerResult q k False), s1)
     else smart_loop work (mp_preferred q) ?n 1 (after_failure q 0 k) s1)"
    using smart_step [of 0 ?n work q "mp_preferred q" s err s1] assms(2,4,5) by simp
  obtain f q1 where reg: "registerResult q k True = (f, q1)" by fastforce
  note R = registerResult_spec [OF assms(1) k reg]
  have "sint f = int (failures (tl (rh_failBuffer (mp_recursors q ! k)) @ [True]))"
  proof -
    have "history_ok (mp_recursors q1 ! k)" using R k by (simp add: pool_ok_def)
    then have "unat f \<le> 25"
      using R failures_le [of "rh_failBuffer (mp_recursors q1 ! k)"] by (simp add: history_ok_def FailHistoryLength_def)
    then show ?thesis using small_sint [of f] R by simp
  qed
  then have shift: "mp_preferred (after_failure q 0 k) = mp_preferred q +
      (if failures (tl (rh_failBuffer (mp_recursors q ! k)) @ [True]) \<ge> 5 then 1 else 0)"
    using R reg by (simp add: after_failure_def shiftPreference_def FailHistoryThreshold_def)
  have keep: "\<exists>r. smart_loop work (mp_preferred q) ?n 1 p s1 = Some r \<and> (1 \<le> (1 :: nat) \<longrightarrow> pool_ok p \<longrightarrow> mp_preferred (fst (snd r)) = mp_preferred p)"
    if "same_pool q p" for p
  proof (rule smart_rounds [where P = "\<lambda>i p s r. 1 \<le> i \<longrightarrow> pool_ok p \<longrightarrow> mp_preferred (fst (snd r)) = mp_preferred p"], goal_cases)
    case 4
    then show ?case using registerResult_spec by (metis fst_conv prod.collapse snd_conv)
  next
    case (5 i p s e s1 r)
    obtain f q1 where reg: "registerResult p (smart_index (mp_preferred q) ?n i) True = (f, q1)" by fastforce
    have "1 \<le> i \<longrightarrow> mp_preferred (after_failure p i (smart_index (mp_preferred q) ?n i)) = mp_preferred p"
      using registerResult_spec [OF 5(1) _ reg] 5(2,4) reg by (auto simp: after_failure_def)
    moreover have "pool_ok (after_failure p i (smart_index (mp_preferred q) ?n i))"
      using same_pool_failure [OF 5(1), of "smart_index (mp_preferred q) ?n i" i] 5(2,4) by (simp add: same_pool_def)
    ultimately show ?case using 5(6) by simp
  qed (use that in \<open>auto simp: same_pool_def\<close>)
  show ?thesis
  proof (cases "err = None")
    case True
    obtain f2 q2 where "registerResult q k False = (f2, q2)" by fastforce
    with registerResult_spec [OF assms(1) k this] True step assms(3) show ?thesis
      by (simp add: smart_PerformStrategically_def)
  next
    case False
    with keep [OF same_pool_failure [OF assms(1) k, of 0]] step assms(3) shift same_pool_failure [OF assms(1) k, of 0]
    show ?thesis by (auto simp: smart_PerformStrategically_def same_pool_def)
  qed
qed

definition example_pool :: smart_pool where
  "example_pool = \<lparr>mp_preferred = 0, mp_recursors =
     [\<lparr>rh_name = ''8.8.8.8:53'', rh_failBuffer = replicate 21 False @ replicate 4 True, rh_failCount = 4\<rparr>,
      \<lparr>rh_name = ''1.1.1.1:53'', rh_failBuffer = replicate 25 False, rh_failCount = 0\<rparr>], mp_maxRetries = 0\<rparr>"

lemma pool_ok_example: "pool_ok example_pool"
  by (simp add: pool_ok_def example_pool_def history_ok_def failures_def FailHistoryLength_def)

theorem preference_shift_witness:
  "\<exists>ok q' s'. smart_PerformStrategically example_pool (\<lambda>s r. (if r = ''8.8.8.8:53'' then Some NetError else None, s)) () = Some (ok, q', s') \<and>
     mp_preferred q' = 1"
proof -
  let ?w = "\<lambda>(s :: unit) r. (if r = ''8.8.8.8:53'' then Some NetError else None, s)"
  obtain ok q' s' where r: "smart_PerformStrategically example_pool ?w () = Some (ok, q', s')"
    using smart.perform_total [OF pool_ok_example, of ?w "()"] by blast
  have k: "0 = smart_index (mp_preferred example_pool) (length (mp_recursors example_pool)) 0"
    by (simp add: smart_index_def example_pool_def)
  have f: "performWithRetryLogic ?w (rh_name (mp_recursors example_pool ! 0)) (mp_maxRetries example_pool) () = Some (Some NetError, ())"
    by (simp add: performWithRetryLogic_def example_pool_def)
  have "failures (tl (rh_failBuffer (mp_recursors example_pool ! 0)) @ [True]) \<ge> 5"
    by (simp add: example_pool_def failures_def eval_nat_numeral)
  moreover have "mp_recursors example_pool \<noteq> []" "mp_preferred example_pool = 0" by (simp_all add: example_pool_def)
  ultimately show ?thesis using preference_shift [OF pool_ok_example _ r k f] r by simp
qed

text \<open>The rounds of the loop visit every recursor.\<close>

lemma smart_index_covers:
  assumes "k < n" "unat offset + n \<le> 2 ^ 64" "n < 2 ^ 64"
  shows "\<exists>j<n. smart_index offset n j = k"
proof -
  let ?o = "unat offset mod n"
  define j where "j = (k + (n - ?o)) mod n"
  have n: "n > 0" "?o < n" using assms(1) by simp_all
  have j: "j < n" using n by (simp add: j_def)
  have "(j + unat offset) mod n = (k + (n - ?o) + ?o) mod n"
    unfolding j_def mod_add_left_eq by (rule mod_add_right_eq [symmetric])
  also have "k + (n - ?o) + ?o = k + n" using n(2) by linarith
  also have "(k + n) mod n = k" using assms(1) by simp
  finally have m: "(j + unat offset) mod n = k" .
  have "j + unat offset < 2 ^ LENGTH(64)" "n < 2 ^ LENGTH(64)" using j assms n by simp_all
  then have "unat (of_nat j + offset) = j + unat offset" "unat (of_nat n :: 64 word) = n"
    by (simp_all add: unat_word_ariths unat_of_nat take_bit_eq_mod)
  then have "smart_index offset n j = k" using m by (simp add: smart_index_def unat_mod)
  with j show ?thesis by blast
qed

text \<open>C31: a smart pool gives up only after every recursor has failed: if one of its recursors
  answers, whatever was tried before it, the request succeeds.\<close>

theorem smart_finds_working_recursor:
  assumes "pool_ok q" "unat (mp_preferred q) + length (mp_recursors q) \<le> 2 ^ 64"
    and "name \<in> set (pool_names q)" "\<forall>s. fst (work s name) = None"
  shows "\<exists>q' s'. smart_PerformStrategically q work s = Some (True, q', s')"
proof -
  define N where "N = pool_names q"
  let ?n = "length (mp_recursors q)" and ?o = "mp_preferred q"
  let ?P = "\<lambda>i p (s :: 'a) r. pool_names p = N \<longrightarrow> (\<exists>j\<ge>i. j < ?n \<and> N ! smart_index ?o ?n j = name) \<longrightarrow> fst r"
  have "\<exists>r. smart_loop work ?o ?n 0 q s = Some r \<and> ?P 0 q s r"
  proof (rule smart_rounds [where P = ?P, OF assms(1) refl], goal_cases)
    case (3 i p s e s1 r)
    let ?k = "smart_index ?o ?n i"
    have same: "pool_names (after_failure p i ?k) = pool_names p"
      using same_pool_failure [OF 3(1), of ?k i] 3(2,4) by (simp add: same_pool_def)
    have nm: "rh_name (mp_recursors p ! ?k) = pool_names p ! ?k" using 3(2,4) by (simp add: pool_names_def)
    have "pool_names p ! ?k \<noteq> name"
      using perform_retry_success [OF _ 3(5)] 3(1) assms(4) nm by (auto simp: pool_ok_def)
    then have "j \<noteq> i" if "pool_names p = N" "N ! smart_index ?o ?n j = name" for j using that by auto
    then show ?case using 3(6) same by (metis Suc_eq_plus1 Suc_leI le_neq_implies_less)
  qed auto
  moreover obtain k where "k < ?n" "N ! k = name" using assms(3) by (auto simp: N_def pool_names_def in_set_conv_nth)
  moreover from this obtain j where "j < ?n" "smart_index ?o ?n j = k" using smart_index_covers [of k ?n ?o] assms(1,2) by (auto simp: pool_ok_def)
  ultimately show ?thesis by (auto simp: smart_PerformStrategically_def N_def)
qed

theorem smart_finds_working_recursor_witness:
  "\<exists>q' s'. smart_PerformStrategically example_pool (\<lambda>s r. (if r = ''8.8.8.8:53'' then Some NetError else None, s)) () = Some (True, q', s')"
  by (rule smart_finds_working_recursor [OF pool_ok_example, where name = "''1.1.1.1:53''"])
     (simp_all add: example_pool_def pool_names_def)

end
