(* ===== verification/Forward_Handler.thy ===== *)
theory Forward_Handler
  imports Recursor_Pool
begin

text \<open>
  The forward handler (\<^verbatim>\<open>src/bosh-dns/dns/server/handlers/forward_handler.go\<close>): asks the
  recursors of a pool and writes what the first one answers. The DNS client is an argument:
  for a network it exchanges the request with a recursor, on a state of its own. The lemmas
  are proved once for every pool that keeps the contract, and used for both pools.
\<close>

section \<open>Definitions\<close>

text \<open>What the client returns: an answer, or an error, with or without an answer.\<close>

datatype exchange_result = Answered msg | Failed work_error "msg option"

type_synonym 'e exchanger = "string \<Rightarrow> 'e \<Rightarrow> string \<Rightarrow> exchange_result \<times> 'e"

definition forward_network :: "network \<Rightarrow> string" where
  "forward_network w = (if w = TCP then ''tcp'' else ''udp'')"

text \<open>The work of the handler: the second component of the state is what it has written.\<close>

definition forward_work ::
  "'e exchanger \<Rightarrow> (network \<Rightarrow> msg \<Rightarrow> msg \<Rightarrow> msg) \<Rightarrow> network \<Rightarrow> msg \<Rightarrow> ('e \<times> msg list) work" where
  "forward_work exchange truncateIfNeeded network request st recursor =
     (let (env, out) = st;
          (res, env) = exchange (forward_network network) env recursor
      in case res of
           Answered answer \<Rightarrow>
             if m_Rcode answer \<noteq> RcodeSuccess then (Some (DnsError (m_Rcode answer)), (env, out))
             else (None, (env, out @ [truncateIfNeeded network request answer]))
         | Failed err answer \<Rightarrow>
             (case answer of
                Some a \<Rightarrow> if m_Rcode a \<noteq> RcodeSuccess then (Some (DnsError (m_Rcode a)), (env, out)) else (Some err, (env, out))
              | None \<Rightarrow> (Some err, (env, out))))"

definition createResponseFromError :: "msg \<Rightarrow> work_error \<Rightarrow> msg" where
  "createResponseFromError req err =
     (let m = SetReply req new_msg in
      case err of
        NetError \<Rightarrow> SetRcode req RcodeServerFailure m
      | DnsError rcode \<Rightarrow>
          if rcode = RcodeServerFailure then SetRcode req RcodeServerFailure m else SetRcode req RcodeNameError m
      | OtherError \<Rightarrow> SetRcode req RcodeNameError m)"

definition writeEmptyMessage :: "msg \<Rightarrow> msg" where
  "writeEmptyMessage req = SetRcode req RcodeSuccess (new_msg\<lparr>m_Authoritative := True\<rparr>)"

text \<open>\<^verbatim>\<open>ErrNoRecursorResponse\<close> is neither a network error nor a DNS error.\<close>

definition ErrNoRecursorResponse :: work_error where
  "ErrNoRecursorResponse = OtherError"

definition ForwardHandler_ServeDNS ::
  "('p \<Rightarrow> ('e \<times> msg list) work \<Rightarrow> 'e \<times> msg list \<Rightarrow> (bool \<times> 'p \<times> 'e \<times> msg list) option) \<Rightarrow>
   'e exchanger \<Rightarrow> (network \<Rightarrow> msg \<Rightarrow> msg \<Rightarrow> msg) \<Rightarrow> 'p \<Rightarrow> 'e \<Rightarrow> network \<Rightarrow> msg \<Rightarrow> ('p \<times> 'e \<times> msg list) option" where
  "ForwardHandler_ServeDNS perform exchange truncateIfNeeded pool env network request =
     (if length (m_Question request) = 0 then Some (pool, env, [writeEmptyMessage request])
      else do {
        (ok, pool, env, out) \<leftarrow> perform pool (forward_work exchange truncateIfNeeded network request) (env, []);
        if ok then Some (pool, env, out)
        else Some (pool, env, out @ [createResponseFromError request ErrNoRecursorResponse])
      })"

section \<open>Every pool gives one reply\<close>

locale forwarding = recursor_pool perform ready members
  for perform :: "'p \<Rightarrow> ('e \<times> msg list) work \<Rightarrow> 'e \<times> msg list \<Rightarrow> (bool \<times> 'p \<times> 'e \<times> msg list) option"
    and ready :: "'p \<Rightarrow> bool" and members :: "'p \<Rightarrow> string set"
begin

lemma forward_reply:
  assumes "ready p" "m_Question request \<noteq> []"
  shows "\<exists>p' env' m. ForwardHandler_ServeDNS perform exchange tr p env network request = Some (p', env', [m]) \<and> ready p' \<and>
    ((\<exists>e1 e2. \<exists>r\<in>members p. \<exists>a. exchange (forward_network network) e1 r = (Answered a, e2) \<and> m_Rcode a = RcodeSuccess \<and> m = tr network request a) \<or>
     m = createResponseFromError request ErrNoRecursorResponse)"
proof -
  let ?w = "forward_work exchange tr network request"
  obtain ok p' s' where r: "perform p ?w (env, []) = Some (ok, p', s')" "ready p'"
    using perform_total [OF assms(1), of ?w "(env, [])"] by blast
  let ?good = "\<lambda>m. \<exists>e1 e2. \<exists>r\<in>members p. \<exists>a. exchange (forward_network network) e1 r = (Answered a, e2) \<and>
    m_Rcode a = RcodeSuccess \<and> m = tr network request a"
  have "attempts ?w (members p) (\<lambda>s. snd s = []) (\<lambda>s. \<exists>m. snd s = [m] \<and> ?good m)"
    unfolding attempts_def
    by (auto simp: forward_work_def Let_def split: prod.splits exchange_result.splits option.splits if_splits)
  then have "if ok then \<exists>m. snd s' = [m] \<and> ?good m else snd s' = []"
    by (rule perform_outcome [where I = "\<lambda>s. snd s = []", OF assms(1) r(1), rotated]) simp
  with r assms(2) show ?thesis by (cases ok; cases s') (auto simp: ForwardHandler_ServeDNS_def, metis)
qed

lemma forward_all_fail:
  assumes "ready p" "m_Question request \<noteq> []"
    and "\<forall>env. \<forall>r\<in>members p. \<exists>err env'. exchange (forward_network network) env r = (Failed err None, env')"
  shows "\<exists>p' env'. ForwardHandler_ServeDNS perform exchange tr p env network request =
    Some (p', env', [createResponseFromError request ErrNoRecursorResponse])"
proof -
  obtain p' env' m where f: "ForwardHandler_ServeDNS perform exchange tr p env network request = Some (p', env', [m])"
    "(\<exists>e1 e2. \<exists>r\<in>members p. \<exists>a. exchange (forward_network network) e1 r = (Answered a, e2) \<and> m_Rcode a = RcodeSuccess \<and> m = tr network request a) \<or>
     m = createResponseFromError request ErrNoRecursorResponse"
    using forward_reply [OF assms(1,2), of exchange tr env network] by blast
  have "exchange (forward_network network) e1 r \<noteq> (Answered a, e2)" if "r \<in> members p" for e1 r a e2
    using assms(3) that by (metis exchange_result.distinct(1) prod.inject)
  with f show ?thesis by blast
qed

end

interpretation serial_fw: forwarding serial_PerformStrategically "\<lambda>q. sp_maxRetries q \<ge> 0" "\<lambda>q. set (sp_recursors q)"
  by unfold_locales

interpretation smart_fw: forwarding smart_PerformStrategically pool_ok "\<lambda>q. set (pool_names q)"
  by unfold_locales

text \<open>With a serial or a smart pool, the forward handler returns and writes exactly one
  message for a request with a question: a successful answer of one of the recursors of
  the pool, cut to the room of the client, or a reply of its own with NXDOMAIN. It writes
  one empty authoritative reply to a request without a question.\<close>

theorem forward_one_reply:
  assumes "pool_ok q" "sp_maxRetries p \<ge> 0"
  shows "(m_Question request \<noteq> [] \<longrightarrow>
      (\<exists>q' env' m. ForwardHandler_ServeDNS smart_PerformStrategically exchange tr q env network request = Some (q', env', [m]) \<and> pool_ok q' \<and>
        ((\<exists>e1 e2. \<exists>r\<in>set (pool_names q). \<exists>a. exchange (forward_network network) e1 r = (Answered a, e2) \<and> m_Rcode a = RcodeSuccess \<and> m = tr network request a) \<or>
         is_reply request m \<and> m_Rcode m = RcodeNameError \<and> m_Answer m = [])) \<and>
      (\<exists>p' env' m. ForwardHandler_ServeDNS serial_PerformStrategically exchange tr p env network request = Some (p', env', [m]) \<and>
        ((\<exists>e1 e2. \<exists>r\<in>set (sp_recursors p). \<exists>a. exchange (forward_network network) e1 r = (Answered a, e2) \<and> m_Rcode a = RcodeSuccess \<and> m = tr network request a) \<or>
         is_reply request m \<and> m_Rcode m = RcodeNameError \<and> m_Answer m = []))) \<and>
    (m_Question request = [] \<longrightarrow>
      (\<exists>m. ForwardHandler_ServeDNS smart_PerformStrategically exchange tr q env network request = Some (q, env, [m]) \<and>
        is_reply request m \<and> m_Rcode m = RcodeSuccess \<and> m_Authoritative m \<and> m_Answer m = []))"
proof -
  have e: "is_reply request (createResponseFromError request ErrNoRecursorResponse)"
    "m_Rcode (createResponseFromError request ErrNoRecursorResponse) = RcodeNameError"
    "m_Answer (createResponseFromError request ErrNoRecursorResponse) = []"
    by (simp_all add: createResponseFromError_def ErrNoRecursorResponse_def new_msg_def)
  note sm = smart_fw.forward_reply [OF assms(1), of request exchange tr env network]
  note se = serial_fw.forward_reply [OF assms(2), of request exchange tr env network]
  show ?thesis
  proof (intro conjI impI)
    assume "m_Question request \<noteq> []"
    from sm [OF this] e show "\<exists>q' env' m. ForwardHandler_ServeDNS smart_PerformStrategically exchange tr q env network request = Some (q', env', [m]) \<and> pool_ok q' \<and>
        ((\<exists>e1 e2. \<exists>r\<in>set (pool_names q). \<exists>a. exchange (forward_network network) e1 r = (Answered a, e2) \<and> m_Rcode a = RcodeSuccess \<and> m = tr network request a) \<or>
         is_reply request m \<and> m_Rcode m = RcodeNameError \<and> m_Answer m = [])" by blast
  next
    assume "m_Question request \<noteq> []"
    from se [OF this] e show "\<exists>p' env' m. ForwardHandler_ServeDNS serial_PerformStrategically exchange tr p env network request = Some (p', env', [m]) \<and>
        ((\<exists>e1 e2. \<exists>r\<in>set (sp_recursors p). \<exists>a. exchange (forward_network network) e1 r = (Answered a, e2) \<and> m_Rcode a = RcodeSuccess \<and> m = tr network request a) \<or>
         is_reply request m \<and> m_Rcode m = RcodeNameError \<and> m_Answer m = [])" by blast
  next
    assume "m_Question request = []"
    then show "\<exists>m. ForwardHandler_ServeDNS smart_PerformStrategically exchange tr q env network request = Some (q, env, [m]) \<and>
        is_reply request m \<and> m_Rcode m = RcodeSuccess \<and> m_Authoritative m \<and> m_Answer m = []"
      by (simp add: ForwardHandler_ServeDNS_def writeEmptyMessage_def new_msg_def)
  qed
qed

text \<open>When every recursor fails with a network error, the client is told that the name does
  not exist, NXDOMAIN, and not that the server failed: the pool returns
  \<open>ErrNoRecursorResponse\<close> whatever the errors were, so the branches of
  \<open>createResponseFromError\<close> for network and DNS errors are never taken.\<close>

theorem network_failure_is_nxdomain:
  assumes "pool_ok q" "m_Question request \<noteq> []"
  shows "\<exists>q' env' m. ForwardHandler_ServeDNS smart_PerformStrategically (\<lambda>n e r. (Failed NetError None, e)) tr q env network request =
      Some (q', env', [m]) \<and> m_Rcode m = RcodeNameError \<and>
    m_Rcode (createResponseFromError request NetError) = RcodeServerFailure"
  using smart_fw.forward_all_fail [OF assms, of "\<lambda>n e r. (Failed NetError None, e)" network tr env]
  by (auto simp: createResponseFromError_def ErrNoRecursorResponse_def)

abbreviation example_question :: question where
  "example_question \<equiv> \<lparr>qn_Name = ''example.com.'', qn_Qtype = TypeA, qn_Qclass = ClassINET\<rparr>"

theorem network_failure_is_nxdomain_witness:
  "\<exists>q' env' m. ForwardHandler_ServeDNS smart_PerformStrategically (\<lambda>n e r. (Failed NetError None, e)) (\<lambda>n rq a. a) example_pool ()
       UDP (new_msg\<lparr>m_Question := [example_question]\<rparr>) = Some (q', env', [m]) \<and> m_Rcode m = RcodeNameError \<and>
     m_Rcode (createResponseFromError (new_msg\<lparr>m_Question := [example_question]\<rparr>) NetError) = RcodeServerFailure"
  by (rule network_failure_is_nxdomain [OF pool_ok_example]) simp

theorem forward_one_reply_witness:
  "\<exists>q' env' m. ForwardHandler_ServeDNS smart_PerformStrategically
       (\<lambda>n e r. (if r = ''8.8.8.8:53'' then Failed NetError None else Answered new_msg, e)) (\<lambda>n rq a. a) example_pool () UDP
       (new_msg\<lparr>m_Id := 1, m_Question := [example_question]\<rparr>) = Some (q', env', [m]) \<and> pool_ok q' \<and>
     (m = new_msg \<or> is_reply (new_msg\<lparr>m_Id := 1, m_Question := [example_question]\<rparr>) m \<and> m_Rcode m = RcodeNameError \<and> m_Answer m = [])"
proof -
  let ?ex = "\<lambda>(n :: string) (e :: unit) r. (if r = ''8.8.8.8:53'' then Failed NetError None else Answered new_msg, e)"
  have "sp_maxRetries (newSerialFailoverRecursorPool [] 0) \<ge> 0" by (simp add: newSerialFailoverRecursorPool_def)
  from forward_one_reply [OF pool_ok_example this, of "new_msg\<lparr>m_Id := 1, m_Question := [example_question]\<rparr>" ?ex "\<lambda>n rq a. a" "()" UDP]
  obtain q' env' m where r: "ForwardHandler_ServeDNS smart_PerformStrategically ?ex (\<lambda>n rq a. a) example_pool () UDP
       (new_msg\<lparr>m_Id := 1, m_Question := [example_question]\<rparr>) = Some (q', env', [m])" "pool_ok q'"
    and m: "(\<exists>e1 e2. \<exists>r\<in>set (pool_names example_pool). \<exists>a. ?ex (forward_network UDP) e1 r = (Answered a, e2) \<and> m_Rcode a = RcodeSuccess \<and> m = a) \<or>
      is_reply (new_msg\<lparr>m_Id := 1, m_Question := [example_question]\<rparr>) m \<and> m_Rcode m = RcodeNameError \<and> m_Answer m = []"
    by auto
  from m have "m = new_msg \<or> is_reply (new_msg\<lparr>m_Id := 1, m_Question := [example_question]\<rparr>) m \<and> m_Rcode m = RcodeNameError \<and> m_Answer m = []"
    by (auto split: if_splits)
  with r show ?thesis by blast
qed

end
