(* ===== verification/Handlers.thy ===== *)
theory Handlers
  imports Forward_Handler
begin

text \<open>
  The other handlers (\<^verbatim>\<open>src/bosh-dns/dns/server/handlers/{arpa,http_json,cache,request_logger}_handler.go\<close>,
  \<^verbatim>\<open>handler_registrar.go\<close>, \<^verbatim>\<open>factory.go\<close>, \<^verbatim>\<open>internal/*.go\<close>). A handler maps the network of the
  client and its request to the messages it writes. The HTTP client, the JSON decoder and
  the cache of coredns are arguments.
\<close>

type_synonym handler = "network \<Rightarrow> msg \<Rightarrow> msg list"

section \<open>Reverse lookups\<close>

text \<open>The reversed segments as an address: a colon after every fourth but the last.\<close>

fun v6_text :: "nat \<Rightarrow> string list \<Rightarrow> string" where
  "v6_text i [] = ''''"
| "v6_text i (s # ss) = s @ (if i mod 4 = 3 \<and> ss \<noteq> [] then '':'' else '''') @ v6_text (i + 1) ss"

definition pad_segments :: "string list \<Rightarrow> string list" where
  "pad_segments ss = ss @ replicate (32 - length ss) ''0''"

definition convertToRecordIP :: "string \<Rightarrow> string option" where
  "convertToRecordIP q =
     (let query = ToLower q in
      if HasSuffix query ''.ip6.arpa.'' then
        let segments = Split CHR ''.'' (TrimRight query ''.ip6.arpa.'')
        in Some (v6_text 0 (pad_segments (rev segments)))
      else if HasSuffix query ''.in-addr.arpa.'' then
        let segments = Split CHR ''.'' (TrimRight query ''.in-addr.arpa.'')
        in Some (Join (rev segments) ''.'')
      else None)"

definition ArpaHandler_ServeDNS :: "(string \<Rightarrow> string list) \<Rightarrow> handler \<Rightarrow> handler" where
  "ArpaHandler_ServeDNS getFQDNs forwardHandler network req =
     (let m = SetReply req (new_msg\<lparr>m_Authoritative := True, m_RecursionAvailable := False\<rparr>) in
      if length (m_Question req) = 0 then [SetRcode req RcodeSuccess m]
      else
        let name = qn_Name (hd (m_Question req)) in
        case convertToRecordIP name of
          None \<Rightarrow> [SetRcode req RcodeFormatError m]
        | Some ip \<Rightarrow>
            (let fqdns = getFQDNs ip in
             if length fqdns > 0 then
               let m = SetRcode req RcodeSuccess m
               in [m\<lparr>m_Answer := m_Answer m @ map (\<lambda>fqdn. RR_PTR (header_for name TypePTR 0) fqdn) fqdns\<rparr>]
             else forwardHandler network req))"

section \<open>Answers over HTTP\<close>

definition hex_digit :: "nat \<Rightarrow> char" where
  "hex_digit n = ''0123456789ABCDEF'' ! (n mod 16)"

text \<open>\<^verbatim>\<open>url.QueryEscape\<close> of the standard library.\<close>

definition unreserved :: "char \<Rightarrow> bool" where
  "unreserved c \<longleftrightarrow> c \<in> set ''-_.~'' \<or> (c \<ge> CHR ''A'' \<and> c \<le> CHR ''Z'') \<or> is_digit c \<or> (c \<ge> CHR ''a'' \<and> c \<le> CHR ''z'')"

definition QueryEscape :: "string \<Rightarrow> string" where
  "QueryEscape s = concat (map (\<lambda>c. if c = CHR '' '' then ''+'' else if unreserved c then [c]
     else let n = of_char c :: nat in [CHR ''%'', hex_digit (n div 16), hex_digit (n mod 16)]) s)"

record http_answer =
  ha_Name :: string
  ha_RRType :: "16 word"
  ha_TTL :: "32 word"
  ha_Data :: string

record http_message =
  hm_Truncated :: bool
  hm_Answer :: "http_answer list"

text \<open>The keys of \<^verbatim>\<open>url.Values\<close> are encoded in order: name before type.\<close>

definition query_url :: "string \<Rightarrow> question \<Rightarrow> string" where
  "query_url address q =
     address @ ''/?'' @ ''name='' @ QueryEscape (qn_Name q) @ ''&type='' @ QueryEscape (itoa (unat (qn_Qtype q)))"

definition buildResponse ::
  "(string \<Rightarrow> (int \<times> string option) option) \<Rightarrow> (string \<Rightarrow> http_message option) \<Rightarrow> string \<Rightarrow> msg \<Rightarrow> msg" where
  "buildResponse get unmarshal address request =
     (let m = SetReply request (new_msg\<lparr>m_Authoritative := True, m_RecursionAvailable := True\<rparr>) in
      if length (m_Question request) = 0 then m
      else
        let question = hd (m_Question request) in
        case get (query_url address question) of
          None \<Rightarrow> SetRcode request RcodeServerFailure m
        | Some (code, body) \<Rightarrow>
            if code \<noteq> 200 then SetRcode request RcodeServerFailure m
            else case body of
              None \<Rightarrow> SetRcode request RcodeServerFailure m
            | Some bytes \<Rightarrow>
                (case unmarshal bytes of
                   None \<Rightarrow> SetRcode request RcodeServerFailure m
                 | Some h \<Rightarrow>
                     (let m = m\<lparr>m_Truncated := hm_Truncated h\<rparr>;
                          m = m\<lparr>m_Answer := m_Answer m @
                            map (\<lambda>a. RR_A (header_for (qn_Name question) (ha_RRType a) (ha_TTL a)) (ParseIP (ha_Data a))) (hm_Answer h)\<rparr>
                      in SetRcode request RcodeSuccess m)))"

definition HTTPJSONHandler_ServeDNS ::
  "(string \<Rightarrow> (int \<times> string option) option) \<Rightarrow> (string \<Rightarrow> http_message option) \<Rightarrow> (network \<Rightarrow> msg \<Rightarrow> msg \<Rightarrow> msg) \<Rightarrow>
   string \<Rightarrow> handler" where
  "HTTPJSONHandler_ServeDNS get unmarshal truncateIfNeeded address network request =
     [truncateIfNeeded network request (buildResponse get unmarshal address request)]"

section \<open>Wrappers\<close>

text \<open>
  The writer handed to the wrapped handler truncates what it writes. \<open>cache\<close> is the plugin
  of coredns around the wrapped handler; requests without recursion go past it.
\<close>

definition CachingDNSHandler_ServeDNS :: "(handler \<Rightarrow> handler) \<Rightarrow> (network \<Rightarrow> msg \<Rightarrow> msg \<Rightarrow> msg) \<Rightarrow> handler \<Rightarrow> handler" where
  "CachingDNSHandler_ServeDNS cache truncateIfNeeded next network r =
     map (truncateIfNeeded network r)
       (if \<not> m_RecursionDesired r then next network r else cache next network r)"

definition readQuestions :: "(16 word \<Rightarrow> string) \<Rightarrow> msg \<Rightarrow> string list \<times> string list" where
  "readQuestions typeString request =
     (map (\<lambda>q. typeString (qn_Qtype q)) (m_Question request), map qn_Name (m_Question request))"

definition LogRequest ::
  "(16 word \<Rightarrow> string) \<Rightarrow> (int \<Rightarrow> string) \<Rightarrow> string \<Rightarrow> int \<Rightarrow> msg \<Rightarrow> msg option \<Rightarrow> string \<Rightarrow> string" where
  "LogRequest typeString rcodeString handlerType duration request response customMessage =
     (let (types, domains) = readQuestions typeString request;
          customMessage = (if customMessage \<noteq> '''' then customMessage @ '' '' else customMessage);
          rcode = (case response of None \<Rightarrow> RcodeServerFailure | Some m \<Rightarrow> m_Rcode m);
          numAnswers = (case response of None \<Rightarrow> 0 | Some m \<Rightarrow> length (m_Answer m))
      in handlerType @ '' Request id='' @ itoa (unat (m_Id request)) @ '' qtype=['' @ Join types '','' @ ''] qname=[''
         @ Join domains '','' @ ''] rcode='' @ rcodeString rcode @ '' ancount='' @ itoa numAnswers @ '' '' @ customMessage
         @ ''time='' @ itoa_int duration @ ''ns'')"

definition LogReceivedRequest :: "(16 word \<Rightarrow> string) \<Rightarrow> string \<Rightarrow> msg \<Rightarrow> string" where
  "LogReceivedRequest typeString handlerType request =
     (let (types, domains) = readQuestions typeString request
      in handlerType @ '' Received request id='' @ itoa (unat (m_Id request)) @ '' qtype=['' @ Join types '','' @ ''] qname=[''
         @ Join domains '','' @ '']'')"

text \<open>The text of the error for an answer that is no success, and the client that asks recursors.\<close>

definition dnsError_Error :: "(int \<Rightarrow> string) \<Rightarrow> int \<Rightarrow> string \<Rightarrow> string \<Rightarrow> string" where
  "dnsError_Error rcodeString rcode question recursor =
     ''received '' @ rcodeString rcode @ '' for '' @ question @ '' from upstream (recursor: '' @ recursor @ '')''"

record dns_client =
  dl_Net :: string
  dl_Timeout :: int
  dl_UDPSize :: nat

definition NewExchangerFactory :: "int \<Rightarrow> string \<Rightarrow> dns_client" where
  "NewExchangerFactory timeout net = \<lparr>dl_Net = net, dl_Timeout = timeout, dl_UDPSize = 65535\<rparr>"

text \<open>
  The logger logs the request, keeps the last message the handler writes and logs it after
  the handler has returned: the messages written and the lines logged.
\<close>

definition RequestLoggerHandler_ServeDNS ::
  "(16 word \<Rightarrow> string) \<Rightarrow> (int \<Rightarrow> string) \<Rightarrow> string \<Rightarrow> handler \<Rightarrow> int \<Rightarrow> network \<Rightarrow> msg \<Rightarrow> msg list \<times> string list" where
  "RequestLoggerHandler_ServeDNS typeString rcodeString handlerType child duration network req =
     (let received = LogReceivedRequest typeString handlerType req;
          out = child network req; dnsMsg = (if out = [] then None else Some (last out))
      in (out, [received, LogRequest typeString rcodeString handlerType duration req dnsMsg '''']))"

lemma logger_transparent [simp]: "fst (RequestLoggerHandler_ServeDNS ts rs ht child d network req) = child network req"
  by (simp add: RequestLoggerHandler_ServeDNS_def Let_def)

section \<open>The factory\<close>

definition CreateHTTPJSONHandler where
  "CreateHTTPJSONHandler get unmarshal truncateIfNeeded cachePlugin url cache =
     (let handler = HTTPJSONHandler_ServeDNS get unmarshal truncateIfNeeded url
      in if cache then CachingDNSHandler_ServeDNS cachePlugin truncateIfNeeded handler else handler)"

definition CreateDenyHandler :: "string \<Rightarrow> handler" where
  "CreateDenyHandler responseType = (\<lambda>network. DenyHandler_ServeDNS (NewDenyHandler responseType))"

section \<open>The registrar\<close>

datatype mux_call = Handle string | HandleRemove string

text \<open>The loops over the domains of the provider and over what is left of the old ones.\<close>

fun register_loop :: "string list \<Rightarrow> string list \<Rightarrow> string list \<Rightarrow> string list \<times> string list \<times> mux_call list" where
  "register_loop [] domains currentDomains = (domains, currentDomains, [])"
| "register_loop (domain # ds) domains currentDomains =
     (let currentDomains = removeAll domain currentDomains;
          new = domain \<notin> set domains;
          domains = (if new then domains @ [domain] else domains);
          (domains, currentDomains, calls) = register_loop ds domains currentDomains
      in (domains, currentDomains, (if new then [Handle domain] else []) @ calls))"

definition UpdateDomainRegistrations :: "string list \<Rightarrow> string list \<Rightarrow> string list \<times> mux_call list" where
  "UpdateDomainRegistrations provided domains =
     (let (domains, currentDomains, calls) = register_loop provided domains domains
      in (fold removeAll currentDomains domains, calls @ map HandleRemove currentDomains))"

definition RegisterAgentTLD :: "mux_call list" where
  "RegisterAgentTLD = [Handle BoshAgentTLD]"

section \<open>Reverse names\<close>

lemma TrimRight_append:
  assumes "set suf \<subseteq> set cs" "s \<noteq> []" "last s \<notin> set cs"
  shows "TrimRight (s @ suf) cs = s"
proof -
  have "dropWhile (\<lambda>c. c \<in> set cs) (rev s) = rev s"
    using assms(2,3) by (cases s rule: rev_cases) auto
  moreover have "dropWhile (\<lambda>c. c \<in> set cs) (rev suf @ rev s) = dropWhile (\<lambda>c. c \<in> set cs) (rev s)"
    using assms(1) by (intro dropWhile_append2) auto
  ultimately show ?thesis by (simp add: TrimRight_def)
qed

definition lower_hex :: "char \<Rightarrow> bool" where
  "lower_hex c \<longleftrightarrow> c \<in> set ''0123456789abcdef''"

lemma lower_char_hex: "lower_hex c \<Longrightarrow> lower_char c = c"
  by (auto simp: lower_hex_def lower_char_def)

lemma digit_plain: "is_digit c \<Longrightarrow> lower_char c = c \<and> c \<notin> set ''.in-addr.arpa.''"
proof -
  assume d: "is_digit c"
  then have "\<not> CHR ''A'' \<le> c" unfolding is_digit_def by (auto simp: less_eq_char_def)
  moreover have "c \<notin> set ''.in-addr.arpa.''" using d unfolding is_digit_def by (auto simp: less_eq_char_def)
  ultimately show ?thesis by (simp add: lower_char_def)
qed

lemma set_Join: "set (Join xs sep) \<subseteq> \<Union>(set ` set xs) \<union> set sep"
  by (induction xs sep rule: Join.induct) auto

lemma last_Join: "xs \<noteq> [] \<Longrightarrow> last xs \<noteq> [] \<Longrightarrow> Join xs sep \<noteq> [] \<and> last (Join xs sep) = last (last xs)"
proof (induction xs sep rule: Join.induct)
  case (3 x y xs sep)
  then show ?case by auto
qed auto

lemma v6_text_groups:
  "\<forall>g\<in>set gs. length g = 4 \<Longrightarrow> v6_text (4 * k) (map (\<lambda>c. [c]) (concat gs)) = Join gs '':''"
proof (induction gs arbitrary: k)
  case (Cons g gs)
  then obtain a b c d where g: "g = [a, b, c, d]" by (auto simp: length_Suc_conv eval_nat_numeral)
  have m: "Suc (4 * k) mod 4 = 1" "Suc (Suc (4 * k)) mod 4 = 2" "Suc (Suc (Suc (4 * k))) mod 4 = 3" by presburger+
  have "v6_text (4 * Suc k) (map (\<lambda>c. [c]) (concat gs)) = Join gs '':''"
    by (rule Cons.IH) (use Cons.prems in simp)
  moreover have "4 * Suc k = Suc (Suc (Suc (Suc (4 * k))))" by simp
  ultimately have IH: "v6_text (Suc (Suc (Suc (Suc (4 * k))))) (map (\<lambda>c. [c]) (concat gs)) = Join gs '':''" by metis
  show ?case using m IH Cons.prems by (cases gs) (auto simp: g)
qed simp

lemma HasSuffix_longer: "length p \<le> length suf \<Longrightarrow> HasSuffix (s @ suf) p = HasSuffix suf p"
  by (simp add: HasSuffix_def)

lemma v4_reverse_name:
  assumes "segs \<noteq> []" "\<forall>s\<in>set segs. all_digits s"
  shows "convertToRecordIP (Join (rev segs) ''.'' @ ''.in-addr.arpa.'') = Some (Join segs ''.'')"
proof -
  let ?n = "Join (rev segs) ''.''"
  have chars: "is_digit c \<or> c = CHR ''.''" if "c \<in> set ?n" for c
    using set_Join [of "rev segs" "''.''"] that assms(2) by (auto simp: all_digits_def list_all_iff)
  have low: "ToLower (?n @ ''.in-addr.arpa.'') = ?n @ ''.in-addr.arpa.''"
    unfolding ToLower_def map_append
  proof (intro arg_cong2 [of _ _ _ _ "(@)"] map_idI)
    fix c assume "c \<in> set ?n"
    then show "lower_char c = c" using chars [of c] digit_plain [of c] by (auto simp: lower_char_def)
  qed (auto simp: lower_char_def)
  have first: "hd segs \<noteq> []" "last (rev segs) = hd segs" using assms by (cases segs; auto simp: all_digits_def)+
  have "?n \<noteq> [] \<and> last ?n = last (hd segs)" using last_Join [of "rev segs" "''.''"] assms(1) first by simp
  moreover have "is_digit (last (hd segs))"
    using assms first by (cases segs) (auto simp: all_digits_def list_all_iff)
  ultimately have "TrimRight (?n @ ''.in-addr.arpa.'') ''.in-addr.arpa.'' = ?n"
    using digit_plain by (intro TrimRight_append) auto
  moreover have "Split CHR ''.'' ?n = rev segs"
    using assms all_digits_no_dot by (intro Split_Join) auto
  moreover have "\<not> HasSuffix (?n @ ''.in-addr.arpa.'') ''.ip6.arpa.''"
    by (subst HasSuffix_longer) (simp_all add: HasSuffix_def)
  ultimately show ?thesis unfolding convertToRecordIP_def Let_def low by simp
qed

lemma v6_reverse_name:
  assumes "length gs = 8" "\<forall>g\<in>set gs. length g = 4 \<and> list_all lower_hex g" "hd (hd gs) \<notin> {CHR ''6'', CHR ''a''}"
  shows "convertToRecordIP (Join (rev (map (\<lambda>c. [c]) (concat gs))) ''.'' @ ''.ip6.arpa.'') = Some (Join gs '':'')"
proof -
  let ?ns = "map (\<lambda>c. [c]) (concat gs)"
  let ?n = "Join (rev ?ns) ''.''"
  obtain g gs' where g: "gs = g # gs'" "g \<noteq> []" using assms(1,2) by (cases gs) fastforce+
  have "length (concat gs) = sum_list (map length gs)" by (simp add: length_concat)
  also have "map length gs = replicate 8 4" using assms(1,2) by (intro replicate_eqI) auto
  finally have len: "length (concat gs) = 32" by (simp add: sum_list_replicate)
  have hex: "lower_hex c" if "c \<in> set (concat gs)" for c using that assms(2) by (auto simp: list_all_iff)
  have low: "ToLower (?n @ ''.ip6.arpa.'') = ?n @ ''.ip6.arpa.''"
    unfolding ToLower_def map_append
  proof (intro arg_cong2 [of _ _ _ _ "(@)"] map_idI)
    fix c assume "c \<in> set ?n"
    then have "c \<in> set (concat gs) \<or> c = CHR ''.''" using set_Join [of "rev ?ns" "''.''"] by auto
    then show "lower_char c = c"
    proof
      assume "c \<in> set (concat gs)"
      then show ?thesis using hex lower_char_hex by blast
    qed (simp add: lower_char_def)
  qed (auto simp: lower_char_def)
  have "last (rev ?ns) = [hd g]" using g by (cases g) auto
  moreover have "rev ?ns \<noteq> []" using len by (metis length_0_conv length_map length_rev zero_neq_numeral)
  ultimately have "?n \<noteq> [] \<and> last ?n = hd g" using last_Join [of "rev ?ns" "''.''"] by simp
  moreover have "hd g \<notin> set ''.ip6.arpa.''"
  proof -
    have "lower_hex (hd g)" using hex g by (cases g) auto
    then show ?thesis using assms(3) g(1) by (auto simp: lower_hex_def)
  qed
  ultimately have "TrimRight (?n @ ''.ip6.arpa.'') ''.ip6.arpa.'' = ?n" by (intro TrimRight_append) auto
  moreover have "Split CHR ''.'' ?n = rev ?ns"
    using \<open>rev ?ns \<noteq> []\<close> hex by (intro Split_Join) (auto simp: lower_hex_def)
  moreover have "pad_segments ?ns = ?ns" using len by (simp add: pad_segments_def)
  moreover have "v6_text 0 ?ns = Join gs '':''" using v6_text_groups [of gs 0] assms(2) by simp
  ultimately show ?thesis unfolding convertToRecordIP_def Let_def low by simp
qed

text \<open>The reverse name of an IPv4 address is converted back to the address, and so is that
  of an IPv6 address written out in eight groups of four hexadecimal digits, provided its
  first digit is neither 6 nor a.\<close>

theorem reverse_name_roundtrip:
  "(\<forall>segs. segs \<noteq> [] \<longrightarrow> (\<forall>s\<in>set segs. all_digits s) \<longrightarrow>
      convertToRecordIP (Join (rev segs) ''.'' @ ''.in-addr.arpa.'') = Some (Join segs ''.'')) \<and>
   (\<forall>gs. length gs = 8 \<longrightarrow> (\<forall>g\<in>set gs. length g = 4 \<and> list_all lower_hex g) \<longrightarrow> hd (hd gs) \<notin> {CHR ''6'', CHR ''a''} \<longrightarrow>
      convertToRecordIP (Join (rev (map (\<lambda>c. [c]) (concat gs))) ''.'' @ ''.ip6.arpa.'') = Some (Join gs '':''))"
  using v4_reverse_name v6_reverse_name by blast

theorem reverse_name_roundtrip_witness:
  "convertToRecordIP (Join (rev [''10'', ''0'', ''16'', ''4'']) ''.'' @ ''.in-addr.arpa.'') = Some (Join [''10'', ''0'', ''16'', ''4''] ''.'')"
proof -
  have "[''10'', ''0'', ''16'', ''4''] \<noteq> []" "\<forall>s\<in>set [''10'', ''0'', ''16'', ''4'']. all_digits s"
    by (simp_all add: all_digits_def is_digit_def)
  with reverse_name_roundtrip show ?thesis by blast
qed

text \<open>
  The proviso is needed: the suffix is cut off as a set of characters, which takes the
  leading digits 6 and a of the address with it.
\<close>

lemma reverse_name_wrong:
  "convertToRecordIP ''1.0.0.0.0.0.0.0.0.0.0.0.0.0.0.0.0.0.0.0.0.0.0.0.0.0.0.0.0.0.b.a.ip6.arpa.'' =
     Some ''b000:0000:0000:0000:0000:0000:0000:0010''"
  by code_simp

section \<open>Registration\<close>

lemma register_loop_spec:
  "\<exists>ns. register_loop ps ds cs = (ds @ ns, filter (\<lambda>d. d \<notin> set ps) cs, map Handle ns) \<and>
     distinct ns \<and> set ns = set ps - set ds"
proof (induction ps arbitrary: ds cs)
  case (Cons p ps)
  let ?ds = "if p \<notin> set ds then ds @ [p] else ds"
  obtain ns where ns: "register_loop ps ?ds (removeAll p cs) =
      (?ds @ ns, filter (\<lambda>d. d \<notin> set ps) (removeAll p cs), map Handle ns)" "distinct ns" "set ns = set ps - set ?ds"
    using Cons.IH by blast
  have f: "filter (\<lambda>d. d \<notin> set ps) (removeAll p cs) = filter (\<lambda>d. d \<notin> set (p # ps)) cs"
    by (auto simp: removeAll_filter_not_eq intro: filter_cong)
  show ?case
    using ns f by (intro exI [of _ "(if p \<notin> set ds then [p] else []) @ ns"]) (auto simp: Let_def)
qed simp

lemma fold_removeAll: "fold removeAll xs ys = filter (\<lambda>y. y \<notin> set xs) ys"
  by (induction xs arbitrary: ys) (auto simp: removeAll_filter_not_eq intro: filter_cong)

text \<open>An update of the registrations makes the registered domains exactly those the provider
  names, registers each new one and removes each vanished one once, and touches no other.\<close>

theorem registrations_follow_provider:
  assumes "distinct domains"
  shows "\<exists>domains' new gone. UpdateDomainRegistrations provided domains = (domains', map Handle new @ map HandleRemove gone) \<and>
    distinct domains' \<and> set domains' = set provided \<and>
    distinct new \<and> set new = set provided - set domains \<and> distinct gone \<and> set gone = set domains - set provided"
proof -
  obtain ns where ns: "register_loop provided domains domains = (domains @ ns, filter (\<lambda>d. d \<notin> set provided) domains, map Handle ns)"
    "distinct ns" "set ns = set provided - set domains"
    using register_loop_spec by blast
  then have u: "UpdateDomainRegistrations provided domains =
      (filter (\<lambda>y. y \<notin> set (filter (\<lambda>d. d \<notin> set provided) domains)) (domains @ ns),
       map Handle ns @ map HandleRemove (filter (\<lambda>d. d \<notin> set provided) domains))"
    by (simp add: UpdateDomainRegistrations_def fold_removeAll)
  let ?gone = "filter (\<lambda>d. d \<notin> set provided) domains"
  have "set (filter (\<lambda>y. y \<notin> set ?gone) (domains @ ns)) = set provided"
    unfolding set_filter set_append ns(3) by blast
  moreover have "distinct (filter (\<lambda>y. y \<notin> set ?gone) (domains @ ns))" using assms ns(2,3) by auto
  moreover have "distinct ?gone" "set ?gone = set domains - set provided" using assms by auto
  ultimately show ?thesis unfolding u using ns(2,3) by blast
qed

theorem registrations_follow_provider_witness:
  "\<exists>domains' new gone. UpdateDomainRegistrations [''bosh.'', ''a.'', ''bosh.''] [''bosh.'', ''old.''] =
      (domains', map Handle new @ map HandleRemove gone) \<and>
    distinct domains' \<and> set domains' = {''bosh.'', ''a.''} \<and>
    distinct new \<and> set new = {''a.''} \<and> distinct gone \<and> set gone = {''old.''}"
proof -
  have "distinct [''bosh.'', ''old.'']" by simp
  moreover have "set [''bosh.'', ''a.'', ''bosh.''] = {''bosh.'', ''a.''}"
    "set [''bosh.'', ''a.'', ''bosh.''] - set [''bosh.'', ''old.''] = {''a.''}"
    "set [''bosh.'', ''old.''] - set [''bosh.'', ''a.'', ''bosh.''] = {''old.''}" by auto
  ultimately show ?thesis
    using registrations_follow_provider [of "[''bosh.'', ''old.'']" "[''bosh.'', ''a.'', ''bosh.'']"] by (simp only:)
qed

section \<open>The contract of a handler\<close>

text \<open>A handler answers a question with exactly one reply to it.\<close>

locale answering =
  fixes serve :: "network \<Rightarrow> msg \<Rightarrow> msg list"
  assumes one_reply: "m_Question req \<noteq> [] \<Longrightarrow> \<exists>m. serve network req = [m] \<and> is_reply req m"
begin

lemma logged:
  assumes "m_Question req \<noteq> []"
  shows "\<exists>m. RequestLoggerHandler_ServeDNS ts rs ht serve d network req =
    ([m], [LogReceivedRequest ts ht req, LogRequest ts rs ht d req (Some m) '''']) \<and> is_reply req m"
  using one_reply [OF assms, of network] by (auto simp: RequestLoggerHandler_ServeDNS_def)

lemma uncached:
  assumes "m_Question req \<noteq> []" "\<not> m_RecursionDesired req" "\<And>m. is_reply req (tr network req m) = is_reply req m"
  shows "\<exists>m. CachingDNSHandler_ServeDNS cache tr serve network req = [m] \<and> is_reply req m"
  using one_reply [OF assms(1), of network] assms(2,3) by (auto simp: CachingDNSHandler_ServeDNS_def)

lemma reverse:
  assumes "m_Question req \<noteq> []"
  shows "\<exists>m. ArpaHandler_ServeDNS getFQDNs serve network req = [m] \<and> is_reply req m"
  using one_reply [OF assms, of network] assms
  by (auto simp: ArpaHandler_ServeDNS_def Let_def split: option.splits)

end

lemma is_reply_SetEdns0 [simp]: "is_reply r (SetEdns0 n m) = is_reply r m"
  by (simp add: SetEdns0_def)

lemma is_reply_truncated [simp]: "is_reply r (TruncateIfNeeded network req m) = is_reply r m"
  by (rule TruncateIfNeeded_keeps(2))

lemma is_reply_buildResponse: "is_reply req (buildResponse get unmarshal address req)"
  by (auto simp: buildResponse_def Let_def split: option.splits)

interpretation deny: answering "CreateDenyHandler t" for t
  by unfold_locales (simp add: CreateDenyHandler_def DenyHandler_ServeDNS_def Let_def)

interpretation up: answering "\<lambda>network. UpcheckHandler_ServeDNS"
  by unfold_locales (simp add: UpcheckHandler_ServeDNS_def Let_def)

interpretation http: answering "HTTPJSONHandler_ServeDNS get unmarshal TruncateIfNeeded address" for get unmarshal address
  by unfold_locales (simp add: HTTPJSONHandler_ServeDNS_def is_reply_buildResponse)

interpretation discovery: answering "DiscoveryHandler_ServeDNS (LocalDomain_Resolve shuffle resolve TruncateIfNeeded)" for shuffle resolve
  by unfold_locales (simp add: DiscoveryHandler_ServeDNS_def LocalDomain_Resolve_def Let_def case_prod_beta)

text \<open>A reverse lookup is answered with exactly one reply. If the record set has names for
  the address these are the answers, in order, as PTR records under the name asked; a name
  that is no reverse name is a format error; any other question is passed on to the
  handler behind, here one that denies it.\<close>

theorem arpa_reply:
  assumes "m_Question req = q # qs"
  shows "\<exists>m. ArpaHandler_ServeDNS getFQDNs (CreateDenyHandler t) network req = [m] \<and> is_reply req m \<and>
    (case convertToRecordIP (qn_Name q) of
       None \<Rightarrow> m_Rcode m = RcodeFormatError \<and> m_Answer m = []
     | Some ip \<Rightarrow> if getFQDNs ip = [] then m_Rcode m = NewDenyHandler t \<and> m_Answer m = []
         else m_Rcode m = RcodeSuccess \<and> m_Answer m = map (RR_PTR (header_for (qn_Name q) TypePTR 0)) (getFQDNs ip))"
proof -
  have "m_Question req \<noteq> []" using assms by simp
  then obtain m where m: "ArpaHandler_ServeDNS getFQDNs (CreateDenyHandler t) network req = [m]" "is_reply req m"
    using deny.reverse by blast
  then show ?thesis using assms
    by (auto simp: ArpaHandler_ServeDNS_def CreateDenyHandler_def DenyHandler_ServeDNS_def Let_def new_msg_def split: option.splits if_splits)
qed

theorem arpa_reply_witness:
  "\<exists>m. ArpaHandler_ServeDNS (\<lambda>ip. if ip = ''10.0.0.1'' then [''a.bosh.''] else []) (CreateDenyHandler ''REFUSED'') UDP
      (new_msg\<lparr>m_Question := [\<lparr>qn_Name = ''1.0.0.10.in-addr.arpa.'', qn_Qtype = TypePTR, qn_Qclass = ClassINET\<rparr>]\<rparr>) = [m] \<and>
    m_Rcode m = RcodeSuccess \<and> m_Answer m = [RR_PTR (header_for ''1.0.0.10.in-addr.arpa.'' TypePTR 0) ''a.bosh.'']"
proof -
  have "convertToRecordIP ''1.0.0.10.in-addr.arpa.'' = Some ''10.0.0.1''" by code_simp
  then show ?thesis
    using arpa_reply [of "new_msg\<lparr>m_Question := [\<lparr>qn_Name = ''1.0.0.10.in-addr.arpa.'', qn_Qtype = TypePTR, qn_Qclass = ClassINET\<rparr>]\<rparr>"
        "\<lparr>qn_Name = ''1.0.0.10.in-addr.arpa.'', qn_Qtype = TypePTR, qn_Qclass = ClassINET\<rparr>" "[]"
        "\<lambda>ip. if ip = ''10.0.0.1'' then [''a.bosh.''] else []" "''REFUSED''" UDP]
    by auto
qed

end
