(* ===== verification/Dns_Config.thy ===== *)
theory Dns_Config
  imports Handlers "HOL-Library.Multiset"
begin

text \<open>
  The configuration of the server (\<^verbatim>\<open>src/bosh-dns/dns/config/\<close>): the main file, recursor
  addresses with their default port, the recursors read from the system, the files that
  configure handlers and listening addresses. Reading files, globbing and decoding JSON are
  arguments; the functions of package \<^verbatim>\<open>net\<close> on host-port strings are those of Go's
  standard library.
\<close>

section \<open>Host-port strings\<close>

definition missingPort :: string where "missingPort = ''missing port in address''"

definition tooManyColons :: string where "tooManyColons = ''too many colons in address''"

text \<open>\<^verbatim>\<open>strings.Contains\<close>, and the text of a \<^verbatim>\<open>net.AddrError\<close>.\<close>

fun Contains :: "string \<Rightarrow> string \<Rightarrow> bool" where
  "Contains [] t = (t = [])"
| "Contains (c # s) t = (HasPrefix (c # s) t \<or> Contains s t)"

definition addrErr :: "string \<Rightarrow> string \<Rightarrow> string" where
  "addrErr addr why = (if addr \<noteq> '''' then ''address '' @ addr @ '': '' @ why else why)"

text \<open>What is before and after the last colon, and before and after the first closing bracket.\<close>

definition last_colon :: "string \<Rightarrow> (string \<times> string) option" where
  "last_colon s =
     (if CHR '':'' \<in> set s
      then Some (rev (tl (dropWhile (\<lambda>c. c \<noteq> CHR '':'') (rev s))), rev (takeWhile (\<lambda>c. c \<noteq> CHR '':'') (rev s)))
      else None)"

definition SplitHostPort :: "string \<Rightarrow> string + string \<times> string" where
  "SplitHostPort hostport =
     (case last_colon hostport of
        None \<Rightarrow> Inl (addrErr hostport missingPort)
      | Some (before, port) \<Rightarrow>
          if hd hostport = CHR ''['' then
            if CHR '']'' \<notin> set hostport then Inl (addrErr hostport ''missing ']' in address'')
            else
              let host = tl (takeWhile (\<lambda>c. c \<noteq> CHR '']'') hostport);
                  rest = tl (dropWhile (\<lambda>c. c \<noteq> CHR '']'') hostport)
              in if rest = [] then Inl (addrErr hostport missingPort)
                 else if rest \<noteq> CHR '':'' # port then
                   Inl (addrErr hostport (if hd rest = CHR '':'' then tooManyColons else missingPort))
                 else if CHR ''['' \<in> set (tl hostport) then Inl (addrErr hostport ''unexpected '[' in address'')
                 else if CHR '']'' \<in> set rest then Inl (addrErr hostport ''unexpected ']' in address'')
                 else Inr (host, port)
          else if CHR '':'' \<in> set before then Inl (addrErr hostport tooManyColons)
          else if CHR ''['' \<in> set hostport then Inl (addrErr hostport ''unexpected '[' in address'')
          else if CHR '']'' \<in> set hostport then Inl (addrErr hostport ''unexpected ']' in address'')
          else Inr (before, port))"

section \<open>Addresses as text\<close>

text \<open>\<^verbatim>\<open>IP.String\<close>: a dotted quad, or groups with the first longest run of at least two zeros left out.\<close>

fun hex_text :: "nat \<Rightarrow> string" where
  "hex_text n = (if n < 16 then [''0123456789abcdef'' ! n] else hex_text (n div 16) @ [''0123456789abcdef'' ! (n mod 16)])"

declare hex_text.simps [simp del]

lemma itoa_code [code]:
  "itoa n = (case n < 10 of True \<Rightarrow> [digit_char n] | False \<Rightarrow> itoa (n div 10) @ [digit_char n])"
  by (subst itoa.simps) simp

lemma hex_text_code [code]:
  "hex_text n = (case n < 16 of True \<Rightarrow> [''0123456789abcdef'' ! n]
     | False \<Rightarrow> hex_text (n div 16) @ [''0123456789abcdef'' ! (n mod 16)])"
  by (subst hex_text.simps) simp

fun groups16 :: "nat list \<Rightarrow> nat list" where
  "groups16 (a # b # bs) = (256 * a + b) # groups16 bs"
| "groups16 _ = []"

definition zero_run :: "nat list \<Rightarrow> nat \<times> nat" where
  "zero_run gs =
     foldl (\<lambda>(start, len) i. let l = length (takeWhile (\<lambda>g. g = 0) (drop i gs)) in
              if l \<ge> 2 \<and> l > len then (i, l) else (start, len))
       (0, 0) [0..<length gs]"

definition IP_String :: "nat list \<Rightarrow> string" where
  "IP_String ip =
     (case To4 (Some ip) of
        Some b \<Rightarrow> Join (map itoa b) ''.''
      | None \<Rightarrow>
          let gs = groups16 ip; (start, len) = zero_run gs in
          if len = 0 then Join (map hex_text gs) '':''
          else Join (map hex_text (take start gs)) '':'' @ ''::'' @ Join (map hex_text (drop (start + len) gs)) '':'')"

section \<open>Recursor addresses\<close>

datatype config_error = AddrError string | InvalidIP string | ReadError | DecodeError | PortRequired
  | InvalidSelection | GlobError | NoURL string | NoRecursors string | InvalidResponse string string | UnexpectedType string string

definition default_port :: "string \<Rightarrow> config_error + string" where
  "default_port recursor =
     (case SplitHostPort recursor of
        Inr _ \<Rightarrow> Inr recursor
      | Inl err \<Rightarrow>
          if Contains err missingPort \<or> Contains err tooManyColons then
            (case ParseIP recursor of
               None \<Rightarrow> Inl (InvalidIP recursor)
             | Some ip \<Rightarrow> Inr (JoinHostPort (IP_String ip) ''53''))
          else Inl (AddrError err))"

definition AppendDefaultDNSPortIfMissing :: "string list \<Rightarrow> config_error + string list" where
  "AppendDefaultDNSPortIfMissing recursors = map_res default_port recursors"


section \<open>The configuration file\<close>

record cache_config =
  ca_Enabled :: bool

record api_config =
  api_Port :: int
  api_CertificateFile :: string
  api_PrivateKeyFile :: string
  api_CAFile :: string

record health_config =
  hcfg_Enabled :: bool
  hcfg_Port :: int
  hcfg_CertificateFile :: string
  hcfg_PrivateKeyFile :: string
  hcfg_CAFile :: string
  hcfg_CheckInterval :: int
  hcfg_MaxTrackedQueries :: int
  hcfg_SynchronousCheckTimeout :: int

record metrics_config =
  mc_Enabled :: bool
  mc_Address :: string
  mc_Port :: int

record upcheck_config =
  iu_Enabled :: bool
  iu_DNSQuery :: string

record log_tag =
  lt_Name :: string
  lt_LogLevel :: string

record logging_config =
  lc_TimeStamp :: string
  lc_Tags :: "log_tag list"

text \<open>Durations are in nanoseconds.\<close>

record config =
  c_Address :: string
  c_Port :: int
  c_BindTimeout :: int
  c_RecursorMaxRetries :: int
  c_RequestTimeout :: int
  c_RecursorTimeout :: int
  c_Recursors :: "string list"
  c_DisableRecursors :: bool
  c_ConfigureSystemdResolved :: bool
  c_ExcludedRecursors :: "string list"
  c_RecordsFile :: string
  c_RecursorSelection :: string
  c_AliasFilesGlob :: string
  c_HandlersFilesGlob :: string
  c_AddressesFilesGlob :: string
  c_UpcheckDomains :: "string list"
  c_JobsDir :: string
  c_LogLevel :: string
  c_API :: api_config
  c_Health :: health_config
  c_Metrics :: metrics_config
  c_Cache :: cache_config
  c_InternalUpcheckDomain :: upcheck_config
  c_Logging :: logging_config

definition second_ns :: int where "second_ns = 1000000000"

definition NewDefaultConfig :: config where
  "NewDefaultConfig =
     \<lparr>c_Address = '''', c_Port = 0, c_BindTimeout = 5 * second_ns, c_RecursorMaxRetries = 0,
      c_RequestTimeout = 5 * second_ns, c_RecursorTimeout = 2 * second_ns, c_Recursors = [],
      c_DisableRecursors = False, c_ConfigureSystemdResolved = False, c_ExcludedRecursors = [],
      c_RecordsFile = '''', c_RecursorSelection = ''smart'', c_AliasFilesGlob = '''',
      c_HandlersFilesGlob = '''', c_AddressesFilesGlob = '''', c_UpcheckDomains = [], c_JobsDir = '''',
      c_LogLevel = ''DEBUG'',
      c_API = \<lparr>api_Port = 0, api_CertificateFile = '''', api_PrivateKeyFile = '''', api_CAFile = ''''\<rparr>,
      c_Health = \<lparr>hcfg_Enabled = False, hcfg_Port = 0, hcfg_CertificateFile = '''', hcfg_PrivateKeyFile = '''',
        hcfg_CAFile = '''', hcfg_CheckInterval = 20 * second_ns, hcfg_MaxTrackedQueries = 2000,
        hcfg_SynchronousCheckTimeout = second_ns\<rparr>,
      c_Metrics = \<lparr>mc_Enabled = False, mc_Address = ''127.0.0.1'', mc_Port = 53088\<rparr>,
      c_Cache = \<lparr>ca_Enabled = False\<rparr>,
      c_InternalUpcheckDomain = \<lparr>iu_Enabled = False, iu_DNSQuery = ''''\<rparr>,
      c_Logging = \<lparr>lc_TimeStamp = '''', lc_Tags = []\<rparr>\<rparr>"

text \<open>\<open>unmarshal\<close> decodes JSON into a configuration that already has values.\<close>

definition LoadFromFile :: "string option \<Rightarrow> (string \<Rightarrow> config \<Rightarrow> config option) \<Rightarrow> config_error + config" where
  "LoadFromFile contents unmarshal =
     (case contents of
        None \<Rightarrow> Inl ReadError
      | Some bytes \<Rightarrow>
          (case unmarshal bytes NewDefaultConfig of
             None \<Rightarrow> Inl DecodeError
           | Some c \<Rightarrow>
               if c_Port c = 0 then Inl PortRequired
               else res_bind (AppendDefaultDNSPortIfMissing (c_Recursors c)) (\<lambda>rs.
                 let c = c\<lparr>c_Recursors := rs\<rparr> in
                 res_bind (AppendDefaultDNSPortIfMissing (c_ExcludedRecursors c)) (\<lambda>es.
                   let c = c\<lparr>c_ExcludedRecursors := es\<rparr> in
                   if c_RecursorSelection c = ''smart'' \<or> c_RecursorSelection c = ''serial'' then Inr c
                   else Inl InvalidSelection))))"

definition upper_char :: "char \<Rightarrow> char" where
  "upper_char c = (if CHR ''a'' \<le> c \<and> c \<le> CHR ''z'' then char_of (of_char c - 32 :: nat) else c)"

definition log_levels :: "(string, int) gomap" where
  "log_levels = [(''DEBUG'', 0), (''INFO'', 1), (''WARN'', 2), (''ERROR'', 3), (''NONE'', 99)]"

definition Levelify :: "string \<Rightarrow> int option" where
  "Levelify levelString = map_of log_levels (map upper_char levelString)"

definition GetLogLevel :: "config \<Rightarrow> int option" where
  "GetLogLevel c = Levelify (c_LogLevel c)"

definition GetLoggingTags :: "config \<Rightarrow> (string \<times> int) list" where
  "GetLoggingTags c =
     concat (map (\<lambda>t. case Levelify (lt_LogLevel t) of None \<Rightarrow> [] | Some l \<Rightarrow> [(lt_Name t, l)]) (lc_Tags (c_Logging c)))"

definition UseRFC3339Formatting :: "config \<Rightarrow> bool" where
  "UseRFC3339Formatting c \<longleftrightarrow> ToLower (lc_TimeStamp (c_Logging c)) = ToLower ''rfc3339''"

section \<open>The recursors of the server\<close>

definition loopbackAddress :: string where "loopbackAddress = ''127.0.0.1''"

definition isNameServer :: "string list \<Rightarrow> string \<Rightarrow> bool" where
  "isNameServer dnsNameServers s \<longleftrightarrow> s \<in> set dnsNameServers"

definition recursor_isValid :: "string list \<Rightarrow> string \<Rightarrow> bool" where
  "recursor_isValid dnsNameServers server \<longleftrightarrow>
     \<not> isNameServer dnsNameServers server \<and> server \<noteq> loopbackAddress \<and> server \<noteq> ''''"

definition recursorReader_Get :: "string list \<Rightarrow> (config_error + string list) \<Rightarrow> config_error + string list" where
  "recursorReader_Get dnsNameServers read =
     res_bind read (\<lambda>nameservers. AppendDefaultDNSPortIfMissing (filter (recursor_isValid dnsNameServers) nameservers))"

text \<open>
  The configuration is changed through a pointer, on errors too: a failing reader leaves the
  empty list it returns. \<open>shuffle\<close> is \<^verbatim>\<open>rand.Shuffle\<close>.
\<close>

definition ConfigureRecursors ::
  "(string list \<Rightarrow> string list) \<Rightarrow> (config_error + string list) \<Rightarrow> config option \<Rightarrow> config_error option \<times> config option" where
  "ConfigureRecursors shuffle get dnsConfig =
     (case dnsConfig of
        None \<Rightarrow> (None, None)
      | Some c \<Rightarrow>
          (case (if length (c_Recursors c) \<le> 0 then get else Inr (c_Recursors c)) of
             Inl e \<Rightarrow> (Some e, Some (c\<lparr>c_Recursors := []\<rparr>))
           | Inr found \<Rightarrow>
               let c = c\<lparr>c_Recursors := found\<rparr>;
                   recursors = filter (\<lambda>r. r \<notin> set (c_ExcludedRecursors c)) found
               in if c_RecursorSelection c = ''smart'' then (None, Some (c\<lparr>c_Recursors := shuffle recursors\<rparr>))
                  else if c_RecursorSelection c = ''serial'' then (None, Some (c\<lparr>c_Recursors := recursors\<rparr>))
                  else (Some InvalidSelection, Some c)))"


section \<open>Handlers and addresses\<close>

record source =
  src_Type :: string
  src_URL :: string
  src_Recursors :: "string list"
  src_Response :: string

record handler_config =
  hg_Domain :: string
  hg_Source :: source
  hg_Cache :: cache_config

record 'h handler_factory =
  hf_HTTPJSON :: "string \<Rightarrow> bool \<Rightarrow> 'h"
  hf_Forward :: "string list \<Rightarrow> bool \<Rightarrow> 'h"
  hf_Deny :: "string \<Rightarrow> 'h"

text \<open>The body of the loop: the handler of one entry.\<close>

definition generate_handler :: "'h handler_factory \<Rightarrow> handler_config \<Rightarrow> config_error + 'h" where
  "generate_handler factory c =
     (let s = hg_Source c in
      if src_Type s = ''http'' then
        (if src_URL s = '''' then Inl (NoURL (hg_Domain c))
         else Inr (hf_HTTPJSON factory (src_URL s) (ca_Enabled (hg_Cache c))))
      else if src_Type s = ''dns'' then
        (if length (src_Recursors s) = 0 then Inl (NoRecursors (hg_Domain c))
         else Inr (hf_Forward factory (src_Recursors s) (ca_Enabled (hg_Cache c))))
      else if src_Type s = ''deny'' then
        (let responseType = (if src_Response s = '''' then ''NXDOMAIN'' else src_Response s) in
         if responseType \<noteq> ''NXDOMAIN'' \<and> responseType \<noteq> ''REFUSED'' then Inl (InvalidResponse (hg_Domain c) responseType)
         else Inr (hf_Deny factory responseType))
      else Inl (UnexpectedType (hg_Domain c) (src_Type s)))"

fun generate_loop :: "'h handler_factory \<Rightarrow> handler_config list \<Rightarrow> (string, 'h) gomap \<Rightarrow> config_error + (string, 'h) gomap" where
  "generate_loop factory [] realHandlers = Inr realHandlers"
| "generate_loop factory (c # cs) realHandlers =
     (case generate_handler factory c of
        Inl e \<Rightarrow> Inl e
      | Inr handler \<Rightarrow> generate_loop factory cs (insert_map (hg_Domain c) handler realHandlers))"

definition GenerateHandlers :: "'h handler_factory \<Rightarrow> handler_config list \<Rightarrow> config_error + (string, 'h) gomap" where
  "GenerateHandlers factory c = generate_loop factory c []"

definition HandlerDomains :: "handler_config list \<Rightarrow> string list" where
  "HandlerDomains c = map hg_Domain c"

text \<open>The configurations of all files, in the order of the glob. Both packages have this function.\<close>

fun append_files :: "(string \<Rightarrow> config_error + 'c list) \<Rightarrow> string list \<Rightarrow> 'c list \<Rightarrow> config_error + 'c list" where
  "append_files load [] acc = Inr acc"
| "append_files load (p # ps) acc = res_bind (load p) (\<lambda>found. append_files load ps (acc @ found))"

definition handlers_ConfigFromGlob where
  "handlers_ConfigFromGlob (glob :: string \<Rightarrow> string list option) load pattern =
     (case glob pattern of None \<Rightarrow> Inl GlobError | Some ps \<Rightarrow> append_files load ps ([] :: handler_config list))"

record address_config =
  ac_Address :: string
  ac_Port :: int

definition addresses_ConfigFromGlob where
  "addresses_ConfigFromGlob (glob :: string \<Rightarrow> string list option) load pattern =
     (case glob pattern of None \<Rightarrow> Inl GlobError | Some ps \<Rightarrow> append_files load ps ([] :: address_config list))"

definition handlers_Load ::
  "(string \<Rightarrow> string option) \<Rightarrow> (string \<Rightarrow> handler_config list option) \<Rightarrow> string \<Rightarrow> config_error + handler_config list" where
  "handlers_Load readFile unmarshal filename =
     (case readFile filename of
        None \<Rightarrow> Inl ReadError
      | Some bytes \<Rightarrow>
          (case unmarshal bytes of
             None \<Rightarrow> Inl DecodeError
           | Some handlers \<Rightarrow>
               map_res (\<lambda>h. res_bind (AppendDefaultDNSPortIfMissing (src_Recursors (hg_Source h)))
                 (\<lambda>rs. Inr (h\<lparr>hg_Source := (hg_Source h)\<lparr>src_Recursors := rs\<rparr>\<rparr>))) handlers))"

definition addresses_Load ::
  "(string \<Rightarrow> string option) \<Rightarrow> (string \<Rightarrow> address_config list option) \<Rightarrow> string \<Rightarrow> config_error + address_config list" where
  "addresses_Load readFile unmarshal filename =
     (case readFile filename of
        None \<Rightarrow> Inl ReadError
      | Some bytes \<Rightarrow>
          (case unmarshal bytes of
             None \<Rightarrow> Inl DecodeError
           | Some addresses \<Rightarrow> if \<exists>c\<in>set addresses. ac_Port c = 0 then Inl PortRequired else Inr addresses))"

section \<open>Host-port strings: facts\<close>

lemma last_colon_append: "CHR '':'' \<notin> set p \<Longrightarrow> last_colon (h @ CHR '':'' # p) = Some (h, p)"
proof -
  assume p: "CHR '':'' \<notin> set p"
  then have "\<forall>c\<in>set (rev p). c \<noteq> CHR '':''" by auto
  then have "takeWhile (\<lambda>c. c \<noteq> CHR '':'') (rev p @ CHR '':'' # rev h) = rev p"
    "dropWhile (\<lambda>c. c \<noteq> CHR '':'') (rev p @ CHR '':'' # rev h) = CHR '':'' # rev h"
    by (simp_all only: takeWhile_append2 dropWhile_append2 takeWhile.simps dropWhile.simps if_False not_True_eq_False simp_thms append_Nil2)
  then show ?thesis by (simp add: last_colon_def)
qed

lemma SplitHostPort_JoinHostPort:
  assumes "CHR ''['' \<notin> set h" "CHR '']'' \<notin> set h"
    and "CHR ''['' \<notin> set p" "CHR '']'' \<notin> set p" "CHR '':'' \<notin> set p"
  shows "SplitHostPort (JoinHostPort h p) = Inr (h, p)"
proof (cases "CHR '':'' \<in> set h")
  case True
  let ?s = "CHR ''['' # h @ CHR '']'' # CHR '':'' # p"
  have "last_colon ?s = Some (CHR ''['' # h @ [CHR '']''], p)"
    using last_colon_append [OF assms(5), of "CHR ''['' # h @ [CHR '']'']"] by simp
  moreover have "\<forall>c\<in>set h. c \<noteq> CHR '']''" using assms(2) by auto
  then have "takeWhile (\<lambda>c. c \<noteq> CHR '']'') (h @ CHR '']'' # CHR '':'' # p) = h"
    "dropWhile (\<lambda>c. c \<noteq> CHR '']'') (h @ CHR '']'' # CHR '':'' # p) = CHR '']'' # CHR '':'' # p"
    by (simp_all add: takeWhile_append2 dropWhile_append2)
  ultimately show ?thesis using True assms by (simp add: SplitHostPort_def JoinHostPort_def Let_def)
next
  case False
  have hd: "hd (h @ CHR '':'' # p) \<noteq> CHR ''[''"
    using assms(1) by (cases h) auto
  then show ?thesis
    using False assms last_colon_append [OF assms(5), of h] by (simp add: SplitHostPort_def JoinHostPort_def)
qed


definition bracket_free :: "string \<Rightarrow> bool" where
  "bracket_free s \<longleftrightarrow> CHR ''['' \<notin> set s \<and> CHR '']'' \<notin> set s"

lemma bracket_free_append [simp]: "bracket_free (s @ t) \<longleftrightarrow> bracket_free s \<and> bracket_free t"
  by (auto simp: bracket_free_def)

lemma bracket_free_Cons [simp]: "bracket_free (c # s) \<longleftrightarrow> c \<noteq> CHR ''['' \<and> c \<noteq> CHR '']'' \<and> bracket_free s"
  by (auto simp: bracket_free_def)

lemma bracket_free_Nil [simp]: "bracket_free []"
  by (simp add: bracket_free_def)

lemma bracket_free_Join: "(\<forall>x\<in>set xs. bracket_free x) \<Longrightarrow> bracket_free s \<Longrightarrow> bracket_free (Join xs s)"
  by (induction xs s rule: Join.induct) (simp_all add: bracket_free_def)

lemma bracket_free_itoa [simp]: "bracket_free (itoa n)"
  using all_digits_itoa [of n] by (auto simp: all_digits_def list_all_iff is_digit_def bracket_free_def)

lemma bracket_free_hex_text [simp]: "bracket_free (hex_text n)"
proof (induction n rule: hex_text.induct)
  case (1 n)
  have "list_all (\<lambda>c. bracket_free [c]) ''0123456789abcdef''" by simp
  then have "bracket_free [''0123456789abcdef'' ! m]" if "m < 16" for m
    unfolding list_all_length using that by simp
  with 1 show ?case by (subst hex_text.simps) simp
qed

lemma bracket_free_IP_String: "bracket_free (IP_String ip)"
  unfolding IP_String_def Let_def by (simp add: bracket_free_Join split: option.split prod.split)

lemma default_port_result:
  assumes "default_port r = Inr r'"
  shows "(\<exists>hp. SplitHostPort r' = Inr hp) \<and>
    (r' = r \<or> (\<exists>ip. ParseIP r = Some ip \<and> SplitHostPort r' = Inr (IP_String ip, ''53'')))"
proof -
  have "SplitHostPort (JoinHostPort (IP_String ip) ''53'') = Inr (IP_String ip, ''53'')" for ip
    using bracket_free_IP_String by (intro SplitHostPort_JoinHostPort) (simp_all add: bracket_free_def)
  with assms show ?thesis
    by (auto simp: default_port_def split: sum.splits if_splits option.splits)
qed

lemma default_port_stable: "SplitHostPort r = Inr hp \<Longrightarrow> default_port r = Inr r"
  by (simp add: default_port_def)

lemma map_res_id: "\<forall>x\<in>set xs. f x = Inr x \<Longrightarrow> map_res f xs = Inr xs"
  by (induction xs) auto

definition has_port :: "string \<Rightarrow> bool" where
  "has_port r \<longleftrightarrow> (\<exists>hp. SplitHostPort r = Inr hp)"

lemma AppendDefault_has_port:
  "AppendDefaultDNSPortIfMissing rs = Inr rs' \<Longrightarrow> r' \<in> set rs' \<Longrightarrow> has_port r'"
  using default_port_result
  by (fastforce simp: AppendDefaultDNSPortIfMissing_def map_res_Inr_iff has_port_def list_all2_conv_all_nth in_set_conv_nth)


text \<open>
  The default port: every recursor of a successful result splits into a host and a
  port; it is the recursor as configured, or the address it parses to with port 53; and
  completing the result once more changes nothing.
\<close>

theorem default_port_normalises:
  assumes "AppendDefaultDNSPortIfMissing rs = Inr rs'"
  shows "list_all2 (\<lambda>r r'. has_port r' \<and>
      (r' = r \<or> (\<exists>ip. ParseIP r = Some ip \<and> SplitHostPort r' = Inr (IP_String ip, ''53'')))) rs rs' \<and>
    AppendDefaultDNSPortIfMissing rs' = Inr rs'"
proof
  show "list_all2 (\<lambda>r r'. has_port r' \<and>
      (r' = r \<or> (\<exists>ip. ParseIP r = Some ip \<and> SplitHostPort r' = Inr (IP_String ip, ''53'')))) rs rs'"
    using assms default_port_result unfolding AppendDefaultDNSPortIfMissing_def map_res_Inr_iff has_port_def
    by (auto elim!: list_all2_mono)
  show "AppendDefaultDNSPortIfMissing rs' = Inr rs'"
    using AppendDefault_has_port [OF assms] default_port_stable
    unfolding AppendDefaultDNSPortIfMissing_def has_port_def by (intro map_res_id) blast
qed

lemma example_ports:
  "AppendDefaultDNSPortIfMissing [''10.0.0.1'', ''::1'', ''10.0.0.2:5353''] =
    Inr [''10.0.0.1:53'', ''[::1]:53'', ''10.0.0.2:5353'']"
  by code_simp

theorem default_port_normalises_witness:
  "AppendDefaultDNSPortIfMissing [''10.0.0.1:53'', ''[::1]:53'', ''10.0.0.2:5353''] =
    Inr [''10.0.0.1:53'', ''[::1]:53'', ''10.0.0.2:5353'']"
  using default_port_normalises [OF example_ports] by (rule conjunct2)

section \<open>Recursors: facts\<close>

lemma LoadFromFile_result:
  assumes "LoadFromFile contents unmarshal = Inr c"
  shows "c_Port c \<noteq> 0" "c_RecursorSelection c = ''smart'' \<or> c_RecursorSelection c = ''serial''"
    "r \<in> set (c_Recursors c) \<Longrightarrow> has_port r" "r \<in> set (c_ExcludedRecursors c) \<Longrightarrow> has_port r"
  using assms AppendDefault_has_port
  by (auto simp: LoadFromFile_def Let_def res_bind_Inr_iff split: option.splits if_splits)

lemma recursorReader_Get_has_port:
  "recursorReader_Get own read = Inr rs \<Longrightarrow> r \<in> set rs \<Longrightarrow> has_port r"
  by (auto simp: recursorReader_Get_def res_bind_Inr_iff dest: AppendDefault_has_port)

text \<open>Where the recursors of the server come from.\<close>

definition recursor_source :: "string list \<Rightarrow> (config_error + string list) \<Rightarrow> config \<Rightarrow> config_error + string list" where
  "recursor_source own read c = (if c_Recursors c = [] then recursorReader_Get own read else Inr (c_Recursors c))"

text \<open>
  C25: The recursors of a server whose configuration file was loaded: configuring them fails
  exactly when the file names none and those of the system cannot be read, and otherwise
  they are those of the file, or of the system when the file names none, without the
  excluded ones, in a random order or, with serial selection, in the given one. Each has a
  port, and nothing else of the configuration changes.
\<close>

theorem configured_recursors:
  assumes "LoadFromFile contents unmarshal = Inr c" and "\<And>rs. mset (shuffle rs) = mset rs"
  shows "case recursor_source own read c of
      Inl e \<Rightarrow> fst (ConfigureRecursors shuffle (recursorReader_Get own read) (Some c)) = Some e
    | Inr found \<Rightarrow> (\<exists>rs. ConfigureRecursors shuffle (recursorReader_Get own read) (Some c) = (None, Some (c\<lparr>c_Recursors := rs\<rparr>)) \<and>
        mset rs = mset (filter (\<lambda>r. r \<notin> set (c_ExcludedRecursors c)) found) \<and>
        (c_RecursorSelection c = ''serial'' \<longrightarrow> rs = filter (\<lambda>r. r \<notin> set (c_ExcludedRecursors c)) found) \<and>
        (\<forall>r\<in>set rs. has_port r))"
proof (cases "recursor_source own read c")
  case (Inl e)
  then show ?thesis by (simp add: ConfigureRecursors_def recursor_source_def split: if_splits)
next
  case (Inr found)
  let ?rs = "filter (\<lambda>r. r \<notin> set (c_ExcludedRecursors c)) found"
  have port: "has_port r" if "r \<in> set found" for r
    using Inr that LoadFromFile_result(3) [OF assms(1)] recursorReader_Get_has_port
    by (auto simp: recursor_source_def split: if_splits)
  define rs where "rs = (if c_RecursorSelection c = ''smart'' then shuffle ?rs else ?rs)"
  have "ConfigureRecursors shuffle (recursorReader_Get own read) (Some c) = (None, Some (c\<lparr>c_Recursors := rs\<rparr>))"
    unfolding rs_def using Inr LoadFromFile_result(2) [OF assms(1)] by (auto simp: ConfigureRecursors_def recursor_source_def split: if_splits)
  moreover have m: "mset rs = mset ?rs" unfolding rs_def using assms(2) by simp
  moreover have "\<forall>r\<in>set rs. has_port r" using port mset_eq_setD [OF m] by auto
  moreover have "c_RecursorSelection c = ''serial'' \<longrightarrow> rs = ?rs" unfolding rs_def by simp
  ultimately show ?thesis using Inr by (simp only: sum.case) blast
qed

definition example_config :: config where
  "example_config = NewDefaultConfig\<lparr>c_Port := 53, c_ExcludedRecursors := [''10.0.0.2'']\<rparr>"

theorem configured_recursors_witness:
  "\<exists>c rs. LoadFromFile (Some []) (\<lambda>b c. Some example_config) = Inr c \<and>
     ConfigureRecursors id (recursorReader_Get [''10.0.0.9''] (Inr [''127.0.0.1'', ''10.0.0.9'', ''10.0.0.2'', ''10.0.0.3''])) (Some c) =
       (None, Some (c\<lparr>c_Recursors := rs\<rparr>)) \<and> mset rs = {#''10.0.0.3:53''#} \<and> (\<forall>r\<in>set rs. has_port r)"
proof -
  let ?c = "example_config\<lparr>c_ExcludedRecursors := [''10.0.0.2:53'']\<rparr>"
  let ?read = "Inr [''127.0.0.1'', ''10.0.0.9'', ''10.0.0.2'', ''10.0.0.3'']"
  have e: "AppendDefaultDNSPortIfMissing [''10.0.0.2''] = Inr [''10.0.0.2:53'']" by code_simp
  have l: "LoadFromFile (Some []) (\<lambda>b c. Some example_config) = Inr ?c"
    by (simp add: LoadFromFile_def example_config_def NewDefaultConfig_def e) (simp add: AppendDefaultDNSPortIfMissing_def)
  have s: "recursor_source [''10.0.0.9''] ?read ?c = Inr [''10.0.0.2:53'', ''10.0.0.3:53'']" by code_simp
  show ?thesis
    using configured_recursors [OF l, where shuffle = id and own = "[''10.0.0.9'']" and read = ?read, unfolded s] l by auto
qed


text \<open>
  The loopback address and the server's own addresses are compared before an address is
  brought into canonical form: an IPv4-mapped spelling of the loopback address becomes a
  recursor, the loopback address itself.
\<close>

lemma mapped_loopback_parsed: "ParseIP ''::ffff:127.0.0.1'' = Some (v4_prefix @ [127, 0, 0, 1])"
proof -
  have c: "hex_chunk ''ffff'' = [255, 255]" by (simp add: hex_chunk_def hex_val_def is_digit_def)
  have f: "parseIPv4Fields ''127.0.0.1'' = Some [127, 0, 0, 1]" by code_simp
  have "parse_groups [255, 255] (Some 0) ''127.0.0.1'' = Some ([255, 255, 127, 0, 0, 1], Some 0)"
    by (subst parse_groups.simps) (simp add: f hex_val_def is_digit_def)
  then have "parse_groups [] (Some 0) ''ffff:127.0.0.1'' = Some ([255, 255, 127, 0, 0, 1], Some 0)"
    by (subst parse_groups.simps) (simp add: c hex_val_def is_digit_def)
  then show ?thesis
    by (simp add: ParseIP_def parseIPv6_def HasPrefix_def expand_ellipsis_def v4_prefix_def eval_nat_numeral)
qed

lemma mapped_loopback_recursor:
  "recursorReader_Get [''10.0.0.9''] (Inr [''127.0.0.1'']) = Inr []"
  "recursorReader_Get [''10.0.0.9''] (Inr [''::ffff:127.0.0.1'']) = Inr [''127.0.0.1:53'']"
proof -
  show "recursorReader_Get [''10.0.0.9''] (Inr [''127.0.0.1'']) = Inr []" by code_simp
  have "IP_String (v4_prefix @ [127, 0, 0, 1]) = ''127.0.0.1''" by code_simp
  moreover have "SplitHostPort ''::ffff:127.0.0.1'' = Inl (addrErr ''::ffff:127.0.0.1'' tooManyColons)" by code_simp
  moreover have "Contains (addrErr ''::ffff:127.0.0.1'' tooManyColons) tooManyColons" by code_simp
  moreover have "JoinHostPort ''127.0.0.1'' ''53'' = ''127.0.0.1:53''" by code_simp
  ultimately show "recursorReader_Get [''10.0.0.9''] (Inr [''::ffff:127.0.0.1'']) = Inr [''127.0.0.1:53'']"
    by (simp add: recursorReader_Get_def recursor_isValid_def isNameServer_def loopbackAddress_def
        AppendDefaultDNSPortIfMissing_def default_port_def mapped_loopback_parsed)
qed

section \<open>Handlers: facts\<close>

lemma generate_loop_error:
  "(\<exists>e. generate_loop f cs m = Inl e) \<longleftrightarrow> (\<exists>c\<in>set cs. \<exists>e. generate_handler f c = Inl e)"
  by (induction f cs m rule: generate_loop.induct) (auto split: sum.splits)

lemma generate_loop_lookup:
  "generate_loop f cs m = Inr m' \<Longrightarrow>
   map_of m' d = (case find (\<lambda>c. hg_Domain c = d) (rev cs) of
      None \<Rightarrow> map_of m d | Some c \<Rightarrow> Some (projr (generate_handler f c)))"
proof (induction f cs m rule: generate_loop.induct)
  case (2 f c cs m)
  then obtain h where h: "generate_handler f c = Inr h" by (auto split: sum.splits)
  have "find p (xs @ [x]) = (case find p xs of None \<Rightarrow> if p x then Some x else None | r \<Rightarrow> r)"
    for p :: "handler_config \<Rightarrow> bool" and xs x by (induction xs) auto
  with 2 h show ?case by (auto simp: map_of_insert_map_apply split: option.splits)
qed auto

text \<open>
  The handlers of the configuration: generation fails exactly when one of the entries is
  invalid (an HTTP source without an address, a DNS source without recursors, a denial with
  an unknown response, another type), and otherwise a domain has the handler of its last
  entry, and only configured domains have one.
\<close>

theorem handlers_generated:
  "case GenerateHandlers f cs of
     Inl e \<Rightarrow> (\<exists>c\<in>set cs. \<exists>e. generate_handler f c = Inl e)
   | Inr m \<Rightarrow> (\<forall>c\<in>set cs. \<exists>h. generate_handler f c = Inr h) \<and>
       (\<forall>d. map_of m d = (case find (\<lambda>c. hg_Domain c = d) (rev cs) of
          None \<Rightarrow> None | Some c \<Rightarrow> Some (projr (generate_handler f c))))"
proof (cases "GenerateHandlers f cs")
  case (Inl e)
  then show ?thesis using generate_loop_error [of f cs "[]"] by (auto simp: GenerateHandlers_def)
next
  case (Inr m)
  then have "\<not> (\<exists>c\<in>set cs. \<exists>e. generate_handler f c = Inl e)"
    using generate_loop_error [of f cs "[]"] by (auto simp: GenerateHandlers_def)
  then have "\<forall>c\<in>set cs. \<exists>h. generate_handler f c = Inr h" by (metis sum.exhaust)
  then show ?thesis using Inr generate_loop_lookup [of f cs "[]" m] by (simp add: GenerateHandlers_def split: option.splits)
qed

definition example_source :: "string \<Rightarrow> source" where
  "example_source t = \<lparr>src_Type = t, src_URL = ''http://10.0.0.5'', src_Recursors = [''10.0.0.6:53''], src_Response = ''''\<rparr>"

theorem handlers_generated_witness:
  "let mk = (\<lambda>d t. \<lparr>hg_Domain = d, hg_Source = example_source t, hg_Cache = \<lparr>ca_Enabled = False\<rparr>\<rparr>);
       f = \<lparr>hf_HTTPJSON = (\<lambda>u c. u), hf_Forward = (\<lambda>rs c. hd rs), hf_Deny = id\<rparr>
   in \<exists>m. GenerateHandlers f [mk ''a.'' ''http'', mk ''b.'' ''dns'', mk ''a.'' ''deny''] = Inr m \<and>
        map_of m ''a.'' = Some ''NXDOMAIN'' \<and> map_of m ''b.'' = Some ''10.0.0.6:53'' \<and> map_of m ''c.'' = None"
proof -
  let ?mk = "\<lambda>d t. \<lparr>hg_Domain = d, hg_Source = example_source t, hg_Cache = \<lparr>ca_Enabled = False\<rparr>\<rparr>"
  let ?f = "\<lparr>hf_HTTPJSON = (\<lambda>u c. u), hf_Forward = (\<lambda>rs c. hd rs), hf_Deny = id\<rparr> :: string handler_factory"
  show ?thesis
    using handlers_generated [where f = ?f and cs = "[?mk ''a.'' ''http'', ?mk ''b.'' ''dns'', ?mk ''a.'' ''deny'']"]
    by (simp add: Let_def GenerateHandlers_def generate_handler_def example_source_def)
qed

end
