(* ===== verification/Serve_Mux.thy ===== *)
theory Serve_Mux
  imports Dns_Config
begin

text \<open>
  The multiplexer that hands a request to the handler of its domain
  (\<^verbatim>\<open>src/bosh-dns/vendor/github.com/miekg/dns/serve_mux.go\<close>), and what the server registers
  in it: \<^verbatim>\<open>src/bosh-dns/dns/main.go\<close> and, while it runs, the handler registrar. The lemmas say
  which handler answers which name.
\<close>

section \<open>The multiplexer\<close>

text \<open>\<open>None\<close> is a panic.\<close>

type_synonym 'h mux = "(string, 'h) gomap"

definition CanonicalName :: "string \<Rightarrow> string" where
  "CanonicalName s = ToLower (Fqdn s)"

definition mux_Handle :: "string \<Rightarrow> 'h \<Rightarrow> 'h mux \<Rightarrow> 'h mux option" where
  "mux_Handle pattern handler z = (if pattern = '''' then None else Some (insert_map (CanonicalName pattern) handler z))"

definition mux_HandleRemove :: "string \<Rightarrow> 'h mux \<Rightarrow> 'h mux option" where
  "mux_HandleRemove pattern z = (if pattern = '''' then None else Some (delete_map (CanonicalName pattern) z))"

abbreviation (input) TypeDS :: "16 word" where "TypeDS \<equiv> 43"

text \<open>The loop over the labels; at its end the root zone is tried.\<close>

fun match_suffixes :: "'h mux \<Rightarrow> 16 word \<Rightarrow> string list \<Rightarrow> 'h option \<Rightarrow> 'h option" where
  "match_suffixes z t [] handler = (case map_of z ''.'' of Some h \<Rightarrow> Some h | None \<Rightarrow> handler)"
| "match_suffixes z t (p # ps) handler =
     (case map_of z (concat (p # ps)) of
        Some h \<Rightarrow> if t \<noteq> TypeDS then Some h else match_suffixes z t ps (Some h)
      | None \<Rightarrow> match_suffixes z t ps handler)"

definition mux_match :: "'h mux \<Rightarrow> string \<Rightarrow> 16 word \<Rightarrow> 'h option" where
  "mux_match z q t = match_suffixes z t (label_pieces (CanonicalName q)) None"

definition handleRefused :: "msg \<Rightarrow> msg list" where
  "handleRefused req = [SetRcode req RcodeRefused new_msg]"

definition ServeMux_ServeDNS :: "handler mux \<Rightarrow> handler" where
  "ServeMux_ServeDNS z network req =
     (case (if length (m_Question req) \<ge> 1
            then mux_match z (qn_Name (hd (m_Question req))) (qn_Qtype (hd (m_Question req))) else None) of
        Some h \<Rightarrow> h network req
      | None \<Rightarrow> handleRefused req)"

section \<open>The longest suffix\<close>

definition suffix_names :: "string \<Rightarrow> string list" where
  "suffix_names q = (let ps = label_pieces (CanonicalName q) in map (\<lambda>k. concat (drop k ps)) [0..<length ps])"

lemma match_suffixes_find:
  assumes "t \<noteq> TypeDS"
  shows "match_suffixes z t ps None =
    (case find (\<lambda>n. map_of z n \<noteq> None) (map (\<lambda>k. concat (drop k ps)) [0..<length ps]) of
       Some n \<Rightarrow> map_of z n | None \<Rightarrow> map_of z ''.'')"
proof (induction ps)
  case (Cons p ps)
  have "map (\<lambda>k. concat (drop k (p # ps))) [0..<length (p # ps)] =
      concat (p # ps) # map (\<lambda>k. concat (drop k ps)) [0..<length ps]"
    by (simp add: upt_conv_Cons map_Suc_upt [symmetric] del: upt_Suc)
  with Cons assms show ?case by (auto split: option.splits)
qed (simp split: option.splits)

lemma mux_match_find:
  "t \<noteq> TypeDS \<Longrightarrow> mux_match z q t =
     (case find (\<lambda>n. map_of z n \<noteq> None) (suffix_names q) of Some n \<Rightarrow> map_of z n | None \<Rightarrow> map_of z ''.'')"
  by (simp add: mux_match_def match_suffixes_find suffix_names_def Let_def)

lemma match_suffixes_DS:
  "match_suffixes z TypeDS ps h =
    (case map_of z ''.'' of Some r \<Rightarrow> Some r
     | None \<Rightarrow> (case find (\<lambda>n. map_of z n \<noteq> None) (rev (map (\<lambda>k. concat (drop k ps)) [0..<length ps])) of
         Some n \<Rightarrow> map_of z n | None \<Rightarrow> h))"
proof (induction ps arbitrary: h)
  case (Cons p ps)
  let ?names = "\<lambda>ps. map (\<lambda>k. concat (drop k ps)) [0..<length ps]" and ?find = "find (\<lambda>n. map_of z n \<noteq> None)"
  have "?names (p # ps) = concat (p # ps) # ?names ps"
    by (simp add: upt_conv_Cons map_Suc_upt [symmetric] del: upt_Suc)
  then have "?find (rev (?names (p # ps))) =
      (case ?find (rev (?names ps)) of Some n \<Rightarrow> Some n
       | None \<Rightarrow> if map_of z (concat (p # ps)) \<noteq> None then Some (concat (p # ps)) else None)"
    by (simp only: rev.simps find_of_append find.simps split: option.splits)
  with Cons show ?case by (cases "?find (rev (?names ps))"; cases "map_of z (concat (p # ps))") (simp_all split: option.splits)
qed (simp split: option.splits)

lemma mux_match_DS:
  "mux_match z q TypeDS =
     (case map_of z ''.'' of Some r \<Rightarrow> Some r
      | None \<Rightarrow> Option.bind (find (\<lambda>n. map_of z n \<noteq> None) (rev (suffix_names q))) (map_of z))"
  by (simp add: mux_match_def match_suffixes_DS suffix_names_def Let_def split: option.splits)

lemma match_suffixes_root: "map_of z ''.'' \<noteq> None \<Longrightarrow> match_suffixes z t ps h \<noteq> None"
  by (induction z t ps h rule: match_suffixes.induct) (auto split: option.splits)

lemma suffix_names_first: "suffix_names q = CanonicalName q # tl (suffix_names q)"
proof -
  have "label_pieces (CanonicalName q) \<noteq> []" by (simp add: label_pieces_def)
  then show ?thesis by (simp add: suffix_names_def Let_def upt_conv_Cons)
qed


section \<open>What the server registers\<close>

text \<open>Which handler a pattern is registered with; the real handlers are an interpretation of these.\<close>

datatype route = DelegateTo string | ArpaRoute | ExternalRoute | UpcheckRoute | InternalRoute

fun register_all :: "(string \<times> 'h) list \<Rightarrow> 'h mux \<Rightarrow> 'h mux option" where
  "register_all [] z = Some z"
| "register_all ((pattern, h) # cs) z = Option.bind (mux_Handle pattern h z) (register_all cs)"

text \<open>The calls of the registrar, with its handler.\<close>

fun mux_apply :: "'h \<Rightarrow> mux_call list \<Rightarrow> 'h mux \<Rightarrow> 'h mux option" where
  "mux_apply h [] z = Some z"
| "mux_apply h (Handle d # cs) z = Option.bind (mux_Handle d h z) (mux_apply h cs)"
| "mux_apply h (HandleRemove d # cs) z = Option.bind (mux_HandleRemove d z) (mux_apply h cs)"

text \<open>The patterns in the order of the calls in \<^verbatim>\<open>main\<close>: the configured domains in the order of a map.\<close>

definition main_patterns :: "config \<Rightarrow> string list \<Rightarrow> (string \<times> route) list" where
  "main_patterns c delegated =
     map (\<lambda>d. (d, DelegateTo d)) delegated
     @ (if \<not> c_DisableRecursors c then [(''arpa.'', ArpaRoute), (''.'', ExternalRoute)] else [])
     @ map (\<lambda>d. (d, UpcheckRoute)) (c_UpcheckDomains c)"

definition main_mux :: "config \<Rightarrow> string list \<Rightarrow> string list \<Rightarrow> route mux option" where
  "main_mux c delegated provided =
     Option.bind (register_all (main_patterns c delegated) [])
       (mux_apply InternalRoute (RegisterAgentTLD @ snd (UpdateDomainRegistrations provided [])))"

lemma register_all_lookup:
  "register_all cs z = Some z' \<Longrightarrow>
   map_of z' n = (case find (\<lambda>(p, h). CanonicalName p = n) (rev cs) of Some (p, h) \<Rightarrow> Some h | None \<Rightarrow> map_of z n)"
proof (induction cs z rule: register_all.induct)
  case (2 pattern h cs z)
  have "find P (xs @ [x]) = (case find P xs of None \<Rightarrow> if P x then Some x else None | r \<Rightarrow> r)"
    for P :: "string \<times> 'a \<Rightarrow> bool" and xs x by (induction xs) auto
  with 2 show ?case
    by (auto simp: mux_Handle_def bind_eq_Some_conv map_of_insert_map_apply split: option.splits if_splits)
qed simp

lemma mux_apply_handles:
  "mux_apply h (map Handle ds) z = Some z' \<Longrightarrow>
   map_of z' n = (if n \<in> CanonicalName ` set ds then Some h else map_of z n)"
  by (induction ds arbitrary: z)
     (auto simp: mux_Handle_def map_of_insert_map_apply split: if_splits)

lemma first_registrations:
  "\<exists>ns. snd (UpdateDomainRegistrations provided []) = map Handle ns \<and> set ns = set provided"
  using register_loop_spec [of provided "[]" "[]"] by (auto simp: UpdateDomainRegistrations_def)

section \<open>Who answers what\<close>

text \<open>The route registered for a canonical name.\<close>

definition route_of :: "config \<Rightarrow> string list \<Rightarrow> string list \<Rightarrow> string \<Rightarrow> route option" where
  "route_of c delegated provided n =
     (if n \<in> CanonicalName ` set (BoshAgentTLD # provided) then Some InternalRoute
      else if n \<in> CanonicalName ` set (c_UpcheckDomains c) then Some UpcheckRoute
      else if n = ''.'' \<and> \<not> c_DisableRecursors c then Some ExternalRoute
      else if n = ''arpa.'' \<and> \<not> c_DisableRecursors c then Some ArpaRoute
      else map_option DelegateTo (find (\<lambda>d. CanonicalName d = n) (rev delegated)))"

lemma find_map: "find P (map f xs) = map_option f (find (P \<circ> f) xs)"
  by (induction xs) auto

lemma find_canonical:
  "find (\<lambda>(p, h). CanonicalName p = n) (rev (map (\<lambda>d. (d, r)) ds)) =
     map_option (\<lambda>d. (d, r)) (find (\<lambda>d. CanonicalName d = n) (rev ds))"
  "find (\<lambda>(p, h). CanonicalName p = n) (rev (map (\<lambda>d. (d, DelegateTo d)) ds)) =
     map_option (\<lambda>d. (d, DelegateTo d)) (find (\<lambda>d. CanonicalName d = n) (rev ds))"
  by (simp_all add: rev_map find_map comp_def)

lemma find_member: "find (\<lambda>d. CanonicalName d = n) ds = None \<longleftrightarrow> n \<notin> CanonicalName ` set ds"
  by (auto simp: find_None_iff)

lemma main_mux_lookup:
  assumes "main_mux c delegated provided = Some z"
  shows "map_of z n = route_of c delegated provided n"
proof -
  obtain ns where ns: "snd (UpdateDomainRegistrations provided []) = map Handle ns" "set ns = set provided"
    using first_registrations by blast
  obtain z0 where z0: "register_all (main_patterns c delegated) [] = Some z0"
    "mux_apply InternalRoute (map Handle (BoshAgentTLD # ns)) z0 = Some z"
    using assms ns(1) by (auto simp: main_mux_def bind_eq_Some_conv RegisterAgentTLD_def)
  have a: "CanonicalName ''arpa.'' = ''arpa.''" "CanonicalName ''.'' = ''.''" by code_simp+
  have "map_of z n = (if n \<in> CanonicalName ` set (BoshAgentTLD # provided) then Some InternalRoute else map_of z0 n)"
    using mux_apply_handles [OF z0(2)] ns(2) by simp
  moreover have "map_of z0 n =
     (if n \<in> CanonicalName ` set (c_UpcheckDomains c) then Some UpcheckRoute
      else if n = ''.'' \<and> \<not> c_DisableRecursors c then Some ExternalRoute
      else if n = ''arpa.'' \<and> \<not> c_DisableRecursors c then Some ArpaRoute
      else map_option DelegateTo (find (\<lambda>d. CanonicalName d = n) (rev delegated)))"
    using find_member [of n "rev (c_UpcheckDomains c)"]
    unfolding register_all_lookup [OF z0(1)] main_patterns_def rev_append find_of_append find_canonical
    by (auto simp: a find_of_append split: option.splits)
  ultimately show ?thesis by (simp add: route_of_def)
qed

text \<open>
  C5: Which handler answers a question. For every type but DS: of the suffixes of the name, in
  lower case and beginning with the whole name, the first that is registered decides, and the
  root when none is. A DS question belongs to the parent zone: the root decides when it is
  registered, and otherwise the shortest registered suffix. A domain of the record set or of
  the agents is answered by the discovery handler, before an upcheck domain, before the
  recursors and the reverse lookups, before the configured handlers. With recursors every
  question, of whatever type, has a handler.
\<close>

theorem main_routes:
  assumes "main_mux c delegated provided = Some z"
  shows "mux_match z q t =
      (let route = route_of c delegated provided; registered = (\<lambda>n. route n \<noteq> None) in
       if t \<noteq> TypeDS
       then (case find registered (suffix_names q) of Some n \<Rightarrow> route n | None \<Rightarrow> route ''.'')
       else (case route ''.'' of Some h \<Rightarrow> Some h | None \<Rightarrow> Option.bind (find registered (rev (suffix_names q))) route)) \<and>
    (\<not> c_DisableRecursors c \<longrightarrow> mux_match z q t \<noteq> None)"
proof -
  have lookup: "map_of z = route_of c delegated provided" using main_mux_lookup [OF assms] by blast
  have "map_of z ''.'' \<noteq> None" if "\<not> c_DisableRecursors c"
    using that unfolding lookup by (simp add: route_of_def split: if_splits)
  then have "\<not> c_DisableRecursors c \<longrightarrow> mux_match z q t \<noteq> None"
    using match_suffixes_root [of z] by (simp add: mux_match_def)
  then show ?thesis
    using mux_match_find [of t z q] mux_match_DS [of z q] unfolding lookup Let_def by (cases "t = TypeDS") simp_all
qed

theorem main_routes_witness:
  "\<exists>z. main_mux (example_config\<lparr>c_UpcheckDomains := [''upcheck.bosh-dns.'']\<rparr>) [''corp.''] [''bosh.''] = Some z \<and>
     mux_match z ''i.g.n.d.BOSH.'' TypeA = Some InternalRoute \<and> mux_match z ''www.corp.'' TypeA = Some (DelegateTo ''corp.'') \<and>
     mux_match z ''example.com.'' TypeA = Some ExternalRoute \<and> mux_match z ''www.corp.'' TypeDS = Some ExternalRoute"
proof -
  let ?c = "example_config\<lparr>c_UpcheckDomains := [''upcheck.bosh-dns.'']\<rparr>"
  obtain z where z: "main_mux ?c [''corp.''] [''bosh.''] = Some z"
    by (auto simp: main_mux_def main_patterns_def UpdateDomainRegistrations_def RegisterAgentTLD_def BoshAgentTLD_def mux_Handle_def
        example_config_def NewDefaultConfig_def)
  have s: "suffix_names ''i.g.n.d.BOSH.'' = [''i.g.n.d.bosh.'', ''g.n.d.bosh.'', ''n.d.bosh.'', ''d.bosh.'', ''bosh.'']"
    "suffix_names ''www.corp.'' = [''www.corp.'', ''corp.'']" "suffix_names ''example.com.'' = [''example.com.'', ''com.'']"
    by code_simp+
  have c: "CanonicalName ''bosh.'' = ''bosh.''" "CanonicalName ''corp.'' = ''corp.''" "CanonicalName BoshAgentTLD = ''bosh-agent-id.''"
    "CanonicalName ''upcheck.bosh-dns.'' = ''upcheck.bosh-dns.''" by code_simp+
  have d: "\<not> c_DisableRecursors ?c" by (simp add: example_config_def NewDefaultConfig_def)
  note route = main_routes [OF z, unfolded Let_def]
  show ?thesis
    using z route [of "''i.g.n.d.BOSH.''" TypeA] route [of "''www.corp.''" TypeA] route [of "''example.com.''" TypeA] route [of "''www.corp.''" TypeDS]
    by (intro exI [of _ z]) (simp add: s route_of_def c d)
qed

text \<open>
  A configured handler can be lost: when the record set gains and later loses a domain that
  a handler is configured for, the registrar replaces the handler and then removes the
  pattern; the configured handler is not restored.
\<close>

theorem configured_handler_lost:
  assumes "d \<noteq> ''''" "map_of z (CanonicalName d) = Some configured" "t \<noteq> TypeDS"
  shows "\<exists>z1 z2 doms.
    UpdateDomainRegistrations [d] [] = (doms, [Handle d]) \<and> mux_apply internal [Handle d] z = Some z1 \<and>
    UpdateDomainRegistrations [] doms = ([], [HandleRemove d]) \<and> mux_apply internal [HandleRemove d] z1 = Some z2 \<and>
    mux_match z d t = Some configured \<and> mux_match z1 d t = Some internal \<and> map_of z2 (CanonicalName d) = None"
proof -
  have first: "mux_match y d t = Some h" if "map_of y (CanonicalName d) = Some h" for y :: "'a mux" and h
    using that by (subst mux_match_find [OF assms(3)], subst suffix_names_first) simp
  show ?thesis
    using assms(1) first [OF assms(2)] first [of "insert_map (CanonicalName d) internal z" internal]
    by (simp add: UpdateDomainRegistrations_def mux_Handle_def mux_HandleRemove_def)
qed

theorem configured_handler_lost_witness:
  "\<exists>z1 z2 doms.
    UpdateDomainRegistrations [''corp.''] [] = (doms, [Handle ''corp.'']) \<and> mux_apply InternalRoute [Handle ''corp.''] [(''corp.'', DelegateTo ''corp.'')] = Some z1 \<and>
    UpdateDomainRegistrations [] doms = ([], [HandleRemove ''corp.'']) \<and> mux_apply InternalRoute [HandleRemove ''corp.''] z1 = Some z2 \<and>
    mux_match [(''corp.'', DelegateTo ''corp.'')] ''corp.'' TypeA = Some (DelegateTo ''corp.'') \<and>
    mux_match z1 ''corp.'' TypeA = Some InternalRoute \<and> map_of z2 (CanonicalName ''corp.'') = None"
proof (rule configured_handler_lost)
  show "map_of [(''corp.'', DelegateTo ''corp.'')] (CanonicalName ''corp.'') = Some (DelegateTo ''corp.'')" by code_simp
qed simp_all


section \<open>The registrar at work\<close>

text \<open>The loop of the registrar: at each tick it asks the provider for its domains; the signal ends it.\<close>

datatype registrar_event = Tick "string list" | Signal

fun Registrar_Run :: "'h \<Rightarrow> registrar_event list \<Rightarrow> string list \<Rightarrow> 'h mux \<Rightarrow> (string list \<times> 'h mux) option" where
  "Registrar_Run h [] domains z = Some (domains, z)"
| "Registrar_Run h (Signal # es) domains z = Some (domains, z)"
| "Registrar_Run h (Tick provided # es) domains z =
     (let (domains, calls) = UpdateDomainRegistrations provided domains
      in Option.bind (mux_apply h calls z) (Registrar_Run h es domains))"

text \<open>The domains the registrar saw last, and all it ever saw.\<close>

fun latest :: "registrar_event list \<Rightarrow> string list \<Rightarrow> string list" where
  "latest [] ds = ds"
| "latest (Signal # es) ds = ds"
| "latest (Tick provided # es) ds = latest es provided"

fun seen :: "registrar_event list \<Rightarrow> string set" where
  "seen [] = {}"
| "seen (Signal # es) = {}"
| "seen (Tick provided # es) = set provided \<union> seen es"

lemma mux_apply_append: "mux_apply h (cs @ cs') z = Option.bind (mux_apply h cs z) (mux_apply h cs')"
  by (induction h cs z rule: mux_apply.induct) (auto split: bind_split)

lemma mux_apply_calls:
  assumes "'''' \<notin> set new" "'''' \<notin> set gone"
  shows "\<exists>z'. mux_apply h (map Handle new @ map HandleRemove gone) z = Some z' \<and>
    (\<forall>n. map_of z' n = (if n \<in> CanonicalName ` set gone then None else if n \<in> CanonicalName ` set new then Some h else map_of z n))"
proof -
  have "\<exists>z'. mux_apply h (map HandleRemove gone) z = Some z' \<and>
    (\<forall>n. map_of z' n = (if n \<in> CanonicalName ` set gone then None else map_of z n))" for z
    using assms(2)
  proof (induction gone arbitrary: z)
    case (Cons d gone)
    then obtain z' where "mux_apply h (map HandleRemove gone) (delete_map (CanonicalName d) z) = Some z'"
      "\<forall>n. map_of z' n = (if n \<in> CanonicalName ` set gone then None else map_of (delete_map (CanonicalName d) z) n)" by fastforce
    then show ?case using Cons.prems by (auto simp: mux_HandleRemove_def delete_conv)
  qed simp
  moreover have "\<exists>z0. mux_apply h (map Handle new) z = Some z0"
    using assms(1) by (induction new arbitrary: z) (auto simp: mux_Handle_def)
  then obtain z0 where "mux_apply h (map Handle new) z = Some z0" by blast
  ultimately show ?thesis using mux_apply_handles [of h new z z0] by (fastforce simp: mux_apply_append)
qed

lemma latest_set: "set ds = set ds' \<Longrightarrow> set (latest es ds) = set (latest es ds')"
  by (induction es ds rule: latest.induct) auto

lemma Registrar_Run_lookup:
  assumes "distinct D" "\<forall>d\<in>set D. map_of z (CanonicalName d) = Some h"
    and "inj_on CanonicalName (set D \<union> seen es)" "'''' \<notin> set D \<union> seen es"
  shows "\<exists>D' z'. Registrar_Run h es D z = Some (D', z') \<and> distinct D' \<and> set D' = set (latest es D) \<and>
    (\<forall>n. map_of z' n = (if n \<in> CanonicalName ` set (latest es D) then Some h
       else if n \<in> CanonicalName ` (set D \<union> seen es) then None else map_of z n))"
  using assms
proof (induction h es D z rule: Registrar_Run.induct)
  case (3 h provided es D z)
  obtain D1 new gone where u: "UpdateDomainRegistrations provided D = (D1, map Handle new @ map HandleRemove gone)"
    "distinct D1" "set D1 = set provided" "set new = set provided - set D" "set gone = set D - set provided"
    using registrations_follow_provider [OF "3.prems"(1), of provided] by blast
  obtain z1 where z1: "mux_apply h (map Handle new @ map HandleRemove gone) z = Some z1"
    "\<And>n. map_of z1 n = (if n \<in> CanonicalName ` set gone then None else if n \<in> CanonicalName ` set new then Some h else map_of z n)"
    using mux_apply_calls [of new gone h z] "3.prems"(4) u(4,5) by auto
  have inj: "CanonicalName d = CanonicalName d' \<longleftrightarrow> d = d'" if "d \<in> set D \<union> set provided \<union> seen es" "d' \<in> set D \<union> set provided \<union> seen es" for d d'
    using "3.prems"(3) that by (auto simp: inj_on_def)
  have gone: "CanonicalName d \<notin> CanonicalName ` set gone" if "d \<in> set provided" for d
    using inj that unfolding u(5) by auto
  have "\<forall>d\<in>set D1. map_of z1 (CanonicalName d) = Some h"
    using gone "3.prems"(2) by (auto simp: z1(2) u(3,4))
  moreover have "inj_on CanonicalName (set D1 \<union> seen es)" "'''' \<notin> set D1 \<union> seen es"
    using "3.prems"(3,4) by (auto simp: u(3) inj_on_def)
  ultimately obtain D' z' where r: "Registrar_Run h es D1 z1 = Some (D', z')" "distinct D'" "set D' = set (latest es D1)"
    "\<And>n. map_of z' n = (if n \<in> CanonicalName ` set (latest es D1) then Some h
       else if n \<in> CanonicalName ` (set D1 \<union> seen es) then None else map_of z1 n)"
    using "3.IH" [OF refl u(1) [symmetric] z1(1) u(2)] by metis
  have l: "set (latest es D1) = set (latest es provided)" using latest_set [OF u(3)] .
  have "map_of z1 n = (if n \<in> CanonicalName ` set D then None else map_of z n)" if "n \<notin> CanonicalName ` (set D1 \<union> seen es)" for n
    using that unfolding z1(2) u(3,4,5) by auto
  then show ?case using r u(1) z1(1) unfolding l u(3) by (auto simp: image_Un)
qed auto


text \<open>
  C21: However often the registrar has run, the names of the domains the record set had at its
  last tick go to the discovery handler, those of domains it had before and has no more are
  not registered, and every other name keeps the handler \<^verbatim>\<open>main\<close> gave it, provided that no two
  domains differ only in case or in the last dot.
\<close>

theorem registrar_keeps_routes:
  assumes "main_mux c delegated provided = Some z" "UpdateDomainRegistrations provided [] = (domains, calls)"
    and "inj_on CanonicalName (set provided \<union> seen es)" "'''' \<notin> set provided \<union> seen es"
  shows "\<exists>domains' z'. Registrar_Run InternalRoute es domains z = Some (domains', z') \<and> set domains' = set (latest es provided) \<and>
    (\<forall>n. map_of z' n = (if n \<in> CanonicalName ` set (latest es provided) then Some InternalRoute
       else if n \<in> CanonicalName ` (set provided \<union> seen es) then None else route_of c delegated provided n))"
proof -
  have d: "distinct domains" "set domains = set provided"
    using assms(2) registrations_follow_provider [of "[]" provided] by auto
  moreover have "\<forall>d\<in>set domains. map_of z (CanonicalName d) = Some InternalRoute"
    using main_mux_lookup [OF assms(1)] d(2) by (simp add: route_of_def)
  ultimately have "\<exists>domains' z'. Registrar_Run InternalRoute es domains z = Some (domains', z') \<and> distinct domains' \<and>
    set domains' = set (latest es domains) \<and> (\<forall>n. map_of z' n = (if n \<in> CanonicalName ` set (latest es domains) then Some InternalRoute
       else if n \<in> CanonicalName ` (set domains \<union> seen es) then None else map_of z n))"
    using assms(3,4) by (intro Registrar_Run_lookup) simp_all
  then show ?thesis unfolding d(2) latest_set [OF d(2)] main_mux_lookup [OF assms(1)] by blast
qed

theorem registrar_keeps_routes_witness:
  "\<exists>z domains calls domains' z'. main_mux example_config [''corp.''] [''bosh.''] = Some z \<and>
     UpdateDomainRegistrations [''bosh.''] [] = (domains, calls) \<and>
     Registrar_Run InternalRoute [Tick [''a.'', ''bosh.''], Tick [''a.''], Signal, Tick []] domains z = Some (domains', z') \<and>
     map_of z' ''a.'' = Some InternalRoute \<and> map_of z' ''bosh.'' = None \<and> map_of z' ''corp.'' = Some (DelegateTo ''corp.'')"
proof -
  let ?es = "[Tick [''a.'', ''bosh.''], Tick [''a.''], Signal, Tick []]"
  obtain z where z: "main_mux example_config [''corp.''] [''bosh.''] = Some z"
    by (auto simp: main_mux_def main_patterns_def UpdateDomainRegistrations_def RegisterAgentTLD_def BoshAgentTLD_def mux_Handle_def
        example_config_def NewDefaultConfig_def)
  obtain domains calls where u: "UpdateDomainRegistrations [''bosh.''] [] = (domains, calls)" by fastforce
  have c: "CanonicalName ''a.'' = ''a.''" "CanonicalName ''bosh.'' = ''bosh.''" "CanonicalName ''corp.'' = ''corp.''"
    "CanonicalName BoshAgentTLD = ''bosh-agent-id.''" by code_simp+
  have i: "inj_on CanonicalName (set [''bosh.''] \<union> seen ?es)" "'''' \<notin> set [''bosh.''] \<union> seen ?es" by (auto simp: inj_on_def c)
  obtain domains' z' where r: "Registrar_Run InternalRoute ?es domains z = Some (domains', z')"
    "\<And>n. map_of z' n = (if n \<in> CanonicalName ` set (latest ?es [''bosh.'']) then Some InternalRoute
       else if n \<in> CanonicalName ` (set [''bosh.''] \<union> seen ?es) then None else route_of example_config [''corp.''] [''bosh.''] n)"
    using registrar_keeps_routes [OF z u i] by blast
  have "map_of z' ''a.'' = Some InternalRoute" "map_of z' ''bosh.'' = None" "map_of z' ''corp.'' = Some (DelegateTo ''corp.'')"
    unfolding r(2) by (simp_all add: c route_of_def example_config_def NewDefaultConfig_def)
  with z u r(1) show ?thesis by blast
qed

text \<open>
  Two domains that differ only in case share a pattern: when one of them goes, the pattern of
  the other goes too, and is not registered again while that domain stays.
\<close>

lemma shared_pattern_removed:
  "\<exists>z. Registrar_Run InternalRoute [Tick [''Bosh.'', ''bosh.''], Tick [''bosh.''], Tick [''bosh.'']] [] [] = Some ([''bosh.''], z) \<and>
     map_of z (CanonicalName ''bosh.'') = None"
proof -
  have "Registrar_Run InternalRoute [Tick [''Bosh.'', ''bosh.''], Tick [''bosh.''], Tick [''bosh.'']] [] [] = Some ([''bosh.''], [])" by code_simp
  then show ?thesis by simp
qed

end
