(* ===== verification/File_Reader.thy ===== *)
theory File_Reader
  imports Dns_Config
begin

text \<open>
  The reader of the records file (\<^verbatim>\<open>src/bosh-dns/dns/server/records/file_reader.go\<close>), which
  polls the file and keeps its contents, and the subscription through which the record set
  (\<^verbatim>\<open>record_set.go\<close>) follows it. The file system is an argument of every poll: what
  \<^verbatim>\<open>Stat\<close> and, later in the same poll, \<^verbatim>\<open>ReadFile\<close> return. The two goroutines and the
  unbuffered channel between them are a step relation.
\<close>

section \<open>The reader\<close>

text \<open>\<open>'st\<close> is what \<^verbatim>\<open>os.FileInfo\<close> holds; only the existence of an error matters.\<close>

record 'st reader =
  fr_cacheStat :: "'st option"
  fr_cache :: "string option"
  fr_cacheErr :: bool
  fr_subscribers :: nat

text \<open>What the file system answers: the state of the file if it exists, its contents if readable.\<close>

record 'st disk =
  dk_stat :: "'st option"
  dk_read :: "string option"

text \<open>Whether there is new data, the data, whether there was an error, and the reader after it.\<close>

definition needNewFromDisk :: "'st disk \<Rightarrow> 'st reader \<Rightarrow> (bool \<times> string option \<times> bool) \<times> 'st reader" where
  "needNewFromDisk d r =
     (case dk_stat d of
        None \<Rightarrow> ((False, None, True), r)
      | Some newStat \<Rightarrow>
          if fr_cacheStat r = Some newStat then ((False, None, False), r)
          else (case dk_read d of
                  None \<Rightarrow> ((True, None, True), r)
                | Some buf \<Rightarrow> ((True, Some buf, False), r\<lparr>fr_cacheStat := Some newStat\<rparr>)))"

definition atomicallyUpdateCache :: "string option \<Rightarrow> bool \<Rightarrow> 'st reader \<Rightarrow> 'st reader" where
  "atomicallyUpdateCache cachedFileContents err r = r\<lparr>fr_cache := cachedFileContents, fr_cacheErr := err\<rparr>"

definition atomicallyFetchCache :: "'st reader \<Rightarrow> string option \<times> bool" where
  "atomicallyFetchCache r = (fr_cache r, fr_cacheErr r)"

text \<open>The contents, unless there are none or there is an error.\<close>

definition Get :: "'st reader \<Rightarrow> string option" where
  "Get r = (let (setPtr, err) = atomicallyFetchCache r in if setPtr = None \<or> err then None else setPtr)"

definition Reader_Subscribe :: "'st reader \<Rightarrow> 'st reader" where
  "Reader_Subscribe r = r\<lparr>fr_subscribers := fr_subscribers r + 1\<rparr>"

definition NewFileReader :: "'st disk \<Rightarrow> 'st reader" where
  "NewFileReader d =
     (let repo = \<lparr>fr_cacheStat = None, fr_cache = None, fr_cacheErr = False, fr_subscribers = 0\<rparr>;
          ((newData, fileContents, err), repo) = needNewFromDisk d repo
      in atomicallyUpdateCache fileContents err repo)"

text \<open>
  One round of the loop and the number of values it sends. When the channel of the first
  argument is closed, the \<^verbatim>\<open>break\<close> only leaves the \<^verbatim>\<open>select\<close>, and the loop goes round
  without sleeping.
\<close>

definition poll :: "bool \<Rightarrow> 'st disk \<Rightarrow> 'st reader \<Rightarrow> 'st reader \<times> nat" where
  "poll shutdown d r =
     (if shutdown then (r, 0)
      else
        let ((newData, data, err), r) = needNewFromDisk d r
        in if newData \<and> \<not> err then (atomicallyUpdateCache data err r, fr_subscribers r) else (r, 0))"

fun polls :: "'st disk list \<Rightarrow> 'st reader \<Rightarrow> 'st reader" where
  "polls [] r = r"
| "polls (d # ds) r = polls ds (fst (poll False d r))"

section \<open>The cache follows the file\<close>

definition holds_file :: "'st disk set \<Rightarrow> 'st reader \<Rightarrow> bool" where
  "holds_file seen r \<longleftrightarrow> (\<forall>st. fr_cacheStat r = Some st \<longrightarrow>
     (\<exists>d\<in>seen. dk_stat d = Some st \<and> dk_read d \<noteq> None \<and> fr_cache r = dk_read d \<and> \<not> fr_cacheErr r))"

lemma holds_file_New: "holds_file {d} (NewFileReader d)"
  by (auto simp: holds_file_def NewFileReader_def needNewFromDisk_def atomicallyUpdateCache_def Let_def split: option.splits)

lemma holds_file_poll: "holds_file seen r \<Longrightarrow> holds_file (insert d seen) (fst (poll b d r))"
  by (auto simp: holds_file_def poll_def needNewFromDisk_def atomicallyUpdateCache_def Let_def split: option.splits if_splits)

lemma holds_file_polls: "holds_file seen r \<Longrightarrow> holds_file (seen \<union> set ds) (polls ds r)"
proof (induction ds arbitrary: seen r)
  case (Cons d ds)
  from Cons.IH [OF holds_file_poll [OF Cons.prems, of d False]] show ?case by simp
qed simp

lemma polls_snoc: "polls (ds @ [d]) r = fst (poll False d (polls ds r))"
  by (induction ds arbitrary: r) auto

lemma poll_reads:
  assumes "holds_file seen r" "dk_stat d = Some st" "dk_read d = Some b"
    and "\<And>d'. d' \<in> seen \<Longrightarrow> dk_stat d' = Some st \<Longrightarrow> dk_read d' \<noteq> None \<Longrightarrow> dk_read d' = Some b"
  shows "Get (fst (poll False d r)) = Some b"
proof (cases "fr_cacheStat r = Some st")
  case True
  with assms(1) obtain d' where "d' \<in> seen" "dk_stat d' = Some st" "dk_read d' \<noteq> None" "fr_cache r = dk_read d'" "\<not> fr_cacheErr r"
    unfolding holds_file_def by blast
  with True assms(2,4) show ?thesis by (simp add: poll_def needNewFromDisk_def Get_def atomicallyFetchCache_def)
next
  case False
  with assms(2,3) show ?thesis
    by (simp add: poll_def needNewFromDisk_def Get_def atomicallyFetchCache_def atomicallyUpdateCache_def)
qed

text \<open>
  The reader returns what is in the file: after any polls of any states of the disk,
  with missing and unreadable files among them, a poll that finds the file readable leaves
  its contents in the cache, provided files read before with the same \<^verbatim>\<open>FileInfo\<close> had the
  same contents.
\<close>

theorem reader_follows_file:
  assumes "dk_stat d = Some st" "dk_read d = Some b"
    and "\<And>d'. d' \<in> set (d0 # ds) \<Longrightarrow> dk_stat d' = Some st \<Longrightarrow> dk_read d' \<noteq> None \<Longrightarrow> dk_read d' = Some b"
  shows "Get (polls (ds @ [d]) (NewFileReader d0)) = Some b"
  unfolding polls_snoc
  using holds_file_polls [OF holds_file_New, of d0 ds] assms by (intro poll_reads [where seen = "{d0} \<union> set ds"]) auto

theorem reader_follows_file_witness:
  "let gone = \<lparr>dk_stat = None, dk_read = None\<rparr>; v = (\<lambda>n s. \<lparr>dk_stat = Some (n :: nat), dk_read = s\<rparr>)
   in Get (polls ([v 1 (Some ''a''), gone, v 2 None] @ [v 2 (Some ''b'')]) (NewFileReader gone)) = Some ''b''"
  unfolding Let_def by (rule reader_follows_file [where st = 2]) auto


section \<open>The record set follows the reader\<close>

text \<open>
  \<open>w_subscribed\<close>: the goroutine of the record set has subscribed; \<open>w_sending\<close>: the poll loop
  is at the send; \<open>w_updating\<close>: the record set has received and not yet updated;
  \<open>w_running\<close>: its goroutine has not returned. \<open>w_listeners\<close> and \<open>w_notified\<close> count the
  subscribers of the record set and the values sent to them.
\<close>

record 'st world =
  w_reader :: "'st reader"
  w_set :: record_set
  w_subscribed :: bool
  w_sending :: bool
  w_updating :: bool
  w_running :: bool
  w_listeners :: nat
  w_notified :: nat

definition RecordSet_Subscribe :: "'st world \<Rightarrow> 'st world" where
  "RecordSet_Subscribe w = w\<lparr>w_listeners := w_listeners w + 1\<rparr>"

definition world_init :: "(string \<Rightarrow> swap option) \<Rightarrow> alias_query_encoder \<Rightarrow> (string list \<Rightarrow> string list) \<Rightarrow>
    alias_config \<Rightarrow> 'st disk \<Rightarrow> 'st world" where
  "world_init unmarshal encoder order aliasList d =
     (let r = NewFileReader d
      in \<lparr>w_reader = r, w_set = fst (NewRecordSet unmarshal encoder order (Get r) aliasList), w_subscribed = False,
          w_sending = False, w_updating = False, w_running = True, w_listeners = 0, w_notified = 0\<rparr>)"

definition receive_update :: "(string \<Rightarrow> swap option) \<Rightarrow> alias_query_encoder \<Rightarrow> (string list \<Rightarrow> string list) \<Rightarrow> 'st world \<Rightarrow> 'st world" where
  "receive_update unmarshal encoder order w =
     w\<lparr>w_set := fst (update unmarshal encoder order (Get (w_reader w)) (w_set w)), w_updating := False,
       w_notified := w_notified w + w_listeners w\<rparr>"

text \<open>The order of the domains is that of a map, another one at every update.\<close>

inductive world_step :: "(string \<Rightarrow> swap option) \<Rightarrow> alias_query_encoder \<Rightarrow> 'st world \<Rightarrow> 'st world \<Rightarrow> bool" for unmarshal encoder where
  Poll: "\<not> w_sending w \<Longrightarrow> poll b d (w_reader w) = (r, n) \<Longrightarrow>
    world_step unmarshal encoder w (w\<lparr>w_reader := r, w_sending := (n > 0)\<rparr>)"
| Subscribe: "\<not> w_subscribed w \<Longrightarrow> w_running w \<Longrightarrow>
    world_step unmarshal encoder w (w\<lparr>w_reader := Reader_Subscribe (w_reader w), w_subscribed := True\<rparr>)"
| Receive: "w_sending w \<Longrightarrow> w_running w \<Longrightarrow> \<not> w_updating w \<Longrightarrow>
    world_step unmarshal encoder w (w\<lparr>w_sending := False, w_updating := True\<rparr>)"
| Update: "w_updating w \<Longrightarrow> \<forall>xs. set (order xs) = set xs \<Longrightarrow>
    world_step unmarshal encoder w (receive_update unmarshal encoder order w)"
| Listen: "world_step unmarshal encoder w (RecordSet_Subscribe w)"
| Return: "w_subscribed w \<Longrightarrow> \<not> w_updating w \<Longrightarrow> world_step unmarshal encoder w (w\<lparr>w_running := False\<rparr>)"

abbreviation world_steps where
  "world_steps unmarshal encoder \<equiv> (world_step unmarshal encoder)\<^sup>*\<^sup>*"

text \<open>The record set holds what the contents describe; contents that describe nothing are ignored.\<close>

definition reflects :: "(string \<Rightarrow> swap option) \<Rightarrow> alias_query_encoder \<Rightarrow> string option \<Rightarrow> record_set \<Rightarrow> bool" where
  "reflects unmarshal encoder contents r \<longleftrightarrow>
     (case Option.bind contents (createFromJSON unmarshal encoder) of
        None \<Rightarrow> True
      | Some (records, updatedAliases, hosts, version) \<Rightarrow>
          rs_records r = records \<and> rs_hosts r = hosts \<and> rs_version r = version \<and>
          rs_mergedAliasList r = Merge (Merge NewConfig (rs_aliasList r)) updatedAliases \<and>
          set (rs_domains r) = r_Domain ` set records)"

lemma reflects_update:
  "\<forall>xs. set (order xs) = set xs \<Longrightarrow> reflects unmarshal encoder contents (fst (update unmarshal encoder order contents r))"
  by (auto simp: reflects_def update_def split: option.splits)

definition in_sync :: "(string \<Rightarrow> swap option) \<Rightarrow> alias_query_encoder \<Rightarrow> 'st world \<Rightarrow> bool" where
  "in_sync unmarshal encoder w \<longleftrightarrow> reflects unmarshal encoder (Get (w_reader w)) (w_set w)"

lemma poll_silent: "poll b d r = (r', 0) \<Longrightarrow> fr_subscribers r > 0 \<Longrightarrow> Get r' = Get r"
  by (auto simp: poll_def needNewFromDisk_def Let_def Get_def atomicallyFetchCache_def atomicallyUpdateCache_def split: option.splits if_splits)

lemma poll_subscribers: "poll b d r = (r', n) \<Longrightarrow> fr_subscribers r' = fr_subscribers r"
  by (auto simp: poll_def needNewFromDisk_def Let_def atomicallyUpdateCache_def split: option.splits if_splits)

lemma Get_Reader_Subscribe [simp]: "Get (Reader_Subscribe r) = Get r"
  by (simp add: Get_def atomicallyFetchCache_def Reader_Subscribe_def)

definition follows :: "(string \<Rightarrow> swap option) \<Rightarrow> alias_query_encoder \<Rightarrow> 'st world \<Rightarrow> bool" where
  "follows unmarshal encoder w \<longleftrightarrow> w_subscribed w \<and> fr_subscribers (w_reader w) > 0 \<and>
     (w_sending w \<or> w_updating w \<or> in_sync unmarshal encoder w)"

lemma follows_step: "world_step unmarshal encoder w w' \<Longrightarrow> follows unmarshal encoder w \<Longrightarrow> follows unmarshal encoder w'"
proof (induction rule: world_step.induct)
  case (Poll w b d r n)
  then show ?case using poll_subscribers [OF Poll(2)] poll_silent [of b d "w_reader w" r]
    by (cases n) (auto simp: follows_def in_sync_def)
next
  case (Update w order)
  then show ?case by (simp add: follows_def in_sync_def receive_update_def reflects_update)
qed (auto simp: follows_def in_sync_def RecordSet_Subscribe_def)

lemma follows_steps: "world_steps unmarshal encoder w w' \<Longrightarrow> follows unmarshal encoder w \<Longrightarrow> follows unmarshal encoder w'"
  by (induction rule: rtranclp_induct) (auto intro: follows_step)

lemma world_init_in_sync: "\<forall>xs. set (order xs) = set xs \<Longrightarrow> in_sync unmarshal encoder (world_init unmarshal encoder order al d)"
  by (simp add: world_init_def in_sync_def NewRecordSet_def reflects_update Let_def)

lemma subscribed_steps:
  "world_steps unmarshal encoder (world_init unmarshal encoder order al d) w \<Longrightarrow> w_subscribed w \<longrightarrow> fr_subscribers (w_reader w) > 0"
proof (induction rule: rtranclp_induct)
  case (step w w')
  from step.hyps(2) step.IH show ?case
    by (cases rule: world_step.cases)
       (auto simp: Reader_Subscribe_def receive_update_def RecordSet_Subscribe_def dest: poll_subscribers)
qed (simp add: world_init_def Let_def)

text \<open>
  C15: From any reachable state in which the record set has subscribed to the reader and holds
  what the reader has cached, in every interleaving of polls, deliveries and updates it
  holds what the reader has cached, except while an update is on its way.
\<close>

theorem record_set_follows_reader:
  assumes "world_steps unmarshal encoder (world_init unmarshal encoder order al d) w"
    and "w_subscribed w" "in_sync unmarshal encoder w"
    and "world_steps unmarshal encoder w w'"
  shows "w_sending w' \<or> w_updating w' \<or> in_sync unmarshal encoder w'"
proof -
  have "follows unmarshal encoder w"
    using subscribed_steps [OF assms(1)] assms(2,3) by (simp add: follows_def)
  from follows_steps [OF assms(4) this] show ?thesis by (simp add: follows_def)
qed

definition version_file :: "nat \<Rightarrow> nat disk" where
  "version_file n = \<lparr>dk_stat = Some n, dk_read = Some (itoa n)\<rparr>"

definition version_of :: "string \<Rightarrow> swap option" where
  "version_of s = Some \<lparr>sw_Keys = [], sw_Infos = [], sw_Aliases = [], sw_Version = of_nat (decimal s), sw_Records = []\<rparr>"

abbreviation version_world :: "nat world" where
  "version_world \<equiv> world_init version_of EncodeAliasesIntoQueries id NewConfig (version_file 1)"

lemma version_reflects:
  "reflects version_of EncodeAliasesIntoQueries (Some s) r \<Longrightarrow> rs_version r = of_nat (decimal s)"
  by (simp add: reflects_def createFromJSON_def version_of_def EncodeAliasesIntoQueries_def encodeDomains_def
      NewConfigFromMap_def NewConfig_def getAliasHosts_def allAliasHosts_def)

theorem record_set_follows_reader_witness:
  "\<exists>w. world_steps version_of EncodeAliasesIntoQueries version_world w \<and> w_subscribed w \<and> w_sending w \<and>
     (\<forall>w'. world_steps version_of EncodeAliasesIntoQueries w w' \<longrightarrow>
        w_sending w' \<or> w_updating w' \<or> in_sync version_of EncodeAliasesIntoQueries w')"
proof -
  let ?u = version_of and ?e = EncodeAliasesIntoQueries
  let ?w1 = "version_world\<lparr>w_reader := Reader_Subscribe (NewFileReader (version_file 1)), w_subscribed := True\<rparr>"
  let ?w2 = "?w1\<lparr>w_reader := fst (poll False (version_file 2) (w_reader ?w1)), w_sending := (snd (poll False (version_file 2) (w_reader ?w1)) > 0)\<rparr>"
  have 1: "world_step ?u ?e version_world ?w1"
    using world_step.Subscribe [of version_world ?u ?e] by (simp add: world_init_def Let_def)
  have 2: "world_step ?u ?e ?w1 ?w2"
    using world_step.Poll [of ?w1 False "version_file 2" _ _ ?u ?e] by (simp add: world_init_def Let_def)
  have r1: "world_steps ?u ?e version_world ?w1" using 1 by blast
  have sync: "in_sync ?u ?e ?w1"
    using world_init_in_sync [of id ?u ?e NewConfig "version_file 1"] by (simp add: in_sync_def world_init_def Let_def)
  have s: "w_sending ?w2"
    by (simp add: poll_def needNewFromDisk_def version_file_def NewFileReader_def Reader_Subscribe_def atomicallyUpdateCache_def)
  have "w_sending w' \<or> w_updating w' \<or> in_sync ?u ?e w'" if "world_steps ?u ?e ?w2 w'" for w'
    using record_set_follows_reader [OF r1 _ sync, of w'] converse_rtranclp_into_rtranclp [OF 2 that] by simp
  moreover have "world_steps ?u ?e version_world ?w2" using r1 2 by (rule rtranclp.rtrancl_into_rtrancl)
  ultimately show ?thesis using s by (intro exI [of _ ?w2]) auto
qed

text \<open>
  The record set subscribes in its goroutine, after it has read the file. When the file
  changes between the two, the change is cached and nobody is told: the record set keeps the
  old records, and no later poll of the unchanged file repairs it.
\<close>

theorem update_before_subscription_lost:
  assumes "dk_stat d1 = Some st" "dk_stat d0 \<noteq> Some st" "dk_read d1 = Some b"
    and "\<not> reflects unmarshal encoder (Some b) (w_set (world_init unmarshal encoder order al d0))"
  shows "\<exists>w. world_steps unmarshal encoder (world_init unmarshal encoder order al d0) w \<and> w_subscribed w \<and>
    \<not> w_sending w \<and> \<not> w_updating w \<and> Get (w_reader w) = Some b \<and> \<not> in_sync unmarshal encoder w \<and>
    poll False d1 (w_reader w) = (w_reader w, 0)"
proof -
  let ?w0 = "world_init unmarshal encoder order al d0"
  define r where "r = fst (poll False d1 (NewFileReader d0))"
  have new: "fr_cacheStat (NewFileReader d0) \<noteq> Some st" "fr_subscribers (NewFileReader d0) = 0"
    using assms(2) by (auto simp: NewFileReader_def needNewFromDisk_def atomicallyUpdateCache_def Let_def split: option.splits)
  then have p: "poll False d1 (NewFileReader d0) = (r, 0)" "Get r = Some b" "fr_cacheStat r = Some st"
    using assms(1,3) by (simp_all add: r_def poll_def needNewFromDisk_def atomicallyUpdateCache_def Get_def atomicallyFetchCache_def)
  define w where "w = ?w0\<lparr>w_reader := Reader_Subscribe r, w_sending := False, w_subscribed := True\<rparr>"
  have 1: "world_step unmarshal encoder ?w0 (?w0\<lparr>w_reader := r, w_sending := False\<rparr>)"
    using world_step.Poll [of ?w0 False d1 r 0 unmarshal encoder] p(1) by (simp add: world_init_def Let_def)
  have 2: "world_step unmarshal encoder (?w0\<lparr>w_reader := r, w_sending := False\<rparr>) w"
    unfolding w_def
    using world_step.Subscribe [of "?w0\<lparr>w_reader := r, w_sending := False\<rparr>" unmarshal encoder] by (simp add: world_init_def Let_def)
  have "world_steps unmarshal encoder ?w0 w" using 1 2 by (meson rtranclp.rtrancl_into_rtrancl r_into_rtranclp)
  moreover have "poll False d1 (Reader_Subscribe r) = (Reader_Subscribe r, 0)"
    using p(3) assms(1) by (simp add: poll_def needNewFromDisk_def Reader_Subscribe_def)
  moreover have "\<not> in_sync unmarshal encoder w" "Get (w_reader w) = Some b" using assms(4) p(2) by (simp_all add: w_def in_sync_def)
  moreover have "w_subscribed w" "\<not> w_sending w" "\<not> w_updating w" "w_reader w = Reader_Subscribe r"
    by (simp_all add: w_def world_init_def Let_def)
  ultimately show ?thesis by auto
qed

theorem update_before_subscription_lost_witness:
  "\<exists>w. world_steps version_of EncodeAliasesIntoQueries version_world w \<and> w_subscribed w \<and> \<not> w_sending w \<and> \<not> w_updating w \<and>
     Get (w_reader w) = Some (itoa 2) \<and> \<not> in_sync version_of EncodeAliasesIntoQueries w \<and>
     poll False (version_file 2) (w_reader w) = (w_reader w, 0)"
proof (rule update_before_subscription_lost [where st = 2])
  have d: "decimal (itoa 1) = 1" "decimal (itoa 2) = 2" by code_simp+
  have "in_sync version_of EncodeAliasesIntoQueries version_world" by (rule world_init_in_sync) simp
  then have "rs_version (w_set version_world) = 1"
    using version_reflects [of "itoa 1" "w_set version_world"] d
    by (simp add: in_sync_def world_init_def Let_def NewFileReader_def needNewFromDisk_def version_file_def Get_def
        atomicallyFetchCache_def atomicallyUpdateCache_def)
  then show "\<not> reflects version_of EncodeAliasesIntoQueries (Some (itoa 2)) (w_set version_world)"
    using version_reflects [of "itoa 2" "w_set version_world"] d by auto
qed (simp_all add: version_file_def)

end
