(* ===== verification/Resolv_Conf.thy ===== *)
theory Resolv_Conf
  imports Dns_Config
begin

text \<open>
  Making the server the primary nameserver of the machine (\<^verbatim>\<open>src/bosh-dns/dns/manager/\<close>):
  \<^verbatim>\<open>/etc/resolv.conf\<close> with the \<^verbatim>\<open>resolvconf\<close> program, the primary network adapter of Windows,
  the domains of \<^verbatim>\<open>systemd-resolved\<close>, and the monitor that repeats it
  (\<^verbatim>\<open>dns/nameserverconfig/\<close>, \<^verbatim>\<open>dns/systemdresolvedupdater/\<close>). The machine, its files,
  programs and clock, is a state of unknown type with operations on it.
\<close>

section \<open>The machine\<close>

text \<open>Writing and running return whether they failed.\<close>

record 'w machine =
  readFile :: "'w \<Rightarrow> string \<Rightarrow> string option"
  fileExists :: "'w \<Rightarrow> string \<Rightarrow> bool"
  writeFile :: "string \<Rightarrow> string \<Rightarrow> 'w \<Rightarrow> bool \<times> 'w"
  runCommand :: "string list \<Rightarrow> 'w \<Rightarrow> bool \<times> 'w"
  sleep :: "'w \<Rightarrow> 'w"
  tempDir :: "string \<Rightarrow> 'w \<Rightarrow> string option \<times> 'w"
  chmod :: "string \<Rightarrow> 'w \<Rightarrow> bool \<times> 'w"
  removeDir :: "string \<Rightarrow> 'w \<Rightarrow> 'w"

datatype manager_error = ReadNameservers | ReadingHead | WritingHead | ExecutingResolvconf | NotConfirmed
  | NoPrimaryAdapter string | AdaptersFailed | CreatingScript | ExecutingScript | UpdatingNameserver manager_error

section \<open>resolv.conf\<close>

definition MaxResolvConfRetries :: nat where "MaxResolvConfRetries = 8"

definition warningLine :: string where "warningLine = ''# This file was automatically updated by bosh-dns''"

definition resolv_path :: string where "resolv_path = ''/etc/resolv.conf''"

definition head_path :: string where "head_path = ''/etc/resolvconf/resolv.conf.d/head''"

abbreviation newline :: char where "newline \<equiv> CHR 0x0A"

text \<open>The class of characters \<^verbatim>\<open>\s\<close>.\<close>

definition is_space :: "char \<Rightarrow> bool" where
  "is_space c \<longleftrightarrow> c \<in> {CHR 0x09, CHR 0x0A, CHR 0x0C, CHR 0x0D, CHR '' ''}"

text \<open>The group of \<^verbatim>\<open>^\s*nameserver\s+(\S+)$\<close>.\<close>

definition nameserver_match :: "string \<Rightarrow> string option" where
  "nameserver_match line =
     (let s = dropWhile is_space line in
      if HasPrefix s ''nameserver'' then
        let rest = TrimPrefix s ''nameserver''; server = dropWhile is_space rest
        in if server \<noteq> rest \<and> server \<noteq> [] \<and> list_all (\<lambda>c. \<not> is_space c) server then Some server else None
      else None)"

definition nameservers :: "string \<Rightarrow> string list" where
  "nameservers contents = List.map_filter nameserver_match (Split newline contents)"

definition resolvConf_Read :: "'w machine \<Rightarrow> 'w \<Rightarrow> manager_error + string list" where
  "resolvConf_Read m w =
     (case readFile m w resolv_path of None \<Rightarrow> Inl ReadNameservers | Some contents \<Rightarrow> Inr (nameservers contents))"

definition isCorrect :: "'w machine \<Rightarrow> string \<Rightarrow> 'w \<Rightarrow> bool" where
  "isCorrect m address w =
     (case resolvConf_Read m w of Inl e \<Rightarrow> False | Inr [] \<Rightarrow> False | Inr (server # servers) \<Rightarrow> server = address)"

definition nameserver_line :: "string \<Rightarrow> string" where
  "nameserver_line address = ''nameserver '' @ address"

text \<open>The first line that matches \<^verbatim>\<open>^nameserver (.+)\<close> decides.\<close>

fun head_correct :: "string \<Rightarrow> string list \<Rightarrow> bool" where
  "head_correct address [] = False"
| "head_correct address (l # ls) =
     (if \<not> (HasPrefix l ''nameserver '' \<and> l \<noteq> ''nameserver '') then head_correct address ls
      else l = nameserver_line address)"

definition isStringCorrect :: "string \<Rightarrow> string \<Rightarrow> bool" where
  "isStringCorrect address contents = head_correct address (Split newline contents)"

definition head_text :: "string \<Rightarrow> string" where
  "head_text address = warningLine @ [newline] @ nameserver_line address @ [newline]"

fun confirm :: "'w machine \<Rightarrow> string \<Rightarrow> nat \<Rightarrow> 'w \<Rightarrow> manager_error option \<times> 'w" where
  "confirm m address 0 w = (Some NotConfirmed, w)"
| "confirm m address (Suc n) w = (if isCorrect m address w then (None, w) else confirm m address n (sleep m w))"

definition head_contents :: "'w machine \<Rightarrow> string \<Rightarrow> 'w \<Rightarrow> manager_error + string" where
  "head_contents m address w =
     (if fileExists m w head_path then
        (case readFile m w head_path of
           None \<Rightarrow> Inl ReadingHead
         | Some fileString \<Rightarrow>
             Inr (if \<not> isStringCorrect address fileString then head_text address @ [newline] @ fileString else head_text address))
      else Inr (head_text address))"

definition resolvConf_SetPrimary :: "'w machine \<Rightarrow> string \<Rightarrow> 'w \<Rightarrow> manager_error option \<times> 'w" where
  "resolvConf_SetPrimary m address w =
     (if isCorrect m address w then (None, w)
      else (case head_contents m address w of
              Inl e \<Rightarrow> (Some e, w)
            | Inr writeString \<Rightarrow>
                (let (failed, w) = writeFile m head_path writeString w in
                 if failed then (Some WritingHead, w)
                 else let (failed, w) = runCommand m [''resolvconf'', ''-u''] w in
                      if failed then (Some ExecutingResolvconf, w)
                      else confirm m address MaxResolvConfRetries w)))"

section \<open>The monitor\<close>

definition RunOnce :: "('w \<Rightarrow> manager_error option \<times> 'w) \<Rightarrow> 'w \<Rightarrow> manager_error option \<times> 'w" where
  "RunOnce setPrimary w = (case setPrimary w of (None, w) \<Rightarrow> (None, w) | (Some e, w) \<Rightarrow> (Some (UpdatingNameserver e), w))"

text \<open>The loop over the values of the ticker until the shutdown; errors are logged. Between two
  ticks the machine may change in any way.\<close>

fun Monitor_Run :: "('w \<Rightarrow> manager_error option \<times> 'w) \<Rightarrow> ('w \<Rightarrow> 'w) list \<Rightarrow> 'w \<Rightarrow> manager_error list \<times> 'w" where
  "Monitor_Run setPrimary [] w = ([], w)"
| "Monitor_Run setPrimary (meanwhile # ticks) w =
     (let (err, w) = RunOnce setPrimary (meanwhile w); (errs, w) = Monitor_Run setPrimary ticks w
      in (case err of None \<Rightarrow> errs | Some e \<Rightarrow> e # errs, w))"

section \<open>systemd-resolved\<close>

definition UpdateDomains :: "'w machine \<Rightarrow> string list \<Rightarrow> 'w \<Rightarrow> bool \<times> 'w" where
  "UpdateDomains m domains w = runCommand m (''resolvectl'' # [''domain'', ''bosh-dns''] @ domains) w"

text \<open>What is after the first dot, where something is.\<close>

definition parent_domain :: "string \<Rightarrow> string option" where
  "parent_domain fqdn =
     (case dropWhile (\<lambda>c. c \<noteq> CHR ''.'') fqdn of [] \<Rightarrow> None | dot # rest \<Rightarrow> if rest \<noteq> [] then Some rest else None)"

definition parentDomains :: "string list \<Rightarrow> string list" where
  "parentDomains fqdns = List.map_filter parent_domain fqdns"

definition resolved_domains :: "handler_config list \<Rightarrow> record_set \<Rightarrow> config \<Rightarrow> string list" where
  "resolved_domains handlers r c = HandlerDomains handlers @ Domains r @ parentDomains (c_UpcheckDomains c)"

section \<open>Windows\<close>

record adapter =
  ad_IfType :: "32 word"
  ad_OperStatus :: "32 word"
  ad_UnicastAddresses :: "string list"
  ad_DNSServerAddresses :: "string list"
  ad_FriendlyName :: string

abbreviation (input) IfOperStatusUp :: "32 word" where "IfOperStatusUp \<equiv> 1"
abbreviation (input) IfTypeSoftwareLoopback :: "32 word" where "IfTypeSoftwareLoopback \<equiv> 24"
abbreviation (input) IfTypeTunnel :: "32 word" where "IfTypeTunnel \<equiv> 131"

definition candidate :: "adapter \<Rightarrow> bool" where
  "candidate a \<longleftrightarrow> \<not> (ad_IfType a = IfTypeSoftwareLoopback \<or> ad_IfType a = IfTypeTunnel) \<and> \<not> ad_OperStatus a \<noteq> IfOperStatusUp"

definition getPrimaryAdapter :: "string \<Rightarrow> adapter list option \<Rightarrow> manager_error + adapter" where
  "getPrimaryAdapter address adapters =
     (case adapters of
        None \<Rightarrow> Inl AdaptersFailed
      | Some as \<Rightarrow>
          (let candidates = filter candidate as in
           if length candidates = 1 then Inr (candidates ! 0)
           else (case find (\<lambda>a. address \<in> set (ad_UnicastAddresses a)) candidates of
                   Some a \<Rightarrow> Inr a
                 | None \<Rightarrow> Inl (NoPrimaryAdapter address))))"

definition windows_Read :: "string \<Rightarrow> adapter list option \<Rightarrow> manager_error + string list" where
  "windows_Read address adapters = res_bind (getPrimaryAdapter address adapters) (\<lambda>a. Inr (ad_DNSServerAddresses a))"

text \<open>The directory is clean, so joining and splitting paths only sets the separator. The contents
  are the text of the script, whose words PowerShell interprets.\<close>

definition script_name :: "string \<Rightarrow> string \<Rightarrow> string" where
  "script_name dir name = dir @ [CHR 0x5C] @ name @ ''.ps1''"

definition writeScript :: "'w machine \<Rightarrow> string \<Rightarrow> string \<Rightarrow> 'w \<Rightarrow> string option \<times> 'w" where
  "writeScript m name contents w =
     (case tempDir m name w of
        (None, w) \<Rightarrow> (None, w)
      | (Some dir, w) \<Rightarrow>
          (let (failed, w) = writeFile m (script_name dir name) contents w in
           if failed then (None, w)
           else let (failed, w) = chmod m (script_name dir name) w in
                if failed then (None, w) else (Some dir, w)))"

text \<open>\<open>adapters\<close> is what the system reports in a state; it is asked twice.\<close>

definition windows_SetPrimary ::
  "('w \<Rightarrow> adapter list option) \<Rightarrow> 'w machine \<Rightarrow> string \<Rightarrow> string \<Rightarrow> 'w \<Rightarrow> manager_error option \<times> 'w" where
  "windows_SetPrimary adapters m prependDNSServer address w =
     (case windows_Read address (adapters w) of
        Inl e \<Rightarrow> (Some e, w)
      | Inr servers \<Rightarrow>
          if length servers > 0 \<and> servers ! 0 = address then (None, w)
          else (case getPrimaryAdapter address (adapters w) of
                  Inl e \<Rightarrow> (Some e, w)
                | Inr primaryAdapter \<Rightarrow>
                    (case writeScript m ''prepend-dns-server'' prependDNSServer w of
                       (None, w) \<Rightarrow> (Some CreatingScript, w)
                     | (Some dir, w) \<Rightarrow>
                         (let (failed, w) = runCommand m [''powershell.exe'', script_name dir ''prepend-dns-server'', address,
                                CHR 0x22 # ad_FriendlyName primaryAdapter @ [CHR 0x22]] w
                          in (if failed then Some ExecutingScript else None, removeDir m dir w)))))"

section \<open>Reading and writing nameservers\<close>

text \<open>An address as the monitor accepts it: not empty and without white space.\<close>

definition plain_word :: "string \<Rightarrow> bool" where
  "plain_word s \<longleftrightarrow> s \<noteq> [] \<and> list_all (\<lambda>c. \<not> is_space c) s"

lemma plain_word_dropWhile: "plain_word s \<Longrightarrow> dropWhile is_space s = s"
  by (cases s) (auto simp: plain_word_def)

lemma plain_word_newline: "plain_word s \<Longrightarrow> newline \<notin> set s"
  by (auto simp: plain_word_def list_all_iff is_space_def)

lemma nameserver_match_line: "plain_word a \<Longrightarrow> nameserver_match (nameserver_line a) = Some a"
proof -
  assume a: "plain_word a"
  have "\<not> is_space CHR ''n''" "is_space CHR '' ''" by (simp_all add: is_space_def)
  then have "dropWhile is_space (nameserver_line a) = nameserver_line a"
    "TrimPrefix (nameserver_line a) ''nameserver'' = CHR '' '' # a" "HasPrefix (nameserver_line a) ''nameserver''"
    "dropWhile is_space (CHR '' '' # a) = a"
    using plain_word_dropWhile [OF a] by (simp_all add: nameserver_line_def TrimPrefix_def HasPrefix_def)
  moreover have "a \<noteq> CHR '' '' # a" "a \<noteq> []" "list_all (\<lambda>c. \<not> is_space c) a" using a by (simp_all add: plain_word_def)
  ultimately show ?thesis unfolding nameserver_match_def Let_def by (simp only: if_True simp_thms not_False_eq_True)
qed

lemma nameserver_match_warning: "nameserver_match warningLine = None"
  by (simp add: nameserver_match_def warningLine_def is_space_def HasPrefix_def)

lemma Split_head_text:
  assumes "plain_word a"
  shows "Split newline (head_text a @ s) = warningLine # nameserver_line a # Split newline s"
proof -
  have "newline \<notin> set warningLine" by (simp add: warningLine_def)
  moreover have "newline \<notin> set (nameserver_line a)" using plain_word_newline [OF assms] by (simp add: nameserver_line_def)
  ultimately show ?thesis unfolding head_text_def
    using Split_append_sep [of newline warningLine "nameserver_line a @ [newline] @ s"]
      Split_append_sep [of newline "nameserver_line a" s] by simp
qed

lemma map_filter_Cons: "List.map_filter f (x # xs) = (case f x of None \<Rightarrow> List.map_filter f xs | Some y \<Rightarrow> y # List.map_filter f xs)"
  by (simp add: List.map_filter_def split: option.splits)

lemma nameservers_head_text: "plain_word a \<Longrightarrow> nameservers (head_text a @ s) = a # nameservers s"
  by (simp add: nameservers_def Split_head_text map_filter_Cons nameserver_match_warning nameserver_match_line)

lemma isStringCorrect_head_text: "plain_word a \<Longrightarrow> isStringCorrect a (head_text a @ s)"
  by (simp add: isStringCorrect_def Split_head_text) (simp add: HasPrefix_def warningLine_def plain_word_def nameserver_line_def)

lemma confirm_result:
  "confirm m a n w = (e, w') \<Longrightarrow> (\<exists>k\<le>n. w' = (sleep m ^^ k) w) \<and> (e = None \<longrightarrow> isCorrect m a w') \<and> (e \<noteq> None \<longrightarrow> e = Some NotConfirmed)"
proof (induction m a n w rule: confirm.induct)
  case (2 m a n w)
  show ?case
  proof (cases "isCorrect m a w")
    case False
    with 2 obtain k where "k \<le> n" "w' = (sleep m ^^ k) (sleep m w)" "e = None \<longrightarrow> isCorrect m a w'" "e \<noteq> None \<longrightarrow> e = Some NotConfirmed"
      by auto
    then show ?thesis by (intro conjI exI [of _ "Suc k"]) (auto simp: funpow_swap1)
  qed (use 2 in auto)
qed auto


section \<open>The server becomes the primary nameserver\<close>

lemma confirm_None_iff: "fst (confirm m a n w) = None \<longleftrightarrow> (\<exists>k<n. isCorrect m a ((sleep m ^^ k) w))"
proof (induction m a n w rule: confirm.induct)
  case (2 m a n w)
  have "(\<exists>k<Suc n. P k) \<longleftrightarrow> P 0 \<or> (\<exists>k<n. P (Suc k))" for P :: "nat \<Rightarrow> bool" by (metis less_Suc_eq_0_disj)
  with 2 show ?case by (auto simp: funpow_swap1)
qed simp

lemma head_contents_cases:
  "head_contents m a w = Inr t \<Longrightarrow>
   t = head_text a \<or> (\<exists>s. readFile m w head_path = Some s \<and> \<not> isStringCorrect a s \<and> t = head_text a @ [newline] @ s)"
  by (auto simp: head_contents_def split: if_splits option.splits)

lemma SetPrimary_None_correct: "resolvConf_SetPrimary m a w = (None, w') \<Longrightarrow> isCorrect m a w'"
  by (auto simp: resolvConf_SetPrimary_def Let_def split: if_splits sum.splits prod.splits dest: confirm_result)

text \<open>
  C26: Setting the primary nameserver on Linux: when it is already set nothing is touched, and
  success always means that it is set. Otherwise the head file written has the address as
  its first nameserver, also as \<^verbatim>\<open>Read\<close> parses it, and after a successful \<^verbatim>\<open>resolvconf -u\<close>
  the call succeeds exactly when one of eight looks at \<^verbatim>\<open>/etc/resolv.conf\<close>, a sleep after
  each, finds the address first.
\<close>

theorem resolvconf_primary:
  assumes "plain_word a"
  shows "(isCorrect m a w \<longrightarrow> resolvConf_SetPrimary m a w = (None, w)) \<and>
    (fst (resolvConf_SetPrimary m a w) = None \<longrightarrow> isCorrect m a (snd (resolvConf_SetPrimary m a w))) \<and>
    (\<forall>t. head_contents m a w = Inr t \<longrightarrow> isStringCorrect a t \<and> (\<exists>rest. nameservers t = a # rest)) \<and>
    (\<forall>t w1 w2. \<not> isCorrect m a w \<and> head_contents m a w = Inr t \<and> writeFile m head_path t w = (False, w1) \<and>
       runCommand m [''resolvconf'', ''-u''] w1 = (False, w2) \<longrightarrow>
       (fst (resolvConf_SetPrimary m a w) = None \<longleftrightarrow> (\<exists>k<8. isCorrect m a ((sleep m ^^ k) w2))))"
proof (intro conjI allI impI)
  show "isCorrect m a (snd (resolvConf_SetPrimary m a w))" if "fst (resolvConf_SetPrimary m a w) = None"
    using that SetPrimary_None_correct [of m a w] by (metis prod.collapse)
  fix t assume t: "head_contents m a w = Inr t"
  then have "\<exists>s. t = head_text a @ s" using head_contents_cases [OF t] by (metis append_Nil2)
  then show "isStringCorrect a t" "\<exists>rest. nameservers t = a # rest"
    using isStringCorrect_head_text [OF assms] nameservers_head_text [OF assms] by auto
qed (auto simp: resolvConf_SetPrimary_def confirm_None_iff MaxResolvConfRetries_def)

text \<open>A machine with two files whose \<^verbatim>\<open>resolvconf -u\<close> puts the head before the nameserver of the network.\<close>

definition example_machine :: "(string \<times> string option) machine" where
  "example_machine =
     \<lparr>readFile = (\<lambda>(rc, hd) p. if p = resolv_path then Some rc else if p = head_path then hd else None),
      fileExists = (\<lambda>(rc, hd) p. p = resolv_path \<or> p = head_path \<and> hd \<noteq> None),
      writeFile = (\<lambda>p s (rc, hd). if p = head_path then (False, (rc, Some s)) else (True, (rc, hd))),
      runCommand = (\<lambda>cmd (rc, hd). if cmd = [''resolvconf'', ''-u''] then (False, (the hd @ ''nameserver 10.0.0.2'', hd)) else (True, (rc, hd))),
      sleep = id, tempDir = (\<lambda>n w. (None, w)), chmod = (\<lambda>p w. (True, w)), removeDir = (\<lambda>p w. w)\<rparr>"

theorem resolvconf_primary_witness:
  "resolvConf_SetPrimary example_machine ''10.0.0.1'' (''nameserver 10.0.0.2'', None) =
     (None, (head_text ''10.0.0.1'' @ ''nameserver 10.0.0.2'', Some (head_text ''10.0.0.1''))) \<and>
   isCorrect example_machine ''10.0.0.1'' (snd (resolvConf_SetPrimary example_machine ''10.0.0.1'' (''nameserver 10.0.0.2'', None)))"
proof -
  have w: "plain_word ''10.0.0.1''" by code_simp
  have "resolvConf_SetPrimary example_machine ''10.0.0.1'' (''nameserver 10.0.0.2'', None) =
     (None, (head_text ''10.0.0.1'' @ ''nameserver 10.0.0.2'', Some (head_text ''10.0.0.1'')))" by code_simp
  then show ?thesis
    using resolvconf_primary [OF w, of example_machine "(''nameserver 10.0.0.2'', None)"] by simp
qed

text \<open>
  The head file loses what it preserved: the first repair keeps the old contents of the
  file below the lines of the server, and the next one, when \<^verbatim>\<open>/etc/resolv.conf\<close> is wrong
  again, writes the lines of the server alone.
\<close>

theorem head_contents_dropped:
  assumes "plain_word a" "fileExists m w head_path" "readFile m w head_path = Some s" "\<not> isStringCorrect a s"
    and "fileExists m w' head_path" "readFile m w' head_path = Some (head_text a @ [newline] @ s)"
  shows "head_contents m a w = Inr (head_text a @ [newline] @ s) \<and> head_contents m a w' = Inr (head_text a)"
  using assms isStringCorrect_head_text [OF assms(1), of "[newline] @ s"] by (simp add: head_contents_def)

theorem head_contents_dropped_witness:
  "let m = example_machine; a = ''10.0.0.1''; s = ''options rotate'';
       w1 = snd (resolvConf_SetPrimary m a (''nameserver 10.0.0.2'', Some s));
       w2 = snd (resolvConf_SetPrimary m a (''nameserver 10.0.0.2'', snd w1))
   in snd w1 = Some (head_text a @ [newline] @ s) \<and> snd w2 = Some (head_text a)"
proof -
  let ?m = example_machine and ?a = "''10.0.0.1''" and ?s = "''options rotate''"
  let ?n = "''nameserver 10.0.0.2''"
  have "plain_word ?a" "\<not> isStringCorrect ?a ?s" by code_simp+
  then have h: "head_contents ?m ?a (?n, Some ?s) = Inr (head_text ?a @ [newline] @ ?s)"
    "head_contents ?m ?a (?n, Some (head_text ?a @ [newline] @ ?s)) = Inr (head_text ?a)"
    using head_contents_dropped [of ?a ?m "(?n, Some ?s)" ?s "(?n, Some (head_text ?a @ [newline] @ ?s))"]
    by (simp_all add: example_machine_def head_path_def resolv_path_def)
  have c: "\<not> isCorrect ?m ?a (?n, h)" for h
    by (simp add: isCorrect_def resolvConf_Read_def example_machine_def resolv_path_def) code_simp
  have ok: "confirm ?m ?a 8 (t @ ?n, h) = (None, (t @ ?n, h))" if "\<exists>s. t = head_text ?a @ s" for t h
  proof -
    from that have "isCorrect ?m ?a (t @ ?n, h)"
      using nameservers_head_text [OF \<open>plain_word ?a\<close>] by (auto simp: isCorrect_def resolvConf_Read_def example_machine_def)
    then show ?thesis by (simp add: eval_nat_numeral)
  qed
  have "snd (resolvConf_SetPrimary ?m ?a (?n, h)) = (t @ ?n, Some t)"
    if "head_contents ?m ?a (?n, h) = Inr t" "\<exists>s. t = head_text ?a @ s" for h t
    using c that ok [OF that(2)] by (simp add: resolvConf_SetPrimary_def example_machine_def MaxResolvConfRetries_def)
  then show ?thesis using h by (simp add: Let_def)
qed


section \<open>Managers\<close>

text \<open>What the monitor relies on: a manager leaves a machine alone whose first nameserver is the
  address, and one that confirms its success only succeeds in such a state.\<close>

locale dns_manager =
  fixes setPrimary :: "'w \<Rightarrow> manager_error option \<times> 'w" and read :: "'w \<Rightarrow> manager_error + string list" and address :: string
  assumes leaves: "read w = Inr (address # servers) \<Longrightarrow> setPrimary w = (None, w)"
begin

lemma idle_ticks: "read w = Inr (address # servers) \<Longrightarrow> Monitor_Run setPrimary (replicate n id) w = ([], w)"
  by (induction n) (simp_all add: RunOnce_def leaves)

end

locale confirming_manager = dns_manager +
  assumes confirms: "setPrimary w = (None, w') \<Longrightarrow> \<exists>servers. read w' = Inr (address # servers)"
begin

lemma tick_confirms: "RunOnce setPrimary w = (None, w') \<Longrightarrow> \<exists>servers. read w' = Inr (address # servers)"
  by (auto simp: RunOnce_def confirms split: prod.splits option.splits)

lemma run_confirms:
  "Monitor_Run setPrimary ticks w = ([], w') \<Longrightarrow> ticks \<noteq> [] \<Longrightarrow> \<exists>servers. read w' = Inr (address # servers)"
proof (induction ticks arbitrary: w)
  case (Cons t ticks)
  obtain w1 where 1: "RunOnce setPrimary (t w) = (None, w1)" "Monitor_Run setPrimary ticks w1 = ([], w')"
    using Cons.prems(1) by (auto simp: Let_def split: prod.splits option.splits)
  with Cons.IH [OF 1(2)] show ?case using tick_confirms [OF 1(1)] by (cases ticks) auto
qed simp

end

interpretation linux: confirming_manager "resolvConf_SetPrimary m a" "resolvConf_Read m" a for m a
proof
  show "resolvConf_SetPrimary m a w = (None, w)" if "resolvConf_Read m w = Inr (a # servers)" for w servers
    using that by (simp add: resolvConf_SetPrimary_def isCorrect_def)
  show "\<exists>servers. resolvConf_Read m w' = Inr (a # servers)" if "resolvConf_SetPrimary m a w = (None, w')" for w w'
    using SetPrimary_None_correct [OF that] by (auto simp: isCorrect_def split: sum.splits list.splits)
qed

interpretation windows: dns_manager "windows_SetPrimary adapters m script a" "\<lambda>w. windows_Read a (adapters w)" a for adapters m script a
  by unfold_locales (simp add: windows_SetPrimary_def)

text \<open>
  The monitor keeps the server primary on Linux: when its ticks report no error the address
  is the first nameserver after the last one, whatever happened to the machine between the
  ticks, and from then on, as long as nothing else changes it, ticks leave the machine alone.
\<close>

theorem monitor_keeps_primary:
  assumes "Monitor_Run (resolvConf_SetPrimary m a) ticks w = ([], w')" "ticks \<noteq> []"
  shows "(\<exists>servers. resolvConf_Read m w' = Inr (a # servers)) \<and>
    Monitor_Run (resolvConf_SetPrimary m a) (replicate n id) w' = ([], w')"
proof -
  obtain servers where r: "resolvConf_Read m w' = Inr (a # servers)" using linux.run_confirms [OF assms] by blast
  show ?thesis using r linux.idle_ticks [OF r] by simp
qed

theorem monitor_keeps_primary_witness:
  "Monitor_Run (resolvConf_SetPrimary example_machine ''10.0.0.1'') [id, \<lambda>(rc, hd). (''nameserver 10.0.0.2'', hd)] (''nameserver 10.0.0.2'', None) =
     ([], (head_text ''10.0.0.1'' @ ''nameserver 10.0.0.2'', Some (head_text ''10.0.0.1''))) \<and>
   (\<exists>servers. resolvConf_Read example_machine (head_text ''10.0.0.1'' @ ''nameserver 10.0.0.2'', Some (head_text ''10.0.0.1'')) = Inr (''10.0.0.1'' # servers))"
proof -
  let ?m = example_machine and ?a = "''10.0.0.1''" and ?n = "''nameserver 10.0.0.2''"
  let ?h = "head_text ''10.0.0.1''"
  have "resolvConf_SetPrimary ?m ?a (?n, None) = (None, (?h @ ?n, Some ?h))"
    "resolvConf_SetPrimary ?m ?a (?n, Some ?h) = (None, (?h @ ?n, Some ?h))" by code_simp+
  then have r: "Monitor_Run (resolvConf_SetPrimary ?m ?a) [id, \<lambda>(rc, hd). (?n, hd)] (?n, None) = ([], (?h @ ?n, Some ?h))"
    by (simp add: RunOnce_def)
  then show ?thesis using monitor_keeps_primary [OF r] by simp
qed

section \<open>Adapters and domains\<close>

lemma getPrimaryAdapter_candidate:
  assumes "getPrimaryAdapter address (Some as) = Inr ad"
  shows "ad \<in> set as" "candidate ad" "filter candidate as = [ad] \<or> address \<in> set (ad_UnicastAddresses ad)"
proof -
  have *: "filter candidate as = [ad] \<or> find (\<lambda>a. address \<in> set (ad_UnicastAddresses a)) (filter candidate as) = Some ad"
    using assms by (cases "filter candidate as") (auto simp: getPrimaryAdapter_def Let_def split: if_splits option.splits)
  then have "ad \<in> set (filter candidate as)" by (metis find_SomeD list.set_intros(1))
  then show "ad \<in> set as" "candidate ad" by auto
  show "filter candidate as = [ad] \<or> address \<in> set (ad_UnicastAddresses ad)" using * by (auto dest: find_SomeD)
qed

text \<open>On Windows a failure to write the script leaves its directory behind; a script that ran does not.\<close>

lemma writeScript_leak:
  "tempDir m n w = (Some dir, w1) \<Longrightarrow> writeFile m (script_name dir n) s w1 = (True, w2) \<Longrightarrow> writeScript m n s w = (None, w2)"
  by (simp add: writeScript_def)

lemma parent_domain_label: "CHR ''.'' \<notin> set label \<Longrightarrow> rest \<noteq> [] \<Longrightarrow> parent_domain (label @ CHR ''.'' # rest) = Some rest"
proof -
  assume "CHR ''.'' \<notin> set label" "rest \<noteq> []"
  moreover from this have "\<forall>c\<in>set label. c \<noteq> CHR ''.''" by auto
  ultimately show ?thesis by (simp add: parent_domain_def dropWhile_append2)
qed

end
