(* ===== verification/Health_Monitor.thy ===== *)
theory Health_Monitor
  imports Dns_Config
begin

text \<open>
  The health of the machine itself (\<^verbatim>\<open>src/bosh-dns/healthconfig/jobs_parser.go\<close>,
  \<^verbatim>\<open>healthcheck/healthexecutable/monitor.go\<close>, \<^verbatim>\<open>healthcheck/healthserver/health_server.go\<close>)
  and the two HTTP handlers of the server (\<^verbatim>\<open>dns/api/\<close>). The monitor reads the health file of
  the agent, runs the health executables of the jobs and keeps a status per link group; the
  health server serves it to the health checkers of other machines. Reading files, running
  programs and JSON are arguments.
\<close>

section \<open>Jobs\<close>

record link_metadata =
  lm_Group :: string
  lm_Name :: string
  lm_Type :: string
  lm_JobName :: string

record job =
  jb_HealthExecutablePath :: string
  jb_Groups :: "link_metadata list"

text \<open>What opening a file gives.\<close>

datatype opened = NotExist | OpenFailed | Opened string

text \<open>The directory, the entries and the path of the executable are clean paths, so joining them is
  leaving the empty ones out.\<close>

definition filepath_Join :: "string list \<Rightarrow> string" where
  "filepath_Join elems = Join (filter (\<lambda>e. e \<noteq> []) elems) ''/''"

text \<open>What \<^verbatim>\<open>os.Stat\<close> gives: whether the file is a directory, or one of two kinds of errors.\<close>

datatype stat = StatNotExist | StatFailed | StatDir bool

record jobs_dir =
  jd_readDir :: "string \<Rightarrow> string list option"
  jd_stat :: "string \<Rightarrow> stat"
  jd_open :: "string \<Rightarrow> opened"

definition isDirectory :: "jobs_dir \<Rightarrow> string \<Rightarrow> bool option" where
  "isDirectory fs path = (case jd_stat fs path of StatDir d \<Rightarrow> Some d | _ \<Rightarrow> None)"

definition job_fileExists :: "jobs_dir \<Rightarrow> string \<Rightarrow> bool option" where
  "job_fileExists fs path = (case jd_stat fs path of StatNotExist \<Rightarrow> Some False | StatFailed \<Rightarrow> None | StatDir d \<Rightarrow> Some True)"

definition parseLinkGroups :: "jobs_dir \<Rightarrow> (string \<Rightarrow> link_metadata list option) \<Rightarrow> string \<Rightarrow> string \<Rightarrow> link_metadata list option" where
  "parseLinkGroups fs decode jobsDir jobName =
     (case jd_open fs (filepath_Join [jobsDir, jobName, ''.bosh'', ''links.json'']) of
        NotExist \<Rightarrow> Some []
      | OpenFailed \<Rightarrow> None
      | Opened bytes \<Rightarrow> map_option (map (\<lambda>l. l\<lparr>lm_JobName := jobName\<rparr>)) (decode bytes))"

text \<open>One round of the loop: nothing for what is no directory.\<close>

definition parse_job ::
  "jobs_dir \<Rightarrow> (string \<Rightarrow> link_metadata list option) \<Rightarrow> string \<Rightarrow> string \<Rightarrow> string \<Rightarrow> job list option" where
  "parse_job fs decode jobsDir executablePath name =
     (case isDirectory fs (filepath_Join [jobsDir, name]) of
        None \<Rightarrow> None
      | Some False \<Rightarrow> Some []
      | Some True \<Rightarrow>
          (case parseLinkGroups fs decode jobsDir name of
             None \<Rightarrow> None
           | Some groups \<Rightarrow>
               (let jobExecutablePath = filepath_Join [jobsDir, name, executablePath] in
                case job_fileExists fs jobExecutablePath of
                  None \<Rightarrow> None
                | Some exists \<Rightarrow> Some [\<lparr>jb_HealthExecutablePath = (if exists then jobExecutablePath else ''''), jb_Groups = groups\<rparr>])))"

fun parse_jobs :: "(string \<Rightarrow> job list option) \<Rightarrow> string list \<Rightarrow> job list option" where
  "parse_jobs parse [] = Some []"
| "parse_jobs parse (d # ds) = Option.bind (parse d) (\<lambda>j. Option.bind (parse_jobs parse ds) (\<lambda>js. Some (j @ js)))"

definition ParseJobs ::
  "jobs_dir \<Rightarrow> (string \<Rightarrow> link_metadata list option) \<Rightarrow> string \<Rightarrow> string \<Rightarrow> job list option" where
  "ParseJobs fs decode jobsDir executablePath =
     Option.bind (jd_readDir fs jobsDir) (parse_jobs (parse_job fs decode jobsDir executablePath))"

section \<open>The monitor\<close>

definition notRunning :: "health_status \<Rightarrow> bool" where
  "notRunning status \<longleftrightarrow> status \<noteq> StatusRunning"

text \<open>The health file of the agent, if readable, and the state decoded from it.\<close>

definition readAgentHealth :: "string option \<Rightarrow> (string \<Rightarrow> health_status option) \<Rightarrow> health_status" where
  "readAgentHealth data unmarshal =
     (case data of
        None \<Rightarrow> StatusFailing
      | Some bytes \<Rightarrow>
          (case unmarshal bytes of
             None \<Rightarrow> StatusFailing
           | Some state \<Rightarrow> if notRunning state then StatusFailing else StatusRunning))"

text \<open>What running an executable gives: nothing after an error, otherwise its exit status.\<close>

definition executableStatus :: "(string \<Rightarrow> int option) \<Rightarrow> string \<Rightarrow> health_status" where
  "executableStatus run executablePath =
     (case run executablePath of
        None \<Rightarrow> StatusFailing
      | Some exitStatus \<Rightarrow> if exitStatus \<noteq> 0 then StatusFailing else StatusRunning)"

definition setStateForGroupIDs :: "(string, health_status) gomap \<Rightarrow> link_metadata list \<Rightarrow> health_status \<Rightarrow> (string, health_status) gomap" where
  "setStateForGroupIDs groupState linkMetadata status = fold (\<lambda>l m. insert_map (lm_Group l) status m) linkMetadata groupState"

text \<open>The variables of the loop over the jobs; \<open>ck_runs\<close> lists the executables that were run.\<close>

record checks =
  ck_groupState :: "(string, health_status) gomap"
  ck_without :: "link_metadata list"
  ck_checked :: "(string, health_status) gomap"
  ck_all :: health_status
  ck_runs :: "string list"

definition check_job :: "(string \<Rightarrow> int option) \<Rightarrow> job \<Rightarrow> checks \<Rightarrow> checks" where
  "check_job run job c =
     (let path = jb_HealthExecutablePath job in
      if path = '''' then c\<lparr>ck_without := ck_without c @ jb_Groups job\<rparr>
      else
        let (status, c) =
              (case map_of (ck_checked c) path of
                 Some s \<Rightarrow> (s, c)
               | None \<Rightarrow>
                   (let s = executableStatus run path
                    in (s, c\<lparr>ck_checked := insert_map path s (ck_checked c), ck_runs := ck_runs c @ [path]\<rparr>)));
            c = c\<lparr>ck_groupState := setStateForGroupIDs (ck_groupState c) (jb_Groups job) status\<rparr>
        in if notRunning status then c\<lparr>ck_all := status\<rparr> else c)"

definition check_jobs :: "(string \<Rightarrow> int option) \<Rightarrow> job list \<Rightarrow> health_status \<Rightarrow> checks" where
  "check_jobs run jobs agentStatus =
     fold (check_job run) jobs
       \<lparr>ck_groupState = [], ck_without = [], ck_checked = [], ck_all = agentStatus, ck_runs = []\<rparr>"

text \<open>The status the monitor keeps after a round, and the executables the round ran.\<close>

definition runChecks ::
  "string option \<Rightarrow> (string \<Rightarrow> health_status option) \<Rightarrow> (string \<Rightarrow> int option) \<Rightarrow> job list \<Rightarrow> health_result \<times> string list" where
  "runChecks data unmarshal run jobs =
     (let agentStatus = readAgentHealth data unmarshal;
          c = check_jobs run jobs agentStatus;
          groupState = setStateForGroupIDs (ck_groupState c) (ck_without c) (ck_all c)
      in (\<lparr>hr_State = ck_all c, hr_GroupState = groupState\<rparr>, ck_runs c))"

text \<open>The monitor starts with a round and makes one at every tick until the shutdown; \<open>envs\<close> are
  the health file and the programs of each round.\<close>

fun Monitor_Status :: "(string \<Rightarrow> health_status option) \<Rightarrow> job list \<Rightarrow> (string option \<times> (string \<Rightarrow> int option)) \<Rightarrow>
    (string option \<times> (string \<Rightarrow> int option)) list \<Rightarrow> health_result" where
  "Monitor_Status unmarshal jobs (data, run) [] = fst (runChecks data unmarshal run jobs)"
| "Monitor_Status unmarshal jobs (data, run) (env # envs) = Monitor_Status unmarshal jobs env envs"

section \<open>Serving the status\<close>

text \<open>Calls on an \<^verbatim>\<open>http.ResponseWriter\<close>, and the reply the calls make: the status and the headers are
  fixed by the first \<^verbatim>\<open>WriteHeader\<close> or \<^verbatim>\<open>Write\<close>.\<close>

datatype writer_call = WriteHeader int | AddHeader string string | WriteBody string

record http_reply =
  rp_code :: int
  rp_header :: "(string \<times> string) list"
  rp_body :: string

fun reply_of :: "writer_call list \<Rightarrow> (string \<times> string) list \<Rightarrow> int option \<Rightarrow> http_reply" where
  "reply_of [] h code = \<lparr>rp_code = (case code of None \<Rightarrow> 200 | Some c \<Rightarrow> c), rp_header = h, rp_body = ''''\<rparr>"
| "reply_of (WriteHeader c # cs) h code = reply_of cs h (case code of None \<Rightarrow> Some c | Some c' \<Rightarrow> Some c')"
| "reply_of (AddHeader k v # cs) h code = reply_of cs (if code = None then h @ [(k, v)] else h) code"
| "reply_of (WriteBody b # cs) h code =
     (let r = reply_of cs h (case code of None \<Rightarrow> Some 200 | Some c' \<Rightarrow> Some c') in r\<lparr>rp_body := b @ rp_body r\<rparr>)"

definition http_reply_of :: "writer_call list \<Rightarrow> http_reply" where
  "http_reply_of cs = reply_of cs [] None"

definition CN :: string where "CN = ''health.bosh-dns''"

text \<open>\<open>writeFails\<close>: the write of the body returns an error.\<close>

definition healthEntryPoint :: "(health_result \<Rightarrow> string option) \<Rightarrow> bool \<Rightarrow> string \<Rightarrow> health_result \<Rightarrow> writer_call list" where
  "healthEntryPoint marshal writeFails cn status =
     (if cn \<noteq> CN then
        [WriteHeader 400, AddHeader ''Content-Type'' ''text/plain'', WriteBody ''TLS certificate common name does not match'']
        @ (if writeFails then [WriteHeader 500] else [])
      else
        AddHeader ''Content-Type'' ''application/json'' #
        (case marshal status of
           None \<Rightarrow> [WriteHeader 500]
         | Some statusData \<Rightarrow> [WriteBody statusData] @ (if writeFails then [WriteHeader 500] else [])))"

section \<open>The HTTP handlers of the server\<close>

record instance_record =
  ir_ID :: string
  ir_Group :: string
  ir_Network :: string
  ir_Deployment :: string
  ir_IP :: string
  ir_Domain :: string
  ir_AZ :: string
  ir_Index :: string
  ir_HealthState :: string

record group_record =
  gr_JobName :: string
  gr_LinkName :: string
  gr_LinkType :: string
  gr_GroupID :: string
  gr_HealthState :: string

definition instance_of :: "(string \<Rightarrow> string) \<Rightarrow> rec \<Rightarrow> instance_record" where
  "instance_of healthStateString r =
     \<lparr>ir_ID = r_ID r, ir_Group = r_Group r, ir_Network = r_Network r, ir_Deployment = r_Deployment r, ir_IP = r_IP r,
      ir_Domain = r_Domain r, ir_AZ = r_AZ r, ir_Index = r_InstanceIndex r, ir_HealthState = healthStateString (r_IP r)\<rparr>"

text \<open>The effects of the filters, and either the error of the lookup or the records encoded.\<close>

definition InstancesHandler_ServeHTTP ::
  "effect_filter \<Rightarrow> (bool \<Rightarrow> effect_filter) \<Rightarrow> (string \<Rightarrow> string) \<Rightarrow> record_set \<Rightarrow> string \<Rightarrow>
   filter_effect list \<times> (record_error + instance_record list)" where
  "InstancesHandler_ServeHTTP queryFilterer healthFilterer healthStateString r address =
     (if address = '''' then ([], Inr (map (instance_of healthStateString) (rs_records r)))
      else
        let expandedAliases = unsafeExpandAliases r (Fqdn address);
            (es, rs) = unsafeResolveRecords queryFilterer healthFilterer r expandedAliases False
        in (es, case rs of Inl e \<Rightarrow> Inl e | Inr recs \<Rightarrow> Inr (map (instance_of healthStateString) recs)))"

text \<open>An absent group reads as the empty status.\<close>

definition group_of :: "health_result \<Rightarrow> link_metadata \<Rightarrow> group_record" where
  "group_of healthState g =
     \<lparr>gr_JobName = lm_JobName g, gr_LinkName = lm_Name g, gr_LinkType = lm_Type g, gr_GroupID = lm_Group g,
      gr_HealthState = (case map_of (hr_GroupState healthState) (lm_Group g) of None \<Rightarrow> '''' | Some s \<Rightarrow> s)\<rparr>"

definition LocalGroupsHandler_ServeHTTP :: "job list \<Rightarrow> (string \<Rightarrow> health_result) \<Rightarrow> group_record list" where
  "LocalGroupsHandler_ServeHTTP jobs getStatus =
     (let healthState = getStatus ''localhost''
      in \<lparr>gr_JobName = '''', gr_LinkName = '''', gr_LinkType = '''', gr_GroupID = '''', gr_HealthState = hr_State healthState\<rparr>
         # concat (map (\<lambda>job. map (group_of healthState) (jb_Groups job)) jobs))"


section \<open>A round of checks\<close>

lemma executableStatus_cases: "executableStatus run p = StatusRunning \<or> executableStatus run p = StatusFailing"
  by (auto simp: executableStatus_def split: option.splits)

lemma readAgentHealth_cases: "readAgentHealth d u = StatusRunning \<or> readAgentHealth d u = StatusFailing"
  by (auto simp: readAgentHealth_def split: option.splits)

lemma Running_not_Failing [simp]: "StatusRunning \<noteq> StatusFailing" "StatusFailing \<noteq> StatusRunning"
  by (simp_all add: StatusRunning_def StatusFailing_def)

lemma setState_lookup:
  "map_of (setStateForGroupIDs m ls s) g = (if g \<in> lm_Group ` set ls then Some s else map_of m g)"
  unfolding setStateForGroupIDs_def
  by (induction ls arbitrary: m) (auto simp: map_of_insert_map_apply)

text \<open>The status of a group among the jobs with an executable: that of the last of them.\<close>

definition exec_jobs :: "job list \<Rightarrow> job list" where
  "exec_jobs jobs = filter (\<lambda>j. jb_HealthExecutablePath j \<noteq> '''') jobs"

definition in_job :: "string \<Rightarrow> job \<Rightarrow> bool" where
  "in_job g j \<longleftrightarrow> g \<in> lm_Group ` set (jb_Groups j)"

definition group_status :: "(string \<Rightarrow> int option) \<Rightarrow> job list \<Rightarrow> string \<Rightarrow> health_status option" where
  "group_status run jobs g =
     (let js = filter (in_job g) (exec_jobs jobs)
      in if js = [] then None else Some (executableStatus run (jb_HealthExecutablePath (last js))))"

text \<open>What the loop has computed after some of the jobs.\<close>

definition checked_ok :: "(string \<Rightarrow> int option) \<Rightarrow> health_status \<Rightarrow> job list \<Rightarrow> checks \<Rightarrow> bool" where
  "checked_ok run agent jobs c \<longleftrightarrow>
     (\<forall>p s. map_of (ck_checked c) p = Some s \<longrightarrow> s = executableStatus run p) \<and>
     set (keys (ck_checked c)) = set (ck_runs c) \<and> distinct (ck_runs c) \<and>
     set (ck_runs c) = jb_HealthExecutablePath ` set (exec_jobs jobs) \<and>
     lm_Group ` set (ck_without c) = {g. \<exists>j\<in>set jobs. jb_HealthExecutablePath j = '''' \<and> in_job g j} \<and>
     ck_all c = (if \<forall>j\<in>set (exec_jobs jobs). executableStatus run (jb_HealthExecutablePath j) = StatusRunning then agent else StatusFailing) \<and>
     (\<forall>g. map_of (ck_groupState c) g = group_status run jobs g)"

lemma exec_jobs_snoc:
  "exec_jobs (jobs @ [j]) = exec_jobs jobs @ (if jb_HealthExecutablePath j = '''' then [] else [j])"
  by (simp add: exec_jobs_def)

lemma group_status_snoc:
  "group_status run (jobs @ [j]) g =
     (if jb_HealthExecutablePath j \<noteq> '''' \<and> in_job g j then Some (executableStatus run (jb_HealthExecutablePath j))
      else group_status run jobs g)"
  by (simp add: group_status_def exec_jobs_snoc)

lemma checked_ok_without:
  assumes "checked_ok run agent jobs c" "jb_HealthExecutablePath j = ''''"
  shows "checked_ok run agent (jobs @ [j]) (check_job run j c)"
proof -
  have "lm_Group ` set (ck_without c @ jb_Groups j) = {g. \<exists>j'\<in>set (jobs @ [j]). jb_HealthExecutablePath j' = '''' \<and> in_job g j'}"
    using assms by (simp add: checked_ok_def image_Un) (auto simp: in_job_def)
  with assms show ?thesis by (simp add: checked_ok_def check_job_def exec_jobs_snoc group_status_snoc)
qed

text \<open>The part of a round that looks the executable up.\<close>

definition checked_step :: "(string \<Rightarrow> int option) \<Rightarrow> string \<Rightarrow> checks \<Rightarrow> checks" where
  "checked_step run path c =
     (if map_of (ck_checked c) path = None
      then c\<lparr>ck_checked := insert_map path (executableStatus run path) (ck_checked c), ck_runs := ck_runs c @ [path]\<rparr> else c)"

lemma check_job_exec:
  assumes "checked_ok run agent jobs c" "jb_HealthExecutablePath j = path" "path \<noteq> ''''"
  shows "check_job run j c =
    (let s = executableStatus run path; c1 = checked_step run path c;
         c2 = c1\<lparr>ck_groupState := setStateForGroupIDs (ck_groupState c1) (jb_Groups j) s\<rparr>
     in if notRunning s then c2\<lparr>ck_all := s\<rparr> else c2)"
proof -
  have "s = executableStatus run path" if "map_of (ck_checked c) path = Some s" for s
    using assms(1) that by (simp add: checked_ok_def)
  then show ?thesis using assms(2,3) by (auto simp: check_job_def checked_step_def Let_def split: option.splits)
qed

lemma checked_ok_exec:
  assumes ok: "checked_ok run agent jobs c" and path: "jb_HealthExecutablePath j = path" "path \<noteq> ''''"
  shows "checked_ok run agent (jobs @ [j]) (check_job run j c)"
proof -
  let ?s = "executableStatus run path"
  define c1 where "c1 = checked_step run path c"
  have k: "set (keys (ck_checked c)) = set (ck_runs c)" using ok by (simp add: checked_ok_def)
  have runs: "set (keys (ck_checked c1)) = set (ck_runs c1)" "distinct (ck_runs c1)" "set (ck_runs c1) = insert path (set (ck_runs c))"
    using ok map_of_None_keys [of "ck_checked c" path]
    by (auto simp: c1_def checked_step_def checked_ok_def simp del: set_map simp flip: k)
  have "\<forall>p s. map_of (ck_checked c1) p = Some s \<longrightarrow> s = executableStatus run p"
    using ok by (auto simp: c1_def checked_step_def checked_ok_def map_of_insert_map_apply)
  moreover have same: "ck_without c1 = ck_without c" "ck_all c1 = ck_all c" "ck_groupState c1 = ck_groupState c"
    by (simp_all add: c1_def checked_step_def)
  moreover have "?s = StatusFailing" if "?s \<noteq> StatusRunning" using executableStatus_cases [of run path] that by blast
  ultimately show ?thesis
    using ok runs path unfolding check_job_exec [OF ok path] c1_def [symmetric] Let_def
    by (auto simp: checked_ok_def exec_jobs_snoc group_status_snoc setState_lookup in_job_def notRunning_def)
qed

lemma check_jobs_ok: "checked_ok run agent jobs (check_jobs run jobs agent)"
proof (induction jobs rule: rev_induct)
  case Nil
  show ?case by (simp add: check_jobs_def checked_ok_def exec_jobs_def group_status_def)
next
  case (snoc j jobs)
  have "check_jobs run (jobs @ [j]) agent = check_job run j (check_jobs run jobs agent)" by (simp add: check_jobs_def)
  then show ?case
    using checked_ok_without [OF snoc] checked_ok_exec [OF snoc refl] by (cases "jb_HealthExecutablePath j = ''''") simp_all
qed


text \<open>
  C27: A round of checks: the machine is running exactly when the agent reports it running and
  every health executable exits with zero, and failing otherwise; every executable is run
  once, however many jobs share it. A group some job without an executable belongs to has
  the status of the machine, another group that of the last job with an executable in it,
  and no other group has one.
\<close>

theorem runChecks_spec:
  "let (result, runs) = runChecks data unmarshal run jobs;
       healthy = (readAgentHealth data unmarshal = StatusRunning \<and>
         (\<forall>j\<in>set (exec_jobs jobs). executableStatus run (jb_HealthExecutablePath j) = StatusRunning))
   in hr_State result = (if healthy then StatusRunning else StatusFailing) \<and>
      distinct runs \<and> set runs = jb_HealthExecutablePath ` set (exec_jobs jobs) \<and>
      (\<forall>g. map_of (hr_GroupState result) g =
         (if \<exists>j\<in>set jobs. jb_HealthExecutablePath j = '''' \<and> in_job g j then Some (hr_State result)
          else group_status run jobs g))"
  using check_jobs_ok [of run "readAgentHealth data unmarshal" jobs] readAgentHealth_cases [of data unmarshal]
  by (auto simp: runChecks_def Let_def checked_ok_def setState_lookup)

theorem runChecks_spec_witness:
  "let link = (\<lambda>g. \<lparr>lm_Group = g, lm_Name = '''', lm_Type = '''', lm_JobName = ''''\<rparr>);
       jobs = [\<lparr>jb_HealthExecutablePath = ''a'', jb_Groups = [link ''1'']\<rparr>, \<lparr>jb_HealthExecutablePath = '''', jb_Groups = [link ''2'']\<rparr>];
       (result, runs) = runChecks (Some '''') (\<lambda>b. Some StatusRunning) (\<lambda>p. Some 7) jobs
   in hr_State result = StatusFailing \<and> set runs = {''a''} \<and>
      map_of (hr_GroupState result) ''2'' = Some StatusFailing \<and> map_of (hr_GroupState result) ''1'' = Some StatusFailing"
proof -
  let ?link = "\<lambda>g. \<lparr>lm_Group = g, lm_Name = '''', lm_Type = '''', lm_JobName = ''''\<rparr>"
  let ?jobs = "[\<lparr>jb_HealthExecutablePath = ''a'', jb_Groups = [?link ''1'']\<rparr>, \<lparr>jb_HealthExecutablePath = '''', jb_Groups = [?link ''2'']\<rparr>]"
  obtain result runs where e: "runChecks (Some '''') (\<lambda>b. Some StatusRunning) (\<lambda>p. Some 7) ?jobs = (result, runs)" by fastforce
  have "exec_jobs ?jobs = [?jobs ! 0]" "executableStatus (\<lambda>p. Some 7) ''a'' = StatusFailing"
    by (simp_all add: exec_jobs_def executableStatus_def)
  then have "hr_State result = StatusFailing" "set runs = {''a''}"
    "map_of (hr_GroupState result) ''2'' = Some StatusFailing" "map_of (hr_GroupState result) ''1'' = Some StatusFailing"
    using runChecks_spec [of "Some ''''" "\<lambda>b. Some StatusRunning" "\<lambda>p. Some 7" ?jobs] unfolding e
    by (simp_all add: in_job_def group_status_def)
  then show ?thesis using e by simp
qed

lemma Monitor_Status_last:
  "Monitor_Status unmarshal jobs env envs = fst (runChecks (fst (last (env # envs))) unmarshal (snd (last (env # envs))) jobs)"
  by (induction unmarshal jobs env envs rule: Monitor_Status.induct) auto

text \<open>
  Two jobs of one group, the first failing and the second running: the group is reported
  running although the machine is not.
\<close>

lemma later_job_masks_failure:
  assumes "jobs = [\<lparr>jb_HealthExecutablePath = ''a'', jb_Groups = [g]\<rparr>, \<lparr>jb_HealthExecutablePath = ''b'', jb_Groups = [g]\<rparr>]"
    and "run ''a'' = Some 1" "run ''b'' = Some 0"
  shows "hr_State (fst (runChecks data unmarshal run jobs)) = StatusFailing"
    "map_of (hr_GroupState (fst (runChecks data unmarshal run jobs))) (lm_Group g) = Some StatusRunning"
  using assms
  by (simp_all add: runChecks_def check_jobs_def check_job_def executableStatus_def notRunning_def setStateForGroupIDs_def Let_def)

section \<open>From the monitor to the health checker\<close>

text \<open>What a client of the health server gets back: the code and the body.\<close>

definition served :: "writer_call list \<Rightarrow> (int \<times> string option) option" where
  "served cs = Some (rp_code (http_reply_of cs), Some (rp_body (http_reply_of cs)))"

text \<open>
  The health checker of another machine gets the status of the monitor: when its client
  reaches the health server, with the certificate of the health service, and JSON decodes
  what it encoded, the status it returns is the one the monitor computed in its last round.
  With any other certificate the status is unknown.
\<close>

theorem checker_gets_monitor_status:
  assumes "get (health_endpoint port ip) = served (healthEntryPoint marshal False cn status)"
    and "status = Monitor_Status unmarshalAgent jobs env envs"
    and "\<exists>bytes. marshal status = Some bytes \<and> unmarshal bytes = Some status"
  shows "GetStatus get unmarshal port ip =
    (if cn = CN then fst (runChecks (fst (last (env # envs))) unmarshalAgent (snd (last (env # envs))) jobs)
     else result_of StateUnknown)"
  using assms by (auto simp: GetStatus_def served_def healthEntryPoint_def http_reply_of_def Monitor_Status_last)

theorem checker_gets_monitor_status_witness:
  "let status = Monitor_Status (\<lambda>b. Some ''running'') [] (Some '''', \<lambda>p. None) []
   in GetStatus (\<lambda>e. served (healthEntryPoint (\<lambda>r. Some (hr_State r)) False CN status)) (\<lambda>b. Some (result_of b)) 8853 ''10.0.0.1'' =
      result_of StatusRunning"
proof -
  let ?s = "Monitor_Status (\<lambda>b. Some ''running'') [] (Some '''', \<lambda>p. None) []"
  have s: "?s = result_of StatusRunning"
    by (simp add: runChecks_def check_jobs_def readAgentHealth_def notRunning_def StatusRunning_def setStateForGroupIDs_def result_of_def)
  have "GetStatus (\<lambda>e. served (healthEntryPoint (\<lambda>r. Some (hr_State r)) False CN ?s)) (\<lambda>b. Some (result_of b)) 8853 ''10.0.0.1'' = ?s"
    by (subst checker_gets_monitor_status [OF refl refl]) (simp_all add: s [simplified] result_of_def)
  then show ?thesis using s by simp
qed

text \<open>The type of the refusal is set after its status, too late to be sent.\<close>

lemma refusal_has_no_type:
  "cn \<noteq> CN \<Longrightarrow> rp_header (http_reply_of (healthEntryPoint marshal f cn status)) = []"
  "cn \<noteq> CN \<Longrightarrow> rp_code (http_reply_of (healthEntryPoint marshal f cn status)) = 400"
  by (simp_all add: healthEntryPoint_def http_reply_of_def)

section \<open>The instances of a name\<close>

text \<open>
  The instances listed for a name agree with its resolution: for a name in lower case, the
  lookup fails exactly when the list does, unless literal addresses among the aliases answer
  it, and otherwise returns the addresses of the listed instances and those literals.
\<close>

theorem instances_agree_with_resolve:
  assumes "address \<noteq> ''''" "is_lower (Fqdn address)"
  shows "snd (Resolve NewQueryFilterer (NewHealthFilterer before after) r (Fqdn address)) =
    (let literals = literal_ips (unsafeExpandAliases r (Fqdn address))
     in case snd (InstancesHandler_ServeHTTP NewQueryFilterer (NewHealthFilterer before after) hs r address) of
          Inl e \<Rightarrow> if e = DomainError \<and> literals \<noteq> [] then Inr literals else Inl e
        | Inr irs \<Rightarrow> Inr (map ir_IP irs @ literals))"
proof -
  let ?es = "unsafeExpandAliases r (Fqdn address)"
  have same: "snd (filterRecords (NewHealthFilterer before after True) cs rs) = snd (filterRecords (NewHealthFilterer before after False) cs rs)" for cs rs
    by (simp add: filterRecords_concat NewHealthFilterer_def healthFilter_Filter_def Let_def)
  have "snd (unsafeResolveRecords NewQueryFilterer (NewHealthFilterer before after) r ?es True) =
      snd (unsafeResolveRecords NewQueryFilterer (NewHealthFilterer before after) r ?es False)"
    by (simp add: unsafeResolveRecords_def same case_prod_beta split: sum.split)
  moreover have "map (ir_IP \<circ> instance_of hs) recs = map r_IP recs" for recs by (simp add: instance_of_def)
  ultimately show ?thesis
    using assms by (auto simp: Resolve_def InstancesHandler_ServeHTTP_def is_lower_def literal_ips_def Let_def case_prod_beta split: sum.splits)
qed

theorem instances_agree_with_resolve_witness:
  "snd (Resolve NewQueryFilterer (NewHealthFilterer all_unchecked all_unchecked) (example_set NewConfig) (Fqdn ''i.g.n.d.bosh'')) = Inr [''ip''] \<and>
   map ir_IP (projr (snd (InstancesHandler_ServeHTTP NewQueryFilterer (NewHealthFilterer all_unchecked all_unchecked) (\<lambda>ip. '''') (example_set NewConfig) ''i.g.n.d.bosh''))) = [''ip'']"
proof -
  have l: "is_lower (Fqdn ''i.g.n.d.bosh'')" by code_simp
  have "snd (InstancesHandler_ServeHTTP NewQueryFilterer (NewHealthFilterer all_unchecked all_unchecked) (\<lambda>ip. '''') (example_set NewConfig) ''i.g.n.d.bosh'') =
      Inr [instance_of (\<lambda>ip. '''') (rs_records (example_set NewConfig) ! 0)]" by code_simp
  moreover have "literal_ips (unsafeExpandAliases (example_set NewConfig) (Fqdn ''i.g.n.d.bosh'')) = []" by code_simp
  moreover have "ir_IP (instance_of (\<lambda>ip. '''') (rs_records (example_set NewConfig) ! 0)) = ''ip''" by code_simp
  ultimately show ?thesis
    using instances_agree_with_resolve [OF _ l, of all_unchecked all_unchecked "example_set NewConfig" "\<lambda>ip. ''''"] by simp
qed


section \<open>The jobs of a directory\<close>

lemma parse_jobs_Some:
  "parse_jobs parse ds = Some js \<longleftrightarrow> (\<exists>jss. map parse ds = map Some jss \<and> js = concat jss)"
proof (induction ds arbitrary: js)
  case (Cons d ds)
  then show ?case by (cases "parse d") (auto simp: bind_eq_Some_conv Cons_eq_map_conv)
qed auto

lemma parse_job_links:
  "parse_job fs decode dir ex name = Some js \<Longrightarrow> j \<in> set js \<Longrightarrow> l \<in> set (jb_Groups j) \<Longrightarrow> lm_JobName l = name"
  by (auto simp: parse_job_def parseLinkGroups_def Let_def split: option.splits bool.splits opened.splits)

end
