(* ===== verification/Dns_Cache.thy ===== *)
theory Dns_Cache
  imports Handlers
begin

text \<open>
  The cache in front of the recursors: the cache plugin of the vendored coredns
  (\<^verbatim>\<open>src/bosh-dns/vendor/github.com/coredns/coredns/plugin/cache\<close> and the packages it uses), with
  the settings of \<^verbatim>\<open>cache.New\<close>, which \<^verbatim>\<open>NewCachingDNSHandler\<close> leaves as they are: no stale answers,
  no prefetching, no exceptions. Times and durations are nanoseconds; \<^verbatim>\<open>Seconds\<close> is cut to a
  whole number wherever the code uses it. A panic is \<open>None\<close>.
\<close>

unbundle bit_operations_syntax

section \<open>Sharded stores\<close>

text \<open>\<^verbatim>\<open>pkg/cache\<close>: 256 maps of bounded size. Which element a full shard gives up is an argument.\<close>

record 'a shard =
  sh_items :: "(64 word, 'a) gomap"
  sh_size :: nat

abbreviation (input) shardSize :: nat where "shardSize \<equiv> 256"

definition newShard :: "nat \<Rightarrow> 'a shard" where
  "newShard n = \<lparr>sh_items = [], sh_size = n\<rparr>"

definition store_New :: "nat \<Rightarrow> 'a shard list" where
  "store_New n = replicate shardSize (newShard (max (n div shardSize) 4))"

definition evict_any :: "nat \<Rightarrow> ('k, 'v) gomap \<Rightarrow> ('k, 'v) gomap" where
  "evict_any choice items = (if items = [] then [] else delete_map (keys items ! (choice mod length items)) items)"

definition shard_Add :: "nat \<Rightarrow> 64 word \<Rightarrow> 'a \<Rightarrow> 'a shard \<Rightarrow> 'a shard" where
  "shard_Add choice key el s =
     (let items = (if length (sh_items s) \<ge> sh_size s \<and> map_of (sh_items s) key = None
                   then evict_any choice (sh_items s) else sh_items s)
      in s\<lparr>sh_items := insert_map key el items\<rparr>)"

definition shard_Get :: "64 word \<Rightarrow> 'a shard \<Rightarrow> 'a option" where
  "shard_Get key s = map_of (sh_items s) key"

definition shard_of :: "64 word \<Rightarrow> nat" where
  "shard_of key = unat (key AND 255)"

definition store_Add :: "nat \<Rightarrow> 64 word \<Rightarrow> 'a \<Rightarrow> 'a shard list \<Rightarrow> 'a shard list" where
  "store_Add choice key el c = c[shard_of key := shard_Add choice key el (c ! shard_of key)]"

definition store_Get :: "64 word \<Rightarrow> 'a shard list \<Rightarrow> 'a option" where
  "store_Get key c = shard_Get key (c ! shard_of key)"

definition store_Len :: "'a shard list \<Rightarrow> nat" where
  "store_Len c = sum_list (map (\<lambda>s. length (sh_items s)) c)"

section \<open>Names and requests\<close>

text \<open>\<^verbatim>\<open>sprintName\<close> of the DNS library; \<open>front\<close> is what was passed, \<open>dst\<close> what was written.\<close>

definition isDomainNameLabelSpecial :: "char \<Rightarrow> bool" where
  "isDomainNameLabelSpecial b \<longleftrightarrow> b \<in> {CHR ''.'', CHR '' '', CHR 39, CHR ''@'', CHR '';'', CHR ''('', CHR '')'', CHR 34, CHR 92}"

definition dddToByte :: "string \<Rightarrow> char" where
  "dddToByte s = (let d = (\<lambda>i. (of_char (s ! i) :: nat) - 48) in char_of ((d 0 * 100 + d 1 * 10 + d 2) mod 256))"

definition nextByte :: "string \<Rightarrow> char \<times> nat" where
  "nextByte s =
     (if s = [] then (char_of (0 :: nat), 0)
      else if hd s \<noteq> CHR 92 then (hd s, 1)
      else if length s = 1 then (char_of (0 :: nat), 0)
      else if length s \<ge> 4 \<and> isDDD (tl s) then (dddToByte (tl s), 4)
      else (s ! 1, 2))"

definition escapeByte :: "char \<Rightarrow> string" where
  "escapeByte b = (let n = of_char b :: nat in [CHR 92, digit_char (n div 100), digit_char (n div 10 mod 10), digit_char (n mod 10)])"

definition unprintable :: "char \<Rightarrow> bool" where
  "unprintable b \<longleftrightarrow> (of_char b :: nat) < 32 \<or> (of_char b :: nat) > 126"

function sprint_loop :: "string \<Rightarrow> string \<Rightarrow> string \<Rightarrow> string" where
  "sprint_loop front dst [] = (if dst = [] then front else dst)"
| "sprint_loop front dst (c # s) =
     (if c = CHR ''.'' then sprint_loop (front @ [c]) (if dst \<noteq> [] then dst @ [c] else dst) s
      else
        let (b, n) = nextByte (c # s);
            dst' = (if dst = [] then front else dst);
            front' = front @ take n (c # s)
        in if n = 0 then (if dst = [] then front else dst)
           else if isDomainNameLabelSpecial b then sprint_loop front' (dst' @ [CHR 92, b]) (drop n (c # s))
           else if unprintable b then sprint_loop front' (dst' @ escapeByte b) (drop n (c # s))
           else sprint_loop front' (if dst \<noteq> [] then dst @ [b] else dst) (drop n (c # s)))"
  by pat_completeness auto
termination by (relation "measure (\<lambda>(front, dst, s). length s)") auto

definition sprintName :: "string \<Rightarrow> string" where
  "sprintName s = sprint_loop [] [] s"

definition QName :: "msg \<Rightarrow> string" where
  "QName r = (case m_Question r of [] \<Rightarrow> ''.'' | q # qs \<Rightarrow> sprintName (qn_Name q))"

definition request_Name :: "msg \<Rightarrow> string" where
  "request_Name r = (case m_Question r of [] \<Rightarrow> ''.'' | q # qs \<Rightarrow> ToLower (sprintName (qn_Name q)))"

definition QType :: "msg \<Rightarrow> 16 word" where
  "QType r = (case m_Question r of [] \<Rightarrow> 0 | q # qs \<Rightarrow> qn_Qtype q)"

text \<open>The DO bit of the OPT record.\<close>

definition opt_Do :: "rr \<Rightarrow> bool" where
  "opt_Do opt \<longleftrightarrow> bit (hdr_Ttl (rr_hdr opt)) 15"

definition request_Do :: "msg \<Rightarrow> bool" where
  "request_Do r = (case IsEdns0 r of None \<Rightarrow> False | Some opt \<Rightarrow> opt_Do opt)"

text \<open>Names on the wire are ASCII, so folding is lowering.\<close>

definition Match :: "msg \<Rightarrow> msg \<Rightarrow> bool" where
  "Match r reply \<longleftrightarrow> length (m_Question reply) = 1 \<and> m_Response reply \<and>
     ToLower (qn_Name (hd (m_Question reply))) = request_Name r \<and> qn_Qtype (hd (m_Question reply)) = QType r"

definition Zones_Matches :: "string list \<Rightarrow> string \<Rightarrow> string" where
  "Zones_Matches z qname =
     fold (\<lambda>zname zone. if IsSubDomain zname qname \<and> length zname > length zone then zname else zone) z ''''"


section \<open>What kind of answer\<close>

datatype response_type = NoError | NameError | ServerError | NoData | Delegation | Meta | Update | OtherError

text \<open>
  The signature times of an RRSIG record: octets 8 to 15 of its data, 0 where the data end
  before. Go's division rounds towards zero.
\<close>

definition rdata_octets :: "rr \<Rightarrow> string" where
  "rdata_octets r = (case r of OtherRR h (Octets s # ps) \<Rightarrow> s | _ \<Rightarrow> [])"

definition octets_uint32 :: "string \<Rightarrow> int" where
  "octets_uint32 s = (if length s = 4 then int (fold (\<lambda>c n. 256 * n + of_char c) s 0) else 0)"

definition go_quot :: "int \<Rightarrow> int \<Rightarrow> int" where
  "go_quot a b = (if a \<ge> 0 then a div b else - ((- a) div b))"

abbreviation (input) second :: int where "second \<equiv> 1000000000"
abbreviation (input) year68 :: int where "year68 \<equiv> 2147483648"

definition ValidityPeriod :: "rr \<Rightarrow> int \<Rightarrow> bool" where
  "ValidityPeriod r t =
     (let utc = t div second;
          expiration = octets_uint32 (take 4 (drop 8 (rdata_octets r)));
          inception = octets_uint32 (take 4 (drop 12 (rdata_octets r)));
          ti = inception + go_quot (inception - utc) year68 * year68;
          te = expiration + go_quot (expiration - utc) year68 * year68
      in ti \<le> utc \<and> utc \<le> te)"

definition typifyExpired :: "msg \<Rightarrow> int \<Rightarrow> bool" where
  "typifyExpired m t \<longleftrightarrow> list_ex (\<lambda>r. rr_type r = 46 \<and> \<not> ValidityPeriod r t) (m_Answer m @ m_Ns m @ m_Extra m)"

definition hasSOA :: "msg \<Rightarrow> bool" where
  "hasSOA m \<longleftrightarrow> list_ex (\<lambda>r. rr_type r = 6) (m_Ns m)"

definition Typify :: "msg \<Rightarrow> int \<Rightarrow> response_type" where
  "Typify m t =
     (let dobit = request_Do m in
      if m_Opcode m = 5 then Update
      else if m_Opcode m = 4 then Meta
      else if length (m_Question m) > 0 \<and> (qn_Qtype (hd (m_Question m)) = 252 \<or> qn_Qtype (hd (m_Question m)) = 251) then Meta
      else if dobit \<and> typifyExpired m t then OtherError
      else if length (m_Answer m) > 0 \<and> m_Rcode m = RcodeSuccess then NoError
      else if length (m_Answer m) > 0 \<and> m_Rcode m = RcodeNameError then OtherError
      else
        let soa = hasSOA m; ns = list_ex (\<lambda>r. rr_type r = 2) (m_Ns m) in
        if soa \<and> m_Rcode m = RcodeSuccess then NoData
        else if m_Rcode m = RcodeNameError then NameError
        else if m_Rcode m = RcodeServerFailure \<or> m_Rcode m = 4 then ServerError
        else if ns \<and> m_Rcode m = RcodeSuccess then Delegation
        else if m_Rcode m = RcodeSuccess then NoError
        else OtherError)"

section \<open>How long an answer lives\<close>

abbreviation (input) MinimalDefaultTTL :: int where "MinimalDefaultTTL \<equiv> 5000000000"
abbreviation (input) MaximumDefaultTTL :: int where "MaximumDefaultTTL \<equiv> 3600000000000"

definition lower_ttl :: "rr \<Rightarrow> int \<Rightarrow> int" where
  "lower_ttl r minTTL = (if uint (hdr_Ttl (rr_hdr r)) < minTTL div second then uint (hdr_Ttl (rr_hdr r)) * second else minTTL)"

definition MinimalTTLWithMaximum :: "msg \<Rightarrow> response_type \<Rightarrow> int \<Rightarrow> int" where
  "MinimalTTLWithMaximum m mt maximumTTL =
     (if mt \<noteq> NoError \<and> mt \<noteq> NameError \<and> mt \<noteq> NoData then MinimalDefaultTTL
      else if length (m_Answer m) + length (m_Ns m) = 0 \<and>
        (length (m_Extra m) = 0 \<or> length (m_Extra m) = 1 \<and> rr_type (hd (m_Extra m)) = TypeOPT) then MinimalDefaultTTL
      else fold lower_ttl (m_Answer m @ m_Ns m @ filter (\<lambda>r. rr_type r \<noteq> TypeOPT) (m_Extra m)) maximumTTL)"

definition computeTTL :: "int \<Rightarrow> int \<Rightarrow> int \<Rightarrow> int" where
  "computeTTL msgTTL minTTL maxTTL = min (max msgTTL minTTL) maxTTL"

fun set_rr_hdr :: "rr_header \<Rightarrow> rr \<Rightarrow> rr" where
  "set_rr_hdr h (RR_A _ ip) = RR_A h ip"
| "set_rr_hdr h (RR_AAAA _ ip) = RR_AAAA h ip"
| "set_rr_hdr h (RR_PTR _ s) = RR_PTR h s"
| "set_rr_hdr h (RR_OPT _ os) = RR_OPT h os"
| "set_rr_hdr h (OtherRR _ ps) = OtherRR h ps"

definition set_ttl :: "32 word \<Rightarrow> rr \<Rightarrow> rr" where
  "set_ttl ttl r = set_rr_hdr ((rr_hdr r)\<lparr>hdr_Ttl := ttl\<rparr>) r"

definition filterRRSlice :: "rr list \<Rightarrow> 32 word \<Rightarrow> rr list" where
  "filterRRSlice rrs ttl = map (set_ttl ttl) (filter (\<lambda>r. rr_type r \<noteq> TypeOPT) rrs)"

section \<open>Items and keys\<close>

record item =
  it_Name :: string
  it_QType :: "16 word"
  it_Rcode :: int
  it_AuthenticatedData :: bool
  it_RecursionAvailable :: bool
  it_Answer :: "rr list"
  it_Ns :: "rr list"
  it_Extra :: "rr list"
  it_origTTL :: "32 word"
  it_stored :: int

definition newItem :: "msg \<Rightarrow> int \<Rightarrow> int \<Rightarrow> item" where
  "newItem m now d =
     \<lparr>it_Name = (case m_Question m of [] \<Rightarrow> '''' | q # qs \<Rightarrow> qn_Name q),
      it_QType = (case m_Question m of [] \<Rightarrow> 0 | q # qs \<Rightarrow> qn_Qtype q),
      it_Rcode = m_Rcode m, it_AuthenticatedData = m_AuthenticatedData m, it_RecursionAvailable = m_RecursionAvailable m,
      it_Answer = m_Answer m, it_Ns = m_Ns m, it_Extra = filter (\<lambda>e. rr_type e \<noteq> TypeOPT) (m_Extra m),
      it_origTTL = word_of_int (d div second), it_stored = now\<rparr>"

definition item_ttl :: "item \<Rightarrow> int \<Rightarrow> int" where
  "item_ttl i now = uint (it_origTTL i) - go_quot (now - it_stored i) second"

definition item_matches :: "item \<Rightarrow> msg \<Rightarrow> bool" where
  "item_matches i r \<longleftrightarrow> QType r = it_QType i \<and> ToLower (QName r) = ToLower (it_Name i)"

definition toMsg :: "item \<Rightarrow> msg \<Rightarrow> int \<Rightarrow> bool \<Rightarrow> bool \<Rightarrow> msg" where
  "toMsg i m now dobit ad =
     (let m1 = SetReply m new_msg;
          m1 = m1\<lparr>m_Authoritative := True, m_AuthenticatedData := it_AuthenticatedData i\<rparr>;
          m1 = (if \<not> dobit \<and> \<not> ad then m1\<lparr>m_AuthenticatedData := False\<rparr> else m1);
          ttl = word_of_int (item_ttl i now)
      in m1\<lparr>m_RecursionAvailable := it_RecursionAvailable i, m_Rcode := it_Rcode i,
            m_Answer := filterRRSlice (it_Answer i) ttl, m_Ns := filterRRSlice (it_Ns i) ttl,
            m_Extra := filterRRSlice (it_Extra i) ttl\<rparr>)"

text \<open>FNV-1 with 64 bits (Go's \<^verbatim>\<open>hash/fnv\<close>).\<close>

abbreviation (input) offset64 :: "64 word" where "offset64 \<equiv> 14695981039346656037"
abbreviation (input) prime64 :: "64 word" where "prime64 \<equiv> 1099511628211"

definition fnv_step :: "char \<Rightarrow> 64 word \<Rightarrow> 64 word" where
  "fnv_step c h = (h * prime64) XOR of_nat (of_char c)"

definition fnv_write :: "string \<Rightarrow> 64 word \<Rightarrow> 64 word" where
  "fnv_write s h = fold fnv_step s h"

definition key_hash :: "string \<Rightarrow> 16 word \<Rightarrow> bool \<Rightarrow> bool \<Rightarrow> 64 word" where
  "key_hash qname qtype dobit cd =
     (let h = fnv_write (if dobit then ''1'' else ''0'') offset64;
          h = fnv_write (if cd then ''1'' else ''0'') h;
          h = fnv_write [char_of (unat qtype div 256), char_of (unat qtype mod 256)] h
      in fnv_write qname h)"

text \<open>The outer option is the panic on an answer without a question.\<close>

definition cache_key :: "string \<Rightarrow> msg \<Rightarrow> response_type \<Rightarrow> bool \<Rightarrow> bool \<Rightarrow> 64 word option option" where
  "cache_key qname m t dobit cd =
     (if m_Truncated m then Some None
      else if t = OtherError \<or> t = Meta \<or> t = Update then Some None
      else if t = NameError \<and> \<not> hasSOA m then Some None
      else case m_Question m of [] \<Rightarrow> None | q # qs \<Rightarrow> Some (Some (key_hash qname (qn_Qtype q) dobit cd)))"

section \<open>The cache\<close>

record dns_cache =
  dc_pcache :: "item shard list"
  dc_ncache :: "item shard list"

abbreviation (input) defaultCap :: nat where "defaultCap \<equiv> 10000"

definition NewCache :: dns_cache where
  "NewCache = \<lparr>dc_pcache = store_New defaultCap, dc_ncache = store_New defaultCap\<rparr>"

definition cache_set :: "nat \<Rightarrow> int \<Rightarrow> msg \<Rightarrow> 64 word \<Rightarrow> response_type \<Rightarrow> int \<Rightarrow> dns_cache \<Rightarrow> dns_cache" where
  "cache_set choice now m key mt duration c =
     (case mt of
        NoError \<Rightarrow> c\<lparr>dc_pcache := store_Add choice key (newItem m now duration) (dc_pcache c)\<rparr>
      | Delegation \<Rightarrow> c\<lparr>dc_pcache := store_Add choice key (newItem m now duration) (dc_pcache c)\<rparr>
      | NameError \<Rightarrow> c\<lparr>dc_ncache := store_Add choice key (newItem m now duration) (dc_ncache c)\<rparr>
      | NoData \<Rightarrow> c\<lparr>dc_ncache := store_Add choice key (newItem m now duration) (dc_ncache c)\<rparr>
      | ServerError \<Rightarrow> c\<lparr>dc_ncache := store_Add choice key (newItem m now duration) (dc_ncache c)\<rparr>
      | _ \<Rightarrow> c)"

definition answer_duration :: "msg \<Rightarrow> response_type \<Rightarrow> int" where
  "answer_duration res mt =
     (if mt = NameError \<or> mt = NoData
      then computeTTL (MinimalTTLWithMaximum res mt (MaximumDefaultTTL div 2)) MinimalDefaultTTL (MaximumDefaultTTL div 2)
      else if mt = ServerError then MinimalDefaultTTL
      else computeTTL (MinimalTTLWithMaximum res mt MaximumDefaultTTL) MinimalDefaultTTL MaximumDefaultTTL)"

definition capped_answer :: "msg \<Rightarrow> msg \<Rightarrow> int \<Rightarrow> msg" where
  "capped_answer r res duration =
     (let ttl = word_of_int (duration div second);
          res = res\<lparr>m_Answer := filterRRSlice (m_Answer res) ttl, m_Ns := filterRRSlice (m_Ns res) ttl,
                    m_Extra := filterRRSlice (m_Extra res) ttl\<rparr>
      in if \<not> request_Do r \<and> \<not> m_AuthenticatedData r then res\<lparr>m_AuthenticatedData := False\<rparr> else res)"

text \<open>
  \<open>typed\<close> is when the answer is classified, \<open>stored\<close> when it is stored. The writer passes
  the answer on, with the capped time to live.
\<close>

definition cache_WriteMsg :: "nat \<Rightarrow> int \<Rightarrow> int \<Rightarrow> msg \<Rightarrow> msg \<Rightarrow> dns_cache \<Rightarrow> (dns_cache \<times> msg) option" where
  "cache_WriteMsg choice typed stored r res c =
     (let mt = Typify res typed in
      case cache_key (request_Name r) res mt (request_Do r) (m_CheckingDisabled r) of
        None \<Rightarrow> None
      | Some k \<Rightarrow>
          (let duration = answer_duration res mt;
               res = capped_answer r res duration;
               c = (case k of None \<Rightarrow> c
                    | Some key \<Rightarrow> if duration > 0 \<and> Match r res then cache_set choice stored res key mt duration c else c)
           in Some (c, res)))"

definition live :: "item \<Rightarrow> msg \<Rightarrow> int \<Rightarrow> bool" where
  "live i r now \<longleftrightarrow> item_matches i r \<and> item_ttl i now > 0"

definition getIfNotStale :: "int \<Rightarrow> msg \<Rightarrow> dns_cache \<Rightarrow> item option" where
  "getIfNotStale now r c =
     (let k = key_hash (request_Name r) (QType r) (request_Do r) (m_CheckingDisabled r);
          positive = (case store_Get k (dc_pcache c) of Some p \<Rightarrow> if live p r now then Some p else None | None \<Rightarrow> None)
      in case store_Get k (dc_ncache c) of
           Some i \<Rightarrow>
             if live i r now then
               (if it_Rcode i = RcodeServerFailure then
                  (case positive of Some p \<Rightarrow> Some p | None \<Rightarrow> Some i)
                else Some i)
             else positive
         | None \<Rightarrow> positive)"

text \<open>The clock and the evictions a request meets: when it looks up, and for each message of the handler behind.\<close>

record cache_clock =
  cl_now :: int
  cl_typed :: int
  cl_stored :: int
  cl_choice :: nat

fun cache_writes :: "cache_clock \<Rightarrow> msg \<Rightarrow> msg list \<Rightarrow> dns_cache \<Rightarrow> (dns_cache \<times> msg list) option" where
  "cache_writes k r [] c = Some (c, [])"
| "cache_writes k r (m # ms) c = do {
     (c, m') \<leftarrow> cache_WriteMsg (cl_choice k) (cl_typed k) (cl_stored k) r m c;
     (c, ms') \<leftarrow> cache_writes k r ms c;
     Some (c, m' # ms')
   }"

definition Cache_ServeDNS :: "cache_clock \<Rightarrow> handler \<Rightarrow> dns_cache \<Rightarrow> network \<Rightarrow> msg \<Rightarrow> (dns_cache \<times> msg list) option" where
  "Cache_ServeDNS k next c network r =
     (if Zones_Matches [''.''] (request_Name r) = '''' then Some (c, next network r)
      else case getIfNotStale (cl_now k) r c of
             None \<Rightarrow> cache_writes k r (next network r) c
           | Some i \<Rightarrow> Some (c, [toMsg i r (cl_now k) (request_Do r) (m_AuthenticatedData r)]))"


section \<open>The store and its contract\<close>

text \<open>What the cache needs of a store: an element is there once added, and nothing else appears.\<close>

locale evicting_store =
  fixes ok :: "'s \<Rightarrow> bool" and empty :: 's and add :: "nat \<Rightarrow> 'k \<Rightarrow> 'a \<Rightarrow> 's \<Rightarrow> 's" and get :: "'k \<Rightarrow> 's \<Rightarrow> 'a option"
  assumes ok_empty: "ok empty"
    and ok_add: "ok s \<Longrightarrow> ok (add choice k x s)"
    and get_empty: "get k empty = None"
    and get_added: "ok s \<Longrightarrow> get k (add choice k x s) = Some x"
    and get_other: "ok s \<Longrightarrow> k' \<noteq> k \<Longrightarrow> get k' (add choice k x s) = get k' s \<or> get k' (add choice k x s) = None"
begin

definition holds :: "('k \<Rightarrow> 'a \<Rightarrow> bool) \<Rightarrow> 's \<Rightarrow> bool" where
  "holds P s \<longleftrightarrow> ok s \<and> (\<forall>k x. get k s = Some x \<longrightarrow> P k x)"

lemma holds_empty: "holds P empty"
  by (simp add: holds_def ok_empty get_empty)

lemma holds_add: "holds P s \<Longrightarrow> P k x \<Longrightarrow> holds P (add choice k x s)"
  unfolding holds_def by (metis get_added get_other ok_add option.distinct(1) option.sel)

lemma holds_get: "holds P s \<Longrightarrow> get k s = Some x \<Longrightarrow> P k x"
  by (simp add: holds_def)

end

definition shard_ok :: "nat \<Rightarrow> 'a shard \<Rightarrow> bool" where
  "shard_ok n s \<longleftrightarrow> wf_map (sh_items s) \<and> sh_size s = n \<and> length (sh_items s) \<le> n"

definition store_ok :: "nat \<Rightarrow> 'a shard list \<Rightarrow> bool" where
  "store_ok n c \<longleftrightarrow> length c = shardSize \<and> list_all (shard_ok (max (n div shardSize) 4)) c"

lemma shard_of_bound: "shard_of key < shardSize"
proof -
  have "unat (key AND 255) \<le> unat (255 :: 64 word)" using word_and_le1 unfolding word_le_nat_alt by blast
  then show ?thesis by (simp add: shard_of_def)
qed

lemma length_insert_map: "length (insert_map k v m) = (if k \<in> set (keys m) then length m else Suc (length m))"
  by (induction m) auto

lemma length_delete_present: "wf_map m \<Longrightarrow> k \<in> set (keys m) \<Longrightarrow> Suc (length (delete_map k m)) = length m"
proof (induction m)
  case (Cons p m)
  have "delete_map k m = m" if "k \<notin> set (keys m)" using that by (simp add: AList.delete_id)
  with Cons show ?case by (cases "fst p = k") (auto simp: AList.delete_eq)
qed simp

lemma shard_ok_Add:
  assumes "shard_ok n s" "n > 0"
  shows "shard_ok n (shard_Add choice key el s)"
proof -
  let ?m = "sh_items s"
  have m: "wf_map ?m" "length ?m \<le> n" "sh_size s = n" using assms(1) by (simp_all add: shard_ok_def)
  have e: "wf_map (evict_any choice ?m)" "length (evict_any choice ?m) < n"
  proof -
    show "wf_map (evict_any choice ?m)" using m(1) by (simp add: evict_any_def)
    show "length (evict_any choice ?m) < n"
    proof (cases "?m = []")
      case False
      then have "keys ?m ! (choice mod length ?m) \<in> set (keys ?m)"
        using nth_mem [of "choice mod length ?m" "keys ?m"] by simp
      from length_delete_present [OF m(1) this] show ?thesis using False m(2) by (simp add: evict_any_def)
    qed (use assms(2) in \<open>simp add: evict_any_def\<close>)
  qed
  show ?thesis using m e by (auto simp: shard_ok_def shard_Add_def Let_def length_insert_map map_of_None_keys)
qed

lemma shard_Get_Add: "shard_Get key (shard_Add choice key el s) = Some el"
  by (simp add: shard_Get_def shard_Add_def Let_def)

lemma shard_Get_Add_other:
  "k \<noteq> key \<Longrightarrow> shard_Get k (shard_Add choice key el s) = shard_Get k s \<or> shard_Get k (shard_Add choice key el s) = None"
  by (simp add: shard_Get_def shard_Add_def evict_any_def Let_def)

lemma store_ok_New: "store_ok n (store_New n)"
  by (simp add: store_ok_def store_New_def newShard_def shard_ok_def list_all_iff)

lemma store_ok_Add: "store_ok n c \<Longrightarrow> store_ok n (store_Add choice key el c)"
  using shard_of_bound [of key]
  by (auto simp: store_ok_def store_Add_def list_all_length nth_list_update intro: shard_ok_Add)

interpretation sharded: evicting_store "store_ok n" "store_New n" store_Add store_Get
proof
  fix k k' :: "64 word" and choice x and s :: "'a shard list"
  show "store_Get k (store_New n) = None"
    using shard_of_bound [of k] by (simp add: store_Get_def store_New_def newShard_def shard_Get_def)
  show "store_ok n s \<Longrightarrow> store_Get k (store_Add choice k x s) = Some x"
    using shard_of_bound [of k] by (simp add: store_Get_def store_Add_def store_ok_def shard_Get_Add)
  show "store_ok n s \<Longrightarrow> k' \<noteq> k \<Longrightarrow> store_Get k' (store_Add choice k x s) = store_Get k' s \<or> store_Get k' (store_Add choice k x s) = None"
    using shard_of_bound [of k] shard_Get_Add_other [of k' k choice x]
    by (cases "shard_of k = shard_of k'") (auto simp: store_Get_def store_Add_def store_ok_def)
qed (rule store_ok_New store_ok_Add; assumption?)+

lemma sum_list_bound: "\<forall>x\<in>set xs. f x \<le> (b :: nat) \<Longrightarrow> sum_list (map f xs) \<le> length xs * b"
  by (induction xs) auto

lemma store_Len_bound: "store_ok n c \<Longrightarrow> store_Len c \<le> shardSize * max (n div shardSize) 4"
  using sum_list_bound [of c "\<lambda>s. length (sh_items s)" "max (n div shardSize) 4"]
  by (auto simp: store_Len_def store_ok_def shard_ok_def list_all_iff)

section \<open>Keys\<close>

text \<open>A step of the hash can be undone, so names of the same spelling differ only by what precedes them.\<close>

lemma fnv_step_inj: "fnv_step c h = fnv_step c h' \<longleftrightarrow> h = h'"
proof
  assume "fnv_step c h = fnv_step c h'"
  then have "fnv_step c h XOR of_nat (of_char c) = fnv_step c h' XOR of_nat (of_char c)" by simp
  then have "h * prime64 = h' * prime64" unfolding fnv_step_def by (simp only: xor.assoc xor_self_eq xor.right_neutral)
  then have "h * (prime64 * 14886173955864302971) = h' * (prime64 * 14886173955864302971)"
    by (simp only: mult.assoc [symmetric])
  moreover have "prime64 * 14886173955864302971 = (1 :: 64 word)" by simp
  ultimately show "h = h'" by (simp only: mult_1_right)
qed simp

lemma fnv_write_inj: "fnv_write s h = fnv_write s h' \<longleftrightarrow> h = h'"
  unfolding fnv_write_def by (induction s arbitrary: h h') (simp_all add: fnv_step_inj)

lemma key_hash_flags: "key_hash qname qtype d c = key_hash qname qtype d' c' \<longleftrightarrow> d = d' \<and> c = c'"
  unfolding key_hash_def Let_def fnv_write_inj
  by (cases d; cases d'; cases c; cases c') (simp_all add: fnv_write_def fnv_step_def)


section \<open>The life of an answer\<close>

lemma lower_ttl_spec:
  assumes "second dvd m" "m \<ge> 0"
  shows "second dvd lower_ttl r m" "0 \<le> lower_ttl r m" "lower_ttl r m \<le> m" "lower_ttl r m \<le> uint (hdr_Ttl (rr_hdr r)) * second"
  using assms by (auto simp: lower_ttl_def elim!: dvdE)

lemma fold_lower_ttl:
  assumes "second dvd m" "m \<ge> 0"
  shows "second dvd fold lower_ttl rs m \<and> 0 \<le> fold lower_ttl rs m \<and> fold lower_ttl rs m \<le> m \<and>
    (\<forall>r\<in>set rs. fold lower_ttl rs m \<le> uint (hdr_Ttl (rr_hdr r)) * second)"
  using assms
proof (induction rs arbitrary: m)
  case (Cons r rs)
  note L = lower_ttl_spec [OF Cons.prems, of r]
  from Cons.IH [OF L(1,2)] L show ?case by fastforce
qed simp

text \<open>The records of an answer that have a time to live.\<close>

definition timed_records :: "msg \<Rightarrow> rr list" where
  "timed_records m = m_Answer m @ m_Ns m @ filter (\<lambda>r. rr_type r \<noteq> TypeOPT) (m_Extra m)"

definition cacheable :: "response_type \<Rightarrow> bool" where
  "cacheable mt \<longleftrightarrow> mt \<in> {NoError, Delegation, NameError, NoData, ServerError}"

lemma MinimalTTL_spec:
  assumes "second dvd m" "m \<ge> 0"
  shows "second dvd MinimalTTLWithMaximum res mt m \<and> 0 \<le> MinimalTTLWithMaximum res mt m \<and>
    (\<forall>r\<in>set (timed_records res). MinimalTTLWithMaximum res mt m \<le> max MinimalDefaultTTL (uint (hdr_Ttl (rr_hdr r)) * second))"
proof -
  consider "MinimalTTLWithMaximum res mt m = MinimalDefaultTTL" | "MinimalTTLWithMaximum res mt m = fold lower_ttl (timed_records res) m"
    unfolding MinimalTTLWithMaximum_def timed_records_def by meson
  then show ?thesis
  proof cases
    case 2
    show ?thesis unfolding 2 using fold_lower_ttl [OF assms, of "timed_records res"] by (metis max.coboundedI2)
  qed simp
qed

lemma answer_duration_spec:
  assumes "cacheable mt"
  shows "second dvd answer_duration res mt" "MinimalDefaultTTL \<le> answer_duration res mt" "answer_duration res mt \<le> MaximumDefaultTTL"
    "r \<in> set (timed_records res) \<Longrightarrow> answer_duration res mt \<le> max MinimalDefaultTTL (uint (hdr_Ttl (rr_hdr r)) * second)"
proof -
  let ?h = "MinimalTTLWithMaximum res mt (MaximumDefaultTTL div 2)" and ?f = "MinimalTTLWithMaximum res mt MaximumDefaultTTL"
  have h: "second dvd ?h \<and> 0 \<le> ?h \<and> (\<forall>r\<in>set (timed_records res). ?h \<le> max MinimalDefaultTTL (uint (hdr_Ttl (rr_hdr r)) * second))"
    by (rule MinimalTTL_spec) simp_all
  have f: "second dvd ?f \<and> 0 \<le> ?f \<and> (\<forall>r\<in>set (timed_records res). ?f \<le> max MinimalDefaultTTL (uint (hdr_Ttl (rr_hdr r)) * second))"
    by (rule MinimalTTL_spec) simp_all
  show "second dvd answer_duration res mt" "MinimalDefaultTTL \<le> answer_duration res mt" "answer_duration res mt \<le> MaximumDefaultTTL"
    using h f by (auto simp: answer_duration_def computeTTL_def min_def max_def)
  show "r \<in> set (timed_records res) \<Longrightarrow> answer_duration res mt \<le> max MinimalDefaultTTL (uint (hdr_Ttl (rr_hdr r)) * second)"
    using h f by (auto simp: answer_duration_def computeTTL_def min_def max_def split: if_splits)
qed


section \<open>What the cache holds\<close>

text \<open>
  Requests are served concurrently, and each write of an answer is atomic. A history is the
  answers written, in the order of the writes, each with its request and its clock; looking
  up does not change the cache.
\<close>

type_synonym cache_log = "(cache_clock \<times> msg \<times> msg) list"

fun cache_run :: "dns_cache \<Rightarrow> cache_log \<Rightarrow> dns_cache option" where
  "cache_run c [] = Some c"
| "cache_run c ((k, r, res) # hist) = do {
     (c, m) \<leftarrow> cache_WriteMsg (cl_choice k) (cl_typed k) (cl_stored k) r res c;
     cache_run c hist
   }"

definition stored_item :: "cache_clock \<Rightarrow> msg \<Rightarrow> msg \<Rightarrow> item" where
  "stored_item k r res =
     (let d = answer_duration res (Typify res (cl_typed k)) in newItem (capped_answer r res d) (cl_stored k) d)"

definition request_key :: "msg \<Rightarrow> 64 word" where
  "request_key r = key_hash (request_Name r) (QType r) (request_Do r) (m_CheckingDisabled r)"

definition stems_from :: "cache_log \<Rightarrow> 64 word \<Rightarrow> item \<Rightarrow> bool" where
  "stems_from hist key i \<longleftrightarrow> (\<exists>(k, r, res)\<in>set hist. i = stored_item k r res \<and> key = request_key r \<and>
     cacheable (Typify res (cl_typed k)) \<and> (Typify res (cl_typed k) = NameError \<longrightarrow> hasSOA res) \<and> \<not> m_Truncated res \<and> Match r res)"

definition cache_holds :: "cache_log \<Rightarrow> dns_cache \<Rightarrow> bool" where
  "cache_holds hist c \<longleftrightarrow> sharded.holds defaultCap (stems_from hist) (dc_pcache c) \<and> sharded.holds defaultCap (stems_from hist) (dc_ncache c)"

lemma Match_capped [simp]: "Match r (capped_answer r' res d) = Match r res"
  by (simp add: Match_def capped_answer_def Let_def)

lemma key_Some:
  assumes "cache_key n res mt d c = Some (Some key)"
  shows "\<not> m_Truncated res" "cacheable mt \<and> (mt = NameError \<longrightarrow> hasSOA res)" "\<exists>q qs. m_Question res = q # qs \<and> key = key_hash n (qn_Qtype q) d c"
  using assms by (cases mt; auto simp: cache_key_def cacheable_def split: if_splits list.splits)+

lemma sharded_holds_mono: "sharded.holds n P c \<Longrightarrow> (\<And>k x. P k x \<Longrightarrow> Q k x) \<Longrightarrow> sharded.holds n Q c"
  by (auto simp: sharded.holds_def)

lemma cache_holds_mono: "cache_holds hist c \<Longrightarrow> set hist \<subseteq> set hist' \<Longrightarrow> cache_holds hist' c"
proof -
  assume s: "set hist \<subseteq> set hist'" and h: "cache_holds hist c"
  have "stems_from hist k x \<Longrightarrow> stems_from hist' k x" for k x using s unfolding stems_from_def by blast
  then show "cache_holds hist' c" using h sharded_holds_mono [where P = "stems_from hist" and Q = "stems_from hist'"]
    unfolding cache_holds_def by blast
qed

lemma cache_set_holds:
  assumes "cache_holds hist c" "stems_from hist key (newItem m now d)"
  shows "cache_holds hist (cache_set choice now m key mt d c)"
  using assms unfolding cache_holds_def cache_set_def
  by (cases mt) (auto intro: sharded.holds_add)

lemma cache_WriteMsg_holds:
  assumes "cache_WriteMsg (cl_choice k) (cl_typed k) (cl_stored k) r res c = Some (c', m)" "cache_holds hist c" "(k, r, res) \<in> set hist"
  shows "cache_holds hist c'"
proof -
  let ?mt = "Typify res (cl_typed k)"
  let ?d = "answer_duration res ?mt"
  obtain key where key: "cache_key (request_Name r) res ?mt (request_Do r) (m_CheckingDisabled r) = Some key"
    using assms(1) by (auto simp: cache_WriteMsg_def Let_def split: option.splits)
  show ?thesis
  proof (cases "\<exists>h. key = Some h \<and> ?d > 0 \<and> Match r res")
    case True
    then obtain h where h: "key = Some h" "?d > 0" "Match r res" by blast
    have "h = request_key r" using key_Some(3) [OF key [unfolded h(1)]] h(3) by (auto simp: request_key_def Match_def)
    then have "stems_from hist h (newItem (capped_answer r res ?d) (cl_stored k) ?d)"
      using key_Some(1,2) [OF key [unfolded h(1)]] h(3) assms(3) by (auto simp: stems_from_def stored_item_def Let_def)
    then show ?thesis using assms(1,2) h key cache_set_holds by (auto simp: cache_WriteMsg_def Let_def)
  next
    case False
    then show ?thesis using assms(1,2) key by (auto simp: cache_WriteMsg_def Let_def split: option.splits if_splits)
  qed
qed

lemma cache_run_holds: "cache_run c hist = Some c' \<Longrightarrow> cache_holds past c \<Longrightarrow> cache_holds (past @ hist) c'"
proof (induction hist arbitrary: c past)
  case (Cons e hist)
  obtain k r res where e: "e = (k, r, res)" by (metis prod.exhaust)
  with Cons.prems(1) obtain c1 m where
    c1: "cache_WriteMsg (cl_choice k) (cl_typed k) (cl_stored k) r res c = Some (c1, m)" "cache_run c1 hist = Some c'"
    by (auto split: bind_splits)
  have "cache_holds (past @ [e]) c1"
    using cache_WriteMsg_holds [OF c1(1) cache_holds_mono [OF Cons.prems(2)], of "past @ [e]"] e by auto
  from Cons.IH [OF c1(2) this] show ?case by simp
qed simp

lemma NewCache_holds: "cache_holds [] NewCache"
  by (simp add: cache_holds_def NewCache_def sharded.holds_empty)

lemma getIfNotStale_held:
  assumes "getIfNotStale now r c = Some i" "cache_holds hist c"
  shows "stems_from hist (request_key r) i \<and> live i r now"
  using assms sharded.holds_get [of defaultCap "stems_from hist"]
  unfolding getIfNotStale_def cache_holds_def request_key_def [symmetric] Let_def
  by (auto split: option.splits if_splits)


lemma set_ttl_simps [simp]:
  "rr_type (set_ttl t r) = rr_type r" "set_ttl t (set_ttl t' r) = set_ttl t r" "hdr_Ttl (rr_hdr (set_ttl t r)) = t"
  by (cases r; simp add: set_ttl_def)+

text \<open>The records of a message without OPT records and without their times to live.\<close>

definition without_ttl :: "rr list \<Rightarrow> rr list" where
  "without_ttl rs = map (set_ttl 0) (filter (\<lambda>r. rr_type r \<noteq> TypeOPT) rs)"

definition contents_of :: "msg \<Rightarrow> int \<times> rr list \<times> rr list \<times> rr list" where
  "contents_of m = (m_Rcode m, without_ttl (m_Answer m), without_ttl (m_Ns m), without_ttl (m_Extra m))"

lemma without_ttl_filterRRSlice [simp]: "without_ttl (filterRRSlice rs t) = without_ttl rs"
  by (simp add: without_ttl_def filterRRSlice_def filter_map comp_def)

lemma without_ttl_filter [simp]: "without_ttl (filter (\<lambda>r. rr_type r \<noteq> TypeOPT) rs) = without_ttl rs"
  by (simp add: without_ttl_def)

lemma toMsg_stored:
  "is_reply r (toMsg i r now d a)" "contents_of (toMsg (stored_item k r0 res) r now d a) = contents_of res"
  "x \<in> set (timed_records (toMsg i r now d a)) \<Longrightarrow> hdr_Ttl (rr_hdr x) = word_of_int (item_ttl i now)"
  by (auto simp: toMsg_def Let_def is_reply_def SetReply_def contents_of_def stored_item_def newItem_def capped_answer_def
      timed_records_def filterRRSlice_def without_ttl_def filter_map comp_def)

lemma ToLower_QName: "ToLower (QName r) = request_Name r"
  by (cases "m_Question r") (simp_all add: QName_def request_Name_def ToLower_def lower_char_def)

lemma stored_matches:
  assumes "item_matches (stored_item k r0 res) r" "Match r0 res" "request_key r = request_key r0"
  shows "request_Name r0 = request_Name r \<and> QType r0 = QType r \<and> request_Do r0 = request_Do r \<and> m_CheckingDisabled r0 = m_CheckingDisabled r"
proof -
  obtain q where q: "m_Question res = [q]" using assms(2) unfolding Match_def by (metis Suc_length_conv length_0_conv One_nat_def)
  have "QType r0 = QType r" "ToLower (qn_Name q) = ToLower (QName r)" "request_Name r0 = ToLower (qn_Name q)"
    using assms(1,2) q by (auto simp: item_matches_def Match_def stored_item_def newItem_def capped_answer_def Let_def)
  moreover have "ToLower (QName r) = request_Name r" by (rule ToLower_QName)
  ultimately show ?thesis using assms(3) by (auto simp: request_key_def key_hash_flags)
qed

lemma stored_life:
  assumes "cacheable (Typify res (cl_typed k))" "cl_stored k < now + second"
  shows "0 \<le> go_quot (now - cl_stored k) second" "item_ttl (stored_item k r res) now < 2 ^ 32"
    "y \<in> set (timed_records res) \<Longrightarrow>
      item_ttl (stored_item k r res) now + go_quot (now - cl_stored k) second \<le> max 5 (uint (hdr_Ttl (rr_hdr y)))"
proof -
  let ?d = "answer_duration res (Typify res (cl_typed k))"
  note D = answer_duration_spec [OF assms(1), where res = res]
  obtain s where s: "?d = second * s" using D(1) by (auto elim: dvdE)
  have b: "5 \<le> s" "s \<le> 3600" using D(2,3) unfolding s by simp_all
  have t: "item_ttl (stored_item k r res) now = s - go_quot (now - cl_stored k) second"
    using b by (simp add: item_ttl_def stored_item_def newItem_def s Let_def uint_word_of_int)
  show age: "0 \<le> go_quot (now - cl_stored k) second" using assms(2) by (auto simp: go_quot_def)
  show "item_ttl (stored_item k r res) now < 2 ^ 32" unfolding t using b age by simp
  show "item_ttl (stored_item k r res) now + go_quot (now - cl_stored k) second \<le> max 5 (uint (hdr_Ttl (rr_hdr y)))"
    if "y \<in> set (timed_records res)" using D(4) [OF that] unfolding t s by (simp add: max_def split: if_splits)
qed

lemma stored_reply_ttl:
  assumes "cacheable (Typify res (cl_typed k))" "cl_stored k < now + second" "live (stored_item k r0 res) r now"
    and "x \<in> set (timed_records (toMsg (stored_item k r0 res) r now d a))"
  shows "hdr_Ttl (rr_hdr x) > 0 \<and> (\<forall>y\<in>set (timed_records res).
    uint (hdr_Ttl (rr_hdr x)) + (now - cl_stored k) div second \<le> max 5 (uint (hdr_Ttl (rr_hdr y))))"
proof -
  let ?i = "stored_item k r0 res"
  have ttl: "0 < item_ttl ?i now" "item_ttl ?i now < 2 ^ 32" using assms(3) stored_life(2) [OF assms(1,2)] by (auto simp: live_def)
  have word: "uint (word_of_int (item_ttl ?i now) :: 32 word) = item_ttl ?i now" using ttl by (simp add: uint_word_of_int)
  have old: "(now - cl_stored k) div second \<le> go_quot (now - cl_stored k) second"
    using stored_life(1) [OF assms(1,2)] by (auto simp: go_quot_def)
  show ?thesis using toMsg_stored(3) [OF assms(4)] ttl(1) word old stored_life(3) [OF assms(1,2), of _ r0] by (fastforce simp: word_less_def)
qed

lemma cache_key_total: "m_Question m \<noteq> [] \<Longrightarrow> cache_key n m t d c \<noteq> None"
  by (auto simp: cache_key_def split: list.splits)

lemma cache_WriteMsg_total:
  assumes "m_Question res \<noteq> []"
  shows "\<exists>c' m. cache_WriteMsg choice typed stored r res c = Some (c', m)"
  using cache_key_total [OF assms, of "request_Name r" "Typify res typed" "request_Do r" "m_CheckingDisabled r"]
  by (auto simp: cache_WriteMsg_def Let_def)

text \<open>What is written for a request is found again by requests of the same key, while it is young.\<close>

lemma cache_key_stores:
  assumes "Match r res" "cacheable mt" "\<not> m_Truncated res" "mt = NameError \<longrightarrow> hasSOA res"
  shows "cache_key (request_Name r) res mt (request_Do r) (m_CheckingDisabled r) = Some (Some (request_key r))"
proof -
  obtain q where "m_Question res = [q]" using assms(1) unfolding Match_def by (metis Suc_length_conv length_0_conv One_nat_def)
  then show ?thesis using assms by (auto simp: cache_key_def cacheable_def request_key_def Match_def)
qed

lemma cache_set_found:
  assumes "cache_holds hist c" "cacheable mt" "live (newItem m t d) r now"
  shows "getIfNotStale now r (cache_set choice t m (request_key r) mt d c) \<noteq> None"
proof -
  let ?i = "newItem m t d"
  have ok: "store_ok defaultCap (dc_pcache c)" "store_ok defaultCap (dc_ncache c)"
    using assms(1) by (auto simp: cache_holds_def sharded.holds_def)
  consider "cache_set choice t m (request_key r) mt d c = c\<lparr>dc_pcache := store_Add choice (request_key r) ?i (dc_pcache c)\<rparr>"
    | "cache_set choice t m (request_key r) mt d c = c\<lparr>dc_ncache := store_Add choice (request_key r) ?i (dc_ncache c)\<rparr>"
    using assms(2) by (auto simp: cacheable_def cache_set_def)
  then show ?thesis
    using sharded.get_added [OF ok(1), of "request_key r" choice ?i] sharded.get_added [OF ok(2), of "request_key r" choice ?i] assms(3)
    by cases (auto simp: getIfNotStale_def request_key_def Let_def split: option.splits)
qed

lemma stored_live:
  assumes "Match r res" "cacheable (Typify res (cl_typed k))" "now < cl_stored k + MinimalDefaultTTL"
  shows "live (stored_item k r res) r now"
proof -
  obtain q where q: "m_Question res = [q]" using assms(1) unfolding Match_def by (metis Suc_length_conv length_0_conv One_nat_def)
  let ?d = "answer_duration res (Typify res (cl_typed k))"
  note D = answer_duration_spec [OF assms(2), where res = res]
  obtain s where s: "?d = second * s" using D(1) by (auto elim: dvdE)
  have "5 \<le> s" "s \<le> 3600" using D(2,3) unfolding s by simp_all
  moreover have "go_quot (now - cl_stored k) second < 5" using assms(3) by (auto simp: go_quot_def)
  ultimately have "item_ttl (stored_item k r res) now > 0"
    by (simp add: item_ttl_def stored_item_def newItem_def s Let_def uint_word_of_int)
  then show ?thesis
    using assms(1) q by (auto simp: live_def item_matches_def ToLower_QName Match_def stored_item_def newItem_def capped_answer_def Let_def)
qed

lemma cache_WriteMsg_found:
  assumes "cache_holds hist c" "cache_WriteMsg (cl_choice k) (cl_typed k) (cl_stored k) r res c = Some (c', m)"
    and "Match r res" "cacheable (Typify res (cl_typed k))" "\<not> m_Truncated res" "Typify res (cl_typed k) = NameError \<longrightarrow> hasSOA res"
    and "live (stored_item k r res) r' now" "request_key r = request_key r'"
  shows "getIfNotStale now r' c' \<noteq> None"
proof -
  let ?mt = "Typify res (cl_typed k)"
  have "answer_duration res ?mt > 0" using answer_duration_spec(2) [OF assms(4), of res] by simp
  then have "c' = cache_set (cl_choice k) (cl_stored k) (capped_answer r res (answer_duration res ?mt)) (request_key r) ?mt (answer_duration res ?mt) c"
    using assms(2,3) cache_key_stores [OF assms(3-6)] by (auto simp: cache_WriteMsg_def Let_def)
  then show ?thesis using cache_set_found [OF assms(1,4)] assms(7,8) unfolding stored_item_def Let_def by simp
qed

lemma go_quot_mono: "a \<le> b \<Longrightarrow> go_quot a second \<le> go_quot b second"
proof -
  assume "a \<le> b"
  moreover have "- ((- a) div second) \<le> b div second" if "a < 0" "0 \<le> b"
    using that by (simp add: pos_imp_zdiv_nonneg_iff order.trans [of _ 0])
  ultimately show ?thesis by (auto simp: go_quot_def zdiv_mono1)
qed

lemma live_earlier: "live i r now' \<Longrightarrow> now \<le> now' \<Longrightarrow> live i r now"
  using go_quot_mono [of "now - it_stored i" "now' - it_stored i"] by (auto simp: live_def item_ttl_def)

lemma live_same_question: "request_Name r' = request_Name r \<Longrightarrow> QType r' = QType r \<Longrightarrow> live i r' now = live i r now"
  by (simp add: live_def item_matches_def ToLower_QName)

text \<open>The keys that share a shard with a key: those the shard holds and those written to it later.\<close>

definition shard_load :: "cache_log \<Rightarrow> 64 word \<Rightarrow> item shard list \<Rightarrow> 64 word set" where
  "shard_load later key store =
     set (keys (sh_items (store ! shard_of key))) \<union>
     set (filter (\<lambda>k. shard_of k = shard_of key) (map (\<lambda>(k, r, res). request_key r) later))"

lemma store_Add_keeps:
  assumes ok: "store_ok n c" and "k \<noteq> key" and room: "shard_of k = shard_of key \<Longrightarrow>
      card (insert key (set (keys (sh_items (c ! shard_of key))))) \<le> max (n div shardSize) 4"
  shows "store_Get k (store_Add choice key x c) = store_Get k c"
    "set (keys (sh_items (store_Add choice key x c ! shard_of k))) =
      (if shard_of k = shard_of key then insert key (set (keys (sh_items (c ! shard_of key)))) else set (keys (sh_items (c ! shard_of k))))"
proof -
  let ?s = "c ! shard_of key"
  have len: "shard_of key < length c" "shard_of k < length c" using ok shard_of_bound by (auto simp: store_ok_def)
  have sh: "shard_ok (max (n div shardSize) 4) ?s" using ok len(1) by (simp add: store_ok_def list_all_length)
  have "sh_items (shard_Add choice key x ?s) = insert_map key x (sh_items ?s)" if "shard_of k = shard_of key"
  proof -
    have "length (sh_items ?s) = card (set (keys (sh_items ?s)))"
      using sh distinct_card [of "keys (sh_items ?s)"] by (simp add: shard_ok_def)
    then have "length (sh_items ?s) < sh_size ?s \<or> map_of (sh_items ?s) key \<noteq> None"
      using room [OF that] sh by (cases "key \<in> set (keys (sh_items ?s))") (auto simp: shard_ok_def map_of_None_keys)
    then show ?thesis by (auto simp: shard_Add_def Let_def)
  qed
  then show "store_Get k (store_Add choice key x c) = store_Get k c"
    "set (keys (sh_items (store_Add choice key x c ! shard_of k))) =
      (if shard_of k = shard_of key then insert key (set (keys (sh_items (c ! shard_of key)))) else set (keys (sh_items (c ! shard_of k))))"
    using assms(2) len by (auto simp: store_Get_def store_Add_def shard_Get_def nth_list_update simp del: set_map)
qed

lemma shard_load_step:
  assumes "store_ok defaultCap store" "request_key r \<noteq> key" "card (shard_load ((k, r, res) # later) key store) \<le> 39"
  shows "store_Get key (store_Add choice (request_key r) x store) = store_Get key store"
    "shard_load later key (store_Add choice (request_key r) x store) \<subseteq> shard_load ((k, r, res) # later) key store"
proof -
  have "card (insert (request_key r) (set (keys (sh_items (store ! shard_of (request_key r)))))) \<le> max (defaultCap div shardSize) 4"
    if "shard_of key = shard_of (request_key r)"
  proof -
    have "insert (request_key r) (set (keys (sh_items (store ! shard_of (request_key r))))) \<subseteq> shard_load ((k, r, res) # later) key store"
      using that by (auto simp: shard_load_def)
    from card_mono [OF _ this] assms(3) show ?thesis by (simp add: shard_load_def)
  qed
  note K = store_Add_keeps [OF assms(1) assms(2) [symmetric] this, of choice x]
  show "store_Get key (store_Add choice (request_key r) x store) = store_Get key store" by (rule K(1))
  show "shard_load later key (store_Add choice (request_key r) x store) \<subseteq> shard_load ((k, r, res) # later) key store"
    by (simp only: shard_load_def K(2)) (auto simp del: set_map split: if_splits)
qed

lemma cache_WriteMsg_cases:
  assumes "cache_WriteMsg choice typed stored r res c = Some (c', m)"
  obtains "c' = c" | x where "c' = c\<lparr>dc_pcache := store_Add choice (request_key r) x (dc_pcache c)\<rparr>"
    | x where "c' = c\<lparr>dc_ncache := store_Add choice (request_key r) x (dc_ncache c)\<rparr>"
proof -
  let ?mt = "Typify res typed"
  let ?d = "answer_duration res ?mt"
  obtain key where key: "cache_key (request_Name r) res ?mt (request_Do r) (m_CheckingDisabled r) = Some key"
    using assms by (auto simp: cache_WriteMsg_def Let_def split: option.splits)
  show ?thesis
  proof (cases "\<exists>h. key = Some h \<and> ?d > 0 \<and> Match r res")
    case True
    then obtain h where h: "key = Some h" "?d > 0" "Match r res" by blast
    have "h = request_key r" using key_Some(3) [OF key [unfolded h(1)]] h(3) by (auto simp: request_key_def Match_def)
    then have "c' = cache_set choice stored (capped_answer r res ?d) (request_key r) ?mt ?d c"
      using assms h key by (auto simp: cache_WriteMsg_def Let_def)
    then show ?thesis using that by (cases ?mt) (auto simp: cache_set_def)
  next
    case False
    then show ?thesis using assms key that by (auto simp: cache_WriteMsg_def Let_def split: option.splits if_splits)
  qed
qed

lemma card_shard_load_le: "shard_load later key store \<subseteq> shard_load later' key store' \<Longrightarrow> card (shard_load later' key store') \<le> n \<Longrightarrow>
    card (shard_load later key store) \<le> n"
  using card_mono [of "shard_load later' key store'" "shard_load later key store"] by (simp add: shard_load_def)

text \<open>What is stored under a key stays while its shards have room for the keys written later.\<close>

lemma cache_run_keeps:
  assumes "cache_run c later = Some c'" "cache_holds hist c" "\<forall>(k, r, res)\<in>set later. request_key r \<noteq> key"
    and "card (shard_load later key (dc_pcache c)) \<le> 39" "card (shard_load later key (dc_ncache c)) \<le> 39"
  shows "store_Get key (dc_pcache c') = store_Get key (dc_pcache c) \<and> store_Get key (dc_ncache c') = store_Get key (dc_ncache c)"
  using assms
proof (induction later arbitrary: c hist)
  case (Cons e later)
  obtain k r res where e: "e = (k, r, res)" by (metis prod.exhaust)
  obtain c1 m where c1: "cache_WriteMsg (cl_choice k) (cl_typed k) (cl_stored k) r res c = Some (c1, m)" "cache_run c1 later = Some c'"
    using Cons.prems(1) e by (auto split: bind_splits)
  have ok: "store_ok defaultCap (dc_pcache c)" "store_ok defaultCap (dc_ncache c)"
    using Cons.prems(2) by (auto simp: cache_holds_def sharded.holds_def)
  have ne: "request_key r \<noteq> key" using Cons.prems(3) e by auto
  have skip: "shard_load later key s \<subseteq> shard_load (e # later) key s" for s by (auto simp: shard_load_def)
  note P = shard_load_step [OF ok(1) ne Cons.prems(4) [unfolded e]] and N = shard_load_step [OF ok(2) ne Cons.prems(5) [unfolded e]]
  have "store_Get key (dc_pcache c1) = store_Get key (dc_pcache c) \<and> shard_load later key (dc_pcache c1) \<subseteq> shard_load (e # later) key (dc_pcache c) \<and>
      store_Get key (dc_ncache c1) = store_Get key (dc_ncache c) \<and> shard_load later key (dc_ncache c1) \<subseteq> shard_load (e # later) key (dc_ncache c)"
    using c1(1) by (cases rule: cache_WriteMsg_cases) (use skip P N e in auto)
  moreover have "cache_holds (hist @ [e]) c1"
    using cache_WriteMsg_holds [OF c1(1) cache_holds_mono [OF Cons.prems(2)], of "hist @ [e]"] e by auto
  ultimately show ?case using Cons.IH [OF c1(2), of "hist @ [e]"] Cons.prems(3-5) card_shard_load_le by auto
qed simp

lemma miss_not_live:
  assumes "getIfNotStale now r c = None"
  shows "store_Get (request_key r) (dc_pcache c) = Some i \<Longrightarrow> \<not> live i r now"
    "store_Get (request_key r) (dc_ncache c) = Some i \<Longrightarrow> \<not> live i r now"
  using assms unfolding getIfNotStale_def request_key_def [symmetric] Let_def by (auto split: option.splits if_splits)

text \<open>After a miss, the answer that is stored is the one that is found.\<close>

lemma cache_WriteMsg_stores:
  assumes "cache_holds hist c" "cache_WriteMsg (cl_choice k) (cl_typed k) (cl_stored k) r res c = Some (c', m)"
    and "Match r res" "cacheable (Typify res (cl_typed k))" "\<not> m_Truncated res" "Typify res (cl_typed k) = NameError \<longrightarrow> hasSOA res"
  shows "store_Get (request_key r) (dc_pcache c') = Some (stored_item k r res) \<and> store_Get (request_key r) (dc_ncache c') = store_Get (request_key r) (dc_ncache c) \<or>
    store_Get (request_key r) (dc_ncache c') = Some (stored_item k r res) \<and> store_Get (request_key r) (dc_pcache c') = store_Get (request_key r) (dc_pcache c)"
proof -
  let ?mt = "Typify res (cl_typed k)"
  have ok: "store_ok defaultCap (dc_pcache c)" "store_ok defaultCap (dc_ncache c)"
    using assms(1) by (auto simp: cache_holds_def sharded.holds_def)
  have "answer_duration res ?mt > 0" using answer_duration_spec(2) [OF assms(4), of res] by simp
  then have "c' = cache_set (cl_choice k) (cl_stored k) (capped_answer r res (answer_duration res ?mt)) (request_key r) ?mt (answer_duration res ?mt) c"
    using assms(2,3) cache_key_stores [OF assms(3-6)] by (auto simp: cache_WriteMsg_def Let_def)
  then show ?thesis
    using assms(4) sharded.get_added [OF ok(1)] sharded.get_added [OF ok(2)]
    by (auto simp: cacheable_def cache_set_def stored_item_def Let_def)
qed

text \<open>
  C34: When a request that misses is answered with an answer that may be cached, the same
  question with the same flags is answered from the cache for the next five seconds, whoever
  asks and without asking a recursor: with one reply that has the code and the records of that
  answer, each with a time to live that is positive and, with its age, at most the least one of
  the answer, or five seconds where that is less. Other answers may be written in between, as
  long as none is written under the same key and the keys of its shard, with those written
  later, are not more than the 39 a shard holds, so that nothing is evicted from it.
\<close>

theorem written_answer_found:
  fixes k k' :: cache_clock
  assumes "cache_run NewCache hist = Some c" "getIfNotStale (cl_now k) r c = None" "next network r = [res]"
    and "Match r res" "cacheable (Typify res (cl_typed k))" "\<not> m_Truncated res" "Typify res (cl_typed k) = NameError \<longrightarrow> hasSOA res"
    and "Cache_ServeDNS k next c network r = Some (c1, out)" "cache_run c1 later = Some c'"
    and "\<forall>(k1, r1, res1)\<in>set later. request_key r1 \<noteq> request_key r"
    and "card (shard_load later (request_key r) (dc_pcache c1)) \<le> 39" "card (shard_load later (request_key r) (dc_ncache c1)) \<le> 39"
    and "request_Name r' = request_Name r" "QType r' = QType r" "request_Do r' = request_Do r" "m_CheckingDisabled r' = m_CheckingDisabled r"
    and "cl_now k \<le> cl_now k'" "cl_stored k < cl_now k' + second" "cl_now k' < cl_stored k + MinimalDefaultTTL"
  shows "\<exists>m. (\<forall>next network. Cache_ServeDNS k' next c' network r' = Some (c', [m])) \<and> is_reply r' m \<and> contents_of m = contents_of res \<and>
    (\<forall>x\<in>set (timed_records m). hdr_Ttl (rr_hdr x) > 0 \<and> (\<forall>y\<in>set (timed_records res).
       uint (hdr_Ttl (rr_hdr x)) + (cl_now k' - cl_stored k) div second \<le> max 5 (uint (hdr_Ttl (rr_hdr y)))))"
proof -
  let ?key = "request_key r" and ?i = "stored_item k r res"
  have key: "request_key r' = ?key" using assms(13-16) by (simp add: request_key_def)
  have c: "cache_holds hist c" using cache_run_holds [OF assms(1) NewCache_holds] by simp
  obtain m0 where w: "cache_WriteMsg (cl_choice k) (cl_typed k) (cl_stored k) r res c = Some (c1, m0)"
    using assms(2,3,8) by (auto simp: Cache_ServeDNS_def Zones_Matches_def bind_eq_Some_conv)
  have c1: "cache_holds (hist @ [(k, r, res)]) c1"
    using cache_WriteMsg_holds [OF w cache_holds_mono [OF c], of "hist @ [(k, r, res)]"] by auto
  note stored = cache_WriteMsg_stores [OF c w assms(4-7)] and kept = cache_run_keeps [OF assms(9) c1 assms(10-12)]
  have live: "live ?i r' (cl_now k')" using stored_live [OF assms(4,5,19)] live_same_question [OF assms(13,14)] by simp
  have stale: "\<not> live i r' (cl_now k')" if "\<not> live i r (cl_now k)" for i
    using that live_earlier [OF _ assms(17)] live_same_question [OF assms(13,14)] by blast
  have found: "getIfNotStale (cl_now k') r' c' = Some ?i"
    using stored
  proof
    assume "store_Get ?key (dc_pcache c1) = Some ?i \<and> store_Get ?key (dc_ncache c1) = store_Get ?key (dc_ncache c)"
    then show ?thesis using kept live stale miss_not_live(2) [OF assms(2)]
      unfolding getIfNotStale_def request_key_def [symmetric] Let_def key by (auto split: option.splits)
  next
    assume "store_Get ?key (dc_ncache c1) = Some ?i \<and> store_Get ?key (dc_pcache c1) = store_Get ?key (dc_pcache c)"
    then show ?thesis using kept live stale miss_not_live(1) [OF assms(2)]
      unfolding getIfNotStale_def request_key_def [symmetric] Let_def key by (auto split: option.splits)
  qed
  let ?m = "toMsg ?i r' (cl_now k') (request_Do r') (m_AuthenticatedData r')"
  have "Cache_ServeDNS k' next c' network r' = Some (c', [?m])" for "next" network
    using found by (simp add: Cache_ServeDNS_def Zones_Matches_def)
  moreover have "is_reply r' ?m" "contents_of ?m = contents_of res" by (rule toMsg_stored)+
  moreover have "hdr_Ttl (rr_hdr x) > 0 \<and> (\<forall>y\<in>set (timed_records res).
      uint (hdr_Ttl (rr_hdr x)) + (cl_now k' - cl_stored k) div second \<le> max 5 (uint (hdr_Ttl (rr_hdr y))))"
    if "x \<in> set (timed_records ?m)" for x by (rule stored_reply_ttl [OF assms(5,18) live that])
  ultimately show ?thesis by blast
qed

definition example_asked :: msg where
  "example_asked = new_msg\<lparr>m_Id := 7, m_RecursionDesired := True, m_Question := [\<lparr>qn_Name = ''A.b.'', qn_Qtype = TypeA, qn_Qclass = ClassINET\<rparr>]\<rparr>"

definition example_got :: msg where
  "example_got = new_msg\<lparr>m_Response := True, m_Question := [\<lparr>qn_Name = ''a.b.'', qn_Qtype = TypeA, qn_Qclass = ClassINET\<rparr>],
     m_Answer := [OtherRR \<lparr>hdr_Name = ''a.b.'', hdr_Rrtype = TypeA, hdr_Class = ClassINET, hdr_Ttl = 60\<rparr> []]\<rparr>"

lemma example_written:
  fixes k :: cache_clock
  defines "k \<equiv> \<lparr>cl_now = 0, cl_typed = 0, cl_stored = 0, cl_choice = 0\<rparr>"
  shows "\<exists>c' m. cache_WriteMsg (cl_choice k) (cl_typed k) (cl_stored k) example_asked example_got c = Some (c', m)"
    "Match example_asked example_got" "Typify example_got (cl_typed k) = NoError" "cacheable (Typify example_got (cl_typed k))" "\<not> m_Truncated example_got"
proof -
  show "\<exists>c' m. cache_WriteMsg (cl_choice k) (cl_typed k) (cl_stored k) example_asked example_got c = Some (c', m)"
    by (rule cache_WriteMsg_total) (simp add: example_got_def)
  show "Match example_asked example_got" "\<not> m_Truncated example_got" by code_simp+
  show "Typify example_got (cl_typed k) = NoError" unfolding k_def by code_simp
  then show "cacheable (Typify example_got (cl_typed k))" by (simp add: cacheable_def)
qed

definition other_asked :: msg where
  "other_asked = new_msg\<lparr>m_Question := [\<lparr>qn_Name = ''c.d.'', qn_Qtype = TypeA, qn_Qclass = ClassINET\<rparr>]\<rparr>"

definition other_got :: msg where
  "other_got = new_msg\<lparr>m_Response := True, m_Question := [\<lparr>qn_Name = ''c.d.'', qn_Qtype = TypeA, qn_Qclass = ClassINET\<rparr>]\<rparr>"

lemma first_in_shard: "set (keys (sh_items (store_Add choice key x (store_New n) ! shard_of key'))) \<subseteq> {key}"
  using shard_of_bound [of key] shard_of_bound [of key']
  by (simp add: store_Add_def store_New_def newShard_def nth_list_update shard_Add_def evict_any_def Let_def)

theorem written_answer_found_witness:
  "\<exists>c1 out c2 m. Cache_ServeDNS \<lparr>cl_now = 0, cl_typed = 0, cl_stored = 0, cl_choice = 0\<rparr> (\<lambda>n q. [example_got]) NewCache UDP example_asked = Some (c1, out) \<and>
     cache_run c1 [(\<lparr>cl_now = 0, cl_typed = 0, cl_stored = 1000000000, cl_choice = 0\<rparr>, other_asked, other_got)] = Some c2 \<and>
     Cache_ServeDNS \<lparr>cl_now = 4000000000, cl_typed = 0, cl_stored = 0, cl_choice = 0\<rparr> (\<lambda>n q. []) c2 TCP (example_asked\<lparr>m_Id := 8\<rparr>) = Some (c2, [m]) \<and>
     contents_of m = contents_of example_got"
proof -
  let ?k = "\<lparr>cl_now = 0, cl_typed = 0, cl_stored = 0, cl_choice = 0\<rparr>" and ?k1 = "\<lparr>cl_now = 0, cl_typed = 0, cl_stored = 1000000000, cl_choice = 0\<rparr>"
    and ?k2 = "\<lparr>cl_now = 4000000000, cl_typed = 0, cl_stored = 0, cl_choice = 0\<rparr>" and ?r = "example_asked\<lparr>m_Id := 8\<rparr>"
  let ?later = "[(?k1, other_asked, other_got)]" and ?key = "request_key example_asked"
  have run: "cache_run NewCache [] = Some NewCache" by simp
  have miss: "getIfNotStale (cl_now ?k) example_asked NewCache = None"
    by (simp add: getIfNotStale_def NewCache_def sharded.get_empty Let_def)
  obtain c1 m0 where w: "cache_WriteMsg (cl_choice ?k) (cl_typed ?k) (cl_stored ?k) example_asked example_got NewCache = Some (c1, m0)"
    using example_written(1) by blast
  then have served: "Cache_ServeDNS ?k (\<lambda>n q. [example_got]) NewCache UDP example_asked = Some (c1, [m0])"
    using miss by (simp add: Cache_ServeDNS_def Zones_Matches_def)
  obtain c2 where c2: "cache_run c1 ?later = Some c2"
    using cache_WriteMsg_total [of other_got "cl_choice ?k1" "cl_typed ?k1" "cl_stored ?k1" other_asked c1] by (auto simp: other_got_def)
  have none: "keys (sh_items (store_New n ! shard_of ?key)) = []" for n
    using shard_of_bound [of ?key] by (simp add: store_New_def newShard_def)
  have one: "set (keys (sh_items (dc_pcache c1 ! shard_of ?key))) \<subseteq> {?key} \<and> set (keys (sh_items (dc_ncache c1 ! shard_of ?key))) \<subseteq> {?key}"
    using w by (cases rule: cache_WriteMsg_cases) (simp_all add: NewCache_def none first_in_shard del: set_map One_nat_def)
  have two: "card A \<le> 39" if "A \<subseteq> {a, b}" for A and a b :: "64 word"
    using card_mono [OF _ that] card_length [of "[a, b]"] by simp
  have sub: "shard_load ?later ?key s \<subseteq> {?key, request_key other_asked}" if "set (keys (sh_items (s ! shard_of ?key))) \<subseteq> {?key}" for s
    using that by (auto simp: shard_load_def simp del: set_map)
  have load: "card (shard_load ?later ?key (dc_pcache c1)) \<le> 39" "card (shard_load ?later ?key (dc_ncache c1)) \<le> 39"
    using two [OF sub [OF conjunct1 [OF one]]] two [OF sub [OF conjunct2 [OF one]]] by this
  have other: "\<forall>(k1, r1, res1)\<in>set ?later. request_key r1 \<noteq> ?key" by code_simp
  have "\<exists>m. (\<forall>next network. Cache_ServeDNS ?k2 next c2 network ?r = Some (c2, [m])) \<and> is_reply ?r m \<and> contents_of m = contents_of example_got \<and>
    (\<forall>x\<in>set (timed_records m). hdr_Ttl (rr_hdr x) > 0 \<and> (\<forall>y\<in>set (timed_records example_got).
       uint (hdr_Ttl (rr_hdr x)) + (cl_now ?k2 - cl_stored ?k) div second \<le> max 5 (uint (hdr_Ttl (rr_hdr y)))))"
    by (rule written_answer_found [OF run miss _ example_written(2,4,5) _ served c2 other load])
       (simp_all add: example_written(3) [simplified] request_Name_def QType_def request_Do_def IsEdns0_def)
  then show ?thesis using served c2 by blast
qed

lemma cache_hit_origin:
  assumes "cache_run NewCache hist = Some c" "getIfNotStale now r c = Some i"
  shows "\<exists>k0 r0 res. (k0, r0, res) \<in> set hist \<and> i = stored_item k0 r0 res \<and> live i r now \<and> cacheable (Typify res (cl_typed k0)) \<and>
    (Typify res (cl_typed k0) = NameError \<longrightarrow> hasSOA res) \<and> \<not> m_Truncated res \<and> request_Name r0 = request_Name r \<and> QType r0 = QType r \<and>
    request_Do r0 = request_Do r \<and> m_CheckingDisabled r0 = m_CheckingDisabled r"
proof -
  have "cache_holds hist c" using cache_run_holds [OF assms(1) NewCache_holds] by simp
  from getIfNotStale_held [OF assms(2) this] obtain k0 r0 res where w: "(k0, r0, res) \<in> set hist" "i = stored_item k0 r0 res"
    "request_key r = request_key r0" "cacheable (Typify res (cl_typed k0))" "Typify res (cl_typed k0) = NameError \<longrightarrow> hasSOA res"
    "\<not> m_Truncated res" "Match r0 res" "live i r now"
    by (auto simp: stems_from_def)
  then show ?thesis using stored_matches [of k0 r0 res r] unfolding live_def by blast
qed

lemma Cache_ServeDNS_hit:
  "getIfNotStale (cl_now k) r c = Some i \<Longrightarrow>
   Cache_ServeDNS k h c network r = Some (c, [toMsg i r (cl_now k) (request_Do r) (m_AuthenticatedData r)])"
  by (simp add: Cache_ServeDNS_def Zones_Matches_def)

text \<open>
  C10: What the cache answers: for every history of answers written, by any number of requests,
  a request answered from the cache gets one reply with the code and the records of an
  answer that was written for a request of the same name, type and flags. The time to live of
  its records is positive and, with the age of the answer, at most the least one the answer
  came with, or five seconds where that is less. The clock may lag behind the last write by
  less than a second.
\<close>

theorem cached_answers_genuine:
  assumes "cache_run NewCache hist = Some c" "getIfNotStale (cl_now k) r c \<noteq> None"
    and "\<forall>(k0, r0, res)\<in>set hist. cl_stored k0 < cl_now k + second"
  shows "\<exists>m. Cache_ServeDNS k next c network r = Some (c, [m]) \<and> is_reply r m \<and>
    (\<exists>(k0, r0, res)\<in>set hist. request_Name r0 = request_Name r \<and> QType r0 = QType r \<and> request_Do r0 = request_Do r \<and>
       m_CheckingDisabled r0 = m_CheckingDisabled r \<and> \<not> m_Truncated res \<and> contents_of m = contents_of res \<and>
       (\<forall>x\<in>set (timed_records m). hdr_Ttl (rr_hdr x) > 0 \<and> (\<forall>y\<in>set (timed_records res).
          uint (hdr_Ttl (rr_hdr x)) + (cl_now k - cl_stored k0) div second \<le> max 5 (uint (hdr_Ttl (rr_hdr y))))))"
proof -
  obtain i where i: "getIfNotStale (cl_now k) r c = Some i" using assms(2) by blast
  obtain k0 r0 res where w: "(k0, r0, res) \<in> set hist" "i = stored_item k0 r0 res" "live i r (cl_now k)"
    "cacheable (Typify res (cl_typed k0))" "\<not> m_Truncated res" "request_Name r0 = request_Name r" "QType r0 = QType r"
    "request_Do r0 = request_Do r" "m_CheckingDisabled r0 = m_CheckingDisabled r"
    using cache_hit_origin [OF assms(1) i] by blast
  let ?m = "toMsg i r (cl_now k) (request_Do r) (m_AuthenticatedData r)"
  have now: "cl_stored k0 < cl_now k + second" using assms(3) w(1) by auto
  have "Cache_ServeDNS k next c network r = Some (c, [?m])" by (rule Cache_ServeDNS_hit [OF i])
  moreover have "contents_of ?m = contents_of res" unfolding w(2) by (rule toMsg_stored)
  moreover have "hdr_Ttl (rr_hdr x) > 0 \<and> (\<forall>y\<in>set (timed_records res).
      uint (hdr_Ttl (rr_hdr x)) + (cl_now k - cl_stored k0) div second \<le> max 5 (uint (hdr_Ttl (rr_hdr y))))"
    if "x \<in> set (timed_records ?m)" for x
    by (rule stored_reply_ttl [OF w(4) now w(3) [unfolded w(2)] that [unfolded w(2)]])
  ultimately show ?thesis
    using w toMsg_stored(1) by blast
qed


theorem cached_answers_genuine_witness:
  "\<exists>c m. cache_run NewCache [(\<lparr>cl_now = 0, cl_typed = 0, cl_stored = 0, cl_choice = 0\<rparr>, example_asked, example_got)] = Some c \<and>
     Cache_ServeDNS \<lparr>cl_now = 10000000000, cl_typed = 0, cl_stored = 0, cl_choice = 0\<rparr> (\<lambda>n q. []) c UDP example_asked = Some (c, [m]) \<and>
     contents_of m = contents_of example_got \<and> (\<forall>x\<in>set (timed_records m). uint (hdr_Ttl (rr_hdr x)) + 10 \<le> 60)"
proof -
  let ?k = "\<lparr>cl_now = 0, cl_typed = 0, cl_stored = 0, cl_choice = 0\<rparr>"
  let ?l = "\<lparr>cl_now = 10000000000, cl_typed = 0, cl_stored = 0, cl_choice = 0\<rparr>"
  let ?hist = "[(?k, example_asked, example_got)]"
  obtain c m0 where w: "cache_WriteMsg (cl_choice ?k) (cl_typed ?k) (cl_stored ?k) example_asked example_got NewCache = Some (c, m0)"
    using example_written(1) by blast
  then have c: "cache_run NewCache ?hist = Some c" by simp
  have live: "live (stored_item ?k example_asked example_got) example_asked (cl_now ?l)" by code_simp
  have h: "getIfNotStale (cl_now ?l) example_asked c \<noteq> None"
    by (rule cache_WriteMsg_found [OF NewCache_holds w example_written(2,4,5) _ live refl]) (simp add: example_written(3) [simplified])
  have now: "\<forall>(k0, r0, res)\<in>set ?hist. cl_stored k0 < cl_now ?l + second" by simp
  obtain m where "Cache_ServeDNS ?l (\<lambda>n q. []) c UDP example_asked = Some (c, [m])" "contents_of m = contents_of example_got"
    "\<forall>x\<in>set (timed_records m). \<forall>y\<in>set (timed_records example_got).
       uint (hdr_Ttl (rr_hdr x)) + (cl_now ?l - cl_stored ?k) div second \<le> max 5 (uint (hdr_Ttl (rr_hdr y)))"
    using cached_answers_genuine [OF c h now, of "\<lambda>n q. []" UDP] by auto
  moreover have "timed_records example_got = [OtherRR \<lparr>hdr_Name = ''a.b.'', hdr_Rrtype = TypeA, hdr_Class = ClassINET, hdr_Ttl = 60\<rparr> []]"
    by code_simp
  ultimately show ?thesis using c by auto
qed

text \<open>The cache is bounded: 256 shards of 39 elements for each of its two stores.\<close>

lemma cache_bounded:
  assumes "cache_run NewCache hist = Some c"
  shows "store_Len (dc_pcache c) \<le> 9984" "store_Len (dc_ncache c) \<le> 9984"
  using cache_run_holds [OF assms NewCache_holds] store_Len_bound [of defaultCap "dc_pcache c"] store_Len_bound [of defaultCap "dc_ncache c"]
  by (auto simp: cache_holds_def sharded.holds_def)

section \<open>One answer for each\<close>

lemma Cache_ServeDNS_once:
  assumes "next network r = [m]" "m_Question m \<noteq> []"
  shows "\<exists>c' m'. Cache_ServeDNS k next c network r = Some (c', [m'])"
  using cache_WriteMsg_total [OF assms(2), of "cl_choice k" "cl_typed k" "cl_stored k" r c] assms(1)
  by (auto simp: Cache_ServeDNS_def split: option.split)

lemma cache_WriteMsg_contents:
  assumes "cache_WriteMsg choice typed stored r res c = Some (c', m)"
  shows "contents_of m = contents_of res" "m_Rcode m = m_Rcode res" "is_reply r' m = is_reply r' res" "m_Answer res = [] \<Longrightarrow> m_Answer m = []"
proof -
  have m: "m = capped_answer r res (answer_duration res (Typify res typed))"
    using assms by (auto simp: cache_WriteMsg_def Let_def split: option.splits)
  show "contents_of m = contents_of res" "m_Rcode m = m_Rcode res" "is_reply r' m = is_reply r' res" "m_Answer res = [] \<Longrightarrow> m_Answer m = []"
    unfolding m by (simp_all add: capped_answer_def contents_of_def is_reply_def filterRRSlice_def without_ttl_def filter_map comp_def Let_def)
qed

text \<open>
  An answer without a question is taken for a positive answer, and the question it does not
  have is read for its key: the program panics.
\<close>

theorem answer_without_question_panics:
  assumes "m_Question res = []" "m_Opcode res = OpcodeQuery" "m_Rcode res = RcodeSuccess" "\<not> m_Truncated res"
    and "\<not> request_Do res" "getIfNotStale (cl_now k) r c = None" "next network r = [res]"
  shows "Cache_ServeDNS k next c network r = None"
proof -
  have "Typify res t \<in> {NoError, NoData, Delegation}" for t using assms(1-5) by (simp add: Typify_def Let_def)
  then have "Typify res t = NoError \<or> Typify res t = NoData \<or> Typify res t = Delegation" for t by auto
  then have "cache_key n res (Typify res t) d cd = None" for n t d cd
    using assms(1,4) by (elim meta_allE [of _ t] disjE) (simp_all add: cache_key_def)
  then show ?thesis using assms(6,7) by (simp add: Cache_ServeDNS_def Zones_Matches_def cache_WriteMsg_def Let_def)
qed

text \<open>The cache around a handler, as it answers a request; a panic writes nothing.\<close>

definition coredns_cache :: "cache_clock \<Rightarrow> dns_cache \<Rightarrow> handler \<Rightarrow> handler" where
  "coredns_cache k c next network r = (case Cache_ServeDNS k next c network r of None \<Rightarrow> [] | Some (c', out) \<Rightarrow> out)"

end
