(* ===== verification/Metrics.thy ===== *)
theory Metrics
  imports Dns_Cache
begin

text \<open>
  The metrics (\<^verbatim>\<open>src/bosh-dns/dns/server/monitoring\<close>, \<^verbatim>\<open>dns/server/handlers/metrics_handler.go\<close>): the
  adapter that hands a request to the internal or the external handler and counts it, the
  metrics plugin of the vendored coredns around it, which records what is written, and the
  listener's life. The plugin's values are a list of what it reports, one entry per request,
  without the labels that come from the connection and without the duration.
\<close>

section \<open>The adapter\<close>

datatype request_type = Internal | External

record counters =
  cn_external :: nat
  cn_internal :: nat

definition NewRequestManager :: counters where
  "NewRequestManager = \<lparr>cn_external = 0, cn_internal = 0\<rparr>"

text \<open>The type comes from the context of the request, the handlers may be absent; the boolean says that there was an error.\<close>

definition pluginHandlerAdapter_ServeDNS ::
  "handler option \<Rightarrow> handler option \<Rightarrow> request_type option \<Rightarrow> network \<Rightarrow> msg \<Rightarrow> counters \<Rightarrow> (bool \<times> msg list) \<times> counters" where
  "pluginHandlerAdapter_ServeDNS internalHandler externalHandler v network m c =
     (case v of
        None \<Rightarrow> ((True, []), c)
      | Some t \<Rightarrow>
          (case (externalHandler, t) of
             (Some h, External) \<Rightarrow> ((False, h network m), c\<lparr>cn_external := cn_external c + 1\<rparr>)
           | _ \<Rightarrow>
               (case (internalHandler, t) of
                  (Some h, Internal) \<Rightarrow> ((False, h network m), c\<lparr>cn_internal := cn_internal c + 1\<rparr>)
                | _ \<Rightarrow> ((False, []), c))))"

section \<open>The plugin\<close>

record recorder =
  rw_Rcode :: int
  rw_Len :: nat
  rw_Msg :: "msg option"

definition NewRecorder :: recorder where
  "NewRecorder = \<lparr>rw_Rcode = 0, rw_Len = 0, rw_Msg = None\<rparr>"

definition Recorder_WriteMsg :: "msg \<Rightarrow> recorder \<Rightarrow> recorder" where
  "Recorder_WriteMsg res rw = rw\<lparr>rw_Rcode := m_Rcode res, rw_Len := rw_Len rw + Len res, rw_Msg := Some res\<rparr>"

definition ClientWrite :: "int \<Rightarrow> bool" where
  "ClientWrite rcode \<longleftrightarrow> rcode \<notin> {RcodeServerFailure, RcodeRefused, RcodeFormatError, 4}"

record report =
  rp_zone :: string
  rp_network :: network
  rp_qType :: "16 word"
  rp_do :: bool
  rp_rcode :: int
  rp_responseSize :: nat
  rp_requestSize :: nat

record metrics_state =
  ms_counters :: counters
  ms_reports :: "report list"

text \<open>
  The adapter returns the status 0 always, and the plugin has no zones. The size of the
  request is the one before the handlers ran.
\<close>

definition Metrics_ServeDNS ::
  "(request_type option \<Rightarrow> network \<Rightarrow> msg \<Rightarrow> counters \<Rightarrow> (bool \<times> msg list) \<times> counters) \<Rightarrow>
   request_type option \<Rightarrow> network \<Rightarrow> msg \<Rightarrow> metrics_state \<Rightarrow> (bool \<times> msg list) \<times> metrics_state" where
  "Metrics_ServeDNS next v network r s =
     (let originalSize = Len r;
          zone = (let z = Zones_Matches [] (QName r) in if z = '''' then ''.'' else z);
          ((err, out), c) = next v network r (ms_counters s);
          rw = fold Recorder_WriteMsg out NewRecorder;
          status = 0;
          rc = (if \<not> ClientWrite status then status else rw_Rcode rw);
          reqSize = (if originalSize > 0 then originalSize else Len r);
          rep = \<lparr>rp_zone = zone, rp_network = network, rp_qType = QType r, rp_do = request_Do r, rp_rcode = rc,
                 rp_responseSize = rw_Len rw, rp_requestSize = reqSize\<rparr>
      in ((err, out), \<lparr>ms_counters = c, ms_reports = ms_reports s @ [rep]\<rparr>))"

section \<open>The wrapper and the handler\<close>

definition MetricsServer where
  "MetricsServer internalDNSHandler externalDNSHandler =
     Metrics_ServeDNS (pluginHandlerAdapter_ServeDNS internalDNSHandler externalDNSHandler)"

definition MetricsDNSHandler_ServeDNS ::
  "(request_type option \<Rightarrow> network \<Rightarrow> msg \<Rightarrow> metrics_state \<Rightarrow> (bool \<times> msg list) \<times> metrics_state) \<Rightarrow> request_type \<Rightarrow>
   network \<Rightarrow> msg \<Rightarrow> metrics_state \<Rightarrow> msg list \<times> metrics_state" where
  "MetricsDNSHandler_ServeDNS report requestType network r s =
     (let ((err, out), s) = report (Some requestType) network r s in (out, s))"

text \<open>
  \<^verbatim>\<open>Run\<close>: the errors of the listener when it starts and when it ends are arguments. \<open>None\<close>: it
  has not returned.
\<close>

definition MetricsServerWrapper_Run :: "string option \<Rightarrow> bool \<Rightarrow> string option \<Rightarrow> string option option" where
  "MetricsServerWrapper_Run onStartup isClosed onFinalShutdown =
     (case onStartup of
        Some e \<Rightarrow> Some (Some (''setting up the metrics listener: '' @ e))
      | None \<Rightarrow>
          if \<not> isClosed then None
          else (case onFinalShutdown of
                  Some e \<Rightarrow> Some (Some (''tearing down the metrics listener: '' @ e))
                | None \<Rightarrow> Some None))"

section \<open>What the metrics show\<close>

text \<open>The handlers answer as they do without metrics.\<close>

lemma metrics_transparent:
  "fst (MetricsDNSHandler_ServeDNS (MetricsServer (Some internal) (Some external)) t network r s) =
     (case t of Internal \<Rightarrow> internal network r | External \<Rightarrow> external network r)"
  by (cases t) (simp_all add: MetricsDNSHandler_ServeDNS_def MetricsServer_def Metrics_ServeDNS_def pluginHandlerAdapter_ServeDNS_def Let_def)

lemma recorder_fold:
  "rw_Rcode (fold Recorder_WriteMsg out rw) = (if out = [] then rw_Rcode rw else m_Rcode (last out))"
  "rw_Len (fold Recorder_WriteMsg out rw) = rw_Len rw + sum_list (map Len out)"
  by (induction out arbitrary: rw) (auto simp: Recorder_WriteMsg_def)

text \<open>A run: requests of both types, one after the other, each served by the handlers as they are then.\<close>

type_synonym served = "request_type \<times> network \<times> msg \<times> handler \<times> handler"

fun metrics_run :: "served list \<Rightarrow> metrics_state \<Rightarrow> msg list list \<times> metrics_state" where
  "metrics_run [] s = ([], s)"
| "metrics_run ((t, network, r, internal, external) # rs) s =
     (let (out, s) = MetricsDNSHandler_ServeDNS (MetricsServer (Some internal) (Some external)) t network r s;
          (outs, s) = metrics_run rs s
      in (out # outs, s))"

fun served_report :: "served \<Rightarrow> msg list \<Rightarrow> report" where
  "served_report (t, network, r, internal, external) out =
     \<lparr>rp_zone = ''.'', rp_network = network, rp_qType = QType r, rp_do = request_Do r,
      rp_rcode = (if out = [] then RcodeSuccess else m_Rcode (last out)), rp_responseSize = sum_list (map Len out), rp_requestSize = Len r\<rparr>"

fun served_by :: "served \<Rightarrow> msg list" where
  "served_by (t, network, r, internal, external) = (case t of Internal \<Rightarrow> internal network r | External \<Rightarrow> external network r)"

text \<open>
  C35: Over any requests, the metrics observe and do not interfere: the clients get what the
  handlers write, every request is counted once under its type, and reported with the code
  of the last message written for it, the size of all of them and the size of the request.
\<close>

theorem metrics_observe:
  "metrics_run rs s =
     (map served_by rs,
      \<lparr>ms_counters = \<lparr>cn_external = cn_external (ms_counters s) + length (filter (\<lambda>x. fst x = External) rs),
                      cn_internal = cn_internal (ms_counters s) + length (filter (\<lambda>x. fst x = Internal) rs)\<rparr>,
       ms_reports = ms_reports s @ map (\<lambda>x. served_report x (served_by x)) rs\<rparr>)"
proof (induction rs arbitrary: s)
  case Nil
  then show ?case by simp
next
  case (Cons x rs)
  obtain t network r internal external where x: "x = (t, network, r, internal, external)" by (metis prod.exhaust)
  then show ?case
    using Cons.IH
    by (cases t) (simp_all add: MetricsDNSHandler_ServeDNS_def MetricsServer_def Metrics_ServeDNS_def pluginHandlerAdapter_ServeDNS_def
        ClientWrite_def Zones_Matches_def NewRecorder_def recorder_fold Let_def)
qed

end
