(* ===== verification/Server.thy ===== *)
theory Server
  imports Serve_Mux File_Reader Resolv_Conf Health_Monitor Metrics
begin

text \<open>
  The process (\<^verbatim>\<open>src/bosh-dns/dns/server/{server,upcheck}.go\<close>, \<^verbatim>\<open>dns/main.go\<close>): upchecks that ask the server itself, waiting until all have passed,
  watching them while it serves, and the shutdown. The goroutines are state machines and a
  run is the sequence of their steps, so every interleaving and every choice of a \<open>select\<close> is
  one; a closed channel that is closed again is a panic.
\<close>

section \<open>Upchecks\<close>

record upcheck =
  uc_target :: string
  uc_domain :: string
  uc_network :: string
  uc_qType :: "16 word"
  uc_checkAnswerRecord :: bool

definition NewDNSAnswerValidatingUpcheck :: "string \<Rightarrow> string \<Rightarrow> string \<Rightarrow> upcheck" where
  "NewDNSAnswerValidatingUpcheck target domain net =
     \<lparr>uc_target = target, uc_domain = domain, uc_network = net, uc_qType = TypeA, uc_checkAnswerRecord = True\<rparr>"

definition NewInternalDNSAnswerValidatingUpcheck :: "string \<Rightarrow> string \<Rightarrow> string \<Rightarrow> upcheck" where
  "NewInternalDNSAnswerValidatingUpcheck target domain net =
     \<lparr>uc_target = target, uc_domain = domain, uc_network = net, uc_qType = TypeANY, uc_checkAnswerRecord = False\<rparr>"

datatype upcheck_error = BadTarget string | ExchangeFailed | ResolveFailed | NoAnswers | NoARecord | WrongAnswer

definition determineHost :: "string \<Rightarrow> string + string" where
  "determineHost target =
     (case SplitHostPort target of
        Inl e \<Rightarrow> Inl e
      | Inr (host, port) \<Rightarrow> Inr (if host = ''0.0.0.0'' then JoinHostPort ''127.0.0.1'' port else target))"

text \<open>\<^verbatim>\<open>IP.Equal\<close>: an IPv4 address equals its IPv4-mapped form.\<close>

definition IP_Equal :: "go_ip \<Rightarrow> go_ip \<Rightarrow> bool" where
  "IP_Equal a b =
     (let x = (case a of None \<Rightarrow> [] | Some x \<Rightarrow> x); y = (case b of None \<Rightarrow> [] | Some y \<Rightarrow> y) in
      if length x = length y then x = y
      else if length x = 4 \<and> length y = 16 then take 12 y = v4_prefix \<and> x = drop 12 y
      else if length x = 16 \<and> length y = 4 then take 12 x = v4_prefix \<and> y = drop 12 x
      else False)"

definition upcheck_request :: "upcheck \<Rightarrow> 16 word \<Rightarrow> msg" where
  "upcheck_request uc rid =
     new_msg\<lparr>m_Id := rid, m_Question := [\<lparr>qn_Name = uc_domain uc, qn_Qtype = uc_qType uc, qn_Qclass = 0\<rparr>]\<rparr>"

text \<open>\<open>exchange\<close> sends a request to a target over a network.\<close>

definition IsUp :: "(string \<Rightarrow> msg \<Rightarrow> string \<Rightarrow> msg option) \<Rightarrow> 16 word \<Rightarrow> upcheck \<Rightarrow> upcheck_error option" where
  "IsUp exchange rid uc =
     (case determineHost (uc_target uc) of
        Inl e \<Rightarrow> Some (BadTarget e)
      | Inr target \<Rightarrow>
          (case exchange (uc_network uc) (upcheck_request uc rid) target of
             None \<Rightarrow> Some ExchangeFailed
           | Some m \<Rightarrow>
               if m_Rcode m \<noteq> RcodeSuccess then Some ResolveFailed
               else if length (m_Answer m) = 0 then Some NoAnswers
               else if uc_checkAnswerRecord uc then
                 (case m_Answer m ! 0 of
                    RR_A h a \<Rightarrow> if \<not> IP_Equal a (ParseIP ''127.0.0.1'') then Some WrongAnswer else None
                  | _ \<Rightarrow> Some NoARecord)
               else None))"

section \<open>Waiting for the upchecks\<close>

text \<open>
  Where the goroutines are while \<^verbatim>\<open>Run\<close> waits: an upcheck is in its loop, behind it but not yet at
  \<^verbatim>\<open>wg.Done()\<close>, or has ended; the goroutine that closes \<open>done\<close> waits for the group, is about to
  close, or has ended; a listener serves, sends what it returned on the unbuffered channel, or
  has been received; \<^verbatim>\<open>Run\<close> is at its \<open>select\<close>, has gone on, or has returned.
\<close>

datatype upcheck_pc = Trying | Passed_once | Upcheck_ended

datatype waiter_pc = Group_wait | Closing_done | Waiter_ended

datatype listener_pc = Serving | Sending "string option" | Sent

datatype run_pc = Selecting | Ready | Run_returned "string option" | Panicked

record starting =
  st_upchecks :: "upcheck_pc list"
  st_wg :: int
  st_waiter :: waiter_pc
  st_done :: bool
  st_listeners :: "listener_pc list"
  st_timer :: bool
  st_run :: run_pc

text \<open>
  What happens: upcheck \<open>i\<close> returns from \<^verbatim>\<open>IsUp\<close>, listener \<open>j\<close> ends, the timer fires; then the
  steps of the goroutines, and which of the ready cases the \<open>select\<close> takes.
\<close>

datatype start_event =
    Tried nat bool
  | Listener_ended nat "string option"
  | TimeUp
  | Wg_Done nat
  | Wg_Wait
  | Close_done
  | Take_err nat
  | Take_timeout
  | Take_done

definition listenAndServe :: "nat \<Rightarrow> starting \<Rightarrow> starting" where
  "listenAndServe m st = st\<lparr>st_listeners := replicate m Serving\<rparr>"

definition doUpchecks :: "nat \<Rightarrow> starting \<Rightarrow> starting" where
  "doUpchecks n st =
     (let st = st\<lparr>st_wg := int n\<rparr> in
      if n = 0 then st\<lparr>st_done := True, st_waiter := Waiter_ended\<rparr>
      else st\<lparr>st_waiter := Group_wait, st_upchecks := replicate n Trying\<rparr>)"

definition Run_start :: "nat \<Rightarrow> nat \<Rightarrow> starting" where
  "Run_start n m = doUpchecks n (listenAndServe m
     \<lparr>st_upchecks = [], st_wg = 0, st_waiter = Waiter_ended, st_done = False, st_listeners = [], st_timer = False, st_run = Selecting\<rparr>)"

text \<open>The cases of the \<open>select\<close> of \<^verbatim>\<open>Run\<close>, each taken only when it is ready.\<close>

definition select_err :: "nat \<Rightarrow> starting \<Rightarrow> starting" where
  "select_err j st =
     (if st_run st = Selecting \<and> j < length (st_listeners st) then
        case st_listeners st ! j of
          Sending e \<Rightarrow> st\<lparr>st_listeners := (st_listeners st)[j := Sent], st_run := Run_returned e\<rparr>
        | _ \<Rightarrow> st
      else st)"

definition select_timeout :: "starting \<Rightarrow> starting" where
  "select_timeout st =
     (if st_run st = Selecting \<and> st_timer st
      then st\<lparr>st_run := Run_returned (Some ''timed out waiting for server to bind'')\<rparr> else st)"

definition select_done :: "starting \<Rightarrow> starting" where
  "select_done st = (if st_run st = Selecting \<and> st_done st then st\<lparr>st_run := Ready\<rparr> else st)"

declare select_err_def [simp] select_timeout_def [simp] select_done_def [simp]

text \<open>
  A step. Events that cannot happen where a goroutine is leave the state; a negative
  counter of the group and a channel closed twice are panics.
\<close>

fun start_step :: "start_event \<Rightarrow> starting \<Rightarrow> starting" where
  "start_step (Tried i up) st =
     (if i < length (st_upchecks st) \<and> st_upchecks st ! i = Trying \<and> up
      then st\<lparr>st_upchecks := (st_upchecks st)[i := Passed_once]\<rparr> else st)"
| "start_step (Listener_ended j e) st =
     (if j < length (st_listeners st) \<and> st_listeners st ! j = Serving
      then st\<lparr>st_listeners := (st_listeners st)[j := Sending e]\<rparr> else st)"
| "start_step TimeUp st = st\<lparr>st_timer := True\<rparr>"
| "start_step (Wg_Done i) st =
     (if i < length (st_upchecks st) \<and> st_upchecks st ! i = Passed_once then
        let st = st\<lparr>st_wg := st_wg st - 1, st_upchecks := (st_upchecks st)[i := Upcheck_ended]\<rparr>
        in if st_wg st < 0 then st\<lparr>st_run := Panicked\<rparr> else st
      else st)"
| "start_step Wg_Wait st =
     (if st_waiter st = Group_wait \<and> st_wg st = 0 then st\<lparr>st_waiter := Closing_done\<rparr> else st)"
| "start_step Close_done st =
     (if st_waiter st = Closing_done then
        let st' = st\<lparr>st_done := True, st_waiter := Waiter_ended\<rparr>
        in if st_done st then st'\<lparr>st_run := Panicked\<rparr> else st'
      else st)"
| "start_step (Take_err j) st = select_err j st"
| "start_step Take_timeout st = select_timeout st"
| "start_step Take_done st = select_done st"

section \<open>Watching the upchecks\<close>

text \<open>
  Where the goroutine of an upcheck is: in its loop with a number of failures, about to close
  the channel, about to clear the shared variable, or returned.
\<close>

datatype watch_pc = Loop nat | Closing | Clearing | Gone

record watch =
  wa_pcs :: "watch_pc list"
  wa_closed :: bool
  wa_nil :: bool

datatype watch_event = Failed nat | Passed nat | Close nat | Clear nat | SigTerm

definition limit :: nat where "limit = 5"

text \<open>
  A step, and \<open>None\<close> for a panic. The variable \<^verbatim>\<open>s.shutdownChan\<close> is shared by the goroutines
  of \<^verbatim>\<open>monitorUpchecks\<close> and read without a lock; \<^verbatim>\<open>main\<close> closes the channel on SIGTERM.
  Events that cannot happen where a goroutine is leave the state.
\<close>

fun watch_step :: "watch_event \<Rightarrow> watch \<Rightarrow> watch option" where
  "watch_step (Failed i) w =
     (if i < length (wa_pcs w) then
        case wa_pcs w ! i of
          Loop danger \<Rightarrow>
            Some (w\<lparr>wa_pcs := (wa_pcs w)[i := (if danger + 1 \<ge> limit \<and> \<not> wa_nil w then Closing else Loop (danger + 1))]\<rparr>)
        | _ \<Rightarrow> Some w
      else Some w)"
| "watch_step (Passed i) w =
     (if i < length (wa_pcs w) then
        case wa_pcs w ! i of Loop danger \<Rightarrow> Some (w\<lparr>wa_pcs := (wa_pcs w)[i := Loop 0]\<rparr>) | _ \<Rightarrow> Some w
      else Some w)"
| "watch_step (Close i) w =
     (if i < length (wa_pcs w) \<and> wa_pcs w ! i = Closing then
        if wa_closed w then None else Some (w\<lparr>wa_closed := True, wa_pcs := (wa_pcs w)[i := Clearing]\<rparr>)
      else Some w)"
| "watch_step (Clear i) w =
     (if i < length (wa_pcs w) \<and> wa_pcs w ! i = Clearing then Some (w\<lparr>wa_nil := True, wa_pcs := (wa_pcs w)[i := Gone]\<rparr>)
      else Some w)"
| "watch_step SigTerm w = (if wa_closed w then None else Some (w\<lparr>wa_closed := True\<rparr>))"

fun watch_run :: "watch_event list \<Rightarrow> watch \<Rightarrow> watch option" where
  "watch_run [] w = Some w"
| "watch_run (e # es) w = Option.bind (watch_step e w) (watch_run es)"

definition monitorUpchecks :: "nat \<Rightarrow> watch" where
  "monitorUpchecks n = \<lparr>wa_pcs = replicate n (Loop 0), wa_closed = False, wa_nil = False\<rparr>"

text \<open>The errors of the listeners in the order in which they shut down; the first is returned.\<close>

definition Server_shutdown :: "string option list \<Rightarrow> string option" where
  "Server_shutdown errs = (case find (\<lambda>e. e \<noteq> None) errs of None \<Rightarrow> None | Some e \<Rightarrow> e)"

text \<open>\<^verbatim>\<open>Run\<close>: what it returned before it was ready, or what the shutdown returns once the channel is
  closed, which the watch and SIGTERM do.\<close>

datatype server_result = Running | Server_panic | Server_returned "string option"

definition Server_Run :: "nat \<Rightarrow> nat \<Rightarrow> start_event list \<Rightarrow> watch_event list \<Rightarrow> string option list \<Rightarrow> server_result" where
  "Server_Run numUpchecks numServers events watching errs =
     (case st_run (fold start_step events (Run_start numUpchecks numServers)) of
        Selecting \<Rightarrow> Running
      | Panicked \<Rightarrow> Server_panic
      | Run_returned r \<Rightarrow> Server_returned r
      | Ready \<Rightarrow>
          (case watch_run watching (monitorUpchecks numUpchecks) of
             None \<Rightarrow> Server_panic
           | Some w \<Rightarrow> if wa_closed w then Server_returned (Server_shutdown errs) else Running))"

section \<open>What main starts\<close>

definition listenAddrs :: "config \<Rightarrow> address_config list \<Rightarrow> string list" where
  "listenAddrs c addresses =
     (c_Address c @ '':'' @ itoa_int (c_Port c)) # map (\<lambda>a. ac_Address a @ '':'' @ itoa_int (ac_Port a)) addresses"

definition listenIPs :: "config \<Rightarrow> address_config list \<Rightarrow> string list" where
  "listenIPs c addresses = c_Address c # map ac_Address addresses"

definition addr_upchecks :: "config \<Rightarrow> string \<Rightarrow> string \<Rightarrow> upcheck list" where
  "addr_upchecks c domain addr =
     [NewDNSAnswerValidatingUpcheck addr domain ''udp'', NewDNSAnswerValidatingUpcheck addr domain ''tcp'']
     @ (if iu_Enabled (c_InternalUpcheckDomain c) then
          [NewInternalDNSAnswerValidatingUpcheck addr (iu_DNSQuery (c_InternalUpcheckDomain c)) ''udp'',
           NewInternalDNSAnswerValidatingUpcheck addr (iu_DNSQuery (c_InternalUpcheckDomain c)) ''tcp'']
        else [])"

definition upchecks :: "config \<Rightarrow> string list \<Rightarrow> upcheck list" where
  "upchecks c addrs = concat (map (\<lambda>domain. concat (map (addr_upchecks c domain) addrs)) (c_UpcheckDomains c))"

record dns_server =
  ds_Addr :: string
  ds_Net :: string
  ds_Timeout :: int
  ds_UDPSize :: int

definition servers :: "nat \<Rightarrow> config \<Rightarrow> string list \<Rightarrow> dns_server list" where
  "servers numListeners c addrs =
     concat (map (\<lambda>addr. concat (replicate numListeners
       [\<lparr>ds_Addr = addr, ds_Net = ''tcp'', ds_Timeout = c_RequestTimeout c, ds_UDPSize = 0\<rparr>,
        \<lparr>ds_Addr = addr, ds_Net = ''udp'', ds_Timeout = c_RequestTimeout c, ds_UDPSize = 65535\<rparr>])) addrs)"


section \<open>When the server is ready\<close>

definition group_ok :: "start_event list \<Rightarrow> nat \<Rightarrow> starting \<Rightarrow> bool" where
  "group_ok es n st \<longleftrightarrow> length (st_upchecks st) = n \<and>
     (\<forall>i<n. st_upchecks st ! i = Trying \<longleftrightarrow> Tried i True \<notin> set es) \<and>
     st_wg st = int (length (filter (\<lambda>p. p \<noteq> Upcheck_ended) (st_upchecks st)))"

definition done_ok :: "starting \<Rightarrow> bool" where
  "done_ok st \<longleftrightarrow> (st_waiter st \<noteq> Group_wait \<longrightarrow> st_wg st = 0) \<and> (st_done st \<longleftrightarrow> st_waiter st = Waiter_ended)"

definition ends_ok :: "start_event list \<Rightarrow> nat \<Rightarrow> starting \<Rightarrow> bool" where
  "ends_ok es m st \<longleftrightarrow> length (st_listeners st) = m \<and> (st_timer st \<longrightarrow> TimeUp \<in> set es) \<and>
     (\<forall>j<m. \<forall>r. st_listeners st ! j = Sending r \<longrightarrow> Listener_ended j r \<in> set es)"

definition run_ok :: "start_event list \<Rightarrow> nat \<Rightarrow> starting \<Rightarrow> bool" where
  "run_ok es m st \<longleftrightarrow>
     (case st_run st of
        Selecting \<Rightarrow> True
      | Ready \<Rightarrow> st_done st
      | Run_returned r \<Rightarrow> r = Some ''timed out waiting for server to bind'' \<and> TimeUp \<in> set es \<or> (\<exists>j<m. Listener_ended j r \<in> set es)
      | Panicked \<Rightarrow> False)"

definition start_ok :: "start_event list \<Rightarrow> nat \<Rightarrow> nat \<Rightarrow> starting \<Rightarrow> bool" where
  "start_ok es n m st \<longleftrightarrow> group_ok es n st \<and> done_ok st \<and> ends_ok es m st \<and> run_ok es m st"

lemma start_ok_Run: "start_ok [] n m (Run_start n m)"
  by (simp add: start_ok_def group_ok_def done_ok_def ends_ok_def run_ok_def Run_start_def doUpchecks_def listenAndServe_def Let_def)

lemma filter_update:
  assumes "i < length xs" "P (xs ! i)"
  shows "length (filter P (xs[i := y])) + 1 = length (filter P xs) + (if P y then 1 else 0)"
  using assms
proof (induction xs arbitrary: i)
  case (Cons x xs)
  then show ?case by (cases i) auto
qed simp

lemma group_counts:
  assumes "group_ok es n st" "i < length (st_upchecks st)" "st_upchecks st ! i = Passed_once"
  shows "st_wg st > 0"
    "int (length (filter (\<lambda>p. p \<noteq> Upcheck_ended) ((st_upchecks st)[i := Upcheck_ended]))) = st_wg st - 1"
  using assms filter_update [of i "st_upchecks st" "\<lambda>p. p \<noteq> Upcheck_ended" Upcheck_ended] by (auto simp: group_ok_def)

lemma group_ok_step: "group_ok es n st \<Longrightarrow> group_ok (es @ [e]) n (start_step e st)"
proof (cases e)
  case (Tried i up)
  assume g: "group_ok es n st"
  show ?thesis
  proof (cases "i < length (st_upchecks st) \<and> st_upchecks st ! i = Trying \<and> up")
    case True
    then show ?thesis using g Tried filter_update [of i "st_upchecks st" "\<lambda>p. p \<noteq> Upcheck_ended" Passed_once]
      by (auto simp: group_ok_def nth_list_update)
  next
    case False
    then have "start_step e st = st" using Tried by auto
    then show ?thesis using False g Tried by (auto simp: group_ok_def)
  qed
next
  case (Wg_Done i)
  assume g: "group_ok es n st"
  show ?thesis
  proof (cases "i < length (st_upchecks st) \<and> st_upchecks st ! i = Passed_once")
    case True
    with g Wg_Done group_counts [OF g, of i] show ?thesis by (auto simp: group_ok_def nth_list_update Let_def)
  qed (use g Wg_Done in \<open>auto simp: group_ok_def\<close>)
qed (auto simp: group_ok_def Let_def split: listener_pc.splits)

lemma done_ok_step: "group_ok es n st \<Longrightarrow> done_ok st \<Longrightarrow> done_ok (start_step e st)"
  using group_counts(1) [of es n st] by (cases e) (fastforce simp: done_ok_def Let_def split: listener_pc.splits)+

lemma ends_ok_step: "ends_ok es m st \<Longrightarrow> ends_ok (es @ [e]) m (start_step e st)"
  by (cases e) (auto simp: ends_ok_def nth_list_update Let_def split: listener_pc.splits if_splits)

lemma run_ok_step:
  assumes "group_ok es n st" "done_ok st" "ends_ok es m st" "run_ok es m st"
  shows "run_ok (es @ [e]) m (start_step e st)"
proof -
  have later: "run_ok (es @ [e]) m st" using assms(4) by (auto simp: run_ok_def split: run_pc.splits)
  show ?thesis
  proof (cases e)
    case (Wg_Done i)
    then have "st_run (start_step e st) = st_run st" "st_done (start_step e st) = st_done st"
      using group_counts(1) [OF assms(1), of i] by (auto simp: Let_def)
    then show ?thesis using later by (auto simp: run_ok_def split: run_pc.splits)
  next
    case Close_done
    then show ?thesis using later assms(2) by (auto simp: run_ok_def done_ok_def Let_def split: run_pc.splits)
  next
    case (Take_err j)
    then show ?thesis using later assms(3) by (auto simp: run_ok_def ends_ok_def split: listener_pc.splits)
  next
    case Take_timeout
    then show ?thesis using later assms(3) by (auto simp: run_ok_def ends_ok_def)
  qed (use later in \<open>auto simp: run_ok_def split: run_pc.splits\<close>)
qed

lemma start_ok_step: "start_ok es n m st \<Longrightarrow> start_ok (es @ [e]) n m (start_step e st)"
  unfolding start_ok_def using group_ok_step done_ok_step ends_ok_step run_ok_step by blast

lemma start_ok_fold: "start_ok past n m st \<Longrightarrow> start_ok (past @ es) n m (fold start_step es st)"
proof (induction es arbitrary: past st)
  case (Cons e es)
  from Cons.IH [OF start_ok_step [OF Cons.prems]] show ?case by simp
qed simp

text \<open>The steps of the goroutines themselves: not the answers of the upchecks, the ends of the listeners and the timer.\<close>

fun goroutine_step :: "start_event \<Rightarrow> bool" where
  "goroutine_step (Tried i up) = False"
| "goroutine_step (Listener_ended j e) = False"
| "goroutine_step TimeUp = False"
| "goroutine_step e = True"

fun moving :: "start_event list \<Rightarrow> starting \<Rightarrow> bool" where
  "moving [] st = True"
| "moving (e # es) st \<longleftrightarrow> goroutine_step e \<and> start_step e st \<noteq> st \<and> moving es (start_step e st)"

definition start_work :: "starting \<Rightarrow> nat" where
  "start_work st = length (filter (\<lambda>p. p = Passed_once) (st_upchecks st)) +
     (case st_waiter st of Group_wait \<Rightarrow> 2 | Closing_done \<Rightarrow> 1 | Waiter_ended \<Rightarrow> 0) + (if st_run st = Selecting then 1 else 0)"

lemma own_step_work: "goroutine_step e \<Longrightarrow> start_step e st \<noteq> st \<Longrightarrow> start_work (start_step e st) < start_work st"
proof (cases e)
  case (Wg_Done i)
  assume "start_step e st \<noteq> st"
  then have i: "i < length (st_upchecks st)" "st_upchecks st ! i = Passed_once" using Wg_Done by (auto split: if_splits)
  then have "length (filter (\<lambda>p. p = Passed_once) ((st_upchecks st)[i := Upcheck_ended])) < length (filter (\<lambda>p. p = Passed_once) (st_upchecks st))"
    using filter_update [of i "st_upchecks st" "\<lambda>p. p = Passed_once" Upcheck_ended] by simp
  then show ?thesis using Wg_Done i by (auto simp: start_work_def Let_def split: waiter_pc.splits)
qed (auto simp: start_work_def Let_def split: if_splits listener_pc.splits)

lemma moving_bound: "moving es st \<Longrightarrow> length es \<le> start_work st"
proof (induction es arbitrary: st)
  case (Cons e es)
  then show ?case using own_step_work [of e st] by fastforce
qed simp

lemma start_work_bound: "start_ok es n m st \<Longrightarrow> start_work st \<le> n + 3"
  using length_filter_le [of "\<lambda>p. p = Passed_once" "st_upchecks st"]
  by (auto simp: start_ok_def group_ok_def start_work_def split: waiter_pc.splits)

text \<open>Every upcheck has passed: the group is empty once no goroutine is left before \<^verbatim>\<open>wg.Done()\<close>.\<close>

lemma group_empty_iff: "group_ok es n st \<Longrightarrow> st_wg st = 0 \<longleftrightarrow> (\<forall>i<n. st_upchecks st ! i = Upcheck_ended)"
  by (auto simp: group_ok_def filter_empty_conv all_set_conv_all_nth)

lemma all_passed: "group_ok es n st \<Longrightarrow> \<forall>i<n. Tried i True \<in> set es \<Longrightarrow> i < n \<Longrightarrow> st_upchecks st ! i \<noteq> Passed_once \<Longrightarrow> st_upchecks st ! i = Upcheck_ended"
  by (cases "st_upchecks st ! i") (auto simp: group_ok_def)

lemma start_progress:
  assumes "start_ok es n m st" "\<forall>i<n. Tried i True \<in> set es" "st_run st = Selecting"
  shows "\<exists>e. goroutine_step e \<and> start_step e st \<noteq> st \<and> st_run (start_step e st) \<in> {Selecting, Ready}"
proof -
  have ok: "group_ok es n st" "done_ok st" using assms(1) by (auto simp: start_ok_def)
  consider i where "i < length (st_upchecks st)" "st_upchecks st ! i = Passed_once" | "st_wg st = 0"
    using group_empty_iff [OF ok(1)] all_passed [OF ok(1) assms(2)] ok(1) by (auto simp: group_ok_def)
  then show ?thesis
  proof cases
    case (1 i)
    let ?s = "start_step (Wg_Done i) st"
    have "st_upchecks ?s ! i = Upcheck_ended" "st_run ?s = Selecting"
      using 1 assms(3) group_counts(1) [OF ok(1) 1] by (simp_all add: Let_def)
    moreover from this have "?s \<noteq> st" using 1(2) by (metis upcheck_pc.distinct(5))
    ultimately show ?thesis by (intro exI [of _ "Wg_Done i"] conjI) simp_all
  next
    case 2
    show ?thesis
    proof (cases "st_waiter st")
      case Group_wait
      then have "start_step Wg_Wait st = st\<lparr>st_waiter := Closing_done\<rparr>" using 2 by simp
      moreover from this Group_wait have "start_step Wg_Wait st \<noteq> st" by (metis starting.select_convs(3) starting.surjective starting.update_convs(3) waiter_pc.distinct(1))
      ultimately show ?thesis using assms(3) by (intro exI [of _ Wg_Wait] conjI) simp_all
    next
      case Closing_done
      let ?s = "start_step Close_done st"
      have "st_waiter ?s = Waiter_ended" "st_run ?s = Selecting" using Closing_done ok(2) assms(3) by (simp_all add: Let_def done_ok_def)
      moreover from this have "?s \<noteq> st" using Closing_done by (metis waiter_pc.distinct(5))
      ultimately show ?thesis by (intro exI [of _ Close_done] conjI) simp_all
    next
      case Waiter_ended
      then have "st_run (start_step Take_done st) = Ready" using assms(3) ok(2) by (simp add: done_ok_def)
      moreover from this have "start_step Take_done st \<noteq> st" using assms(3) by (metis run_pc.distinct(1))
      ultimately show ?thesis by (intro exI [of _ Take_done] conjI) simp_all
    qed
  qed
qed

lemma can_be_ready:
  "start_ok es n m st \<Longrightarrow> \<forall>i<n. Tried i True \<in> set es \<Longrightarrow> st_run st = Selecting \<Longrightarrow>
   \<exists>steps. moving steps st \<and> st_run (fold start_step steps st) = Ready"
proof (induction "start_work st" arbitrary: es st rule: less_induct)
  case less
  obtain e where e: "goroutine_step e" "start_step e st \<noteq> st" "st_run (start_step e st) \<in> {Selecting, Ready}"
    using start_progress [OF less.prems] by blast
  have ok: "start_ok (es @ [e]) n m (start_step e st)" by (rule start_ok_step [OF less.prems(1)])
  show ?case
  proof (cases "st_run (start_step e st) = Ready")
    case True
    with e show ?thesis by (intro exI [of _ "[e]"]) simp
  next
    case False
    with e less.hyps [OF own_step_work [OF e(1,2)] ok] less.prems(2) obtain steps
      where "moving steps (start_step e st)" "st_run (fold start_step steps (start_step e st)) = Ready" by auto
    with e show ?thesis by (intro exI [of _ "e # steps"]) simp
  qed
qed

text \<open>
  C33: The start, over every interleaving of the goroutines and every choice of the \<open>select\<close>:
  nothing panics; the server goes on only after every upcheck has passed; \<^verbatim>\<open>Run\<close> returns early
  only with what a listener returned, or for the timeout after the timer has fired. Once every
  upcheck has passed and while \<^verbatim>\<open>Run\<close> still waits, some goroutine can move and the server can
  become ready, also when a listener's error or the timer is ready too; and however the goroutines
  are scheduled they make at most three steps more than there are upchecks, unless an upcheck
  answers, a listener ends or the timer fires.
\<close>

theorem ready_after_upchecks:
  assumes "st = fold start_step es (Run_start n m)"
  shows "st_run st \<noteq> Panicked \<and>
    (st_run st = Ready \<longrightarrow> (\<forall>i<n. Tried i True \<in> set es)) \<and>
    (\<forall>r. st_run st = Run_returned r \<longrightarrow>
       r = Some ''timed out waiting for server to bind'' \<and> TimeUp \<in> set es \<or> (\<exists>j<m. Listener_ended j r \<in> set es)) \<and>
    (\<forall>steps. moving steps st \<longrightarrow> length steps \<le> n + 3) \<and>
    ((\<forall>i<n. Tried i True \<in> set es) \<and> st_run st = Selecting \<longrightarrow>
       (\<exists>e. goroutine_step e \<and> start_step e st \<noteq> st) \<and> (\<exists>steps. moving steps st \<and> st_run (fold start_step steps st) = Ready))"
proof -
  have ok: "start_ok es n m st" unfolding assms using start_ok_fold [OF start_ok_Run [of n m], of es] by simp
  then have parts: "group_ok es n st" "done_ok st" "run_ok es m st" by (auto simp: start_ok_def)
  have "\<forall>i<n. Tried i True \<in> set es" if "st_run st = Ready"
  proof -
    have "st_wg st = 0" using parts(2,3) that by (simp add: done_ok_def run_ok_def)
    then show ?thesis using group_empty_iff [OF parts(1)] parts(1) by (fastforce simp: group_ok_def)
  qed
  moreover have "st_run st \<noteq> Panicked" "\<And>r. st_run st = Run_returned r \<Longrightarrow>
       r = Some ''timed out waiting for server to bind'' \<and> TimeUp \<in> set es \<or> (\<exists>j<m. Listener_ended j r \<in> set es)"
    using parts(3) by (auto simp: run_ok_def)
  moreover have "length steps \<le> n + 3" if "moving steps st" for steps
    using moving_bound [OF that] start_work_bound [OF ok] by simp
  ultimately show ?thesis using start_progress [OF ok] can_be_ready [OF ok] by blast
qed

theorem ready_after_upchecks_witness:
  "st_run (fold start_step [Tried 0 True, Wg_Done 0, Listener_ended 1 None, Tried 1 True, Wg_Done 1, Wg_Wait, Close_done, Take_done] (Run_start 2 2)) = Ready \<and>
   (\<exists>steps. moving steps (fold start_step [Tried 0 True, Tried 1 True, TimeUp] (Run_start 2 1)) \<and> length steps \<le> 5 \<and>
     st_run (fold start_step steps (fold start_step [Tried 0 True, Tried 1 True, TimeUp] (Run_start 2 1))) = Ready)"
proof
  show "st_run (fold start_step [Tried 0 True, Wg_Done 0, Listener_ended 1 None, Tried 1 True, Wg_Done 1, Wg_Wait, Close_done, Take_done] (Run_start 2 2)) = Ready"
    by code_simp
  let ?es = "[Tried 0 True, Tried 1 True, TimeUp]"
  let ?st = "fold start_step ?es (Run_start 2 1)"
  have all: "\<forall>i<2. Tried i True \<in> set ?es" "st_run ?st = Selecting"
    by (simp add: less_2_cases_iff) code_simp
  have T: "(\<forall>steps. moving steps ?st \<longrightarrow> length steps \<le> 2 + 3) \<and>
    ((\<forall>i<2. Tried i True \<in> set ?es) \<and> st_run ?st = Selecting \<longrightarrow>
       (\<exists>e. goroutine_step e \<and> start_step e ?st \<noteq> ?st) \<and> (\<exists>steps. moving steps ?st \<and> st_run (fold start_step steps ?st) = Ready))"
    using ready_after_upchecks [OF refl, of ?es 2 1] by blast
  then obtain steps where "moving steps ?st" "st_run (fold start_step steps ?st) = Ready" using all by blast
  with T show "\<exists>steps. moving steps ?st \<and> length steps \<le> 5 \<and> st_run (fold start_step steps ?st) = Ready" by fastforce
qed

section \<open>When the watch shuts the server down\<close>

definition results :: "nat \<Rightarrow> watch_event list \<Rightarrow> watch_event list" where
  "results i es = filter (\<lambda>e. e = Failed i \<or> e = Passed i) es"

definition five_failures :: "nat \<Rightarrow> watch_event list \<Rightarrow> bool" where
  "five_failures i es \<longleftrightarrow> (\<exists>pre post. results i es = pre @ replicate 5 (Failed i) @ post)"

definition trailing :: "nat \<Rightarrow> watch_event list \<Rightarrow> nat" where
  "trailing i es = length (takeWhile (\<lambda>e. e = Failed i) (rev (results i es)))"

definition watch_ok :: "watch_event list \<Rightarrow> nat \<Rightarrow> watch \<Rightarrow> bool" where
  "watch_ok es n w \<longleftrightarrow> length (wa_pcs w) = n \<and>
     (\<forall>i<n. case wa_pcs w ! i of Loop d \<Rightarrow> d = trailing i es | _ \<Rightarrow> five_failures i es) \<and>
     (wa_closed w \<longrightarrow> SigTerm \<in> set es \<or> (\<exists>i<n. wa_pcs w ! i \<in> {Clearing, Gone}))"

lemma results_snoc [simp]: "results i (es @ [e]) = results i es @ (if e = Failed i \<or> e = Passed i then [e] else [])"
  by (simp add: results_def)

lemma trailing_snoc:
  "trailing i (es @ [e]) = (if e = Failed i then Suc (trailing i es) else if e = Passed i then 0 else trailing i es)"
  by (simp add: trailing_def)

lemma five_failures_mono: "five_failures i es \<Longrightarrow> five_failures i (es @ [e])"
  unfolding five_failures_def results_snoc by (metis append.assoc)

lemma five_failures_trailing: "5 \<le> trailing i es \<Longrightarrow> five_failures i es"
proof -
  assume "5 \<le> trailing i es"
  let ?t = "takeWhile (\<lambda>e. e = Failed i) (rev (results i es))"
  have t: "?t = replicate (trailing i es) (Failed i)"
    unfolding trailing_def by (intro replicate_eqI) (auto dest: set_takeWhileD)
  have "rev (results i es) = ?t @ dropWhile (\<lambda>e. e = Failed i) (rev (results i es))" by simp
  then have "results i es = rev (dropWhile (\<lambda>e. e = Failed i) (rev (results i es))) @ replicate (trailing i es) (Failed i)"
    by (metis t rev_append rev_replicate rev_rev_ident)
  moreover have "replicate (trailing i es) (Failed i) = replicate 5 (Failed i) @ replicate (trailing i es - 5) (Failed i)"
    using \<open>5 \<le> trailing i es\<close> by (simp add: replicate_add [symmetric])
  ultimately show ?thesis unfolding five_failures_def by metis
qed


lemma watch_step_length: "watch_step e w = Some w' \<Longrightarrow> length (wa_pcs w') = length (wa_pcs w)"
  by (cases e) (auto split: if_splits watch_pc.splits)

text \<open>A goroutine changes its own place only, and from its loop only to where the failures lead.\<close>

definition pc_ok :: "watch_event list \<Rightarrow> nat \<Rightarrow> watch_pc \<Rightarrow> bool" where
  "pc_ok es i p \<longleftrightarrow> (case p of Loop d \<Rightarrow> d = trailing i es | _ \<Rightarrow> five_failures i es)"

lemma pc_ok_other: "pc_ok es i p \<Longrightarrow> e \<noteq> Failed i \<Longrightarrow> e \<noteq> Passed i \<Longrightarrow> pc_ok (es @ [e]) i p"
  by (auto simp: pc_ok_def trailing_snoc five_failures_mono split: watch_pc.splits)

lemma pc_ok_not_loop: "pc_ok es i p \<Longrightarrow> (\<And>d. p \<noteq> Loop d) \<Longrightarrow> (\<And>d. p' \<noteq> Loop d) \<Longrightarrow> pc_ok (es @ [e]) i p'"
  by (cases p; cases p') (auto simp: pc_ok_def five_failures_mono)

lemma pc_ok_failed:
  assumes "pc_ok es i (Loop d)"
  shows "pc_ok (es @ [Failed i]) i (if d + 1 \<ge> limit \<and> b then Closing else Loop (d + 1))"
  using assms five_failures_trailing [of i "es @ [Failed i]"]
  by (auto simp: pc_ok_def trailing_snoc limit_def)

lemma pc_ok_step:
  assumes "watch_step e w = Some w'" "i < length (wa_pcs w)" "pc_ok es i (wa_pcs w ! i)"
  shows "pc_ok (es @ [e]) i (wa_pcs w' ! i)"
proof (cases "e = Failed i")
  case True
  show ?thesis
  proof (cases "wa_pcs w ! i")
    case (Loop d)
    with assms True show ?thesis using pc_ok_failed [of es i d "\<not> wa_nil w"] by auto
  qed (use assms True in \<open>auto intro: pc_ok_not_loop\<close>)
next
  case False
  note nf = False
  show ?thesis
  proof (cases "e = Passed i")
    case True
    show ?thesis
    proof (cases "wa_pcs w ! i")
      case (Loop d)
      with assms True show ?thesis by (auto simp: pc_ok_def trailing_snoc)
    qed (use assms True in \<open>auto intro: pc_ok_not_loop\<close>)
  next
    case False
    have "wa_pcs w' ! i = wa_pcs w ! i \<or> (wa_pcs w ! i = Closing \<and> wa_pcs w' ! i = Clearing) \<or>
        (wa_pcs w ! i = Clearing \<and> wa_pcs w' ! i = Gone)"
      using assms(1,2) nf False by (cases e) (auto simp: nth_list_update split: if_splits watch_pc.splits)
    then show ?thesis
    proof (elim disjE conjE)
      assume "wa_pcs w' ! i = wa_pcs w ! i"
      then show ?thesis using pc_ok_other [OF assms(3) nf False] by simp
    qed (use assms(3) in \<open>auto intro: pc_ok_not_loop\<close>)
  qed
qed

lemma watch_step_closed:
  assumes "watch_step e w = Some w'" "wa_closed w'"
  shows "wa_closed w \<or> e = SigTerm \<or> (\<exists>i<length (wa_pcs w). wa_pcs w' ! i = Clearing)"
  using assms by (cases e) (auto split: if_splits watch_pc.splits)

lemma watch_step_left:
  assumes "watch_step e w = Some w'" "i < length (wa_pcs w)" "wa_pcs w ! i \<in> {Clearing, Gone}"
  shows "wa_pcs w' ! i \<in> {Clearing, Gone}"
  using assms by (cases e) (auto simp: nth_list_update split: if_splits watch_pc.splits)

lemma watch_ok_pc: "watch_ok es n w \<longleftrightarrow> length (wa_pcs w) = n \<and> (\<forall>i<n. pc_ok es i (wa_pcs w ! i)) \<and>
    (wa_closed w \<longrightarrow> SigTerm \<in> set es \<or> (\<exists>i<n. wa_pcs w ! i \<in> {Clearing, Gone}))"
  by (simp add: watch_ok_def pc_ok_def)

lemma watch_ok_step:
  assumes "watch_ok es n w" "watch_step e w = Some w'"
  shows "watch_ok (es @ [e]) n w'"
proof -
  have n: "length (wa_pcs w) = n" "length (wa_pcs w') = n" using assms watch_step_length by (auto simp: watch_ok_pc)
  have "SigTerm \<in> set (es @ [e]) \<or> (\<exists>i<n. wa_pcs w' ! i \<in> {Clearing, Gone})" if c: "wa_closed w'"
    using watch_step_closed [OF assms(2) c] assms(1) watch_step_left [OF assms(2)] n by (auto simp: watch_ok_pc)
  then show ?thesis using assms pc_ok_step [OF assms(2)] n by (auto simp: watch_ok_pc)
qed

lemma watch_run_snoc: "watch_run (es @ [e]) w = Option.bind (watch_run es w) (watch_step e)"
proof (induction es arbitrary: w)
  case Nil
  show ?case by (cases "watch_step e w") simp_all
next
  case (Cons a es)
  then show ?case by (cases "watch_step a w") simp_all
qed

lemma watch_ok_run: "watch_run es (monitorUpchecks n) = Some w \<Longrightarrow> watch_ok es n w"
proof (induction es arbitrary: w rule: rev_induct)
  case Nil
  then show ?case by (auto simp: watch_ok_def monitorUpchecks_def trailing_def results_def)
next
  case (snoc e es)
  then show ?case by (auto simp: watch_run_snoc bind_eq_Some_conv intro: watch_ok_step)
qed

text \<open>
  C32: The watch closes the shutdown channel only after five failures of one upcheck in a row:
  in every interleaving of the goroutines, a closed channel means a SIGTERM or such a row.
\<close>

theorem shutdown_needs_five_failures:
  assumes "watch_run es (monitorUpchecks n) = Some w" "wa_closed w"
  shows "SigTerm \<in> set es \<or> (\<exists>i<n. five_failures i es)"
proof -
  have ok: "watch_ok es n w" by (rule watch_ok_run) fact
  then consider "SigTerm \<in> set es" | i where "i < n" "wa_pcs w ! i \<in> {Clearing, Gone}"
    using assms(2) by (auto simp: watch_ok_pc)
  then show ?thesis
  proof cases
    case 2
    with ok have "five_failures i es" by (auto simp: watch_ok_pc pc_ok_def)
    with 2 show ?thesis by blast
  qed blast
qed

theorem shutdown_needs_five_failures_witness:
  "\<exists>w. watch_run (replicate 4 (Failed 0) @ [Failed 1, Failed 0, Close 0]) (monitorUpchecks 2) = Some w \<and> wa_closed w \<and>
     (\<exists>i<2. five_failures i (replicate 4 (Failed 0) @ [Failed 1, Failed 0, Close 0]))"
proof -
  let ?es = "replicate 4 (Failed 0) @ [Failed 1, Failed 0, Close 0]"
  have "\<exists>w. watch_run ?es (monitorUpchecks 2) = Some w \<and> wa_closed w"
    by (simp add: monitorUpchecks_def eval_nat_numeral limit_def)
  then obtain w where w: "watch_run ?es (monitorUpchecks 2) = Some w" "wa_closed w" by blast
  with shutdown_needs_five_failures [OF w] show ?thesis by auto
qed


lemma fail_loop: "i < length (wa_pcs w) \<Longrightarrow> wa_pcs w ! i = Loop d \<Longrightarrow> \<not> wa_nil w \<Longrightarrow>
    watch_step (Failed i) w = Some (w\<lparr>wa_pcs := (wa_pcs w)[i := (if d + 1 \<ge> 5 then Closing else Loop (d + 1))]\<rparr>)"
  by (simp add: limit_def)

lemma watch_run_append: "watch_run (es @ es') w = Option.bind (watch_run es w) (watch_run es')"
proof (induction es arbitrary: w)
  case (Cons a es)
  then show ?case by (cases "watch_step a w") simp_all
qed simp

lemma five_fail: "i < length (wa_pcs w) \<Longrightarrow> wa_pcs w ! i = Loop 0 \<Longrightarrow> \<not> wa_nil w \<Longrightarrow>
    watch_run (replicate 5 (Failed i)) w = Some (w\<lparr>wa_pcs := (wa_pcs w)[i := Closing]\<rparr>)"
  by (simp add: eval_nat_numeral limit_def)

lemma upchecks_length:
  "c_UpcheckDomains c \<noteq> [] \<Longrightarrow> addrs \<noteq> [] \<Longrightarrow> 2 \<le> length (upchecks c addrs)"
  by (cases "c_UpcheckDomains c"; cases addrs) (auto simp: upchecks_def addr_upchecks_def)

text \<open>
  The shutdown channel can be closed twice: the goroutines of two upchecks can both see it
  open before one of them clears the shared variable, and the second close panics. A server
  with an upcheck domain has at least two upchecks, one for each network. A SIGTERM after
  the watch has closed the channel panics too.
\<close>

theorem shutdown_channel_closed_twice:
  assumes "c_UpcheckDomains c \<noteq> []" "addrs \<noteq> []"
  shows "let start = monitorUpchecks (length (upchecks c addrs)); row = (\<lambda>i. replicate 5 (Failed i))
    in watch_run (row 0 @ row 1 @ [Close 0, Close 1]) start = None \<and> watch_run (row 0 @ [Close 0, Clear 0, SigTerm]) start = None"
proof -
  let ?n = "length (upchecks c addrs)" and ?start = "monitorUpchecks (length (upchecks c addrs))"
  have n: "0 < ?n" "1 < ?n" using upchecks_length [OF assms] by linarith+
  have s: "length (wa_pcs ?start) = ?n" "\<not> wa_nil ?start" "\<not> wa_closed ?start" "i < ?n \<Longrightarrow> wa_pcs ?start ! i = Loop 0" for i
    by (simp_all add: monitorUpchecks_def)
  have 1: "watch_run (replicate 5 (Failed 0)) ?start = Some (?start\<lparr>wa_pcs := (wa_pcs ?start)[0 := Closing]\<rparr>)"
    using n s by (intro five_fail) simp_all
  have 2: "watch_run (replicate 5 (Failed 1)) (?start\<lparr>wa_pcs := (wa_pcs ?start)[0 := Closing]\<rparr>) =
      Some (?start\<lparr>wa_pcs := (wa_pcs ?start)[0 := Closing, 1 := Closing]\<rparr>)"
    using n s by (subst five_fail) simp_all
  show ?thesis unfolding Let_def watch_run_append 1 using 2 n s by (simp add: watch_run_append)
qed

theorem shutdown_channel_closed_twice_witness:
  "watch_run (replicate 5 (Failed 0) @ replicate 5 (Failed 1) @ [Close 0, Close 1])
     (monitorUpchecks (length (upchecks (example_config\<lparr>c_UpcheckDomains := [''upcheck.bosh-dns.'']\<rparr>) [''10.0.0.1:53'']))) = None"
  using shutdown_channel_closed_twice [of "example_config\<lparr>c_UpcheckDomains := [''upcheck.bosh-dns.'']\<rparr>" "[''10.0.0.1:53'']"]
  by (simp add: Let_def)

section \<open>The upchecks of the server itself\<close>

lemma IP_Equal_refl [simp]: "IP_Equal a a"
  by (simp add: IP_Equal_def Let_def)

text \<open>
  The upchecks pass on the server's own answers: when the target is a host with a port and
  the exchange returns what the upcheck handler writes, also with the address in the four
  bytes of the wire, both kinds of upchecks pass; when the name is denied they fail.
\<close>

theorem upcheck_passes_on_own_handler:
  assumes "has_port target"
    and "\<And>net req tgt. exchange net req tgt = Some (hd (UpcheckHandler_ServeDNS req))"
    and "\<And>net req tgt. denied net req tgt = Some (hd (DenyHandler_ServeDNS (NewDenyHandler response) req))"
  shows "IsUp exchange rid (NewDNSAnswerValidatingUpcheck target domain net) = None \<and>
    IsUp exchange rid (NewInternalDNSAnswerValidatingUpcheck target domain net) = None \<and>
    IsUp denied rid (NewDNSAnswerValidatingUpcheck target domain net) = Some ResolveFailed \<and>
    IP_Equal (Some [127, 0, 0, 1]) (ParseIP ''127.0.0.1'')"
proof -
  obtain h p where "SplitHostPort target = Inr (h, p)" using assms(1) unfolding has_port_def by fastforce
  then obtain t where t: "determineHost target = Inr t" by (simp add: determineHost_def)
  have "IP_Equal (Some [127, 0, 0, 1]) (ParseIP ''127.0.0.1'')" by code_simp
  then show ?thesis
    using assms(2,3) t
    by (simp add: IsUp_def NewDNSAnswerValidatingUpcheck_def NewInternalDNSAnswerValidatingUpcheck_def upcheck_request_def
        UpcheckHandler_ServeDNS_def DenyHandler_ServeDNS_def NewDenyHandler_def localhostIP_def header_for_def Let_def new_msg_def)
qed

theorem upcheck_passes_on_own_handler_witness:
  "IsUp (\<lambda>net req tgt. Some (hd (UpcheckHandler_ServeDNS req))) 7 (NewDNSAnswerValidatingUpcheck ''0.0.0.0:53'' ''upcheck.bosh-dns.'' ''udp'') = None"
proof -
  have "SplitHostPort ''0.0.0.0:53'' = Inr (''0.0.0.0'', ''53'')" by code_simp
  then have "has_port ''0.0.0.0:53''" by (auto simp: has_port_def)
  from upcheck_passes_on_own_handler [OF this, of "\<lambda>net req tgt. Some (hd (UpcheckHandler_ServeDNS req))"
      "\<lambda>net req tgt. Some (hd (DenyHandler_ServeDNS (NewDenyHandler []) req))"] show ?thesis by blast
qed

text \<open>
  The listening addresses are not built with \<^verbatim>\<open>JoinHostPort\<close>: for an IPv6 address the upchecks
  have no valid target and the server never becomes ready.
\<close>

lemma IPv6_listen_address_never_up:
  "IsUp exchange rid (NewDNSAnswerValidatingUpcheck (hd (listenAddrs (example_config\<lparr>c_Address := ''::1''\<rparr>) [])) d net) \<noteq> None"
proof -
  have "hd (listenAddrs (example_config\<lparr>c_Address := ''::1''\<rparr>) []) = ''::1:53''" by code_simp
  moreover have "determineHost ''::1:53'' = Inl (addrErr ''::1:53'' tooManyColons)" by code_simp
  ultimately show ?thesis by (simp add: IsUp_def NewDNSAnswerValidatingUpcheck_def)
qed

end
