(* ===== verification/Factory.thy ===== *)
theory Factory
  imports Dns_Config Dns_Cache
begin

text \<open>
  The handlers the program builds from a configuration
  (\<^verbatim>\<open>src/bosh-dns/dns/server/handlers/{factory,failover_recursor_pool}.go\<close>): the pool of the
  configured selection, and the handlers of the configured domains. A built handler is its
  kind with its own state, the recursor pool; how it answers depends on the requests it has
  forwarded before.
\<close>

section \<open>The pool of a selection\<close>

datatype pool = SerialPool serial_pool | SmartPool smart_pool

definition NewFailoverRecursorPool :: "string list \<Rightarrow> string \<Rightarrow> int \<Rightarrow> pool" where
  "NewFailoverRecursorPool recursors recursorSelection maxRetries =
     (if recursorSelection = ''smart'' then SmartPool (newSmartFailoverRecursorPool recursors maxRetries)
      else SerialPool (newSerialFailoverRecursorPool recursors maxRetries))"

fun pool_PerformStrategically :: "pool \<Rightarrow> 's work \<Rightarrow> 's \<Rightarrow> (bool \<times> pool \<times> 's) option" where
  "pool_PerformStrategically (SerialPool q) work s =
     map_option (\<lambda>(ok, q, s). (ok, SerialPool q, s)) (serial_PerformStrategically q work s)"
| "pool_PerformStrategically (SmartPool q) work s =
     map_option (\<lambda>(ok, q, s). (ok, SmartPool q, s)) (smart_PerformStrategically q work s)"

section \<open>Built handlers\<close>

datatype built_handler = HTTPJSONBuilt string bool | ForwardBuilt pool bool | DenyBuilt string

text \<open>\<open>shuffle\<close> is \<^verbatim>\<open>rand.Shuffle\<close>; a forward handler of a domain always has a smart pool.\<close>

definition CreateForwardHandler :: "(string list \<Rightarrow> string list) \<Rightarrow> int \<Rightarrow> string list \<Rightarrow> bool \<Rightarrow> built_handler" where
  "CreateForwardHandler shuffle recursorRetryCount recursors cache =
     ForwardBuilt (NewFailoverRecursorPool (shuffle recursors) ''smart'' recursorRetryCount) cache"

definition NewFactory :: "(string list \<Rightarrow> string list) \<Rightarrow> int \<Rightarrow> built_handler handler_factory" where
  "NewFactory shuffle recursorRetryCount =
     \<lparr>hf_HTTPJSON = HTTPJSONBuilt, hf_Forward = CreateForwardHandler shuffle recursorRetryCount, hf_Deny = DenyBuilt\<rparr>"

text \<open>
  The exchange with a recursor depends on the request. A forward handler as it answers
  after the requests \<open>past\<close>, one after the other.
\<close>

fun forward_run :: "(msg \<Rightarrow> 'e exchanger) \<Rightarrow> (network \<times> msg) list \<Rightarrow> pool \<times> 'e \<Rightarrow> (pool \<times> 'e) option" where
  "forward_run exchange [] (p, env) = Some (p, env)"
| "forward_run exchange ((network, req) # past) (p, env) = do {
     (p, env, out) \<leftarrow> ForwardHandler_ServeDNS pool_PerformStrategically (exchange req) TruncateIfNeeded p env network req;
     forward_run exchange past (p, env)
   }"

definition forward_after :: "(msg \<Rightarrow> 'e exchanger) \<Rightarrow> (network \<times> msg) list \<Rightarrow> pool \<times> 'e \<Rightarrow> handler" where
  "forward_after exchange past st network req =
     (case do {
        (p, env) \<leftarrow> forward_run exchange past st;
        ForwardHandler_ServeDNS pool_PerformStrategically (exchange req) TruncateIfNeeded p env network req
      } of None \<Rightarrow> [] | Some (p, env, out) \<Rightarrow> out)"

fun built_ServeDNS where
  "built_ServeDNS exchange get unmarshal cachePlugin past env (HTTPJSONBuilt url cache) =
     CreateHTTPJSONHandler get unmarshal TruncateIfNeeded cachePlugin url cache"
| "built_ServeDNS exchange get unmarshal cachePlugin past env (ForwardBuilt p cache) =
     (let handler = forward_after exchange past (p, env)
      in if cache then CachingDNSHandler_ServeDNS cachePlugin TruncateIfNeeded handler else handler)"
| "built_ServeDNS exchange get unmarshal cachePlugin past env (DenyBuilt responseType) = CreateDenyHandler responseType"

section \<open>Both pools keep the contract\<close>

fun pool_ready :: "pool \<Rightarrow> bool" where
  "pool_ready (SerialPool q) \<longleftrightarrow> sp_maxRetries q \<ge> 0"
| "pool_ready (SmartPool q) \<longleftrightarrow> pool_ok q"

fun pool_members :: "pool \<Rightarrow> string set" where
  "pool_members (SerialPool q) = set (sp_recursors q)"
| "pool_members (SmartPool q) = set (pool_names q)"

lemma pool_total:
  assumes "pool_ready p"
  shows "\<exists>ok p' s'. pool_PerformStrategically p work s = Some (ok, p', s') \<and> pool_ready p' \<and> pool_members p' = pool_members p"
proof (cases p)
  case (SerialPool q)
  then show ?thesis using assms serial.perform_total [of q work s] by fastforce
next
  case (SmartPool q)
  then show ?thesis using assms smart.perform_total [of q work s] by fastforce
qed

lemma pool_outcome:
  assumes "pool_ready p" "pool_PerformStrategically p work s = Some (ok, p', s')" "I s" "attempts work (pool_members p) I J"
  shows "if ok then J s' else I s'"
proof (cases p)
  case (SerialPool q)
  then show ?thesis using assms serial.perform_outcome [of q work s ok _ s' I J] by auto
next
  case (SmartPool q)
  then show ?thesis using assms smart.perform_outcome [of q work s ok _ s' I J] by auto
qed

interpretation any: recursor_pool pool_PerformStrategically pool_ready pool_members
  by unfold_locales (rule pool_total pool_outcome; assumption)+

interpretation any_fw: forwarding pool_PerformStrategically pool_ready pool_members
  by unfold_locales

lemma NewFailoverRecursorPool_ready [simp]:
  "m \<ge> 0 \<Longrightarrow> length rs < 2 ^ 64 \<Longrightarrow> pool_ready (NewFailoverRecursorPool rs sel m)"
  "pool_members (NewFailoverRecursorPool rs sel m) = set rs"
  using pool_ok_new [of m rs]
  by (auto simp: NewFailoverRecursorPool_def newSerialFailoverRecursorPool_def newSmartFailoverRecursorPool_def pool_names_def comp_def)

lemma forward_step:
  assumes "pool_ready p"
  shows "\<exists>p' env' out. ForwardHandler_ServeDNS pool_PerformStrategically ex tr p env network req = Some (p', env', out) \<and>
    pool_ready p' \<and> pool_members p' = pool_members p"
proof (cases "m_Question req = []")
  case False
  obtain ok p' s' where "pool_PerformStrategically p (forward_work ex tr network req) (env, []) = Some (ok, p', s')"
    "pool_ready p'" "pool_members p' = pool_members p" using pool_total [OF assms, of "forward_work ex tr network req" "(env, [])"] by blast
  then show ?thesis using False by (cases s'; cases ok) (auto simp: ForwardHandler_ServeDNS_def)
qed (use assms in \<open>simp add: ForwardHandler_ServeDNS_def\<close>)

lemma forward_run_ready:
  "pool_ready p \<Longrightarrow> \<exists>p' env'. forward_run exchange past (p, env) = Some (p', env') \<and> pool_ready p' \<and> pool_members p' = pool_members p"
proof (induction past arbitrary: p env)
  case (Cons x past)
  obtain network req where x: "x = (network, req)" by (cases x)
  obtain p' env' out where "ForwardHandler_ServeDNS pool_PerformStrategically (exchange req) TruncateIfNeeded p env network req = Some (p', env', out)"
    "pool_ready p'" "pool_members p' = pool_members p" using forward_step [OF Cons.prems, of "exchange req" TruncateIfNeeded env network req] by blast
  then show ?case using Cons.IH [of p' env'] x by simp
qed simp

lemma forward_after_reply:
  assumes "pool_ready p" "m_Question req \<noteq> []"
  shows "\<exists>m. forward_after exchange past (p, env) network req = [m] \<and>
    ((\<exists>e1 e2. \<exists>r\<in>pool_members p. \<exists>a. exchange req (forward_network network) e1 r = (Answered a, e2) \<and>
        m_Rcode a = RcodeSuccess \<and> m = TruncateIfNeeded network req a) \<or>
     m = createResponseFromError req ErrNoRecursorResponse)"
proof -
  obtain p' env' where r: "forward_run exchange past (p, env) = Some (p', env')" "pool_ready p'" "pool_members p' = pool_members p"
    using forward_run_ready [OF assms(1), of exchange past env] by blast
  obtain p'' env'' m where "ForwardHandler_ServeDNS pool_PerformStrategically (exchange req) TruncateIfNeeded p' env' network req = Some (p'', env'', [m])"
    "(\<exists>e1 e2. \<exists>r\<in>pool_members p'. \<exists>a. exchange req (forward_network network) e1 r = (Answered a, e2) \<and>
        m_Rcode a = RcodeSuccess \<and> m = TruncateIfNeeded network req a) \<or> m = createResponseFromError req ErrNoRecursorResponse"
    using any_fw.forward_reply [OF r(2) assms(2), of "exchange req" TruncateIfNeeded env' network] by blast
  then show ?thesis using r by (simp add: forward_after_def)
qed

section \<open>One message for a question\<close>

text \<open>A weaker contract than that of \<open>answering\<close>: what is written may be another server's answer.\<close>

locale writing_once =
  fixes serve :: handler
  assumes writes_one: "m_Question req \<noteq> [] \<Longrightarrow> \<exists>m. serve network req = [m]"
begin

lemma reversing: "writing_once (ArpaHandler_ServeDNS getFQDNs serve)"
proof
  fix req :: msg and network
  assume "m_Question req \<noteq> []"
  then show "\<exists>m. ArpaHandler_ServeDNS getFQDNs serve network req = [m]"
    using writes_one [of req network] by (auto simp: ArpaHandler_ServeDNS_def Let_def split: option.splits)
qed

lemma caching:
  assumes "writing_once (cache serve)"
  shows "writing_once (CachingDNSHandler_ServeDNS cache tr serve)"
proof
  fix req :: msg and network
  assume q: "m_Question req \<noteq> []"
  then show "\<exists>m. CachingDNSHandler_ServeDNS cache tr serve network req = [m]"
    using writes_one [OF q, of network] writing_once.writes_one [OF assms q, of network]
    by (auto simp: CachingDNSHandler_ServeDNS_def)
qed

end

sublocale answering \<subseteq> writing_once
  by unfold_locales (use one_reply in blast)

lemma writing_once_forward: "pool_ready p \<Longrightarrow> writing_once (forward_after exchange past (p, env))"
  by unfold_locales (metis forward_after_reply)

text \<open>Handlers whose answers have a question, which the cache needs of what is behind it.\<close>

locale echoing = writing_once +
  assumes echoes: "m_Question req \<noteq> [] \<Longrightarrow> serve network req = [m] \<Longrightarrow> m_Question m \<noteq> []"
begin

lemma cached: "writing_once (coredns_cache k c serve)"
proof
  fix req :: msg and network
  assume q: "m_Question req \<noteq> []"
  obtain m where m: "serve network req = [m]" using writes_one [OF q] by blast
  show "\<exists>m. coredns_cache k c serve network req = [m]"
    using Cache_ServeDNS_once [of serve network req m, OF m echoes [OF q m], of k c] by (auto simp: coredns_cache_def)
qed

lemma behind_cache: "writing_once (CachingDNSHandler_ServeDNS (coredns_cache k c) tr serve)"
  by (rule caching [of "coredns_cache k c"]) (rule cached)

end

sublocale answering \<subseteq> echoing
proof
  fix req m :: msg and network
  assume q: "m_Question req \<noteq> []" and m: "serve network req = [m]"
  show "m_Question m \<noteq> []" using one_reply [OF q, of network] m q by (auto simp: is_reply_def)
qed

text \<open>What is documented of a resolver: its answers repeat the question.\<close>

definition repeats_question :: "(msg \<Rightarrow> 'e exchanger) \<Rightarrow> bool" where
  "repeats_question exchange \<longleftrightarrow> (\<forall>req network e1 s a e2. exchange req network e1 s = (Answered a, e2) \<longrightarrow> m_Question a \<noteq> [])"

lemma TruncateIfNeeded_question [simp]: "m_Question (TruncateIfNeeded network req m) = m_Question m"
  by (auto simp: TruncateIfNeeded_target truncation_target_def SetEdns0_def Let_def split: option.splits if_splits)

lemma echoing_forward:
  assumes "pool_ready p" "repeats_question exchange"
  shows "echoing (forward_after exchange past (p, env))"
proof (intro echoing.intro echoing_axioms.intro writing_once_forward [OF assms(1)])
  fix req m :: msg and network
  assume q: "m_Question req \<noteq> []" and m: "forward_after exchange past (p, env) network req = [m]"
  have "m_Question (createResponseFromError req ErrNoRecursorResponse) \<noteq> []"
    using q by (simp add: createResponseFromError_def ErrNoRecursorResponse_def SetRcode_def SetReply_def Let_def)
  moreover have "m_Question a \<noteq> []" if "exchange req (forward_network network) e1 s = (Answered a, e2)" for e1 s a e2
    using assms(2) that unfolding repeats_question_def by blast
  ultimately show "m_Question m \<noteq> []"
    using forward_after_reply [OF assms(1) q, of exchange past env network] m by auto
qed

fun built_ready :: "built_handler \<Rightarrow> bool" where
  "built_ready (ForwardBuilt p c) = pool_ready p"
| "built_ready h = True"

lemma writing_once_built:
  assumes "built_ready h" "repeats_question exchange"
  shows "writing_once (built_ServeDNS exchange get unmarshal (coredns_cache k c) past env h)"
proof (cases h)
  case (HTTPJSONBuilt url cached)
  then show ?thesis
    using http.behind_cache http.writing_once_axioms by (simp add: CreateHTTPJSONHandler_def Let_def)
next
  case (ForwardBuilt p cached)
  then have "echoing (forward_after exchange past (p, env))" using assms echoing_forward by simp
  then show ?thesis using ForwardBuilt echoing.behind_cache echoing.axioms(1) by (simp add: Let_def)
next
  case (DenyBuilt t)
  then show ?thesis using deny.writing_once_axioms by simp
qed

lemma generated_ready:
  assumes "GenerateHandlers (NewFactory shuffle retries) cs = Inr hs" "map_of hs d = Some h" "retries \<ge> 0"
    and "\<forall>c\<in>set cs. length (shuffle (src_Recursors (hg_Source c))) < 2 ^ 64"
  shows "built_ready h"
proof -
  have "map_of hs d = (case find (\<lambda>c. hg_Domain c = d) (rev cs) of None \<Rightarrow> None | Some c \<Rightarrow> Some (projr (generate_handler (NewFactory shuffle retries) c)))"
    using assms(1) generate_loop_lookup [of "NewFactory shuffle retries" cs "[]" hs]
    by (simp add: GenerateHandlers_def split: option.splits)
  then obtain c where c: "c \<in> set cs" "h = projr (generate_handler (NewFactory shuffle retries) c)"
    using assms(2) find_SomeD [of _ "rev cs"] by (auto split: option.splits)
  moreover obtain h' where "generate_handler (NewFactory shuffle retries) c = Inr h'"
    using assms(1) c(1) generate_loop_error [of "NewFactory shuffle retries" cs "[]"]
    by (cases "generate_handler (NewFactory shuffle retries) c") (auto simp: GenerateHandlers_def)
  ultimately show ?thesis
    using assms(3,4) by (auto simp: generate_handler_def NewFactory_def CreateForwardHandler_def Let_def split: if_splits)
qed

end
