(* ===== verification/Tls.thy ===== *)
theory Tls
  imports Health_Monitor "HOL-Library.Word"
begin

text \<open>
  The TLS settings of the program: the client of the health checks
  (\<^verbatim>\<open>src/bosh-dns/tlsclient/client.go\<close>), the settings of the two HTTPS listeners
  (\<^verbatim>\<open>dns/main.go\<close> and \<^verbatim>\<open>healthcheck/healthserver/health_server.go\<close>) and the library both are
  made with (\<^verbatim>\<open>vendor/code.cloudfoundry.org/tlsconfig\<close>). What the cryptographic packages of
  Go compute is an argument: the certificate of a pair of files, the blocks of a PEM file,
  the fields of a certificate, whether a pool vouches for a chain.
\<close>

section \<open>Certificates\<close>

record certificate =
  ce_Raw :: string
  ce_NotBefore :: int
  ce_NotAfter :: int
  ce_CommonName :: string

text \<open>A \<^verbatim>\<open>tls.Certificate\<close>: the chain, its leaf first, and the key.\<close>

record key_pair =
  kp_Certificate :: "string list"
  kp_PrivateKey :: string

record pem_block =
  pb_Type :: string
  pb_Headers :: "(string \<times> string) list"
  pb_Bytes :: string

text \<open>
  The files, the clock and the decoders: \<open>tw_X509KeyPair\<close> reads the contents of a
  certificate and a key file, \<open>tw_Decode\<close> is \<^verbatim>\<open>pem.Decode\<close>, the first block and what follows it,
  \<open>tw_ParseCertificate\<close> is \<^verbatim>\<open>x509.ParseCertificate\<close>.
\<close>

record tls_world =
  tw_ReadFile :: "string \<Rightarrow> string option"
  tw_X509KeyPair :: "string \<Rightarrow> string \<Rightarrow> key_pair option"
  tw_Decode :: "string \<Rightarrow> (pem_block \<times> string) option"
  tw_ParseCertificate :: "string \<Rightarrow> certificate option"
  tw_Now :: int

datatype tls_error =
    KeyPairNotLoaded | NoChain | LeafNotParsed | NotYetValid | CertificateExpired
  | AuthorityNotRead | UnexpectedHeaders | UnexpectedType string | AuthorityNotParsed | NoCertificatesRead

definition LoadX509KeyPair :: "tls_world \<Rightarrow> string \<Rightarrow> string \<Rightarrow> key_pair option" where
  "LoadX509KeyPair w certFile keyFile =
     Option.bind (tw_ReadFile w certFile) (\<lambda>certPEM. Option.bind (tw_ReadFile w keyFile) (tw_X509KeyPair w certPEM))"

text \<open>The two ends of the validity are valid.\<close>

definition checkExpiration :: "tls_world \<Rightarrow> certificate \<Rightarrow> tls_error option" where
  "checkExpiration w cert =
     (if tw_Now w < ce_NotBefore cert then Some NotYetValid
      else if tw_Now w > ce_NotAfter cert then Some CertificateExpired
      else None)"

subsection \<open>Pools of certificates\<close>

type_synonym cert_pool = "certificate list"

text \<open>\<^verbatim>\<open>CertPool.AddCert\<close> keeps one of several certificates with the same bytes.\<close>

definition AddCert :: "cert_pool \<Rightarrow> certificate \<Rightarrow> cert_pool" where
  "AddCert pool cert = (if ce_Raw cert \<in> set (map ce_Raw pool) then pool else pool @ [cert])"

text \<open>
  The blocks of a file, as a loop over \<^verbatim>\<open>pem.Decode\<close> finds them one after the other. What
  follows a block is shorter than what it was found in, so that as many steps as the file
  has bytes are enough (\<open>pem_blocks_enough\<close>).
\<close>

fun pem_blocks :: "(string \<Rightarrow> (pem_block \<times> string) option) \<Rightarrow> nat \<Rightarrow> string \<Rightarrow> pem_block list" where
  "pem_blocks decode 0 s = []"
| "pem_blocks decode (Suc n) s =
     (if s = [] then []
      else case decode s of None \<Rightarrow> [] | Some (block, rest) \<Rightarrow> block # pem_blocks decode n rest)"

definition file_blocks :: "tls_world \<Rightarrow> string \<Rightarrow> pem_block list" where
  "file_blocks w s = pem_blocks (tw_Decode w) (length s) s"

fun read_certs :: "tls_world \<Rightarrow> pem_block list \<Rightarrow> cert_pool \<Rightarrow> nat \<Rightarrow> tls_error + cert_pool" where
  "read_certs w [] pool certsRead = (if certsRead = 0 then Inl NoCertificatesRead else Inr pool)"
| "read_certs w (block # blocks) pool certsRead =
     (if pb_Headers block \<noteq> [] then Inl UnexpectedHeaders
      else if pb_Type block \<noteq> ''CERTIFICATE'' then Inl (UnexpectedType (pb_Type block))
      else case tw_ParseCertificate w (pb_Bytes block) of
        None \<Rightarrow> Inl AuthorityNotParsed
      | Some cert \<Rightarrow> read_certs w blocks (AddCert pool cert) (certsRead + 1))"

definition WithCertsFromFile :: "tls_world \<Rightarrow> string \<Rightarrow> cert_pool \<Rightarrow> tls_error + cert_pool" where
  "WithCertsFromFile w path pool =
     (case tw_ReadFile w path of
        None \<Rightarrow> Inl AuthorityNotRead
      | Some pemCerts \<Rightarrow> read_certs w (file_blocks w pemCerts) pool 0)"

text \<open>\<^verbatim>\<open>CertPool.AppendCertsFromPEM\<close> passes over the blocks it cannot use and says whether it used one.\<close>

fun append_certs :: "tls_world \<Rightarrow> pem_block list \<Rightarrow> cert_pool \<Rightarrow> bool \<Rightarrow> cert_pool \<times> bool" where
  "append_certs w [] pool ok = (pool, ok)"
| "append_certs w (block # blocks) pool ok =
     (if pb_Type block \<noteq> ''CERTIFICATE'' \<or> pb_Headers block \<noteq> [] then append_certs w blocks pool ok
      else case tw_ParseCertificate w (pb_Bytes block) of
        None \<Rightarrow> append_certs w blocks pool ok
      | Some cert \<Rightarrow> append_certs w blocks (AddCert pool cert) True)"

definition AppendCertsFromPEM :: "tls_world \<Rightarrow> string \<Rightarrow> cert_pool \<Rightarrow> cert_pool \<times> bool" where
  "AppendCertsFromPEM w pemCerts pool = append_certs w (file_blocks w pemCerts) pool False"

section \<open>Settings\<close>

datatype client_auth = NoClientCert | RequireAndVerifyClientCert

text \<open>The fields of a \<^verbatim>\<open>tls.Config\<close> the program sets; a pool that is not set is \<open>None\<close>.\<close>

record tls_config =
  tc_Certificates :: "key_pair list"
  tc_MinVersion :: "16 word"
  tc_MaxVersion :: "16 word"
  tc_CipherSuites :: "16 word list"
  tc_ClientAuth :: client_auth
  tc_ClientCAs :: "cert_pool option"
  tc_RootCAs :: "cert_pool option"
  tc_ServerName :: string
  tc_ClientSessionCache :: "nat option"

definition empty_tls_config :: tls_config where
  "empty_tls_config =
     \<lparr>tc_Certificates = [], tc_MinVersion = 0, tc_MaxVersion = 0, tc_CipherSuites = [], tc_ClientAuth = NoClientCert,
      tc_ClientCAs = None, tc_RootCAs = None, tc_ServerName = '''', tc_ClientSessionCache = None\<rparr>"

definition VersionTLS12 :: "16 word" where "VersionTLS12 = 0x0303"
definition VersionTLS13 :: "16 word" where "VersionTLS13 = 0x0304"
definition TLS_ECDHE_RSA_WITH_AES_256_GCM_SHA384 :: "16 word" where "TLS_ECDHE_RSA_WITH_AES_256_GCM_SHA384 = 0xc030"
definition TLS_ECDHE_RSA_WITH_AES_128_GCM_SHA256 :: "16 word" where "TLS_ECDHE_RSA_WITH_AES_128_GCM_SHA256 = 0xc02f"

type_synonym tls_option = "tls_config \<Rightarrow> tls_error + tls_config"

definition WithInternalServiceDefaults :: tls_option where
  "WithInternalServiceDefaults c =
     Inr (c\<lparr>tc_MinVersion := VersionTLS12, tc_MaxVersion := VersionTLS13,
            tc_CipherSuites := [TLS_ECDHE_RSA_WITH_AES_256_GCM_SHA384, TLS_ECDHE_RSA_WITH_AES_128_GCM_SHA256]\<rparr>)"

text \<open>A certificate without a chain, which loading never gives, would panic.\<close>

definition WithIdentity :: "tls_world \<Rightarrow> key_pair \<Rightarrow> tls_option" where
  "WithIdentity w cert c =
     (case kp_Certificate cert of
        [] \<Rightarrow> Inl NoChain
      | leaf # chain \<Rightarrow>
          (case tw_ParseCertificate w leaf of
             None \<Rightarrow> Inl LeafNotParsed
           | Some x509Cert \<Rightarrow>
               (case checkExpiration w x509Cert of
                  Some err \<Rightarrow> Inl err
                | None \<Rightarrow> Inr (c\<lparr>tc_Certificates := [cert]\<rparr>))))"

definition WithIdentityFromFile :: "tls_world \<Rightarrow> string \<Rightarrow> string \<Rightarrow> tls_option" where
  "WithIdentityFromFile w certPath keyPath c =
     (case LoadX509KeyPair w certPath keyPath of None \<Rightarrow> Inl KeyPairNotLoaded | Some cert \<Rightarrow> WithIdentity w cert c)"

definition WithClientAuthentication :: "cert_pool \<Rightarrow> tls_option" where
  "WithClientAuthentication authority c =
     Inr (c\<lparr>tc_ClientAuth := RequireAndVerifyClientCert, tc_ClientCAs := Some authority\<rparr>)"

definition WithClientAuthenticationFromFile :: "tls_world \<Rightarrow> string \<Rightarrow> tls_option" where
  "WithClientAuthenticationFromFile w caPath c =
     res_bind (WithCertsFromFile w caPath []) (\<lambda>pool. WithClientAuthentication pool c)"

definition WithAuthority :: "cert_pool \<Rightarrow> tls_option" where
  "WithAuthority authority c = Inr (c\<lparr>tc_RootCAs := Some authority\<rparr>)"

definition WithServerName :: "string \<Rightarrow> tls_option" where
  "WithServerName name c = Inr (c\<lparr>tc_ServerName := name\<rparr>)"

fun apply_options :: "tls_option list \<Rightarrow> tls_option" where
  "apply_options [] c = Inr c"
| "apply_options (opt # opts) c = res_bind (opt c) (apply_options opts)"

text \<open>\<^verbatim>\<open>Config.Server\<close> and \<^verbatim>\<open>Config.Client\<close> have the same body.\<close>

definition Config_Server :: "tls_option list \<Rightarrow> tls_option list \<Rightarrow> tls_error + tls_config" where
  "Config_Server built opts = res_bind (apply_options built empty_tls_config) (apply_options opts)"

definition Config_Client :: "tls_option list \<Rightarrow> tls_option list \<Rightarrow> tls_error + tls_config" where
  "Config_Client built opts = res_bind (apply_options built empty_tls_config) (apply_options opts)"

section \<open>The client and the listeners\<close>

record http_client =
  ht_TLSClientConfig :: tls_config
  ht_Timeout :: int

text \<open>The result of \<open>AppendCertsFromPEM\<close> is dropped, as in the code.\<close>

definition tlsclient_New :: "tls_world \<Rightarrow> string \<Rightarrow> string \<Rightarrow> key_pair \<Rightarrow> int \<Rightarrow> tls_error + http_client" where
  "tlsclient_New w dnsName caCert cert timeout =
     (let caCertPool = fst (AppendCertsFromPEM w caCert [])
      in res_bind (Config_Client [WithIdentity w cert, WithInternalServiceDefaults] [WithAuthority caCertPool, WithServerName dnsName])
           (\<lambda>tlsConfig. Inr \<lparr>ht_TLSClientConfig = tlsConfig\<lparr>tc_ClientSessionCache := Some 10000\<rparr>, ht_Timeout = timeout\<rparr>))"

definition NewFromFiles :: "tls_world \<Rightarrow> string \<Rightarrow> string \<Rightarrow> string \<Rightarrow> string \<Rightarrow> int \<Rightarrow> tls_error + http_client" where
  "NewFromFiles w dnsName caFile clientCertFile clientKeyFile timeout =
     (case LoadX509KeyPair w clientCertFile clientKeyFile of
        None \<Rightarrow> Inl KeyPairNotLoaded
      | Some cert \<Rightarrow>
          (case tw_ReadFile w caFile of
             None \<Rightarrow> Inl AuthorityNotRead
           | Some caCert \<Rightarrow> tlsclient_New w dnsName caCert cert timeout))"

text \<open>The settings of a listener, for the API of the server and for the health server alike.\<close>

definition listener_tls :: "tls_world \<Rightarrow> string \<Rightarrow> string \<Rightarrow> string \<Rightarrow> tls_error + tls_config" where
  "listener_tls w certificateFile privateKeyFile caFile =
     Config_Server [WithIdentityFromFile w certificateFile privateKeyFile, WithInternalServiceDefaults]
       [WithClientAuthenticationFromFile w caFile]"


section \<open>Connections\<close>

text \<open>
  A handshake between a client and a listener (\<^verbatim>\<open>crypto/tls\<close>): the highest version both speak,
  a cipher suite of both unless the version is 1.3, which has its own, and the certificates.
  \<open>verify pool name pair\<close> says whether a pool, or the pool of the machine where none is set,
  vouches for a chain and, where it is not empty, for the name. A listener that does not
  ask for a certificate gets none.
\<close>

definition tls_version :: "tls_config \<Rightarrow> tls_config \<Rightarrow> 16 word option" where
  "tls_version c s =
     (let v = min (tc_MaxVersion c) (tc_MaxVersion s) in if max (tc_MinVersion c) (tc_MinVersion s) \<le> v then Some v else None)"

definition tls_connect ::
  "(cert_pool option \<Rightarrow> string \<Rightarrow> key_pair \<Rightarrow> bool) \<Rightarrow> tls_config \<Rightarrow> tls_config \<Rightarrow> (16 word \<times> key_pair \<times> key_pair option) option" where
  "tls_connect verify c s =
     (case tls_version c s of
        None \<Rightarrow> None
      | Some v \<Rightarrow>
          if v < VersionTLS13 \<and> \<not> list_ex (\<lambda>x. x \<in> set (tc_CipherSuites s)) (tc_CipherSuites c) then None
          else case tc_Certificates s of
            [] \<Rightarrow> None
          | sk # sks \<Rightarrow>
              if \<not> verify (tc_RootCAs c) (tc_ServerName c) sk then None
              else if tc_ClientAuth s = NoClientCert then Some (v, sk, None)
              else case tc_Certificates c of
                [] \<Rightarrow> None
              | ck # cks \<Rightarrow> if verify (tc_ClientCAs s) '''' ck then Some (v, sk, Some ck) else None)"

definition leaf :: "tls_world \<Rightarrow> key_pair \<Rightarrow> certificate option" where
  "leaf w kp = (case kp_Certificate kp of [] \<Rightarrow> None | l # chain \<Rightarrow> tw_ParseCertificate w l)"

text \<open>
  A request of the client for the status of a health server: an error without a connection;
  over one, the handler gets the common name of the certificate of the client.
\<close>

definition health_Get where
  "health_Get verify w marshal status client server =
     (case tls_connect verify (ht_TLSClientConfig client) server of
        None \<Rightarrow> None
      | Some (v, sk, ck) \<Rightarrow>
          (case Option.bind ck (leaf w) of
             None \<Rightarrow> None
           | Some peer \<Rightarrow> served (healthEntryPoint marshal False (ce_CommonName peer) status)))"

section \<open>Reading the authorities\<close>

lemma pem_blocks_enough:
  assumes "\<And>s block rest. decode s = Some (block, rest) \<Longrightarrow> length rest < length s"
  shows "length s \<le> n \<Longrightarrow> length s \<le> m \<Longrightarrow> pem_blocks decode n s = pem_blocks decode m s"
proof (induction n arbitrary: m s)
  case (0 m)
  then show ?case by (cases m) simp_all
next
  case (Suc n)
  show ?case
  proof (cases m)
    case m: (Suc k)
    then show ?thesis
      using Suc assms by (fastforce split: option.split)
  qed (use Suc in simp)
qed

definition is_certificate :: "tls_world \<Rightarrow> pem_block \<Rightarrow> bool" where
  "is_certificate w b \<longleftrightarrow> pb_Headers b = [] \<and> pb_Type b = ''CERTIFICATE'' \<and> tw_ParseCertificate w (pb_Bytes b) \<noteq> None"

lemma read_certs_iff:
  "(\<exists>p. read_certs w bs pool n = Inr p) \<longleftrightarrow> list_all (is_certificate w) bs \<and> (bs \<noteq> [] \<or> n \<noteq> 0)"
proof (induction w bs pool n rule: read_certs.induct)
  case (2 w b bs pool n)
  then show ?case by (cases "tw_ParseCertificate w (pb_Bytes b)") (auto simp: is_certificate_def)
qed simp

lemma read_certs_append:
  "read_certs w bs pool n = Inr p \<Longrightarrow> append_certs w bs pool ok = (p, ok \<or> bs \<noteq> [])"
  by (induction w bs pool n arbitrary: ok rule: read_certs.induct) (auto split: if_splits option.splits)

lemma AddCert_not_Nil: "AddCert pool c \<noteq> []"
  by (auto simp: AddCert_def)

lemma append_certs_mono: "pool \<noteq> [] \<Longrightarrow> fst (append_certs w bs pool ok) \<noteq> []"
  by (induction w bs pool ok rule: append_certs.induct) (auto simp: AddCert_not_Nil split: option.splits)

lemma append_certs_ok: "snd (append_certs w bs pool False) \<Longrightarrow> fst (append_certs w bs pool False) \<noteq> []"
  by (induction bs arbitrary: pool) (auto simp: AddCert_not_Nil append_certs_mono split: option.splits if_splits)

text \<open>The authorities a file names, and the ways a listener and a client read them.\<close>

definition trusted :: "tls_world \<Rightarrow> string \<Rightarrow> cert_pool" where
  "trusted w path = (case tw_ReadFile w path of None \<Rightarrow> [] | Some pem \<Rightarrow> fst (AppendCertsFromPEM w pem []))"

lemma WithCertsFromFile_trusted:
  assumes "WithCertsFromFile w path [] = Inr pool"
  shows "pool = trusted w path" "trusted w path \<noteq> []"
proof -
  obtain pem where pem: "tw_ReadFile w path = Some pem" "read_certs w (file_blocks w pem) [] 0 = Inr pool"
    using assms by (auto simp: WithCertsFromFile_def split: option.splits)
  from read_certs_append [OF this(2), of False] read_certs_iff [of w "file_blocks w pem" "[]" 0] pem(2)
  have "append_certs w (file_blocks w pem) [] False = (pool, True)" by auto
  with pem(1) append_certs_ok [of w "file_blocks w pem" "[]"] show "pool = trusted w path" "trusted w path \<noteq> []"
    by (simp_all add: trusted_def AppendCertsFromPEM_def)
qed

section \<open>When the settings can be made\<close>

definition valid_identity :: "tls_world \<Rightarrow> key_pair \<Rightarrow> bool" where
  "valid_identity w kp \<longleftrightarrow> (case leaf w kp of None \<Rightarrow> False | Some c \<Rightarrow> ce_NotBefore c \<le> tw_Now w \<and> tw_Now w \<le> ce_NotAfter c)"

lemma WithIdentity_Inr: "WithIdentity w kp c = Inr c' \<longleftrightarrow> valid_identity w kp \<and> c' = c\<lparr>tc_Certificates := [kp]\<rparr>"
  by (auto simp: WithIdentity_def valid_identity_def leaf_def checkExpiration_def split: list.splits option.splits if_splits)

lemma tlsclient_New_Inr:
  "tlsclient_New w name pem kp timeout = Inr client \<longleftrightarrow> valid_identity w kp \<and>
     client = \<lparr>ht_TLSClientConfig =
         \<lparr>tc_Certificates = [kp], tc_MinVersion = VersionTLS12, tc_MaxVersion = VersionTLS13,
          tc_CipherSuites = [TLS_ECDHE_RSA_WITH_AES_256_GCM_SHA384, TLS_ECDHE_RSA_WITH_AES_128_GCM_SHA256],
          tc_ClientAuth = NoClientCert, tc_ClientCAs = None, tc_RootCAs = Some (fst (AppendCertsFromPEM w pem [])),
          tc_ServerName = name, tc_ClientSessionCache = Some 10000\<rparr>, ht_Timeout = timeout\<rparr>"
  by (auto simp: tlsclient_New_def Config_Client_def res_bind_Inr_iff WithIdentity_Inr WithInternalServiceDefaults_def
      WithAuthority_def WithServerName_def empty_tls_config_def Let_def)

lemma NewFromFiles_Inr:
  "NewFromFiles w name ca cert key timeout = Inr client \<longleftrightarrow>
     (\<exists>kp. LoadX509KeyPair w cert key = Some kp \<and> valid_identity w kp \<and> tw_ReadFile w ca \<noteq> None \<and>
     client = \<lparr>ht_TLSClientConfig =
         \<lparr>tc_Certificates = [kp], tc_MinVersion = VersionTLS12, tc_MaxVersion = VersionTLS13,
          tc_CipherSuites = [TLS_ECDHE_RSA_WITH_AES_256_GCM_SHA384, TLS_ECDHE_RSA_WITH_AES_128_GCM_SHA256],
          tc_ClientAuth = NoClientCert, tc_ClientCAs = None, tc_RootCAs = Some (trusted w ca),
          tc_ServerName = name, tc_ClientSessionCache = Some 10000\<rparr>, ht_Timeout = timeout\<rparr>)"
  by (auto simp: NewFromFiles_def tlsclient_New_Inr trusted_def split: option.splits)

lemma listener_tls_Inr:
  "listener_tls w cert key ca = Inr server \<longleftrightarrow>
     (\<exists>kp. LoadX509KeyPair w cert key = Some kp \<and> valid_identity w kp \<and> WithCertsFromFile w ca [] = Inr (trusted w ca) \<and>
     server = \<lparr>tc_Certificates = [kp], tc_MinVersion = VersionTLS12, tc_MaxVersion = VersionTLS13,
          tc_CipherSuites = [TLS_ECDHE_RSA_WITH_AES_256_GCM_SHA384, TLS_ECDHE_RSA_WITH_AES_128_GCM_SHA256],
          tc_ClientAuth = RequireAndVerifyClientCert, tc_ClientCAs = Some (trusted w ca), tc_RootCAs = None,
          tc_ServerName = '''', tc_ClientSessionCache = None\<rparr>)"
proof -
  have "listener_tls w cert key ca = Inr server \<longleftrightarrow>
     (\<exists>kp pool. LoadX509KeyPair w cert key = Some kp \<and> valid_identity w kp \<and> WithCertsFromFile w ca [] = Inr pool \<and>
     server = \<lparr>tc_Certificates = [kp], tc_MinVersion = VersionTLS12, tc_MaxVersion = VersionTLS13,
          tc_CipherSuites = [TLS_ECDHE_RSA_WITH_AES_256_GCM_SHA384, TLS_ECDHE_RSA_WITH_AES_128_GCM_SHA256],
          tc_ClientAuth = RequireAndVerifyClientCert, tc_ClientCAs = Some pool, tc_RootCAs = None,
          tc_ServerName = '''', tc_ClientSessionCache = None\<rparr>)"
    by (cases "LoadX509KeyPair w cert key")
      (auto simp: listener_tls_def Config_Server_def res_bind_Inr_iff WithIdentityFromFile_def WithIdentity_Inr WithInternalServiceDefaults_def
        WithClientAuthenticationFromFile_def WithClientAuthentication_def empty_tls_config_def)
  then show ?thesis using WithCertsFromFile_trusted by blast
qed

text \<open>
  A listener starts exactly when its identity is valid and its file of authorities holds
  certificates, at least one, and nothing else; a client already when the file can be read.
\<close>

lemma listener_starts:
  "(\<exists>server. listener_tls w cert key ca = Inr server) \<longleftrightarrow>
     (\<exists>kp pem. LoadX509KeyPair w cert key = Some kp \<and> valid_identity w kp \<and> tw_ReadFile w ca = Some pem \<and>
        file_blocks w pem \<noteq> [] \<and> list_all (is_certificate w) (file_blocks w pem))"
proof -
  have "WithCertsFromFile w ca [] = Inr (trusted w ca) \<longleftrightarrow>
      (\<exists>pem. tw_ReadFile w ca = Some pem \<and> file_blocks w pem \<noteq> [] \<and> list_all (is_certificate w) (file_blocks w pem))"
  proof (cases "tw_ReadFile w ca")
    case (Some pem)
    then have "WithCertsFromFile w ca [] = read_certs w (file_blocks w pem) [] 0" by (simp add: WithCertsFromFile_def)
    with Some WithCertsFromFile_trusted(1) [of w ca] read_certs_iff [of w "file_blocks w pem" "[]" 0] show ?thesis by auto
  qed (simp add: WithCertsFromFile_def)
  then show ?thesis unfolding listener_tls_Inr by blast
qed


text \<open>
  The difference shows when the file of authorities holds no certificate: the listener does
  not start, the client does, with an empty pool, and no health server is ever trusted.
\<close>

lemma client_without_authority:
  assumes "LoadX509KeyPair w cert key = Some kp" "valid_identity w kp" "tw_ReadFile w ca = Some pem"
    and "\<And>b. b \<in> set (file_blocks w pem) \<Longrightarrow> \<not> is_certificate w b"
  shows "\<exists>client. NewFromFiles w name ca cert key timeout = Inr client \<and> tc_RootCAs (ht_TLSClientConfig client) = Some []"
    "\<nexists>server. listener_tls w cert key ca = Inr server"
proof -
  have "fst (append_certs w bs pool ok) = pool" if "\<forall>b\<in>set bs. \<not> is_certificate w b" for bs pool ok
    using that by (induction bs) (auto simp: is_certificate_def)
  then have "trusted w ca = []" using assms(3,4) by (simp add: trusted_def AppendCertsFromPEM_def)
  then show "\<exists>client. NewFromFiles w name ca cert key timeout = Inr client \<and> tc_RootCAs (ht_TLSClientConfig client) = Some []"
    using assms(1-3) by (simp add: NewFromFiles_Inr)
  show "\<nexists>server. listener_tls w cert key ca = Inr server"
    using assms(3,4) unfolding listener_starts by (auto simp: neq_Nil_conv)
qed

section \<open>What a connection guarantees\<close>

lemma tls_version_12_13: "VersionTLS12 < VersionTLS13" "VersionTLS12 \<le> VersionTLS13"
  by (simp_all add: VersionTLS12_def VersionTLS13_def)

lemma tls_connect_built:
  assumes "NewFromFiles w name ca cert key timeout = Inr client" "listener_tls w' cert' key' ca' = Inr server"
  obtains ck sk where "LoadX509KeyPair w cert key = Some ck" "LoadX509KeyPair w' cert' key' = Some sk"
    "valid_identity w ck" "valid_identity w' sk"
    "tls_connect verify (ht_TLSClientConfig client) server =
       (if verify (Some (trusted w ca)) name sk \<and> verify (Some (trusted w' ca')) '''' ck
        then Some (VersionTLS13, sk, Some ck) else None)"
  using assms unfolding NewFromFiles_Inr listener_tls_Inr
  by (auto simp: tls_connect_def tls_version_def tls_version_12_13 Let_def split: option.splits list.splits)


lemma tls_version_bounds:
  assumes "tls_version c s = Some v"
  shows "tc_MinVersion c \<le> v" "tc_MinVersion s \<le> v" "v \<le> tc_MaxVersion c" "v \<le> tc_MaxVersion s"
  using assms by (auto simp: tls_version_def Let_def split: if_splits)

lemma version_12_or_13:
  assumes "VersionTLS12 \<le> v" "v \<le> VersionTLS13"
  shows "v = VersionTLS12 \<or> v = VersionTLS13"
proof -
  have "uint v = 0x303 \<or> uint v = 0x304" using assms by (auto simp: VersionTLS12_def VersionTLS13_def word_le_def)
  then show ?thesis by (auto simp: VersionTLS12_def VersionTLS13_def word_uint_eq_iff)
qed

lemma tls_connect_cases:
  assumes "tls_connect verify c s = Some (v, sk, k)"
  shows "tls_version c s = Some v" "v = VersionTLS13 \<or> \<not> v < VersionTLS13 \<or> set (tc_CipherSuites c) \<inter> set (tc_CipherSuites s) \<noteq> {}"
    "verify (tc_RootCAs c) (tc_ServerName c) sk" "sk \<in> set (tc_Certificates s)"
    "case k of None \<Rightarrow> tc_ClientAuth s = NoClientCert | Some ck \<Rightarrow> ck \<in> set (tc_Certificates c) \<and> verify (tc_ClientCAs s) '''' ck"
  using assms by (auto simp: tls_connect_def list_ex_iff split: option.splits if_splits list.splits)

text \<open>
  C13: Who may talk to whom. Whatever its peer is, a listener of the program only accepts TLS 1.2
  and 1.3 connections from clients whose certificate the authorities of its file vouch for,
  of which there is at least one, and shows a certificate that was valid when it started.
  The client of the health checks only talks to servers whose certificate the
  authorities of its own file vouch for under the expected name. At version 1.2 a
  connection uses one of the two suites both set.
\<close>

theorem peers_authenticated:
  assumes "listener_tls w cert key ca = Inr server" "NewFromFiles w' name ca' cert' key' timeout = Inr client"
    and "strong = {TLS_ECDHE_RSA_WITH_AES_256_GCM_SHA384, TLS_ECDHE_RSA_WITH_AES_128_GCM_SHA256}"
  shows "(\<forall>c v sk k. tls_connect verify c server = Some (v, sk, k) \<longrightarrow>
      v \<in> {VersionTLS12, VersionTLS13} \<and> (v = VersionTLS12 \<longrightarrow> set (tc_CipherSuites c) \<inter> strong \<noteq> {}) \<and>
      LoadX509KeyPair w cert key = Some sk \<and> valid_identity w sk \<and> trusted w ca \<noteq> [] \<and>
      (\<exists>ck. k = Some ck \<and> verify (Some (trusted w ca)) '''' ck)) \<and>
    (\<forall>s v sk k. tls_connect verify (ht_TLSClientConfig client) s = Some (v, sk, k) \<longrightarrow>
      v \<in> {VersionTLS12, VersionTLS13} \<and> (v = VersionTLS12 \<longrightarrow> set (tc_CipherSuites s) \<inter> strong \<noteq> {}) \<and>
      verify (Some (trusted w' ca')) name sk \<and>
      (\<forall>ck. k = Some ck \<longrightarrow> LoadX509KeyPair w' cert' key' = Some ck \<and> valid_identity w' ck))"
proof -
  obtain kp where srv: "LoadX509KeyPair w cert key = Some kp" "valid_identity w kp" "WithCertsFromFile w ca [] = Inr (trusted w ca)"
    "tc_Certificates server = [kp]" "tc_MinVersion server = VersionTLS12" "tc_MaxVersion server = VersionTLS13"
    "set (tc_CipherSuites server) = strong" "tc_ClientAuth server = RequireAndVerifyClientCert" "tc_ClientCAs server = Some (trusted w ca)"
    using assms(1,3) unfolding listener_tls_Inr by auto
  let ?c = "ht_TLSClientConfig client"
  obtain kp' where cli: "LoadX509KeyPair w' cert' key' = Some kp'" "valid_identity w' kp'" "tc_Certificates ?c = [kp']"
    "tc_MinVersion ?c = VersionTLS12" "tc_MaxVersion ?c = VersionTLS13" "set (tc_CipherSuites ?c) = strong"
    "tc_RootCAs ?c = Some (trusted w' ca')" "tc_ServerName ?c = name"
    using assms(2,3) unfolding NewFromFiles_Inr by auto
  have "v \<in> {VersionTLS12, VersionTLS13} \<and> (v = VersionTLS12 \<longrightarrow> set (tc_CipherSuites c) \<inter> strong \<noteq> {}) \<and>
      LoadX509KeyPair w cert key = Some sk \<and> valid_identity w sk \<and> trusted w ca \<noteq> [] \<and>
      (\<exists>ck. k = Some ck \<and> verify (Some (trusted w ca)) '''' ck)"
    if "tls_connect verify c server = Some (v, sk, k)" for c v sk k
    using tls_connect_cases(2-5) [OF that] srv tls_version_bounds [OF tls_connect_cases(1) [OF that]] version_12_or_13 [of v]
      WithCertsFromFile_trusted(2) [OF srv(3)] tls_version_12_13
    by (auto split: option.splits)
  moreover have "v \<in> {VersionTLS12, VersionTLS13} \<and> (v = VersionTLS12 \<longrightarrow> set (tc_CipherSuites s) \<inter> strong \<noteq> {}) \<and>
      verify (Some (trusted w' ca')) name sk \<and> (\<forall>ck. k = Some ck \<longrightarrow> LoadX509KeyPair w' cert' key' = Some ck \<and> valid_identity w' ck)"
    if "tls_connect verify ?c s = Some (v, sk, k)" for s v sk k
    using tls_connect_cases(2-5) [OF that] cli tls_version_bounds [OF tls_connect_cases(1) [OF that]] version_12_or_13 [of v] tls_version_12_13
    by (auto split: option.splits)
  ultimately show ?thesis by blast
qed

definition example_tls :: tls_world where
  "example_tls =
     \<lparr>tw_ReadFile = (\<lambda>p. Some p), tw_X509KeyPair = (\<lambda>cert key. Some \<lparr>kp_Certificate = [cert], kp_PrivateKey = key\<rparr>),
      tw_Decode = (\<lambda>s. Some (\<lparr>pb_Type = ''CERTIFICATE'', pb_Headers = [], pb_Bytes = s\<rparr>, [])),
      tw_ParseCertificate = (\<lambda>b. Some \<lparr>ce_Raw = b, ce_NotBefore = 0, ce_NotAfter = 10, ce_CommonName = CN\<rparr>), tw_Now = 5\<rparr>"

text \<open>A pool that vouches for every chain as long as it is not empty.\<close>

definition example_verify :: "cert_pool option \<Rightarrow> string \<Rightarrow> key_pair \<Rightarrow> bool" where
  "example_verify pool name kp \<longleftrightarrow> pool \<noteq> None \<and> pool \<noteq> Some []"

theorem peers_authenticated_witness:
  "\<exists>server client sk ck. listener_tls example_tls ''cert'' ''key'' ''ca'' = Inr server \<and>
     NewFromFiles example_tls CN ''ca'' ''cert'' ''key'' 7 = Inr client \<and>
     tls_connect example_verify (ht_TLSClientConfig client) server = Some (VersionTLS13, sk, Some ck) \<and>
     valid_identity example_tls sk \<and> valid_identity example_tls ck"
proof -
  have "case listener_tls example_tls ''cert'' ''key'' ''ca'' of Inl e \<Rightarrow> False | Inr server \<Rightarrow>
      (case NewFromFiles example_tls CN ''ca'' ''cert'' ''key'' 7 of Inl e \<Rightarrow> False | Inr client \<Rightarrow>
       (case tls_connect example_verify (ht_TLSClientConfig client) server of Some (v, sk, Some ck) \<Rightarrow> v = VersionTLS13 | _ \<Rightarrow> False))"
    by code_simp
  then obtain server client sk ck where b: "listener_tls example_tls ''cert'' ''key'' ''ca'' = Inr server"
    "NewFromFiles example_tls CN ''ca'' ''cert'' ''key'' 7 = Inr client"
    "tls_connect example_verify (ht_TLSClientConfig client) server = Some (VersionTLS13, sk, Some ck)"
    by (auto split: sum.splits option.splits prod.splits)
  with peers_authenticated [OF b(1,2) refl, of example_verify] show ?thesis by blast
qed

text \<open>
  C37: The health checker of another machine gets the status of its monitor, over TLS: with a
  client and a listener as the two programs build them, the checker returns what the monitor
  computed in its last round exactly when the authorities of the client vouch for the
  certificate of the server as the health service, those of the server for the certificate
  of the client, and the latter bears the name of the health service. In every other case
  the status is unknown.
\<close>

theorem status_over_tls:
  assumes "NewFromFiles w CN ca cert key timeout = Inr client" "listener_tls w' cert' key' ca' = Inr server"
    and "get (health_endpoint port ip) = health_Get verify w' marshal status client server"
    and "status = Monitor_Status unmarshalAgent jobs env envs"
    and "\<exists>bytes. marshal status = Some bytes \<and> unmarshal bytes = Some status"
  shows "\<exists>ck sk. LoadX509KeyPair w cert key = Some ck \<and> LoadX509KeyPair w' cert' key' = Some sk \<and>
    GetStatus get unmarshal port ip =
      (if verify (Some (trusted w ca)) CN sk \<and> verify (Some (trusted w' ca')) '''' ck \<and>
          map_option ce_CommonName (leaf w' ck) = Some CN
       then fst (runChecks (fst (last (env # envs))) unmarshalAgent (snd (last (env # envs))) jobs)
       else result_of StateUnknown)"
proof -
  obtain ck sk where k: "LoadX509KeyPair w cert key = Some ck" "LoadX509KeyPair w' cert' key' = Some sk"
    "tls_connect verify (ht_TLSClientConfig client) server =
       (if verify (Some (trusted w ca)) CN sk \<and> verify (Some (trusted w' ca')) '''' ck
        then Some (VersionTLS13, sk, Some ck) else None)"
    using tls_connect_built [OF assms(1,2)] by metis
  have "GetStatus get unmarshal port ip =
      (if verify (Some (trusted w ca)) CN sk \<and> verify (Some (trusted w' ca')) '''' ck \<and>
          map_option ce_CommonName (leaf w' ck) = Some CN
       then fst (runChecks (fst (last (env # envs))) unmarshalAgent (snd (last (env # envs))) jobs)
       else result_of StateUnknown)"
  proof (cases "verify (Some (trusted w ca)) CN sk \<and> verify (Some (trusted w' ca')) '''' ck")
    case ok: True
    show ?thesis
    proof (cases "leaf w' ck")
      case None
      then show ?thesis using assms(3) k(3) ok by (simp add: health_Get_def GetStatus_def)
    next
      case (Some peer)
      then have "get (health_endpoint port ip) = served (healthEntryPoint marshal False (ce_CommonName peer) status)"
        using assms(3) k(3) ok by (simp add: health_Get_def)
      from checker_gets_monitor_status [where get = get, OF this assms(4,5)] show ?thesis using ok Some by simp
    qed
  next
    case False
    then have "get (health_endpoint port ip) = None" using assms(3) k(3) unfolding health_Get_def by auto
    then show ?thesis using False by (auto simp: GetStatus_def)
  qed
  with k show ?thesis by blast
qed

theorem status_over_tls_witness:
  "\<exists>client server. NewFromFiles example_tls CN ''ca'' ''cert'' ''key'' 7 = Inr client \<and>
     listener_tls example_tls ''cert'' ''key'' ''ca'' = Inr server \<and>
     GetStatus (\<lambda>e. health_Get example_verify example_tls (\<lambda>r. Some (hr_State r))
         (Monitor_Status (\<lambda>b. Some ''running'') [] (Some '''', \<lambda>p. None) []) client server) (\<lambda>b. Some (result_of b)) 8853 ''10.0.0.1'' =
       result_of StatusRunning"
proof -
  let ?s = "Monitor_Status (\<lambda>b. Some ''running'') [] (Some '''', \<lambda>p. None) []"
  have s: "?s = result_of StatusRunning" "fst (runChecks (Some '''') (\<lambda>b. Some ''running'') (\<lambda>p. None) []) = result_of StatusRunning"
    by (simp_all add: runChecks_def check_jobs_def readAgentHealth_def notRunning_def StatusRunning_def setStateForGroupIDs_def result_of_def)
  have "case listener_tls example_tls ''cert'' ''key'' ''ca'' of Inl e \<Rightarrow> False | Inr server \<Rightarrow>
      (case NewFromFiles example_tls CN ''ca'' ''cert'' ''key'' 7 of Inl e \<Rightarrow> False | Inr client \<Rightarrow> True)"
    by code_simp
  then obtain server client where b: "NewFromFiles example_tls CN ''ca'' ''cert'' ''key'' 7 = Inr client"
    "listener_tls example_tls ''cert'' ''key'' ''ca'' = Inr server"
    by (auto split: sum.splits)
  have rt: "\<exists>bytes. Some (hr_State ?s) = Some bytes \<and> Some (result_of bytes) = Some ?s" by (simp add: s [simplified] result_of_def)
  have "trusted example_tls ''ca'' \<noteq> []" by code_simp
  moreover have "map_option ce_CommonName (leaf example_tls kp) = Some CN" if "LoadX509KeyPair example_tls ''cert'' ''key'' = Some kp" for kp
    using that by (auto simp: LoadX509KeyPair_def example_tls_def leaf_def)
  ultimately have "GetStatus (\<lambda>e. health_Get example_verify example_tls (\<lambda>r. Some (hr_State r)) ?s client server)
      (\<lambda>b. Some (result_of b)) 8853 ''10.0.0.1'' = result_of StatusRunning"
    using status_over_tls [where get = "\<lambda>e. health_Get example_verify example_tls (\<lambda>r. Some (hr_State r)) ?s client server" and port = 8853 and ip = "''10.0.0.1''", OF b refl refl rt]
    by (auto simp: example_verify_def s(2))
  with b show ?thesis by blast
qed

end
