(* ===== verification/Main_Setup.thy ===== *)
theory Main_Setup
  imports Server Factory Tls
begin

text \<open>
  The start of the program (\<^verbatim>\<open>src/bosh-dns/dns/main.go\<close>): the steps from the command line to
  the configured handlers, each of which may end the program, and the exit code. What the
  machine and the decoders answer is an environment.
\<close>

section \<open>Definitions\<close>

record environment =
  ev_config :: string
  ev_exists :: "string \<Rightarrow> bool"
  ev_read :: "string \<Rightarrow> string option"
  ev_glob :: "string \<Rightarrow> string list option"
  ev_decodeConfig :: "string \<Rightarrow> config \<Rightarrow> config option"
  ev_decodeAddresses :: "string \<Rightarrow> address_config list option"
  ev_decodeAliases :: "string \<Rightarrow> (string, string list) gomap option"
  ev_decodeHandlers :: "string \<Rightarrow> handler_config list option"
  ev_nameservers :: "config_error + string list"
  ev_tls :: tls_world
  ev_jobs :: jobs_dir
  ev_decodeLinks :: "string \<Rightarrow> link_metadata list option"

datatype startup_error =
    FlagRequired | ConfigNotFound | ConfigFailed config_error | LogLevelFailed | AddressesFailed config_error
  | AliasesFailed alias_error | HandlersFailed config_error | RecursorsFailed config_error | ClientFailed tls_error
  | GenerateFailed config_error

text \<open>Only the absence of the file is an error here; reading it may fail later.\<close>

definition parseFlags :: "environment \<Rightarrow> startup_error + string" where
  "parseFlags env =
     (if ev_config env = '''' then Inl FlagRequired
      else if \<not> ev_exists env (ev_config env) then Inl ConfigNotFound
      else Inr (ev_config env))"

definition alias_UnmarshalJSON :: "(string \<Rightarrow> (string, string list) gomap option) \<Rightarrow> string \<Rightarrow> alias_config option" where
  "alias_UnmarshalJSON decode j =
     (case decode j of
        None \<Rightarrow> None
      | Some primitive \<Rightarrow> (case NewConfigFromMap primitive of Inl err \<Rightarrow> None | Inr config \<Rightarrow> Some config))"

definition aliases_Load ::
  "(string \<Rightarrow> string option) \<Rightarrow> (string \<Rightarrow> (string, string list) gomap option) \<Rightarrow> string \<Rightarrow> alias_config option" where
  "aliases_Load fs_read decode filename = Option.bind (fs_read filename) (alias_UnmarshalJSON decode)"

record startup =
  su_config :: config
  su_addresses :: "address_config list"
  su_aliases :: alias_config
  su_handlerConfigs :: "handler_config list"
  su_handlers :: "(string, built_handler) gomap"
  su_client :: "http_client option"

definition map_err :: "('a \<Rightarrow> 'e) \<Rightarrow> 'a + 'b \<Rightarrow> 'e + 'b" where
  "map_err f r = map_sum f id r"

text \<open>\<open>shuffle\<close> is \<^verbatim>\<open>rand.Shuffle\<close>.\<close>

definition main_setup :: "environment \<Rightarrow> (string list \<Rightarrow> string list) \<Rightarrow> startup_error + startup" where
  "main_setup env shuffle =
     res_bind (parseFlags env) (\<lambda>configPath.
     res_bind (map_err ConfigFailed (LoadFromFile (ev_read env configPath) (ev_decodeConfig env))) (\<lambda>c.
     res_bind (case GetLogLevel c of None \<Rightarrow> Inl LogLevelFailed | Some level \<Rightarrow> Inr level) (\<lambda>level.
     res_bind (map_err AddressesFailed (addresses_ConfigFromGlob (ev_glob env)
         (addresses_Load (ev_read env) (ev_decodeAddresses env)) (c_AddressesFilesGlob c))) (\<lambda>addresses.
     res_bind (map_err AliasesFailed (ConfigFromGlob (ev_glob env)
         (aliases_Load (ev_read env) (ev_decodeAliases env)) (c_AliasFilesGlob c))) (\<lambda>aliases.
     res_bind (map_err HandlersFailed (handlers_ConfigFromGlob (ev_glob env)
         (handlers_Load (ev_read env) (ev_decodeHandlers env)) (c_HandlersFilesGlob c))) (\<lambda>handlerConfigs.
     res_bind
       (if \<not> c_DisableRecursors c then
          (case ConfigureRecursors shuffle (recursorReader_Get (listenIPs c addresses) (ev_nameservers env)) (Some c) of
             (Some e, _) \<Rightarrow> Inl (RecursorsFailed e)
           | (None, None) \<Rightarrow> Inr c
           | (None, Some c) \<Rightarrow> Inr c)
        else Inr c) (\<lambda>c.
     res_bind
       (if hcfg_Enabled (c_Health c) then
          map_sum ClientFailed Some (NewFromFiles (ev_tls env) ''health.bosh-dns'' (hcfg_CAFile (c_Health c))
            (hcfg_CertificateFile (c_Health c)) (hcfg_PrivateKeyFile (c_Health c)) (c_RequestTimeout c))
        else Inr None) (\<lambda>client.
     res_bind (map_err GenerateFailed (GenerateHandlers (NewFactory shuffle (c_RecursorMaxRetries c)) handlerConfigs)) (\<lambda>handlers.
     Inr \<lparr>su_config = c, su_addresses = addresses, su_aliases = aliases, su_handlerConfigs = handlerConfigs,
          su_handlers = handlers, su_client = client\<rparr>)))))))))"

text \<open>
  The listener of the HTTP API: its address and settings, and which of the two handlers a path
  is for. Every other path is left to the multiplexer of \<^verbatim>\<open>net/http\<close>.
\<close>

record api_listener =
  al_Addr :: string
  al_TLSConfig :: tls_config

definition api_listen :: "tls_world \<Rightarrow> api_config \<Rightarrow> tls_error + api_listener" where
  "api_listen w c =
     res_bind (listener_tls w (api_CertificateFile c) (api_PrivateKeyFile c) (api_CAFile c)) (\<lambda>tlsConfig.
     Inr \<lparr>al_Addr = ''127.0.0.1:'' @ itoa_int (api_Port c), al_TLSConfig = tlsConfig\<rparr>)"

datatype api_handler = InstancesRoute | LocalGroupsRoute

definition api_handlers :: "(string \<times> api_handler) list" where
  "api_handlers = [(''/instances'', InstancesRoute), (''/local-groups'', LocalGroupsRoute)]"

text \<open>
  The exit code: \<open>None\<close> while the program runs, \<open>Some None\<close> when it panics. The events, what happens to
  the watch, and the errors of the listeners are those of \<open>Server_Run\<close>; \<open>numListeners\<close> is the
  number of processors, 1 on Windows; \<open>apiFirst\<close> says that the goroutine of the API gets to build
  its settings before \<open>Server_Run\<close> has returned, and ends the program if it cannot.
\<close>

definition mainExitCode ::
  "environment \<Rightarrow> (string list \<Rightarrow> string list) \<Rightarrow> string list \<Rightarrow> nat \<Rightarrow> bool \<Rightarrow> start_event list \<Rightarrow> watch_event list \<Rightarrow>
   string option list \<Rightarrow> int option option" where
  "mainExitCode env shuffle provided numListeners apiFirst events watching errs =
     (case main_setup env shuffle of
        Inl e \<Rightarrow> Some (Some 1)
      | Inr su \<Rightarrow>
          let c = su_config su; addrs = listenAddrs c (su_addresses su) in
          (case main_mux c (keys (su_handlers su)) provided of
             None \<Rightarrow> Some None
           | Some z \<Rightarrow>
               (case ParseJobs (ev_jobs env) (ev_decodeLinks env) (c_JobsDir c) '''' of
                  None \<Rightarrow> Some (Some 1)
                | Some jobs \<Rightarrow>
                    if apiFirst \<and> isl (api_listen (ev_tls env) (c_API c)) then Some (Some 1)
                    else (case Server_Run (length (upchecks c addrs)) (length (servers numListeners c addrs)) events watching errs of
                       Running \<Rightarrow> None
                     | Server_panic \<Rightarrow> Some None
                     | Server_returned (Some err) \<Rightarrow> Some (Some 1)
                     | Server_returned None \<Rightarrow> Some (Some 0)))))"


section \<open>What a start that succeeds has built\<close>

lemma map_err_Inr [simp]: "map_err f r = Inr x \<longleftrightarrow> r = Inr x"
  by (cases r) (simp_all add: map_err_def)

lemma map_sum_Inr: "map_sum f g r = Inr y \<longleftrightarrow> (\<exists>x. r = Inr x \<and> y = g x)"
  by (cases r) auto

lemma ConfigureRecursors_some: "ConfigureRecursors shuffle get (Some c) = (e, x) \<Longrightarrow> x \<noteq> None"
  by (auto simp: ConfigureRecursors_def Let_def split: sum.splits if_splits)

lemma append_files_all:
  "append_files load ps acc = Inr cs \<Longrightarrow> x \<in> set cs \<Longrightarrow> x \<in> set acc \<or> (\<exists>p\<in>set ps. \<exists>found. load p = Inr found \<and> x \<in> set found)"
proof (induction load ps acc rule: append_files.induct)
  case (2 load p ps acc)
  then obtain found where "load p = Inr found" "append_files load ps (acc @ found) = Inr cs" by (cases "load p") auto
  then show ?case using "2.IH" [of found] "2.prems"(2) by auto
qed simp

lemma handlers_Load_port:
  "handlers_Load rd un f = Inr hs \<Longrightarrow> h \<in> set hs \<Longrightarrow> r \<in> set (src_Recursors (hg_Source h)) \<Longrightarrow> has_port r"
proof -
  let ?f = "\<lambda>x. res_bind (AppendDefaultDNSPortIfMissing (src_Recursors (hg_Source x)))
      (\<lambda>rs. Inr (x\<lparr>hg_Source := (hg_Source x)\<lparr>src_Recursors := rs\<rparr>\<rparr>)) :: config_error + handler_config"
  assume l: "handlers_Load rd un f = Inr hs" "h \<in> set hs" "r \<in> set (src_Recursors (hg_Source h))"
  then obtain xs where "list_all2 (\<lambda>x y. ?f x = Inr y) xs hs"
    by (auto simp: handlers_Load_def map_res_Inr_iff split: option.splits)
  then obtain x where "?f x = Inr h" using l(2) unfolding list_all2_conv_all_nth in_set_conv_nth by metis
  then show "has_port r"
    using l(3) by (auto simp: res_bind_Inr_iff dest: AppendDefault_has_port)
qed

lemma main_setup_steps:
  assumes "main_setup env shuffle = Inr su"
  obtains c0 where "LoadFromFile (ev_read env (ev_config env)) (ev_decodeConfig env) = Inr c0"
    "handlers_ConfigFromGlob (ev_glob env) (handlers_Load (ev_read env) (ev_decodeHandlers env)) (c_HandlersFilesGlob c0) = Inr (su_handlerConfigs su)"
    "ConfigFromGlob (ev_glob env) (aliases_Load (ev_read env) (ev_decodeAliases env)) (c_AliasFilesGlob c0) = Inr (su_aliases su)"
    "if c_DisableRecursors c0 then su_config su = c0
     else ConfigureRecursors shuffle (recursorReader_Get (listenIPs c0 (su_addresses su)) (ev_nameservers env)) (Some c0) = (None, Some (su_config su))"
    "GenerateHandlers (NewFactory shuffle (c_RecursorMaxRetries (su_config su))) (su_handlerConfigs su) = Inr (su_handlers su)"
    "case su_client su of None \<Rightarrow> \<not> hcfg_Enabled (c_Health (su_config su)) | Some client \<Rightarrow> hcfg_Enabled (c_Health (su_config su)) \<and>
       NewFromFiles (ev_tls env) ''health.bosh-dns'' (hcfg_CAFile (c_Health (su_config su))) (hcfg_CertificateFile (c_Health (su_config su)))
         (hcfg_PrivateKeyFile (c_Health (su_config su))) (c_RequestTimeout (su_config su)) = Inr client"
  using assms
  by (auto simp: map_sum_Inr main_setup_def res_bind_Inr_iff parseFlags_def dest: ConfigureRecursors_some split: if_splits option.splits prod.splits)


lemma configured_has_port:
  assumes "LoadFromFile contents un = Inr c0" "\<And>rs. mset (shuffle rs) = mset rs"
    and "ConfigureRecursors shuffle (recursorReader_Get own read) (Some c0) = (None, Some c)"
  shows "r \<in> set (c_Recursors c) \<Longrightarrow> has_port r \<and> r \<notin> set (c_ExcludedRecursors c)"
    "c_RecursorSelection c = c_RecursorSelection c0 \<and> c_Port c = c_Port c0"
proof -
  have "set (shuffle rs) = set rs" for rs using assms(2) [of rs] by (rule mset_eq_setD)
  then show "r \<in> set (c_Recursors c) \<Longrightarrow> has_port r \<and> r \<notin> set (c_ExcludedRecursors c)"
    "c_RecursorSelection c = c_RecursorSelection c0 \<and> c_Port c = c_Port c0"
    using assms(3) LoadFromFile_result(3) [OF assms(1)] recursorReader_Get_has_port
    by (auto simp: ConfigureRecursors_def Let_def split: sum.splits if_splits)
qed

lemma merge_files_wf:
  assumes "\<And>f x. load f = Some x \<Longrightarrow> wf_config x"
  shows "merge_files load fs c = Inr c' \<Longrightarrow> wf_config c \<Longrightarrow> wf_config c'"
  by (induction fs arbitrary: c) (auto split: option.splits dest: assms intro: wf_Merge)

lemma aliases_reduced:
  assumes "ConfigFromGlob glob (aliases_Load rd decode) pattern = Inr c"
  shows "IsReduced c"
proof -
  have load: "wf_config x" if "aliases_Load rd decode f = Some x" for f x
    using that wf_NewConfigFromMap
    by (cases "rd f") (auto simp: aliases_Load_def alias_UnmarshalJSON_def split: option.split_asm sum.split_asm)
  obtain fs c' where "merge_files (aliases_Load rd decode) fs NewConfig = Inr c'" "ReducedForm c' = Inr c"
    using assms by (auto simp: ConfigFromGlob_def res_bind_Inr_iff split: option.splits)
  moreover from merge_files_wf [OF load this(1) wf_NewConfig] have "wf_map (c_aliases c')" by (simp add: wf_config_def)
  ultimately show ?thesis using ReducedForm_Inr by blast
qed

text \<open>
  C22: A start that gets as far as the listeners has a port to listen on and a known selection of
  recursors, and a client for health checks exactly when they are enabled, with a certificate
  valid at the time. With recursors, each of them has a port and none is excluded; each handler
  configured for a domain was built, and asks only recursors that have a port; no target of
  a configured alias is an alias.
\<close>

theorem main_setup_sound:
  assumes "main_setup env shuffle = Inr su" "\<And>rs. mset (shuffle rs) = mset rs"
  shows "c_Port (su_config su) \<noteq> 0 \<and> c_RecursorSelection (su_config su) \<in> {''smart'', ''serial''} \<and> IsReduced (su_aliases su) \<and>
    (\<not> c_DisableRecursors (su_config su) \<longrightarrow>
       (\<forall>r\<in>set (c_Recursors (su_config su)). has_port r \<and> r \<notin> set (c_ExcludedRecursors (su_config su)))) \<and>
    (\<forall>h\<in>set (su_handlerConfigs su). map_of (su_handlers su) (hg_Domain h) \<noteq> None \<and>
       (\<forall>r\<in>set (src_Recursors (hg_Source h)). has_port r)) \<and>
    (case su_client su of
       None \<Rightarrow> \<not> hcfg_Enabled (c_Health (su_config su))
     | Some client \<Rightarrow> hcfg_Enabled (c_Health (su_config su)) \<and>
         (\<forall>kp\<in>set (tc_Certificates (ht_TLSClientConfig client)). valid_identity (ev_tls env) kp))"
proof (rule main_setup_steps [OF assms(1)])
  fix c0
  assume load: "LoadFromFile (ev_read env (ev_config env)) (ev_decodeConfig env) = Inr c0"
    and hs: "handlers_ConfigFromGlob (ev_glob env) (handlers_Load (ev_read env) (ev_decodeHandlers env)) (c_HandlersFilesGlob c0) = Inr (su_handlerConfigs su)"
    and al: "ConfigFromGlob (ev_glob env) (aliases_Load (ev_read env) (ev_decodeAliases env)) (c_AliasFilesGlob c0) = Inr (su_aliases su)"
    and rec: "if c_DisableRecursors c0 then su_config su = c0
     else ConfigureRecursors shuffle (recursorReader_Get (listenIPs c0 (su_addresses su)) (ev_nameservers env)) (Some c0) = (None, Some (su_config su))"
    and gen: "GenerateHandlers (NewFactory shuffle (c_RecursorMaxRetries (su_config su))) (su_handlerConfigs su) = Inr (su_handlers su)"
    and cl: "case su_client su of None \<Rightarrow> \<not> hcfg_Enabled (c_Health (su_config su)) | Some client \<Rightarrow> hcfg_Enabled (c_Health (su_config su)) \<and>
       NewFromFiles (ev_tls env) ''health.bosh-dns'' (hcfg_CAFile (c_Health (su_config su))) (hcfg_CertificateFile (c_Health (su_config su)))
         (hcfg_PrivateKeyFile (c_Health (su_config su))) (c_RequestTimeout (su_config su)) = Inr client"
  have "c_Port (su_config su) \<noteq> 0 \<and> c_RecursorSelection (su_config su) \<in> {''smart'', ''serial''} \<and>
    (\<not> c_DisableRecursors (su_config su) \<longrightarrow> (\<forall>r\<in>set (c_Recursors (su_config su)). has_port r \<and> r \<notin> set (c_ExcludedRecursors (su_config su))))"
    using LoadFromFile_result(1,2) [OF load] configured_has_port [OF load assms(2)] rec by (auto split: if_splits)
  moreover have "has_port r" if "h \<in> set (su_handlerConfigs su)" "r \<in> set (src_Recursors (hg_Source h))" for h r
    using that hs append_files_all [of "handlers_Load (ev_read env) (ev_decodeHandlers env)" _ "[]" "su_handlerConfigs su" h] handlers_Load_port
    by (fastforce simp: handlers_ConfigFromGlob_def split: option.splits)
  moreover have "map_of (su_handlers su) (hg_Domain h) \<noteq> None" if "h \<in> set (su_handlerConfigs su)" for h
    using gen that generate_loop_lookup [of _ "su_handlerConfigs su" "[]" "su_handlers su" "hg_Domain h"]
    by (auto simp: GenerateHandlers_def find_None_iff split: option.splits)
  moreover have "case su_client su of None \<Rightarrow> \<not> hcfg_Enabled (c_Health (su_config su))
     | Some client \<Rightarrow> hcfg_Enabled (c_Health (su_config su)) \<and>
         (\<forall>kp\<in>set (tc_Certificates (ht_TLSClientConfig client)). valid_identity (ev_tls env) kp)"
    using cl by (auto simp: NewFromFiles_Inr split: option.splits)
  ultimately show ?thesis using aliases_reduced [OF al] by blast
qed

definition example_environment :: environment where
  "example_environment =
     \<lparr>ev_config = ''config.json'', ev_exists = (\<lambda>p. True), ev_read = (\<lambda>p. Some p), ev_glob = (\<lambda>p. Some [''file.json'']),
      ev_decodeConfig = (\<lambda>s c. Some (example_config\<lparr>c_LogLevel := ''INFO''\<rparr>)),
      ev_decodeAddresses = (\<lambda>s. Some []), ev_decodeAliases = (\<lambda>s. Some [(''a.'', [''b.'']), (''b.'', [''c.''])]),
      ev_decodeHandlers = (\<lambda>s. Some [\<lparr>hg_Domain = ''corp.'', hg_Source = example_source ''dns'', hg_Cache = \<lparr>ca_Enabled = False\<rparr>\<rparr>]),
      ev_nameservers = Inr [''127.0.0.1'', ''10.0.0.2'', ''10.0.0.3''], ev_tls = example_tls,
      ev_jobs = \<lparr>jd_readDir = (\<lambda>d. Some []), jd_stat = (\<lambda>f. StatNotExist), jd_open = (\<lambda>f. NotExist)\<rparr>, ev_decodeLinks = (\<lambda>s. None)\<rparr>"

theorem main_setup_sound_witness:
  "\<exists>su. main_setup example_environment rev = Inr su \<and> c_Recursors (su_config su) = [''10.0.0.3:53''] \<and>
     (\<forall>r\<in>set (c_Recursors (su_config su)). has_port r) \<and> map_of (su_handlers su) ''corp.'' \<noteq> None \<and> IsReduced (su_aliases su)"
proof -
  have "case main_setup example_environment rev of Inl e \<Rightarrow> False
     | Inr su \<Rightarrow> c_Recursors (su_config su) = [''10.0.0.3:53''] \<and> \<not> c_DisableRecursors (su_config su) \<and>
         map hg_Domain (su_handlerConfigs su) = [''corp.'']" by code_simp
  then obtain su where su: "main_setup example_environment rev = Inr su" "c_Recursors (su_config su) = [''10.0.0.3:53'']"
    "\<not> c_DisableRecursors (su_config su)" "map hg_Domain (su_handlerConfigs su) = [''corp.'']" by (auto split: sum.splits)
  moreover from su(4) obtain h where "h \<in> set (su_handlerConfigs su)" "hg_Domain h = ''corp.''" by auto
  ultimately show ?thesis using main_setup_sound [OF su(1)] by auto
qed

end
