(* ===== verification/Durations.thy ===== *)
theory Durations
  imports Complex_Main Net_IP
begin

text \<open>
  Durations as the configuration files have them (\<^verbatim>\<open>src/bosh-dns/dns/config/config.go\<close>,
  \<^verbatim>\<open>DurationJSON\<close>): Go's text form of a duration, its parser, which computes fractions in floating
  point, and the JSON form around them. A duration is a number of nanoseconds between
  \<open>-2^63\<close> and \<open>2^63 - 1\<close>; strings are bytes, so the micro sign is two of them.
\<close>

section \<open>Floating point\<close>

text \<open>
  Rounding to the nearest number with 53 significant bits, to the even one in a tie. The
  range of the exponents is not bounded: where Go's would overflow or underflow here, both
  results are cut to 0.
\<close>

function bit_length :: "int \<Rightarrow> nat" where
  "bit_length n = (if n \<le> 0 then 0 else Suc (bit_length (n div 2)))"
  by pat_completeness auto
termination by (relation "measure nat") auto

declare bit_length.simps [simp del]

definition round_even :: "rat \<Rightarrow> int" where
  "round_even x =
     (let n = floor x; r = x - of_int n in
      if r < 1 / 2 then n else if r > 1 / 2 then n + 1 else if even n then n else n + 1)"

definition pow2 :: "int \<Rightarrow> rat" where
  "pow2 e = (if e \<ge> 0 then 2 ^ nat e else 1 / 2 ^ nat (- e))"

definition float64 :: "rat \<Rightarrow> rat" where
  "float64 x =
     (if x \<le> 0 then 0
      else
        let (n, d) = quotient_of x;
            k = int (bit_length n) - int (bit_length d);
            k = (if pow2 k \<le> x then k else k - 1);
            e = k - 52
        in of_int (round_even (x / pow2 e)) * pow2 e)"

section \<open>Parsing\<close>

datatype duration_error = InvalidDuration | MissingUnit | UnknownUnit string

definition max_abs :: int where "max_abs = 9223372036854775808"

definition digit_of :: "char \<Rightarrow> int" where
  "digit_of c = int (of_char c) - 48"

definition micro_sign :: string where "micro_sign = [CHR 0xC2, CHR 0xB5]"
definition greek_mu :: string where "greek_mu = [CHR 0xCE, CHR 0xBC]"

definition unitMap :: "(string \<times> int) list" where
  "unitMap = [(''ns'', 1), (''us'', 1000), (micro_sign @ ''s'', 1000), (greek_mu @ ''s'', 1000),
     (''ms'', 1000000), (''s'', 1000000000), (''m'', 60000000000), (''h'', 3600000000000)]"

fun leadingInt :: "int \<Rightarrow> string \<Rightarrow> (int \<times> string) option" where
  "leadingInt x [] = Some (x, [])"
| "leadingInt x (c # s) =
     (if \<not> is_digit c then Some (x, c # s)
      else if x > max_abs div 10 then None
      else let x = x * 10 + digit_of c in if x > max_abs then None else leadingInt x s)"

fun leadingFraction :: "int \<Rightarrow> rat \<Rightarrow> bool \<Rightarrow> string \<Rightarrow> int \<times> rat \<times> string" where
  "leadingFraction x scale overflow [] = (x, scale, [])"
| "leadingFraction x scale overflow (c # s) =
     (if \<not> is_digit c then (x, scale, c # s)
      else if overflow then leadingFraction x scale overflow s
      else if x > (max_abs - 1) div 10 then leadingFraction x scale True s
      else let y = x * 10 + digit_of c in
           if y > max_abs then leadingFraction x scale True s
           else leadingFraction y (float64 (scale * 10)) False s)"

definition starts_number :: "char \<Rightarrow> bool" where
  "starts_number c \<longleftrightarrow> c = CHR ''.'' \<or> is_digit c"

definition fraction_ns :: "int \<Rightarrow> rat \<Rightarrow> int \<Rightarrow> int" where
  "fraction_ns f scale unit = floor (float64 (float64 (of_int f) * float64 (of_int unit / scale)))"

definition parse_fraction :: "string \<Rightarrow> int \<times> rat \<times> string \<times> bool" where
  "parse_fraction s =
     (if s \<noteq> [] \<and> hd s = CHR ''.''
      then let (f, scale, r) = leadingFraction 0 1 False (tl s) in (f, scale, r, length (tl s) \<noteq> length r)
      else (0, 1, s, False))"

text \<open>One number with its unit.\<close>

definition parse_part :: "string \<Rightarrow> duration_error + int \<times> string" where
  "parse_part s =
     (if s = [] \<or> \<not> starts_number (hd s) then Inl InvalidDuration
      else case leadingInt 0 s of
        None \<Rightarrow> Inl InvalidDuration
      | Some (v, s1) \<Rightarrow>
          let pre = (length s \<noteq> length s1);
              (f, scale, s2, post) = parse_fraction s1;
              u = takeWhile (\<lambda>c. \<not> starts_number c) s2;
              s3 = drop (length u) s2
          in if \<not> pre \<and> \<not> post then Inl InvalidDuration
             else if u = [] then Inl MissingUnit
             else case map_of unitMap u of
               None \<Rightarrow> Inl (UnknownUnit u)
             | Some unit \<Rightarrow>
                 if v > max_abs div unit then Inl InvalidDuration
                 else let v = v * unit; v = (if f > 0 then v + fraction_ns f scale unit else v)
                      in if f > 0 \<and> v > max_abs then Inl InvalidDuration else Inr (v, s3))"

lemma leadingInt_rest: "leadingInt x s = Some (v, r) \<Longrightarrow> length r \<le> length s"
  by (induction x s rule: leadingInt.induct) (auto simp: Let_def split: if_splits)

lemma leadingFraction_rest: "leadingFraction x sc ov s = (f, sc', r) \<Longrightarrow> length r \<le> length s"
  by (induction x sc ov s rule: leadingFraction.induct) (auto simp: Let_def split: if_splits)

lemma parse_fraction_rest: "parse_fraction s = (f, sc, r, post) \<Longrightarrow> length r \<le> length s"
  using leadingFraction_rest [of 0 1 False "tl s"] by (fastforce simp: parse_fraction_def split: if_splits prod.splits)

lemma parse_part_rest:
  assumes "parse_part s = Inr (v, r)"
  shows "length r < length s"
proof -
  obtain n s1 where n: "leadingInt 0 s = Some (n, s1)" using assms by (auto simp: parse_part_def split: if_splits option.splits)
  obtain f sc s2 post where f: "parse_fraction s1 = (f, sc, s2, post)" by (metis prod_cases4)
  let ?u = "takeWhile (\<lambda>c. \<not> starts_number c) s2"
  have u: "?u \<noteq> []" "r = drop (length ?u) s2"
    using assms by (auto simp: parse_part_def n f Let_def split: if_splits option.splits)
  then have "s2 \<noteq> []" by auto
  then have "length r < length s2" using u by simp
  also have "\<dots> \<le> length s1" by (rule parse_fraction_rest [OF f])
  also have "\<dots> \<le> length s" by (rule leadingInt_rest [OF n])
  finally show ?thesis .
qed

text \<open>The sum is a 64-bit word.\<close>

function parse_parts :: "int \<Rightarrow> string \<Rightarrow> duration_error + int" where
  "parse_parts d s =
     (if s = [] then Inr d
      else case parse_part s of
        Inl e \<Rightarrow> Inl e
      | Inr (v, r) \<Rightarrow> (let d = (d + v) mod 2 ^ 64 in if d > max_abs then Inl InvalidDuration else parse_parts d r))"
  by pat_completeness auto
termination by (relation "measure (\<lambda>(d, s). length s)") (auto dest: parse_part_rest)

declare parse_parts.simps [simp del]

definition ParseDuration :: "string \<Rightarrow> duration_error + int" where
  "ParseDuration orig =
     (let neg = (orig \<noteq> [] \<and> hd orig = CHR ''-'');
          s = (if orig \<noteq> [] \<and> (hd orig = CHR ''-'' \<or> hd orig = CHR ''+'') then tl orig else orig)
      in if s = ''0'' then Inr 0
         else if s = [] then Inl InvalidDuration
         else case parse_parts 0 s of
           Inl e \<Rightarrow> Inl e
         | Inr d \<Rightarrow> if neg then Inr (- d) else if d > max_abs - 1 then Inl InvalidDuration else Inr d)"

section \<open>Printing\<close>

text \<open>The digits are written from the right into a buffer, here in front of what is there.\<close>

fun fmtFrac :: "nat \<Rightarrow> int \<Rightarrow> bool \<Rightarrow> string \<Rightarrow> bool \<times> string \<times> int" where
  "fmtFrac 0 v pr buf = (pr, (if pr then CHR ''.'' # buf else buf), v)"
| "fmtFrac (Suc prec) v pr buf =
     (let digit = v mod 10; pr = (pr \<or> digit \<noteq> 0)
      in fmtFrac prec (v div 10) pr (if pr then digit_char (nat digit) # buf else buf))"

definition Duration_format :: "int \<Rightarrow> string" where
  "Duration_format u =
     (if u < 1000000000 then
        (if u = 0 then ''0s''
         else
           let (prec, suffix) = (if u < 1000 then (0, ''ns'') else if u < 1000000 then (3, micro_sign @ ''s'') else (6, ''ms''));
               (pr, buf, v) = fmtFrac prec u False suffix
           in itoa_int v @ buf)
      else
        let (pr, buf, v) = fmtFrac 9 u False ''s'';
            buf = itoa_int (v mod 60) @ buf; v = v div 60
        in if v > 0 then
             let buf = itoa_int (v mod 60) @ CHR ''m'' # buf; v = v div 60
             in if v > 0 then itoa_int v @ CHR ''h'' # buf else buf
           else buf)"

definition Duration_String :: "int \<Rightarrow> string" where
  "Duration_String d = (if d < 0 then CHR ''-'' # Duration_format (- d) else Duration_format d)"

section \<open>The JSON form\<close>

text \<open>
  \<^verbatim>\<open>json.Unmarshal\<close> into a string, of Go's standard library: control characters and unknown escapes
  are errors, bytes that are not UTF-8 are replaced, \<open>null\<close> leaves the empty string, and
  every other value is an error. All errors are \<open>None\<close>.
\<close>

definition json_space :: "char \<Rightarrow> bool" where
  "json_space c \<longleftrightarrow> c \<in> {CHR '' '', CHR 9, CHR 10, CHR 13}"

definition replacement :: string where "replacement = [CHR 0xEF, CHR 0xBF, CHR 0xBD]"

definition surrogate :: "nat \<Rightarrow> bool" where
  "surrogate r \<longleftrightarrow> 0xD800 \<le> r \<and> r < 0xE000"

definition utf8_encode :: "nat \<Rightarrow> string" where
  "utf8_encode r =
     (if r < 0x80 then [char_of r]
      else if r < 0x800 then [char_of (0xC0 + r div 64), char_of (0x80 + r mod 64)]
      else if surrogate r \<or> r > 0x10FFFF then replacement
      else if r < 0x10000 then [char_of (0xE0 + r div 4096), char_of (0x80 + r div 64 mod 64), char_of (0x80 + r mod 64)]
      else [char_of (0xF0 + r div 262144), char_of (0x80 + r div 4096 mod 64), char_of (0x80 + r div 64 mod 64), char_of (0x80 + r mod 64)])"

text \<open>The bytes of the character of more than one byte in front, 0 when it is not well formed.\<close>

definition utf8_width :: "string \<Rightarrow> nat" where
  "utf8_width s =
     (let b = (\<lambda>i. of_char (s ! i) :: nat); tail = (\<lambda>i. i < length s \<and> 0x80 \<le> b i \<and> b i \<le> 0xBF) in
      if s = [] then 0
      else if 0xC2 \<le> b 0 \<and> b 0 \<le> 0xDF \<and> tail 1 then 2
      else if 0xE0 \<le> b 0 \<and> b 0 \<le> 0xEF \<and> tail 1 \<and> tail 2 \<and> (b 0 = 0xE0 \<longrightarrow> 0xA0 \<le> b 1) \<and> (b 0 = 0xED \<longrightarrow> b 1 \<le> 0x9F) then 3
      else if 0xF0 \<le> b 0 \<and> b 0 \<le> 0xF4 \<and> tail 1 \<and> tail 2 \<and> tail 3 \<and> (b 0 = 0xF0 \<longrightarrow> 0x90 \<le> b 1) \<and> (b 0 = 0xF4 \<longrightarrow> b 1 \<le> 0x8F) then 4
      else 0)"

definition hex4 :: "string \<Rightarrow> nat option" where
  "hex4 s = (if length s \<ge> 4 \<and> list_all is_hex (take 4 s) then Some (foldl (\<lambda>n c. 16 * n + the (hex_val c)) 0 (take 4 s)) else None)"

definition json_escapes :: "(char \<times> char) list" where
  "json_escapes = [(CHR 34, CHR 34), (CHR 92, CHR 92), (CHR ''/'', CHR ''/''), (CHR ''b'', CHR 8), (CHR ''f'', CHR 12),
     (CHR ''n'', CHR 10), (CHR ''r'', CHR 13), (CHR ''t'', CHR 9)]"

text \<open>An escaped code unit and what it stands for with what follows: a pair of surrogates is one character.\<close>

definition json_unicode :: "string \<Rightarrow> (string \<times> string) option" where
  "json_unicode s =
     map_option (\<lambda>r.
       let t = drop 4 s in
       if \<not> surrogate r then (utf8_encode r, t)
       else case (if take 2 t = [CHR 92, CHR ''u''] then hex4 (drop 2 t) else None) of
           Some r2 \<Rightarrow> if r < 0xDC00 \<and> 0xDC00 \<le> r2 \<and> r2 < 0xE000
                      then (utf8_encode ((r - 0xD800) * 1024 + (r2 - 0xDC00) + 0x10000), drop 6 t) else (replacement, t)
         | None \<Rightarrow> (replacement, t)) (hex4 s)"

lemma json_unicode_rest: "json_unicode s = Some (x, t) \<Longrightarrow> length t \<le> length s"
  by (auto simp: json_unicode_def Let_def split: if_splits option.splits)

text \<open>What follows the opening quote: the characters, the closing quote and spaces.\<close>

function json_chars :: "string \<Rightarrow> string option" where
  "json_chars [] = None"
| "json_chars (c # s) =
     (if c = CHR 34 then (if list_all json_space s then Some [] else None)
      else if c = CHR 92 then
        (case s of [] \<Rightarrow> None
         | e # s' \<Rightarrow>
             if e = CHR ''u'' then (case json_unicode s' of None \<Rightarrow> None | Some (x, t) \<Rightarrow> map_option (\<lambda>r. x @ r) (json_chars t))
             else (case map_of json_escapes e of None \<Rightarrow> None | Some x \<Rightarrow> map_option (\<lambda>r. x # r) (json_chars s')))
      else if (of_char c :: nat) < 32 then None
      else if (of_char c :: nat) < 128 then map_option (\<lambda>r. c # r) (json_chars s)
      else if utf8_width (c # s) = 0 then map_option (\<lambda>r. replacement @ r) (json_chars s)
      else map_option (\<lambda>r. take (utf8_width (c # s)) (c # s) @ r) (json_chars (drop (utf8_width (c # s)) (c # s))))"
  by pat_completeness auto
termination
  by (relation "measure length") (auto dest: json_unicode_rest)

declare json_chars.simps [simp del]

definition json_string :: "string \<Rightarrow> string option" where
  "json_string b =
     (case dropWhile json_space b of
        [] \<Rightarrow> None
      | c # s \<Rightarrow> if c = CHR 34 then json_chars s
                 else if take 4 (c # s) = ''null'' \<and> list_all json_space (drop 4 (c # s)) then Some '''' else None)"

definition DurationJSON_UnmarshalJSON :: "string \<Rightarrow> (duration_error option) + int" where
  "DurationJSON_UnmarshalJSON b =
     (case json_string b of
        None \<Rightarrow> Inl None
      | Some s \<Rightarrow> (case ParseDuration s of Inl e \<Rightarrow> Inl (Some e) | Inr d \<Rightarrow> Inr d))"

definition DurationJSON_MarshalJSON :: "int \<Rightarrow> string" where
  "DurationJSON_MarshalJSON t = CHR 34 # Duration_String t @ [CHR 34]"


section \<open>Whole numbers in floating point\<close>

lemma pow2_nonpos: "e \<le> 0 \<Longrightarrow> pow2 e = 1 / 2 ^ nat (- e)"
  by (cases "e = 0") (simp_all add: pow2_def)

lemma round_even_int [simp]: "round_even (of_int n) = n"
  by (simp add: round_even_def)

lemma bit_length_le: "n < 2 ^ k \<Longrightarrow> bit_length n \<le> k"
proof (induction k arbitrary: n)
  case 0
  then show ?case by (subst bit_length.simps) simp
next
  case (Suc k)
  then have "bit_length (n div 2) \<le> k" by simp
  then show ?case by (subst bit_length.simps) simp
qed

lemma float64_int:
  assumes "0 \<le> n" "n < 2 ^ 53"
  shows "float64 (of_int n) = of_int n"
proof (cases "n = 0")
  case False
  let ?k = "int (bit_length n) - int (bit_length 1)"
  let ?k' = "if pow2 ?k \<le> of_int n then ?k else ?k - 1"
  have "bit_length 1 = 1" by (simp add: bit_length.simps [of 1] bit_length.simps [of 0])
  then have k: "?k' - 52 \<le> 0" using bit_length_le [OF assms(2)] by simp
  have "(of_int n :: rat) / pow2 (?k' - 52) = of_int (n * 2 ^ nat (52 - ?k'))"
    unfolding pow2_nonpos [OF k] by simp
  then have "of_int (round_even (of_int n / pow2 (?k' - 52))) * pow2 (?k' - 52) = (of_int n / pow2 (?k' - 52)) * pow2 (?k' - 52)"
    by (simp only: round_even_int)
  also have "\<dots> = of_int n" using pow2_nonpos [OF k] by simp
  finally show ?thesis using assms(1) False by (simp add: float64_def Let_def quotient_of_int)
qed (simp add: float64_def)

section \<open>Digits\<close>

definition digits_value :: "int \<Rightarrow> string \<Rightarrow> int" where
  "digits_value x ds = foldl (\<lambda>x c. x * 10 + digit_of c) x ds"

lemma digits_value_simps [simp]:
  "digits_value x [] = x" "digits_value x (c # ds) = digits_value (x * 10 + digit_of c) ds"
  "digits_value x (ds @ [c]) = digits_value x ds * 10 + digit_of c"
  by (simp_all add: digits_value_def)

lemma digit_of_bounds: "is_digit c \<Longrightarrow> 0 \<le> digit_of c \<and> digit_of c \<le> 9"
  by (auto simp: is_digit_def digit_of_def less_eq_char_def)

lemma digit_of_digit_char [simp]: "digit_of (digit_char n) = int (n mod 10)"
proof -
  have "n mod 10 = 0 \<or> n mod 10 = 1 \<or> n mod 10 = 2 \<or> n mod 10 = 3 \<or> n mod 10 = 4 \<or> n mod 10 = 5 \<or> n mod 10 = 6 \<or> n mod 10 = 7 \<or>
    n mod 10 = 8 \<or> n mod 10 = 9" by arith
  then show ?thesis by (auto simp: digit_char_def digit_of_def)
qed

lemma digits_value_itoa [simp]: "digits_value 0 (itoa n) = int n"
proof (induction n rule: itoa.induct)
  case (1 n)
  then show ?case by (subst itoa.simps) (simp add: zdiv_int zmod_int)
qed

lemma digits_value_ge: "list_all is_digit ds \<Longrightarrow> 0 \<le> x \<Longrightarrow> x \<le> digits_value x ds"
proof (induction ds arbitrary: x)
  case (Cons c ds)
  then have "0 \<le> digit_of c" using digit_of_bounds by simp
  with Cons have "x * 10 + digit_of c \<le> digits_value (x * 10 + digit_of c) ds" by simp
  then show ?case using Cons.prems(2) \<open>0 \<le> digit_of c\<close> by simp
qed simp

definition no_digit_next :: "string \<Rightarrow> bool" where
  "no_digit_next r \<longleftrightarrow> r = [] \<or> \<not> is_digit (hd r)"

lemma leadingInt_digits:
  assumes "list_all is_digit ds" "no_digit_next r" "0 \<le> x" "digits_value x ds \<le> max_abs"
  shows "leadingInt x (ds @ r) = Some (digits_value x ds, r)"
  using assms
proof (induction ds arbitrary: x)
  case Nil
  then show ?case by (cases r) (auto simp: no_digit_next_def)
next
  case (Cons c ds)
  have d: "is_digit c" "list_all is_digit ds" "0 \<le> digit_of c" using Cons.prems(1) digit_of_bounds by auto
  have "x * 10 + digit_of c \<le> max_abs" using digits_value_ge [OF d(2), of "x * 10 + digit_of c"] Cons.prems(3,4) d(3) by simp
  moreover from this have "\<not> x > max_abs div 10" using d(3) by (simp add: max_abs_def)
  ultimately show ?case using Cons.IH [OF d(2) Cons.prems(2)] Cons.prems(3,4) d by simp
qed

lemma leadingFraction_digits:
  assumes "list_all is_digit ds" "no_digit_next r" "0 \<le> x" "digits_value x ds < 10 ^ 9" "0 < k" "k * 10 ^ length ds \<le> 10 ^ 9"
  shows "leadingFraction x (of_int k) False (ds @ r) = (digits_value x ds, of_int (k * 10 ^ length ds), r)"
  using assms
proof (induction ds arbitrary: x k)
  case Nil
  then show ?case by (cases r) (auto simp: no_digit_next_def)
next
  case (Cons c ds)
  have d: "is_digit c" "list_all is_digit ds" "0 \<le> digit_of c" using Cons.prems(1) digit_of_bounds by auto
  have x: "x * 10 + digit_of c < 10 ^ 9" using digits_value_ge [OF d(2), of "x * 10 + digit_of c"] Cons.prems(3,4) d(3) by simp
  have "k * 10 \<le> k * 10 * 10 ^ length ds" using Cons.prems(5) by simp
  then have k: "k * 10 \<le> 10 ^ 9" using Cons.prems(6) by (simp add: mult.assoc)
  then have "float64 (of_int k * 10) = of_int (k * 10)" using float64_int [of "k * 10"] Cons.prems(5) by simp
  moreover have "\<not> x > (max_abs - 1) div 10" "\<not> x * 10 + digit_of c > max_abs" using x d(3) Cons.prems(3) by (simp_all add: max_abs_def)
  ultimately show ?case using Cons.IH [OF d(2) Cons.prems(2), of "x * 10 + digit_of c" "k * 10"] Cons.prems d(1,3)
    by (simp add: mult.assoc)
qed


section \<open>What is printed is parsed back\<close>

lemma fmtFrac_printing:
  "0 \<le> v \<Longrightarrow> \<exists>ds. fmtFrac prec v True buf = (True, CHR ''.'' # ds @ buf, v div 10 ^ prec) \<and> list_all is_digit ds \<and> length ds = prec \<and>
     digits_value 0 ds = v mod 10 ^ prec"
proof (induction prec arbitrary: v buf)
  case (Suc prec)
  have nn: "0 \<le> v div 10" using Suc.prems by simp
  obtain ds where ds: "fmtFrac prec (v div 10) True (digit_char (nat (v mod 10)) # buf) =
      (True, CHR ''.'' # ds @ digit_char (nat (v mod 10)) # buf, v div 10 div 10 ^ prec)" "list_all is_digit ds" "length ds = prec"
    "digits_value 0 ds = v div 10 mod 10 ^ prec" using Suc.IH [OF nn, of "digit_char (nat (v mod 10)) # buf"] by blast
  then have "fmtFrac (Suc prec) v True buf = (True, CHR ''.'' # (ds @ [digit_char (nat (v mod 10))]) @ buf, v div 10 ^ Suc prec)"
    by (simp add: zdiv_zmult2_eq)
  moreover have "digits_value 0 (ds @ [digit_char (nat (v mod 10))]) = v mod 10 ^ Suc prec"
    using ds(4) by (simp add: zmod_zmult2_eq nat_mod_distrib [symmetric])
  ultimately show ?case using ds(2,3) by (intro exI [of _ "ds @ [digit_char (nat (v mod 10))]"]) simp
qed simp

lemma fmtFrac_spec:
  "0 \<le> v \<Longrightarrow> fmtFrac prec v False buf = (False, buf, v div 10 ^ prec) \<and> v mod 10 ^ prec = 0 \<or>
   (\<exists>ds. fmtFrac prec v False buf = (True, CHR ''.'' # ds @ buf, v div 10 ^ prec) \<and> list_all is_digit ds \<and> length ds \<le> prec \<and>
      0 < digits_value 0 ds \<and> digits_value 0 ds * 10 ^ (prec - length ds) = v mod 10 ^ prec)"
proof (induction prec arbitrary: v)
  case (Suc prec)
  have nn: "0 \<le> v div 10" using Suc.prems by simp
  have m: "v mod 10 ^ Suc prec = 10 * (v div 10 mod 10 ^ prec) + v mod 10" by (simp add: zmod_zmult2_eq)
  have q: "v div 10 div 10 ^ prec = v div 10 ^ Suc prec" by (simp add: zdiv_zmult2_eq)
  show ?case
  proof (cases "v mod 10 = 0")
    case True
    from Suc.IH [OF nn] show ?thesis using True m q by (auto simp: Suc_diff_le)
  next
    case False
    obtain ds where ds: "fmtFrac prec (v div 10) True (digit_char (nat (v mod 10)) # buf) =
        (True, CHR ''.'' # ds @ digit_char (nat (v mod 10)) # buf, v div 10 div 10 ^ prec)" "list_all is_digit ds" "length ds = prec"
      "digits_value 0 ds = v div 10 mod 10 ^ prec" using fmtFrac_printing [OF nn, of prec "digit_char (nat (v mod 10)) # buf"] by blast
    have val: "digits_value 0 (ds @ [digit_char (nat (v mod 10))]) = v mod 10 ^ Suc prec"
      using ds(4) unfolding m digits_value_simps(3) digit_of_digit_char by simp
    have "0 \<le> v div 10 mod 10 ^ prec" by simp
    moreover have "0 < v mod 10" using False pos_mod_sign [of 10 v] by linarith
    ultimately have "0 < v mod 10 ^ Suc prec" unfolding m by linarith
    then show ?thesis
      using ds False val q by (intro disjI2 exI [of _ "ds @ [digit_char (nat (v mod 10))]"]) simp
  qed
qed simp

definition unit_text :: "string \<Rightarrow> bool" where
  "unit_text u \<longleftrightarrow> u \<noteq> [] \<and> list_all (\<lambda>c. \<not> starts_number c) u"

definition part_end :: "string \<Rightarrow> bool" where
  "part_end r \<longleftrightarrow> r = [] \<or> starts_number (hd r)"

lemma take_unit: "unit_text u \<Longrightarrow> part_end r \<Longrightarrow> takeWhile (\<lambda>c. \<not> starts_number c) (u @ r) = u"
  by (cases r) (auto simp: unit_text_def part_end_def list_all_iff takeWhile_append2)

lemma unit_text_hd: "unit_text u \<Longrightarrow> no_digit_next (u @ r) \<and> u @ r \<noteq> [] \<and> hd (u @ r) \<noteq> CHR ''.''"
  by (cases u) (auto simp: unit_text_def no_digit_next_def starts_number_def)

lemma itoa_digits: "list_all is_digit (itoa n) \<and> itoa n \<noteq> []"
  using all_digits_itoa [of n] by (auto simp: all_digits_def)

lemma itoa_int_nonneg: "0 \<le> n \<Longrightarrow> list_all is_digit (itoa_int n) \<and> itoa_int n \<noteq> [] \<and> digits_value 0 (itoa_int n) = n"
  using itoa_digits [of "nat n"] by (simp add: itoa_int_def)

lemma itoa_int_starts: "0 \<le> n \<Longrightarrow> starts_number (hd (itoa_int n @ s))"
  using itoa_int_nonneg [of n] by (cases "itoa_int n") (auto simp: starts_number_def)

lemma le_div: "0 < (u :: int) \<Longrightarrow> n * u \<le> m \<Longrightarrow> n \<le> m div u"
  using zdiv_mono1 [of "n * u" m u] by simp

lemma parse_part_whole:
  assumes "0 \<le> n" "unit_text u" "part_end r" "map_of unitMap u = Some unit" "0 < unit" "n * unit \<le> max_abs"
  shows "parse_part (itoa_int n @ u @ r) = Inr (n * unit, r)"
proof -
  have "n * 1 \<le> n * unit" using assms(1,5) by (intro mult_left_mono) simp_all
  then have b: "digits_value 0 (itoa_int n) \<le> max_abs" "n \<le> max_abs div unit"
    using assms(5,6) itoa_int_nonneg [OF assms(1)] by (simp_all add: le_div)
  have "leadingInt 0 (itoa_int n @ u @ r) = Some (n, u @ r)"
    using leadingInt_digits [of "itoa_int n" "u @ r" 0] itoa_int_nonneg [OF assms(1)] unit_text_hd [OF assms(2)] b(1) by simp
  moreover have "parse_fraction (u @ r) = (0, 1, u @ r, False)" using unit_text_hd [OF assms(2)] by (simp add: parse_fraction_def)
  ultimately show ?thesis
    using itoa_int_nonneg [OF assms(1)] itoa_int_starts [OF assms(1), of "u @ r"] take_unit [OF assms(2,3)] assms(2,4) b(2)
    by (simp add: parse_part_def unit_text_def Let_def)
qed

lemma fraction_exact:
  assumes "0 < f" "k \<le> p" "p \<le> 9" "f * 10 ^ (p - k) < 10 ^ p"
  shows "fraction_ns f (of_int (10 ^ k)) (10 ^ p) = f * 10 ^ (p - k)"
proof -
  have p: "(10 :: int) ^ p \<le> 10 ^ 9" using assms(3) by (intro power_increasing) simp_all
  have "(10 :: int) ^ (p - k) \<le> 10 ^ p" by (intro power_increasing) simp_all
  also have "\<dots> < 2 ^ 53" using p by (rule order.strict_trans1) simp
  finally have q: "(10 :: int) ^ (p - k) < 2 ^ 53" .
  have "f * 1 \<le> f * 10 ^ (p - k)" using assms(1) by (intro mult_left_mono) simp_all
  then have f: "f < 2 ^ 53" "f * 10 ^ (p - k) < 2 ^ 53" using assms(4) p by simp_all
  have "(of_int (10 ^ p) :: rat) = of_int (10 ^ (p - k)) * of_int (10 ^ k)" using assms(2) by (simp flip: power_add)
  then have "(of_int (10 ^ p) :: rat) / of_int (10 ^ k) = of_int (10 ^ (p - k))" by simp
  then have "float64 (of_int (10 ^ p) / of_int (10 ^ k)) = of_int (10 ^ (p - k))" using float64_int [OF _ q] by simp
  moreover have "float64 (of_int f) = of_int f" using float64_int f(1) assms(1) by simp
  moreover have "float64 (of_int (f * 10 ^ (p - k))) = of_int (f * 10 ^ (p - k))" using float64_int [OF _ f(2)] assms(1) by simp
  ultimately show ?thesis by (simp only: fraction_ns_def floor_of_int flip: of_int_mult)
qed

lemma parse_part_fraction:
  assumes "0 \<le> n" "unit_text u" "part_end r" "map_of unitMap u = Some (10 ^ p)" "p \<le> 9"
    and "list_all is_digit ds" "length ds \<le> p" "f = digits_value 0 ds" "0 < f" "f * 10 ^ (p - length ds) < 10 ^ p"
    and "n * 10 ^ p + f * 10 ^ (p - length ds) \<le> max_abs"
  shows "parse_part (itoa_int n @ CHR ''.'' # ds @ u @ r) = Inr (n * 10 ^ p + f * 10 ^ (p - length ds), r)"
proof -
  let ?t = "CHR ''.'' # ds @ u @ r"
  have fp: "0 \<le> f * 10 ^ (p - length ds)" using assms(9) by simp
  have "n * 1 \<le> n * 10 ^ p" using assms(1) by (intro mult_left_mono) simp_all
  then have b: "digits_value 0 (itoa_int n) \<le> max_abs" "n \<le> max_abs div 10 ^ p"
    using assms(11) fp itoa_int_nonneg [OF assms(1)] by (simp_all add: le_div)
  have "no_digit_next ?t" by (simp add: no_digit_next_def is_digit_def less_eq_char_def)
  then have l: "leadingInt 0 (itoa_int n @ ?t) = Some (n, ?t)"
    using leadingInt_digits [of "itoa_int n" ?t 0] itoa_int_nonneg [OF assms(1)] b(1) by simp
  have p: "(10 :: int) ^ p \<le> 10 ^ 9" using assms(5) by (intro power_increasing) simp_all
  have "f * 1 \<le> f * 10 ^ (p - length ds)" using assms(9) by (intro mult_left_mono) simp_all
  then have f: "f < 10 ^ 9" using assms(10) p by simp
  have "(10 :: int) ^ length ds \<le> 10 ^ 9" using assms(5,7) by (intro power_increasing) simp_all
  then have "leadingFraction 0 1 False (ds @ u @ r) = (f, of_int (10 ^ length ds), u @ r)"
    using leadingFraction_digits [of ds "u @ r" 0 1] assms(6,8) f unit_text_hd [OF assms(2)] by simp
  moreover have "ds \<noteq> []" using assms(8,9) by auto
  ultimately have fr: "parse_fraction ?t = (f, of_int (10 ^ length ds), u @ r, True)" by (simp add: parse_fraction_def)
  have part: "parse_part (itoa_int n @ ?t) =
      (let v = n * 10 ^ p + fraction_ns f (of_int (10 ^ length ds)) (10 ^ p) in if v > max_abs then Inl InvalidDuration else Inr (v, r))"
    using l fr itoa_int_nonneg [OF assms(1)] itoa_int_starts [OF assms(1), of ?t] take_unit [OF assms(2,3)] assms(2,4,9) b(2)
    by (simp add: parse_part_def unit_text_def Let_def del: of_int_power)
  show ?thesis unfolding part using fraction_exact [OF assms(9,7,5,10)] assms(11) by (simp add: Let_def del: of_int_power)
qed

text \<open>The last part of a text: a whole number, the fraction of \<open>w\<close> and the unit.\<close>

lemma parse_last_part:
  assumes "fmtFrac p w False u = (pr, buf, v)" "0 \<le> w" "0 \<le> n" "unit_text u" "map_of unitMap u = Some (10 ^ p)" "p \<le> 9"
    and "n * 10 ^ p + w mod 10 ^ p \<le> max_abs"
  shows "parse_part (itoa_int n @ buf) = Inr (n * 10 ^ p + w mod 10 ^ p, []) \<and> v = w div 10 ^ p"
  using fmtFrac_spec [OF assms(2), of p u]
proof (elim disjE exE conjE)
  assume "fmtFrac p w False u = (False, u, w div 10 ^ p)" "w mod 10 ^ p = 0"
  then show ?thesis using assms parse_part_whole [OF assms(3,4), of "[]"] by (simp add: part_end_def)
next
  fix ds
  assume ds: "fmtFrac p w False u = (True, CHR ''.'' # ds @ u, w div 10 ^ p)" "list_all is_digit ds" "length ds \<le> p"
    "0 < digits_value 0 ds" "digits_value 0 ds * 10 ^ (p - length ds) = w mod 10 ^ p"
  then show ?thesis
    using assms parse_part_fraction [OF assms(3,4) _ assms(5,6) ds(2,3) refl ds(4), of "[]"] by (simp add: part_end_def)
qed

lemma parse_parts_step:
  assumes "parse_part s = Inr (v, r)" "0 \<le> d" "0 \<le> v" "d + v \<le> max_abs" "s \<noteq> []"
  shows "parse_parts d s = parse_parts (d + v) r"
proof -
  have "(d + v) mod 2 ^ 64 = d + v" using assms(2-4) by (simp add: max_abs_def)
  then show ?thesis using assms by (subst parse_parts.simps) simp
qed


lemma parse_parts_end [simp]: "parse_parts d [] = Inr d"
  by (simp add: parse_parts.simps)

lemma unit_facts:
  "unit_text ''ns''" "unit_text (micro_sign @ ''s'')" "unit_text ''ms''" "unit_text ''s''" "unit_text ''m''" "unit_text ''h''"
  "map_of unitMap ''ns'' = Some (10 ^ 0)" "map_of unitMap (micro_sign @ ''s'') = Some (10 ^ 3)" "map_of unitMap ''ms'' = Some (10 ^ 6)"
  "map_of unitMap ''s'' = Some (10 ^ 9)" "map_of unitMap ''m'' = Some 60000000000" "map_of unitMap ''h'' = Some 3600000000000"
  by (simp_all add: unit_text_def unitMap_def micro_sign_def greek_mu_def starts_number_def is_digit_def less_eq_char_def)

lemma parse_one_part:
  assumes "parse_part (itoa_int n @ b) = Inr (v, r)" "0 \<le> n" "0 \<le> d" "0 \<le> v" "d + v \<le> max_abs"
  shows "parse_parts d (itoa_int n @ b) = parse_parts (d + v) r"
  using parse_parts_step [OF assms(1,3,4,5)] itoa_int_nonneg [OF assms(2)] by simp

lemma parse_small:
  assumes "fmtFrac p u False u' = (pr, buf, v)" "0 \<le> u" "u \<le> max_abs" "unit_text u'" "map_of unitMap u' = Some (10 ^ p)" "p \<le> 9"
  shows "parse_parts 0 (itoa_int v @ buf) = Inr u \<and> 0 \<le> v"
proof -
  have v: "v = u div 10 ^ p" "0 \<le> u div 10 ^ p" using fmtFrac_spec [OF assms(2), of p u'] assms(1,2) by (auto simp: pos_imp_zdiv_nonneg_iff)
  have "u div 10 ^ p * 10 ^ p + u mod 10 ^ p = u" by (rule div_mult_mod_eq)
  then show ?thesis
    using parse_last_part [OF assms(1,2) v(2) assms(4,5,6)] parse_one_part [of "u div 10 ^ p" buf u "[]" 0] assms(2,3) v by simp
qed

lemma parse_chain:
  assumes "parse_part (itoa_int c @ buf) = Inr (S, [])" "parse_part (itoa_int b @ ''m'' @ itoa_int c @ buf) = Inr (M, itoa_int c @ buf)"
    and "parse_part (itoa_int a @ ''h'' @ itoa_int b @ ''m'' @ itoa_int c @ buf) = Inr (H, itoa_int b @ ''m'' @ itoa_int c @ buf)"
    and "0 \<le> a" "0 \<le> b" "0 \<le> c" "0 \<le> S" "0 \<le> M" "0 \<le> H" "H + M + S \<le> max_abs"
  shows "parse_parts 0 (itoa_int c @ buf) = Inr S" "parse_parts 0 (itoa_int b @ CHR ''m'' # itoa_int c @ buf) = Inr (M + S)"
    "parse_parts 0 (itoa_int a @ CHR ''h'' # itoa_int b @ CHR ''m'' # itoa_int c @ buf) = Inr (H + M + S)"
proof -
  have s: "parse_parts d (itoa_int c @ buf) = Inr (d + S)" if "0 \<le> d" "d \<le> H + M" for d
    using parse_one_part [OF assms(1,6) that(1)] that assms(7-10) by simp
  have m: "parse_parts d (itoa_int b @ CHR ''m'' # itoa_int c @ buf) = Inr (d + M + S)" if "0 \<le> d" "d \<le> H" for d
    using parse_one_part [OF assms(2,5) that(1)] s [of "d + M"] that assms(7-10) by simp
  show "parse_parts 0 (itoa_int c @ buf) = Inr S" using s [of 0] assms(8,9) by simp
  show "parse_parts 0 (itoa_int b @ CHR ''m'' # itoa_int c @ buf) = Inr (M + S)" using m [of 0] assms(9) by simp
  show "parse_parts 0 (itoa_int a @ CHR ''h'' # itoa_int b @ CHR ''m'' # itoa_int c @ buf) = Inr (H + M + S)"
    using parse_one_part [OF assms(3,4), of 0] m [of H] assms(7-10) by simp
qed

lemma parse_clock:
  assumes "fmtFrac 9 u False ''s'' = (pr, buf, v)" "0 \<le> u" "u \<le> max_abs"
  shows "parse_parts 0 (itoa_int (v mod 60) @ buf) = Inr (v mod 60 * 10 ^ 9 + u mod 10 ^ 9)"
    "parse_parts 0 (itoa_int (v div 60 mod 60) @ CHR ''m'' # itoa_int (v mod 60) @ buf) =
       Inr (v div 60 mod 60 * 60000000000 + (v mod 60 * 10 ^ 9 + u mod 10 ^ 9))"
    "parse_parts 0 (itoa_int (v div 60 div 60) @ CHR ''h'' # itoa_int (v div 60 mod 60) @ CHR ''m'' # itoa_int (v mod 60) @ buf) = Inr u"
    "v = u div 10 ^ 9" "0 \<le> v"
proof -
  have v: "v = u div 10 ^ 9" "0 \<le> v" using fmtFrac_spec [OF assms(2), of 9 "''s''"] assms(1,2) by (auto simp: pos_imp_zdiv_nonneg_iff)
  let ?S = "v mod 60 * 10 ^ 9 + u mod 10 ^ 9" and ?M = "v div 60 mod 60 * 60000000000" and ?H = "v div 60 div 60 * 3600000000000"
  have r: "0 \<le> v mod 60" "0 \<le> v div 60 mod 60" "0 \<le> v div 60 div 60" "0 \<le> u mod 10 ^ 9" using v(2) by (simp_all add: pos_imp_zdiv_nonneg_iff)
  have sum: "?H + ?M + ?S = u"
  proof -
    have "v div 60 = 60 * (v div 60 div 60) + v div 60 mod 60" "v = 60 * (v div 60) + v mod 60" "u = 10 ^ 9 * v + u mod 10 ^ 9"
      unfolding v(1) by simp_all
    moreover have "(10 :: int) ^ 9 = 1000000000" by simp
    ultimately show ?thesis by presburger
  qed
  have nn: "0 \<le> ?S" "0 \<le> ?M" "0 \<le> ?H" using r by simp_all
  then have le: "?S \<le> max_abs" "?M + ?S \<le> max_abs" using sum assms(3) by linarith+
  note S = le nn
  have s: "parse_part (itoa_int (v mod 60) @ buf) = Inr (?S, [])"
    by (rule parse_last_part [THEN conjunct1, OF assms(1,2) r(1) unit_facts(4,10) _ S(1)]) simp
  have e: "part_end (itoa_int n @ t)" if "0 \<le> n" for n t using itoa_int_starts [OF that] by (simp add: part_end_def)
  have m: "parse_part (itoa_int (v div 60 mod 60) @ ''m'' @ itoa_int (v mod 60) @ buf) = Inr (?M, itoa_int (v mod 60) @ buf)"
    by (rule parse_part_whole [OF r(2) unit_facts(5) e [OF r(1)] unit_facts(11)]) (use S in linarith)+
  have h: "parse_part (itoa_int (v div 60 div 60) @ ''h'' @ itoa_int (v div 60 mod 60) @ ''m'' @ itoa_int (v mod 60) @ buf) =
      Inr (?H, itoa_int (v div 60 mod 60) @ ''m'' @ itoa_int (v mod 60) @ buf)"
    by (rule parse_part_whole [OF r(3) unit_facts(6) e [OF r(2)] unit_facts(12)]) (use S sum assms(3) in linarith)+
  have total: "?H + ?M + ?S \<le> max_abs" using sum assms(3) by linarith
  note chain = parse_chain [OF s m h r(3,2,1) S(3,4,5) total]
  show "parse_parts 0 (itoa_int (v mod 60) @ buf) = Inr ?S" by (rule chain)
  show "parse_parts 0 (itoa_int (v div 60 mod 60) @ CHR ''m'' # itoa_int (v mod 60) @ buf) = Inr (?M + ?S)" by (rule chain)
  show "parse_parts 0 (itoa_int (v div 60 div 60) @ CHR ''h'' # itoa_int (v div 60 mod 60) @ CHR ''m'' # itoa_int (v mod 60) @ buf) = Inr u"
    using chain(3) unfolding sum .
  show "v = u div 10 ^ 9" "0 \<le> v" by (rule v)+
qed


lemma format_cases:
  assumes "0 \<le> u" "u \<le> max_abs"
  shows "parse_parts 0 (Duration_format u) = Inr u \<and> (\<exists>n t. 0 \<le> n \<and> t \<noteq> [] \<and> Duration_format u = itoa_int n @ t)"
proof (cases "u < 1000000000")
  case True
  show ?thesis
  proof (cases "u = 0")
    case True
    have z: "''0s'' = itoa_int 0 @ ''s''" by (simp add: itoa_int_def itoa.simps digit_char_def)
    have "parse_part (itoa_int 0 @ ''s'' @ []) = Inr (0 * 10 ^ 9, [])"
      by (rule parse_part_whole) (simp_all add: unit_facts [simplified] part_end_def max_abs_def)
    then have "parse_parts 0 (itoa_int 0 @ ''s'') = Inr 0" using parse_one_part [of 0 "''s''" 0 "[]" 0] by (simp add: max_abs_def)
    moreover have "Duration_format u = itoa_int 0 @ ''s''" using True unfolding z [symmetric] by (simp add: Duration_format_def)
    ultimately show ?thesis using True by (metis list.distinct(1) order_refl)
  next
    case False
    obtain p s where ps: "(p, s) = (if u < 1000 then (0, ''ns'') else if u < 1000000 then (3, micro_sign @ ''s'') else (6, ''ms''))"
      "unit_text s" "map_of unitMap s = Some (10 ^ p)" "p \<le> 9"
      using that unit_facts by (cases "u < 1000"; cases "u < 1000000") auto
    obtain pr buf v where f: "fmtFrac p u False s = (pr, buf, v)" by (metis prod_cases3)
    have "buf \<noteq> []" using fmtFrac_spec [OF assms(1), of p s] f ps(2) by (auto simp: unit_text_def)
    then show ?thesis
      using parse_small [OF f assms ps(2-4)] True False f ps(1) by (auto simp: Duration_format_def split: prod.splits if_splits)
  qed
next
  case False
  obtain pr buf v where f: "fmtFrac 9 u False ''s'' = (pr, buf, v)" by (metis prod_cases3)
  note P = parse_clock [OF f assms]
  have b: "buf \<noteq> []" using fmtFrac_spec [OF assms(1), of 9 "''s''"] f by auto
  have nn: "0 \<le> v mod 60" "0 \<le> v div 60 mod 60" by simp_all
  have nn3: "0 \<le> v div 60 div 60" using P(5) by (simp add: pos_imp_zdiv_nonneg_iff)
  consider "v div 60 = 0" | "v div 60 > 0" "v div 60 div 60 = 0" | "v div 60 > 0" "v div 60 div 60 > 0" using nn3 by force
  then show ?thesis
  proof cases
    case 1
    then have "v mod 60 = v" using P(5) by presburger
    then have "v mod 60 * 10 ^ 9 + u mod 10 ^ 9 = u" using P(4) by simp
    moreover have "Duration_format u = itoa_int (v mod 60) @ buf" using 1 False by (simp add: Duration_format_def f)
    ultimately show ?thesis using P(1) nn(1) b by metis
  next
    case 2
    have "v div 60 mod 60 = v div 60" using 2(2) P(5) by presburger
    moreover have "60 * (v div 60) + v mod 60 = v" "10 ^ 9 * v + u mod 10 ^ 9 = u" unfolding P(4) by simp_all
    moreover have "(10 :: int) ^ 9 = 1000000000" by simp
    ultimately have "v div 60 mod 60 * 60000000000 + (v mod 60 * 10 ^ 9 + u mod 10 ^ 9) = u" by presburger
    moreover have "Duration_format u = itoa_int (v div 60 mod 60) @ CHR ''m'' # itoa_int (v mod 60) @ buf"
      using 2 False by (simp add: Duration_format_def f Let_def)
    ultimately show ?thesis using P(2) nn(2) by (metis list.distinct(1))
  next
    case 3
    then have "Duration_format u = itoa_int (v div 60 div 60) @ CHR ''h'' # itoa_int (v div 60 mod 60) @ CHR ''m'' # itoa_int (v mod 60) @ buf"
      using False by (simp add: Duration_format_def f Let_def)
    then show ?thesis using P(3) nn3 by (metis list.distinct(1))
  qed
qed

text \<open>Texts that the JSON decoder reads as they are, whatever follows.\<close>

definition passes :: "string \<Rightarrow> bool" where
  "passes s \<longleftrightarrow> (\<forall>t. json_chars (s @ t) = map_option (\<lambda>r. s @ r) (json_chars t))"

lemma passes_append: "passes s \<Longrightarrow> passes t \<Longrightarrow> passes (s @ t)"
  by (simp add: passes_def option.map_comp comp_def)

definition plain_char :: "char \<Rightarrow> bool" where
  "plain_char c \<longleftrightarrow> is_digit c \<or> c \<in> set ''-.nsmh''"

lemma plain_char_code: "plain_char c \<Longrightarrow> c \<noteq> CHR 34 \<and> c \<noteq> CHR 92 \<and> \<not> (of_char c :: nat) < 32 \<and> (of_char c :: nat) < 128"
  by (auto simp: plain_char_def is_digit_def less_eq_char_def)

lemma passes_Cons: "plain_char c \<Longrightarrow> passes s \<Longrightarrow> passes (c # s)"
  using plain_char_code [of c] by (simp add: passes_def json_chars.simps option.map_comp comp_def)

lemma passes_Nil: "passes []"
  by (simp add: passes_def option.map_ident)

lemma passes_plain: "list_all plain_char s \<Longrightarrow> passes s"
  by (induction s) (simp_all add: passes_Nil passes_Cons)

lemma passes_micro: "passes micro_sign"
  by (auto simp: passes_def micro_sign_def json_chars.simps utf8_width_def Let_def numeral_2_eq_2 intro!: option.map_cong)

lemma fmtFrac_passes: "passes buf \<Longrightarrow> fmtFrac p v pr buf = (pr', b, v') \<Longrightarrow> passes b"
proof (induction p v pr buf rule: fmtFrac.induct)
  case (1 v pr buf)
  then show ?case by (auto simp: plain_char_def intro: passes_Cons split: if_splits)
next
  case (2 prec v pr buf)
  have "passes (if pr \<or> v mod 10 \<noteq> 0 then digit_char (nat (v mod 10)) # buf else buf)"
    using "2.prems"(1) by (auto simp: plain_char_def intro: passes_Cons)
  then show ?case using "2.IH" [OF refl refl] "2.prems"(2) by (simp add: Let_def)
qed

lemma passes_itoa: "0 \<le> n \<Longrightarrow> passes (itoa_int n)"
  using itoa_int_nonneg [of n] by (auto simp: plain_char_def list_all_iff intro: passes_plain)

lemma format_passes:
  assumes "0 \<le> u"
  shows "passes (Duration_format u)"
proof -
  have unit: "passes ''ns''" "passes (micro_sign @ ''s'')" "passes ''ms''" "passes ''s''" "passes ''0s''"
    by (intro passes_append passes_micro passes_plain; simp add: plain_char_def is_digit_def less_eq_char_def)+
  have small: "passes (case fmtFrac p u False s of (pr, b, v) \<Rightarrow> itoa_int v @ b)" if "passes s" for p s
  proof -
    obtain pr b v where f: "fmtFrac p u False s = (pr, b, v)" by (metis prod_cases3)
    have "0 \<le> v" using fmtFrac_spec [OF assms, of p s] f assms by (auto simp: pos_imp_zdiv_nonneg_iff)
    then show ?thesis using fmtFrac_passes [OF that f] passes_itoa f by (simp add: passes_append)
  qed
  obtain pr b v where f: "fmtFrac 9 u False ''s'' = (pr, b, v)" by (metis prod_cases3)
  have v: "0 \<le> v" using fmtFrac_spec [OF assms, of 9 "''s''"] f assms by (auto simp: pos_imp_zdiv_nonneg_iff)
  have b: "passes b" using fmtFrac_passes [OF unit(4) f] .
  have mh: "passes s \<Longrightarrow> passes (CHR ''m'' # s)" "passes s \<Longrightarrow> passes (CHR ''h'' # s)" for s
    by (simp_all add: passes_Cons plain_char_def)
  have "passes (itoa_int (v mod 60))" "passes (itoa_int (v div 60 mod 60))" "passes (itoa_int (v div 60 div 60))"
    using v by (simp_all add: passes_itoa pos_imp_zdiv_nonneg_iff)
  then have clock: "passes (itoa_int (v mod 60) @ b)" "passes (itoa_int (v div 60 mod 60) @ CHR ''m'' # itoa_int (v mod 60) @ b)"
    "passes (itoa_int (v div 60 div 60) @ CHR ''h'' # itoa_int (v div 60 mod 60) @ CHR ''m'' # itoa_int (v mod 60) @ b)"
    using b by (simp_all add: passes_append mh)
  show ?thesis
  proof (cases "u < 1000000000")
    case True
    then have "Duration_format u = ''0s'' \<or> Duration_format u = (case fmtFrac 0 u False ''ns'' of (pr, b, v) \<Rightarrow> itoa_int v @ b) \<or>
        Duration_format u = (case fmtFrac 3 u False (micro_sign @ ''s'') of (pr, b, v) \<Rightarrow> itoa_int v @ b) \<or>
        Duration_format u = (case fmtFrac 6 u False ''ms'' of (pr, b, v) \<Rightarrow> itoa_int v @ b)"
      unfolding Duration_format_def Let_def by simp
    then show ?thesis
      using unit(5) small [OF unit(1), of 0] small [OF unit(2), of 3] small [OF unit(3), of 6]
      by (elim disjE) (simp_all only:)
  next
    case False
    then show ?thesis using clock by (simp only: Duration_format_def f prod.case Let_def if_False split: if_split) simp
  qed
qed

lemma MarshalJSON_read: "json_string (DurationJSON_MarshalJSON d) = Some (Duration_String d)"
proof -
  have "passes (Duration_format \<bar>d\<bar>)" by (rule format_passes) simp
  then have "passes (Duration_String d)" by (cases "d < 0") (simp_all add: Duration_String_def passes_Cons plain_char_def)
  then have "json_chars (Duration_String d @ [CHR 34]) = Some (Duration_String d)"
    unfolding passes_def by (simp add: json_chars.simps)
  then show ?thesis by (simp add: json_string_def DurationJSON_MarshalJSON_def json_space_def)
qed

text \<open>
  C36: Durations in configuration files: the text of every duration, from the least to the
  greatest 64-bit number of nanoseconds, is parsed back to it, although the parser computes
  fractions in floating point; and so is its JSON form, through the decoder of JSON strings,
  also where the text has the two bytes of the micro sign.
\<close>

theorem duration_roundtrip:
  assumes "- max_abs \<le> d" "d < max_abs"
  shows "ParseDuration (Duration_String d) = Inr d \<and> DurationJSON_UnmarshalJSON (DurationJSON_MarshalJSON d) = Inr d"
proof -
  have u: "0 \<le> \<bar>d\<bar>" "\<bar>d\<bar> \<le> max_abs" using assms(1,2) by simp_all
  obtain n t where t: "0 \<le> n" "t \<noteq> []" "Duration_format \<bar>d\<bar> = itoa_int n @ t" and parts: "parse_parts 0 (Duration_format \<bar>d\<bar>) = Inr \<bar>d\<bar>"
    using format_cases [OF u] by blast
  have ne: "Duration_format \<bar>d\<bar> \<noteq> []" "Duration_format \<bar>d\<bar> \<noteq> ''0''"
    using t itoa_int_nonneg [OF t(1)] by (auto simp: append_eq_Cons_conv)
  have hd: "hd (Duration_format \<bar>d\<bar>) \<noteq> CHR ''-''" "hd (Duration_format \<bar>d\<bar>) \<noteq> CHR ''+''"
    using itoa_int_starts [OF t(1), of t] unfolding t(3) by (auto simp: starts_number_def is_digit_def less_eq_char_def)
  have "ParseDuration (Duration_String d) = Inr d"
    using ne hd parts assms(2) by (cases "d < 0") (simp_all add: ParseDuration_def Duration_String_def Let_def)
  then show ?thesis by (simp add: DurationJSON_UnmarshalJSON_def MarshalJSON_read)
qed

theorem duration_roundtrip_witness:
  "Duration_String (- 90000000001) = ''-1m30.000000001s'' \<and>
   ParseDuration ''-1m30.000000001s'' = Inr (- 90000000001) \<and>
   DurationJSON_UnmarshalJSON (DurationJSON_MarshalJSON 1500) = Inr 1500"
proof -
  have "Duration_String (- 90000000001) = ''-1m30.000000001s''" by code_simp
  then show ?thesis using duration_roundtrip [of "- 90000000001"] duration_roundtrip [of 1500] by (simp add: max_abs_def)
qed

end
