(* ===== verification/Programs.thy ===== *)
theory Programs
  imports Main_Setup Durations
begin

text \<open>
  The programs beside the server: the health check (\<^verbatim>\<open>src/bosh-dns/healthcheck/main.go\<close>,
  \<^verbatim>\<open>healthcheck/healthserver\<close>), the one that waits for a name (\<^verbatim>\<open>wait/main.go\<close>), the nameserver monitor
  (\<^verbatim>\<open>dns/nameserverconfig/main.go\<close>) and the updater of systemd-resolved
  (\<^verbatim>\<open>dns/systemdresolvedupdater/main.go\<close>). Each is a function of its arguments and of what the
  machine answers to its exit code; \<open>None\<close> means that it is still running.
\<close>

section \<open>Waiting for a name\<close>

definition getResolver :: "string \<Rightarrow> int \<Rightarrow> string option" where
  "getResolver address port = (if address \<noteq> '''' then Some (JoinHostPort address (itoa_int port)) else None)"

text \<open>
  The lookups in their order, each with how long it took and whether it succeeded; a second
  passes before the next one. A lookup that ends with the timer is in time.
\<close>

fun wait_loop :: "int \<Rightarrow> int \<Rightarrow> (int \<times> bool) list \<Rightarrow> int option" where
  "wait_loop timeout t [] = (if t > timeout then Some 1 else None)"
| "wait_loop timeout t ((d, ok) # lookups) =
     (if t + d > timeout then Some 1
      else if ok then Some 0
      else wait_loop timeout (t + d + 1000000000) lookups)"

definition wait_main :: "int \<Rightarrow> (int \<times> bool) list \<Rightarrow> int option" where
  "wait_main timeout lookups = wait_loop timeout 0 lookups"

section \<open>The health check\<close>

record health_check_config =
  hk_Address :: string
  hk_Port :: int
  hk_CAFile :: string
  hk_CertificateFile :: string
  hk_PrivateKeyFile :: string
  hk_HealthExecutableInterval :: int
  hk_HealthExecutablePath :: string
  hk_HealthFileName :: string
  hk_JobsDir :: string
  hk_RequestTimeout :: int
  hk_LogLevel :: string
  hk_LogFormat :: string

datatype health_check_error = NoConfigArgument | ConfigNotOpened | ConfigNotDecoded | BadLogLevel | JobsNotParsed | TLSNotBuilt tls_error

text \<open>\<open>args\<close> is without the name of the program.\<close>

definition getConfig :: "string list \<Rightarrow> (string \<Rightarrow> string option) \<Rightarrow> (string \<Rightarrow> health_check_config option) \<Rightarrow>
    health_check_error + health_check_config" where
  "getConfig args opened decode =
     (case args of
        [] \<Rightarrow> Inl NoConfigArgument
      | configFile # rest \<Rightarrow>
          (case opened configFile of
             None \<Rightarrow> Inl ConfigNotOpened
           | Some f \<Rightarrow> (case decode f of None \<Rightarrow> Inl ConfigNotDecoded | Some config \<Rightarrow> Inr config)))"

text \<open>
  The listener and how \<^verbatim>\<open>Serve\<close> returns: not at all while it listens, and after it has ended,
  with an error or closed by the shutdown, normally.
\<close>

record health_listener =
  hl_Addr :: string
  hl_TLSConfig :: tls_config
  hl_Timeout :: int

definition Serve :: "tls_world \<Rightarrow> health_check_config \<Rightarrow> health_check_error + health_listener" where
  "Serve w config =
     res_bind (map_err TLSNotBuilt (listener_tls w (hk_CertificateFile config) (hk_PrivateKeyFile config) (hk_CAFile config))) (\<lambda>tlsConfig.
     Inr \<lparr>hl_Addr = hk_Address config @ '':'' @ itoa_int (hk_Port config), hl_TLSConfig = tlsConfig, hl_Timeout = hk_RequestTimeout config\<rparr>)"

definition health_check_start ::
  "string list \<Rightarrow> (string \<Rightarrow> string option) \<Rightarrow> (string \<Rightarrow> health_check_config option) \<Rightarrow> jobs_dir \<Rightarrow>
   (string \<Rightarrow> link_metadata list option) \<Rightarrow> tls_world \<Rightarrow> health_check_error + job list \<times> health_listener" where
  "health_check_start args opened decode fs links tls =
     res_bind (getConfig args opened decode) (\<lambda>config.
     res_bind (if hk_LogLevel config \<noteq> '''' \<and> Levelify (hk_LogLevel config) = None then Inl BadLogLevel else Inr ()) (\<lambda>_.
     res_bind (case ParseJobs fs links (hk_JobsDir config) (hk_HealthExecutablePath config) of None \<Rightarrow> Inl JobsNotParsed | Some jobs \<Rightarrow> Inr jobs) (\<lambda>jobs.
     res_bind (Serve tls config) (\<lambda>listener. Inr (jobs, listener)))))"

definition health_check_main where
  "health_check_main args opened decode fs links tls ended =
     (case health_check_start args opened decode fs links tls of
        Inl e \<Rightarrow> Some (1 :: int)
      | Inr running \<Rightarrow> if ended then Some 0 else None)"

section \<open>The nameserver monitor\<close>

text \<open>An address that is none ends the program at once; otherwise the monitor runs at every tick until SIGTERM.\<close>

definition nameserverconfig_main ::
  "'w machine \<Rightarrow> string \<Rightarrow> ('w \<Rightarrow> 'w) list \<Rightarrow> bool \<Rightarrow> 'w \<Rightarrow> int option \<times> manager_error list \<times> 'w" where
  "nameserverconfig_main m bindAddress ticks sigterm w =
     (if ParseIP bindAddress = None then (Some 1, [], w)
      else (if sigterm then Some 0 else None, Monitor_Run (resolvConf_SetPrimary m bindAddress) ticks w))"

section \<open>The updater of systemd-resolved\<close>

datatype updater_error = UpdaterConfig config_error | UpdaterLogLevel | UpdaterAliases alias_error | UpdaterHandlers config_error | UpdaterCommand

text \<open>\<open>env\<close> is what the machine answers when files are read, \<open>d\<close> the records file on disk.\<close>

definition resolved_updater_main ::
  "environment \<Rightarrow> (string \<Rightarrow> swap option) \<Rightarrow> alias_query_encoder \<Rightarrow> (string list \<Rightarrow> string list) \<Rightarrow> 'st disk \<Rightarrow> 'w machine \<Rightarrow> 'w \<Rightarrow>
   updater_error option \<times> 'w" where
  "resolved_updater_main env unmarshal encoder order d m w =
     (case
        res_bind (map_err UpdaterConfig (LoadFromFile (ev_read env (ev_config env)) (ev_decodeConfig env))) (\<lambda>c.
        res_bind (case GetLogLevel c of None \<Rightarrow> Inl UpdaterLogLevel | Some level \<Rightarrow> Inr level) (\<lambda>level.
        res_bind (map_err UpdaterAliases (ConfigFromGlob (ev_glob env)
            (aliases_Load (ev_read env) (ev_decodeAliases env)) (c_AliasFilesGlob c))) (\<lambda>aliases.
        let recordSet = fst (NewRecordSet unmarshal encoder order (Get (NewFileReader d)) aliases) in
        res_bind (map_err UpdaterHandlers (handlers_ConfigFromGlob (ev_glob env)
            (handlers_Load (ev_read env) (ev_decodeHandlers env)) (c_HandlersFilesGlob c))) (\<lambda>hs.
        Inr (c, recordSet, hs)))))
      of Inl e \<Rightarrow> (Some e, w)
       | Inr (c, recordSet, hs) \<Rightarrow>
           if c_ConfigureSystemdResolved c then
             (let (failed, w) = UpdateDomains m (resolved_domains hs recordSet c) w in (if failed then Some UpdaterCommand else None, w))
           else (None, w))"


section \<open>When the waiting ends\<close>

text \<open>When a lookup ends, counted from the start.\<close>

definition lookup_end :: "(int \<times> bool) list \<Rightarrow> nat \<Rightarrow> int" where
  "lookup_end lookups i = sum_list (map (\<lambda>(d, ok). d + 1000000000) (take i lookups)) + fst (lookups ! i)"

lemma lookup_end_simps [simp]:
  "lookup_end (x # lookups) 0 = fst x" "lookup_end (x # lookups) (Suc i) = fst x + 1000000000 + lookup_end lookups i"
  by (cases x; simp add: lookup_end_def)+

lemma lookup_end_nonneg: "\<forall>x\<in>set lookups. fst x \<ge> 0 \<Longrightarrow> i < length lookups \<Longrightarrow> lookup_end lookups i \<ge> 0"
  by (induction lookups arbitrary: i) (auto simp: less_Suc_eq_0_disj)

lemma wait_loop_success:
  "\<forall>x\<in>set lookups. fst x \<ge> 0 \<Longrightarrow>
   wait_loop timeout t lookups = Some 0 \<longleftrightarrow>
     (\<exists>i<length lookups. snd (lookups ! i) \<and> (\<forall>j<i. \<not> snd (lookups ! j)) \<and> t + lookup_end lookups i \<le> timeout)"
proof (induction timeout t lookups rule: wait_loop.induct)
  case (2 timeout t d ok lookups)
  have nn: "lookup_end lookups i \<ge> 0" if "i < length lookups" for i using lookup_end_nonneg [of lookups] 2(2) that by simp
  define P where "P i \<longleftrightarrow> snd (((d, ok) # lookups) ! i) \<and> (\<forall>j<i. \<not> snd (((d, ok) # lookups) ! j)) \<and> t + lookup_end ((d, ok) # lookups) i \<le> timeout" for i
  define Q where "Q i \<longleftrightarrow> snd (lookups ! i) \<and> (\<forall>j<i. \<not> snd (lookups ! j)) \<and> t + d + 1000000000 + lookup_end lookups i \<le> timeout" for i
  have "P 0 \<longleftrightarrow> ok \<and> t + d \<le> timeout" by (simp add: P_def)
  moreover have "P (Suc i) \<longleftrightarrow> \<not> ok \<and> Q i" for i
    unfolding P_def Q_def All_less_Suc2 by (auto simp: add.assoc)
  ultimately have split: "(\<exists>i<length ((d, ok) # lookups). P i) \<longleftrightarrow> ok \<and> t + d \<le> timeout \<or> \<not> ok \<and> (\<exists>i<length lookups. Q i)"
    using Ex_less_Suc2 [of "length lookups" P] by (cases ok) simp_all
  show ?case
  proof (cases "t + d > timeout \<or> ok")
    case True
    have "\<not> Q i" if "t + d > timeout" "i < length lookups" for i using nn [OF that(2)] that(1) by (simp add: Q_def)
    then show ?thesis unfolding P_def [symmetric] split using True by (cases "t + d > timeout") auto
  next
    case False
    then show ?thesis unfolding P_def [symmetric] split using 2 by (simp add: Q_def)
  qed
qed simp

lemma wait_loop_ends:
  "\<forall>x\<in>set lookups. fst x \<ge> 0 \<Longrightarrow> timeout < t + int (length lookups) * 1000000000 \<Longrightarrow> wait_loop timeout t lookups \<noteq> None"
  by (induction timeout t lookups rule: wait_loop.induct) (auto simp: algebra_simps)

text \<open>
  The program that waits ends, with success exactly when the first lookup that succeeds
  ends within the timeout: there is a second between lookups, so more lookups than the
  timeout has seconds settle it.
\<close>

theorem wait_main_ends:
  assumes "\<forall>x\<in>set lookups. fst x \<ge> 0"
  shows "(wait_main timeout lookups = Some 0 \<longleftrightarrow>
      (\<exists>i<length lookups. snd (lookups ! i) \<and> (\<forall>j<i. \<not> snd (lookups ! j)) \<and> lookup_end lookups i \<le> timeout)) \<and>
    (timeout < int (length lookups) * 1000000000 \<longrightarrow> wait_main timeout lookups \<in> {Some 0, Some 1})"
proof -
  have "wait_loop timeout t lookups \<in> {None, Some 0, Some 1}" for t
    by (induction timeout t lookups rule: wait_loop.induct) auto
  from this [of 0] show ?thesis
    using wait_loop_success [OF assms, of timeout 0] wait_loop_ends [OF assms, of timeout 0] unfolding wait_main_def add_0 by blast
qed

theorem wait_main_ends_witness:
  "wait_main 3000000000 [(500000000, False), (500000000, True)] = Some 0 \<and>
   wait_main 1000000000 [(500000000, False), (500000000, True)] = Some 1"
  using wait_main_ends [of "[(500000000, False), (500000000, True)]" 3000000000]
    wait_main_ends [of "[(500000000, False), (500000000, True)]" 1000000000]
  by (simp add: wait_main_def)

section \<open>What systemd-resolved is told\<close>

text \<open>
  The updater of systemd-resolved either ends without touching the machine, with an error
  or because it is not configured to, or it runs one command, which hands over the domains of
  the configured handlers, those of the records file and the parents of the upcheck domains,
  and reports whether the command failed.
\<close>

theorem resolved_updater_domains:
  "case resolved_updater_main env unmarshal encoder order d m w of (e, w') \<Rightarrow>
     (w' = w \<and> (e = None \<longrightarrow> (\<exists>c. LoadFromFile (ev_read env (ev_config env)) (ev_decodeConfig env) = Inr c \<and> \<not> c_ConfigureSystemdResolved c))) \<or>
     (\<exists>c al hs ds. LoadFromFile (ev_read env (ev_config env)) (ev_decodeConfig env) = Inr c \<and> c_ConfigureSystemdResolved c \<and>
        ConfigFromGlob (ev_glob env) (aliases_Load (ev_read env) (ev_decodeAliases env)) (c_AliasFilesGlob c) = Inr al \<and>
        handlers_ConfigFromGlob (ev_glob env) (handlers_Load (ev_read env) (ev_decodeHandlers env)) (c_HandlersFilesGlob c) = Inr hs \<and>
        runCommand m (''resolvectl'' # ''domain'' # ''bosh-dns'' # ds) w = (e \<noteq> None, w') \<and>
        set ds = hg_Domain ` set hs \<union> set (Domains (fst (NewRecordSet unmarshal encoder order (Get (NewFileReader d)) al))) \<union>
          {p. \<exists>u\<in>set (c_UpcheckDomains c). parent_domain u = Some p})"
proof -
  have parents: "set (parentDomains us) = {p. \<exists>u\<in>set us. parent_domain u = Some p}" for us
    by (auto simp: parentDomains_def List.map_filter_def image_iff) (metis option.sel)+
  have ds: "set (resolved_domains hs r c) = hg_Domain ` set hs \<union> set (Domains r) \<union> {p. \<exists>u\<in>set (c_UpcheckDomains c). parent_domain u = Some p}" for hs r c
    by (auto simp: resolved_domains_def HandlerDomains_def parents)
  let ?start = "res_bind (map_err UpdaterConfig (LoadFromFile (ev_read env (ev_config env)) (ev_decodeConfig env))) (\<lambda>c.
        res_bind (case GetLogLevel c of None \<Rightarrow> Inl UpdaterLogLevel | Some level \<Rightarrow> Inr level) (\<lambda>level.
        res_bind (map_err UpdaterAliases (ConfigFromGlob (ev_glob env)
            (aliases_Load (ev_read env) (ev_decodeAliases env)) (c_AliasFilesGlob c))) (\<lambda>aliases.
        let recordSet = fst (NewRecordSet unmarshal encoder order (Get (NewFileReader d)) aliases) in
        res_bind (map_err UpdaterHandlers (handlers_ConfigFromGlob (ev_glob env)
            (handlers_Load (ev_read env) (ev_decodeHandlers env)) (c_HandlersFilesGlob c))) (\<lambda>hs.
        Inr (c, recordSet, hs)))))"
  show ?thesis
  proof (cases ?start)
    case (Inl e)
    then show ?thesis by (simp add: resolved_updater_main_def)
  next
    case (Inr x)
    then obtain c al hs where x: "LoadFromFile (ev_read env (ev_config env)) (ev_decodeConfig env) = Inr c"
      "handlers_ConfigFromGlob (ev_glob env) (handlers_Load (ev_read env) (ev_decodeHandlers env)) (c_HandlersFilesGlob c) = Inr hs"
      "ConfigFromGlob (ev_glob env) (aliases_Load (ev_read env) (ev_decodeAliases env)) (c_AliasFilesGlob c) = Inr al"
      "x = (c, fst (NewRecordSet unmarshal encoder order (Get (NewFileReader d)) al), hs)"
      by (auto simp: res_bind_Inr_iff Let_def)
    let ?r = "fst (NewRecordSet unmarshal encoder order (Get (NewFileReader d)) al)"
    obtain failed w' where u: "UpdateDomains m (resolved_domains hs ?r c) w = (failed, w')" by fastforce
    have main: "resolved_updater_main env unmarshal encoder order d m w =
        (if c_ConfigureSystemdResolved c then (if failed then Some UpdaterCommand else None, w') else (None, w))"
      using Inr u unfolding resolved_updater_main_def x(4) by simp
    show ?thesis
    proof (cases "c_ConfigureSystemdResolved c")
      case True
      have "runCommand m (''resolvectl'' # ''domain'' # ''bosh-dns'' # resolved_domains hs ?r c) w =
          ((if failed then Some UpdaterCommand else None) \<noteq> None, w')"
        using u by (simp add: UpdateDomains_def)
      then show ?thesis unfolding main if_P [OF True] prod.case
        using True x(1-3) ds [of hs ?r c] by (intro disjI2 exI conjI)
    qed (use x(1) main in auto)
  qed
qed


definition logging_machine :: "string list list machine" where
  "logging_machine = \<lparr>readFile = (\<lambda>w p. None), fileExists = (\<lambda>w p. False), writeFile = (\<lambda>p s w. (True, w)), runCommand = (\<lambda>c w. (False, w @ [c])),
     sleep = id, tempDir = (\<lambda>n w. (None, w)), chmod = (\<lambda>p w. (True, w)), removeDir = (\<lambda>p w. w)\<rparr>"

definition resolved_environment :: environment where
  "resolved_environment = example_environment\<lparr>ev_decodeConfig := (\<lambda>s c. Some (example_config\<lparr>c_LogLevel := ''INFO'',
     c_ConfigureSystemdResolved := True, c_UpcheckDomains := [''up.check.'']\<rparr>))\<rparr>"

theorem resolved_updater_domains_witness:
  "\<exists>ds. resolved_updater_main resolved_environment version_of EncodeAliasesIntoQueries id (version_file 1) logging_machine [] =
      (None, [''resolvectl'' # ''domain'' # ''bosh-dns'' # ds]) \<and> ''corp.'' \<in> set ds \<and> ''check.'' \<in> set ds"
proof -
  let ?w = "[''resolvectl'' # ''domain'' # ''bosh-dns'' # [''corp.'', ''a.'', ''b.'', ''check.'']]"
  have r: "resolved_updater_main resolved_environment version_of EncodeAliasesIntoQueries id (version_file 1) logging_machine [] = (None, ?w)"
    by code_simp
  obtain ds where "runCommand logging_machine (''resolvectl'' # ''domain'' # ''bosh-dns'' # ds) [] = (False, ?w)"
    using resolved_updater_domains [where env = resolved_environment and unmarshal = version_of and encoder = EncodeAliasesIntoQueries and order = id
        and d = "version_file 1" and m = logging_machine and w = "[]"] unfolding r by auto
  then show ?thesis using r by (auto simp: logging_machine_def)
qed

end
