(* ===== verification/Writers.thy ===== *)
theory Writers
  imports Dns_Cache
begin

text \<open>
  Handlers as programs that write to a response writer
  (\<^verbatim>\<open>src/bosh-dns/dns/server/handlers/{cache_handler,request_logger_handler}.go\<close> and
  \<^verbatim>\<open>internal/wrap_response_writer.go\<close>): writers wrapped around writers, the variables that their
  functions set, and the lines of the log. Elsewhere a handler is the list of the messages
  it writes; here is shown that the programs agree with that.
\<close>

section \<open>Definitions\<close>

text \<open>A response writer over the state \<open>'s\<close>; an error is its text.\<close>

record 's response_writer =
  rw_WriteMsg :: "msg \<Rightarrow> 's \<Rightarrow> string option \<times> 's"
  rw_Write :: "string \<Rightarrow> 's \<Rightarrow> (int \<times> string option) \<times> 's"
  rw_LocalAddr :: "'s \<Rightarrow> string"
  rw_RemoteAddr :: "'s \<Rightarrow> string"
  rw_Close :: "'s \<Rightarrow> string option \<times> 's"
  rw_TsigStatus :: "'s \<Rightarrow> string option"
  rw_TsigTimersOnly :: "bool \<Rightarrow> 's \<Rightarrow> 's"
  rw_Hijack :: "'s \<Rightarrow> 's"

text \<open>The intercepting function may change the message, which the writer below then gets.\<close>

definition WrapWriterWithIntercept :: "'s response_writer \<Rightarrow> (msg \<Rightarrow> 's \<Rightarrow> msg \<times> 's) \<Rightarrow> 's response_writer" where
  "WrapWriterWithIntercept child intercept =
     \<lparr>rw_WriteMsg = (\<lambda>m s. let (m, s) = intercept m s in rw_WriteMsg child m s),
      rw_Write = (\<lambda>b s. ((-1, Some ''not implemented, use WriteMsg''), s)),
      rw_LocalAddr = rw_LocalAddr child, rw_RemoteAddr = rw_RemoteAddr child, rw_Close = rw_Close child,
      rw_TsigStatus = rw_TsigStatus child, rw_TsigTimersOnly = rw_TsigTimersOnly child, rw_Hijack = rw_Hijack child\<rparr>"

text \<open>
  What serving a request changes: the messages the client got, the variables \<^verbatim>\<open>dnsMsg\<close> and
  \<^verbatim>\<open>fromCache\<close>, the cache, which is gone after a panic, and the log.
\<close>

record serving =
  sv_sent :: "msg list"
  sv_dnsMsg :: "msg option"
  sv_fromCache :: bool
  sv_cache :: "dns_cache option"
  sv_lines :: "string list"

type_synonym program = "serving response_writer \<Rightarrow> network \<Rightarrow> msg \<Rightarrow> serving \<Rightarrow> serving"

definition as_program :: "handler \<Rightarrow> program" where
  "as_program h w network r s = fold (\<lambda>m s. snd (rw_WriteMsg w m s)) (h network r) s"

definition log_line :: "string \<Rightarrow> serving \<Rightarrow> serving" where
  "log_line l s = s\<lparr>sv_lines := sv_lines s @ [l]\<rparr>"

definition RequestLoggerHandler_program :: "(16 word \<Rightarrow> string) \<Rightarrow> (int \<Rightarrow> string) \<Rightarrow> string \<Rightarrow> program \<Rightarrow> int \<Rightarrow> program" where
  "RequestLoggerHandler_program typeString rcodeString handlerType child duration responseWriter network req s =
     (let s = log_line (LogReceivedRequest typeString handlerType req) s;
          s = s\<lparr>sv_dnsMsg := None\<rparr>;
          respWriter = WrapWriterWithIntercept responseWriter (\<lambda>msg s. (msg, s\<lparr>sv_dnsMsg := Some msg\<rparr>));
          s = child respWriter network req s
      in log_line (LogRequest typeString rcodeString handlerType duration req (sv_dnsMsg s) '''') s)"

definition corednsHandlerWrapper_ServeDNS :: "program \<Rightarrow> program" where
  "corednsHandlerWrapper_ServeDNS Next writer network m s = Next writer network m (s\<lparr>sv_fromCache := False\<rparr>)"

text \<open>The writer of the cache plugin stores what it passes on.\<close>

definition cache_writer :: "cache_clock \<Rightarrow> msg \<Rightarrow> serving response_writer \<Rightarrow> serving response_writer" where
  "cache_writer k r w = w\<lparr>rw_WriteMsg := (\<lambda>m s.
     case Option.bind (sv_cache s) (cache_WriteMsg (cl_choice k) (cl_typed k) (cl_stored k) r m) of
       None \<Rightarrow> (None, s\<lparr>sv_cache := None\<rparr>)
     | Some (c, m') \<Rightarrow> rw_WriteMsg w m' (s\<lparr>sv_cache := Some c\<rparr>))\<rparr>"

definition Cache_program :: "cache_clock \<Rightarrow> program \<Rightarrow> program" where
  "Cache_program k next w network r s =
     (if Zones_Matches [''.''] (request_Name r) = '''' then next w network r s
      else case Option.bind (sv_cache s) (getIfNotStale (cl_now k) r) of
             None \<Rightarrow> next (cache_writer k r w) network r s
           | Some i \<Rightarrow> snd (rw_WriteMsg w (toMsg i r (cl_now k) (request_Do r) (m_AuthenticatedData r)) s))"

definition CachingDNSHandler_program ::
  "(16 word \<Rightarrow> string) \<Rightarrow> (int \<Rightarrow> string) \<Rightarrow> string \<Rightarrow> (network \<Rightarrow> msg \<Rightarrow> msg \<Rightarrow> msg) \<Rightarrow> cache_clock \<Rightarrow> program \<Rightarrow> int \<Rightarrow> program" where
  "CachingDNSHandler_program typeString rcodeString handlerType truncateIfNeeded k next duration w network r s =
     (let s = log_line (LogReceivedRequest typeString handlerType r) s;
          s = s\<lparr>sv_dnsMsg := None\<rparr>;
          truncatingWriter = WrapWriterWithIntercept w (\<lambda>resp s. let resp = truncateIfNeeded network r resp in (resp, s\<lparr>sv_dnsMsg := Some resp\<rparr>))
      in if \<not> m_RecursionDesired r then next truncatingWriter network r s
         else
           let s = s\<lparr>sv_fromCache := True\<rparr>;
               s = Cache_program k (corednsHandlerWrapper_ServeDNS next) truncatingWriter network r s
           in if sv_fromCache s then log_line (LogRequest typeString rcodeString handlerType duration r (sv_dnsMsg s) '''') s else s)"

text \<open>The writer of the connection: every message goes to the client.\<close>

definition client_writer :: "string \<Rightarrow> string \<Rightarrow> serving response_writer" where
  "client_writer localAddr remoteAddr =
     \<lparr>rw_WriteMsg = (\<lambda>m s. (None, s\<lparr>sv_sent := sv_sent s @ [m]\<rparr>)), rw_Write = (\<lambda>b s. ((int (length b), None), s)),
      rw_LocalAddr = (\<lambda>s. localAddr), rw_RemoteAddr = (\<lambda>s. remoteAddr), rw_Close = (\<lambda>s. (None, s)), rw_TsigStatus = (\<lambda>s. None),
      rw_TsigTimersOnly = (\<lambda>b s. s), rw_Hijack = (\<lambda>s. s)\<rparr>"

section \<open>Wrapped writers\<close>

text \<open>
  What a writer does to the state when it is given a list of messages: it sends \<open>f\<close> of them,
  remembers the last one it sent in \<^verbatim>\<open>dnsMsg\<close> where it intercepts, and touches nothing else.
\<close>

definition sends :: "(msg \<Rightarrow> msg) \<Rightarrow> bool \<Rightarrow> msg list \<Rightarrow> serving \<Rightarrow> serving" where
  "sends f intercepts ms s =
     s\<lparr>sv_sent := sv_sent s @ map f ms, sv_dnsMsg := (if intercepts \<and> ms \<noteq> [] then Some (f (last ms)) else sv_dnsMsg s)\<rparr>"

locale message_writer =
  fixes w :: "serving response_writer" and f :: "msg \<Rightarrow> msg" and intercepts :: bool
  assumes writes: "snd (rw_WriteMsg w m s) = sends f intercepts [m] s"
begin

lemma writes_all: "fold (\<lambda>m s. snd (rw_WriteMsg w m s)) ms s = sends f intercepts ms s"
proof (induction ms arbitrary: s)
  case (Cons m ms)
  then show ?case by (auto simp: writes sends_def)
qed (simp add: sends_def)

lemma program_sends: "as_program h w network r s = sends f intercepts (h network r) s"
  by (simp add: as_program_def writes_all)

lemma cached_writes:
  "cache_writes k r ms c = Some (c', out) \<Longrightarrow> sv_cache s = Some c \<Longrightarrow>
   fold (\<lambda>m s. snd (rw_WriteMsg (cache_writer k r w) m s)) ms s = sends f intercepts out (s\<lparr>sv_cache := Some c'\<rparr>)"
proof (induction ms arbitrary: c out s)
  case Nil
  then show ?case by (cases s) (auto simp: sends_def)
next
  case (Cons m ms)
  obtain c1 m1 out1 where c: "cache_WriteMsg (cl_choice k) (cl_typed k) (cl_stored k) r m c = Some (c1, m1)"
    "cache_writes k r ms c1 = Some (c', out1)" "out = m1 # out1"
    using Cons.prems(1) by (auto simp: bind_eq_Some_conv)
  let ?s = "sends f intercepts [m1] (s\<lparr>sv_cache := Some c1\<rparr>)"
  have "snd (rw_WriteMsg (cache_writer k r w) m s) = ?s" using c(1) Cons.prems(2) by (simp add: cache_writer_def writes)
  moreover have "sv_cache ?s = Some c1" by (simp add: sends_def)
  ultimately show ?case using Cons.IH [OF c(2)] c(3) by (auto simp: sends_def)
qed

lemma cache_sends:
  assumes "Cache_ServeDNS k h c network r = Some (c', out)" "sv_cache s = Some c" "sv_fromCache s"
  shows "Cache_program k (corednsHandlerWrapper_ServeDNS (as_program h)) w network r s =
    sends f intercepts out (s\<lparr>sv_cache := Some c',
      sv_fromCache := (Zones_Matches [''.''] (request_Name r) \<noteq> '''' \<and> getIfNotStale (cl_now k) r c \<noteq> None)\<rparr>)"
proof -
  consider (zone) "Zones_Matches [''.''] (request_Name r) = ''''" "c' = c" "out = h network r"
    | (miss) "Zones_Matches [''.''] (request_Name r) \<noteq> ''''" "getIfNotStale (cl_now k) r c = None" "cache_writes k r (h network r) c = Some (c', out)"
    | (hit) i where "Zones_Matches [''.''] (request_Name r) \<noteq> ''''" "getIfNotStale (cl_now k) r c = Some i" "c' = c" "out = [toMsg i r (cl_now k) (request_Do r) (m_AuthenticatedData r)]"
    using assms(1) by (auto simp: Cache_ServeDNS_def split: if_splits option.splits)
  then show ?thesis
  proof cases
    case zone
    then show ?thesis using assms(2,3) by (cases s) (simp add: Cache_program_def corednsHandlerWrapper_ServeDNS_def program_sends)
  next
    case miss
    have "as_program h (cache_writer k r w) network r (s\<lparr>sv_fromCache := False\<rparr>) = sends f intercepts out (s\<lparr>sv_fromCache := False, sv_cache := Some c'\<rparr>)"
      using cached_writes [OF miss(3), of "s\<lparr>sv_fromCache := False\<rparr>"] assms(2) by (simp add: as_program_def)
    then show ?thesis using miss assms(2) by (cases s) (simp add: Cache_program_def corednsHandlerWrapper_ServeDNS_def)
  next
    case hit
    then show ?thesis using assms(2,3) by (cases s) (simp add: Cache_program_def writes)
  qed
qed

end

interpretation client: message_writer "client_writer l r" "\<lambda>m. m" False for l r
  by unfold_locales (simp add: client_writer_def sends_def)

interpretation intercepted: message_writer "WrapWriterWithIntercept (client_writer l r) (\<lambda>m s. let m = f m in (m, s\<lparr>sv_dnsMsg := Some m\<rparr>))" f True for l r f
  by unfold_locales (simp add: WrapWriterWithIntercept_def client_writer_def sends_def Let_def)


section \<open>The programs and the lists\<close>

lemma logger_program:
  fixes s child network req ts rs ht d l a
  defines "s' \<equiv> RequestLoggerHandler_program ts rs ht (as_program child) d (client_writer l a) network req s"
    and "out \<equiv> RequestLoggerHandler_ServeDNS ts rs ht child d network req"
  shows "sv_sent s' = sv_sent s @ fst out" "sv_lines s' = sv_lines s @ snd out" "sv_cache s' = sv_cache s"
proof -
  have i: "WrapWriterWithIntercept (client_writer l a) (\<lambda>msg s. (msg, s\<lparr>sv_dnsMsg := Some msg\<rparr>)) =
      WrapWriterWithIntercept (client_writer l a) (\<lambda>m s. let m = m in (m, s\<lparr>sv_dnsMsg := Some m\<rparr>))" by (simp add: Let_def)
  show "sv_sent s' = sv_sent s @ fst out" "sv_lines s' = sv_lines s @ snd out" "sv_cache s' = sv_cache s"
    unfolding s'_def out_def RequestLoggerHandler_program_def Let_def [of "WrapWriterWithIntercept _ _"] i
    by (simp_all add: intercepted.program_sends [where f = "\<lambda>m. m", unfolded Let_def] RequestLoggerHandler_ServeDNS_def log_line_def sends_def Let_def)
qed

text \<open>
  C11: The caching handler as a program: through its truncating writer and the writer of the
  cache, which hold what they pass on, the client gets the messages that the handler and the
  cache are said to write, each cut to size; the cache is what the lookup or the answers make
  of it; and the handler logs, beside the request itself, one line with the message that
  was sent exactly when the answer came from the cache and not from the handler behind.
\<close>

theorem caching_program:
  assumes "sv_cache s = Some c" "Cache_ServeDNS k behind c network r = Some (c', out)"
    and "s' = CachingDNSHandler_program ts rs ht tr k (as_program behind) d (client_writer l a) network r s"
    and "hit = (m_RecursionDesired r \<and> Zones_Matches [''.''] (request_Name r) \<noteq> '''' \<and> getIfNotStale (cl_now k) r c \<noteq> None)"
  shows "sv_sent s' = sv_sent s @ CachingDNSHandler_ServeDNS (coredns_cache k c) tr behind network r \<and>
    sv_cache s' = Some (if m_RecursionDesired r then c' else c) \<and>
    sv_lines s' = sv_lines s @ LogReceivedRequest ts ht r #
      (if hit then [LogRequest ts rs ht d r (Some (last (sv_sent s'))) ''''] else [])"
proof (cases "m_RecursionDesired r")
  case False
  then show ?thesis
    using assms(1) unfolding assms(3,4) CachingDNSHandler_program_def
    by (simp add: Let_def intercepted.program_sends [where f = "tr network r", unfolded Let_def] sends_def log_line_def CachingDNSHandler_ServeDNS_def)
next
  case True
  let ?s = "(log_line (LogReceivedRequest ts ht r) s)\<lparr>sv_dnsMsg := None, sv_fromCache := True\<rparr>"
  let ?w = "WrapWriterWithIntercept (client_writer l a) (\<lambda>m s. let m = tr network r m in (m, s\<lparr>sv_dnsMsg := Some m\<rparr>))"
  have run: "Cache_program k (corednsHandlerWrapper_ServeDNS (as_program behind)) ?w network r ?s =
      sends (tr network r) True out (?s\<lparr>sv_cache := Some c', sv_fromCache := hit\<rparr>)"
    using intercepted.cache_sends [OF assms(2), of ?s] assms(1) True by (simp add: assms(4) log_line_def)
  have hit: "hit \<Longrightarrow> out \<noteq> []" using assms(2,4) by (auto simp: Cache_ServeDNS_def)
  have "s' = (let s = sends (tr network r) True out (?s\<lparr>sv_cache := Some c', sv_fromCache := hit\<rparr>)
      in if sv_fromCache s then log_line (LogRequest ts rs ht d r (sv_dnsMsg s) '''') s else s)"
    unfolding assms(3) CachingDNSHandler_program_def Let_def [of "log_line _ _"] Let_def [of "WrapWriterWithIntercept _ _"] Let_def [of "serving.sv_dnsMsg_update _ _"]
      Let_def [of "serving.sv_fromCache_update _ _"] run using True by simp
  then show ?thesis
    using True assms(2) hit by (auto simp: Let_def sends_def log_line_def CachingDNSHandler_ServeDNS_def coredns_cache_def last_map)
qed


theorem caching_program_witness:
  "\<exists>c m0 s'. cache_WriteMsg 0 0 0 example_asked example_got NewCache = Some (c, m0) \<and>
     s' = CachingDNSHandler_program (\<lambda>t. ''A'') (\<lambda>c. ''NOERROR'') ''handlers.CachingDNSHandler'' TruncateIfNeeded
       \<lparr>cl_now = 10000000000, cl_typed = 0, cl_stored = 0, cl_choice = 0\<rparr> (as_program (\<lambda>n q. [])) 5 (client_writer ''l'' ''a'') UDP example_asked
       \<lparr>sv_sent = [], sv_dnsMsg = None, sv_fromCache = False, sv_cache = Some c, sv_lines = []\<rparr> \<and>
     length (sv_sent s') = 1 \<and> length (sv_lines s') = 2"
proof -
  let ?k = "\<lparr>cl_now = 0, cl_typed = 0, cl_stored = 0, cl_choice = 0\<rparr>"
  let ?l = "\<lparr>cl_now = 10000000000, cl_typed = 0, cl_stored = 0, cl_choice = 0\<rparr>"
  obtain c m0 where w: "cache_WriteMsg (cl_choice ?k) (cl_typed ?k) (cl_stored ?k) example_asked example_got NewCache = Some (c, m0)"
    using example_written(1) by blast
  let ?s = "\<lparr>sv_sent = [], sv_dnsMsg = None, sv_fromCache = False, sv_cache = Some c, sv_lines = []\<rparr>"
  have live: "live (stored_item ?k example_asked example_got) example_asked (cl_now ?l)" by code_simp
  have h: "getIfNotStale (cl_now ?l) example_asked c \<noteq> None"
    by (rule cache_WriteMsg_found [OF NewCache_holds w example_written(2,4,5) _ live refl]) (simp add: example_written(3) [simplified])
  then obtain m where m: "Cache_ServeDNS ?l (\<lambda>n q. []) c UDP example_asked = Some (c, [m])"
    by (auto simp: Cache_ServeDNS_def Zones_Matches_def)
  have d: "m_RecursionDesired example_asked" "Zones_Matches [''.''] (request_Name example_asked) \<noteq> ''''"
    by (simp_all add: example_asked_def Zones_Matches_def)
  then have "length (CachingDNSHandler_ServeDNS (coredns_cache ?l c) TruncateIfNeeded (\<lambda>n q. []) UDP example_asked) = 1"
    using m by (simp add: CachingDNSHandler_ServeDNS_def coredns_cache_def)
  then show ?thesis
    using caching_program [where s = ?s and k = ?l and network = UDP and r = example_asked and behind = "\<lambda>n q. []", OF _ m refl refl,
        of "\<lambda>t. ''A''" "\<lambda>c. ''NOERROR''" "''handlers.CachingDNSHandler''" TruncateIfNeeded 5 "''l''" "''a''"] w h d by simp
qed

end
