(* ===== verification/Dns_Pack.thy ===== *)
theory Dns_Pack
  imports Dns_Cache
begin

text \<open>
  Messages on the wire (\<^verbatim>\<open>src/bosh-dns/vendor/github.com/miekg/dns/{msg,msg_helpers,zmsg}.go\<close>):
  the packing of names, questions, records and messages with the compression of names. A message is packed into a buffer of a fixed size, of which
  the model keeps what was written so far: the offset of the code is its length.
\<close>

section \<open>Definitions\<close>

datatype pack_error = ErrFqdn | ErrRdata | ErrBuf | ErrRcode | ErrExtendedRcode | ErrOverflow

text \<open>Where the names already written start; \<open>None\<close> when nothing is compressed.\<close>

type_synonym pointers = "(string, nat) gomap option"

definition be16 :: "16 word \<Rightarrow> string" where
  "be16 w = [char_of (uint (drop_bit 8 w)), char_of (uint w)]"

definition be32 :: "32 word \<Rightarrow> string" where
  "be32 w = [char_of (uint (drop_bit 24 w)), char_of (uint (drop_bit 16 w)), char_of (uint (drop_bit 8 w)), char_of (uint w)]"

definition packUint16 :: "nat \<Rightarrow> 16 word \<Rightarrow> string \<Rightarrow> pack_error + string" where
  "packUint16 room i out = (if length out + 2 > room then Inl ErrOverflow else Inr (out @ be16 i))"

definition packUint32 :: "nat \<Rightarrow> 32 word \<Rightarrow> string \<Rightarrow> pack_error + string" where
  "packUint32 room i out = (if length out + 4 > room then Inl ErrOverflow else Inr (out @ be32 i))"

subsection \<open>Names\<close>

text \<open>
  The loop over a name \<open>s\<close>: \<open>start\<close> is the rest of the name from the current label on,
  \<open>lab\<close> the bytes of the label so far, and the last argument what is left to read. The code
  decodes escapes in place and reads on in the decoded bytes; whether three digits
  follow a backslash does not depend on it, because the dot that ends every fully qualified
  name comes before the bytes that are left over behind it. The loop ends with
  the pointer it found.
\<close>

function packName_loop ::
  "nat \<Rightarrow> bool \<Rightarrow> string \<Rightarrow> pointers \<Rightarrow> string \<Rightarrow> string \<Rightarrow> string \<Rightarrow> bool \<Rightarrow> string \<Rightarrow>
   pack_error + nat option \<times> string \<times> pointers" where
  "packName_loop room compress s ptrs out start lab wasDot [] = Inr (None, out, ptrs)"
| "packName_loop room compress s ptrs out start lab wasDot (c # rest) =
     (if c = CHR 92 then
        if length out + 1 > room then Inl ErrBuf
        else if isDDD rest then packName_loop room compress s ptrs out start (lab @ [dddToByte rest]) False (drop 3 rest)
        else packName_loop room compress s ptrs out start (lab @ take 1 rest) False (drop 1 rest)
      else if c = CHR ''.'' then
        if c # rest = s \<and> length s > 1 then Inl ErrRdata
        else if wasDot then Inl ErrRdata
        else if length lab \<ge> 64 then Inl ErrRdata
        else if length out + 1 + length lab > room then Inl ErrBuf
        else
          let written = out @ [char_of (length lab)] @ lab in
          (case ptrs of
             None \<Rightarrow> packName_loop room compress s ptrs written rest [] True rest
           | Some m \<Rightarrow>
               if lab = [] \<and> rest = [] then packName_loop room compress s ptrs written rest [] True rest
               else (case map_of m start of
                 Some p \<Rightarrow>
                   if compress then Inr (Some p, out, ptrs)
                   else packName_loop room compress s ptrs written rest [] True rest
               | None \<Rightarrow>
                   packName_loop room compress s
                     (if length out < maxCompressionOffset then Some (insert_map start (length out) m) else ptrs)
                     written rest [] True rest))
      else packName_loop room compress s ptrs out start (lab @ [c]) False rest)"
  by pat_completeness auto
termination
  by (relation "measure (\<lambda>(room, compress, s, ptrs, out, start, lab, wasDot, rest). length rest)") auto

definition pointer_bytes :: "nat \<Rightarrow> string" where
  "pointer_bytes p = be16 (word_of_nat p XOR 0xC000)"

definition packDomainName :: "nat \<Rightarrow> string \<Rightarrow> string \<Rightarrow> pointers \<Rightarrow> bool \<Rightarrow> pack_error + string \<times> pointers" where
  "packDomainName room s out ptrs compress =
     (if s = '''' then Inr (out, ptrs)
      else if \<not> IsFqdn s then Inl ErrFqdn
      else res_bind (packName_loop room compress s ptrs out s [] False s) (\<lambda>(pointer, out, ptrs).
        if s = ''.'' then Inr (out, ptrs)
        else case pointer of
          Some p \<Rightarrow> Inr (out @ pointer_bytes p, ptrs)
        | None \<Rightarrow> if length out < room then Inr (out @ [char_of (0 :: nat)], ptrs) else Inl ErrBuf))"

subsection \<open>Questions and records\<close>

definition pack_question :: "nat \<Rightarrow> bool \<Rightarrow> question \<Rightarrow> string \<times> pointers \<Rightarrow> pack_error + string \<times> pointers" where
  "pack_question room compress q = (\<lambda>(out, ptrs).
     res_bind (packDomainName room (qn_Name q) out ptrs compress) (\<lambda>(out, ptrs).
     res_bind (packUint16 room (qn_Qtype q) out) (\<lambda>out.
     res_bind (packUint16 room (qn_Qclass q) out) (\<lambda>out. Inr (out, ptrs)))))"

text \<open>A record that starts at the end of the buffer gets no header.\<close>

definition packHeader :: "nat \<Rightarrow> bool \<Rightarrow> rr_header \<Rightarrow> string \<Rightarrow> pointers \<Rightarrow> pack_error + string \<times> pointers" where
  "packHeader room compress h out ptrs =
     (if length out = room then Inr (out, ptrs)
      else
        res_bind (packDomainName room (hdr_Name h) out ptrs compress) (\<lambda>(out, ptrs).
        res_bind (packUint16 room (hdr_Rrtype h) out) (\<lambda>out.
        res_bind (packUint16 room (hdr_Class h) out) (\<lambda>out.
        res_bind (packUint32 room (hdr_Ttl h) out) (\<lambda>out.
        res_bind (packUint16 room 0 out) (\<lambda>out. Inr (out, ptrs)))))))"

definition pack_bytes :: "nat \<Rightarrow> string \<Rightarrow> string \<Rightarrow> pack_error + string" where
  "pack_bytes room b out = (if length out + length b > room then Inl ErrOverflow else Inr (out @ b))"

text \<open>
  Of an address of 16 bytes that is no IPv4 address nothing is copied, and the buffer, which
  is fresh, keeps its zeros.
\<close>

definition packDataA :: "nat \<Rightarrow> go_ip \<Rightarrow> string \<Rightarrow> pack_error + string" where
  "packDataA room a out =
     (case a of
        None \<Rightarrow> Inr out
      | Some b \<Rightarrow>
          if length b = 4 \<or> length b = 16 then
            pack_bytes room (case To4 a of Some v4 \<Rightarrow> map char_of v4 | None \<Rightarrow> replicate 4 (char_of (0 :: nat))) out
          else if length b = 0 then Inr out
          else Inl ErrOverflow)"

definition packDataAAAA :: "nat \<Rightarrow> go_ip \<Rightarrow> string \<Rightarrow> pack_error + string" where
  "packDataAAAA room aaaa out =
     (case aaaa of
        None \<Rightarrow> Inr out
      | Some b \<Rightarrow>
          if length b = 16 then pack_bytes room (map char_of b) out
          else if length b = 0 then Inr out
          else Inl ErrOverflow)"

fun packDataOpt :: "nat \<Rightarrow> (16 word \<times> string) list \<Rightarrow> string \<Rightarrow> pack_error + string" where
  "packDataOpt room [] out = Inr out"
| "packDataOpt room ((code, b) # options) out =
     (if length out + 4 > room then Inl ErrOverflow
      else
        let out = out @ be16 code @ be16 (word_of_nat (length b)) in
        if length out + length b > room then Inl ErrOverflow
        else packDataOpt room options (out @ b))"

fun pack_parts :: "nat \<Rightarrow> bool \<Rightarrow> rdata_part list \<Rightarrow> string \<Rightarrow> pointers \<Rightarrow> pack_error + string \<times> pointers" where
  "pack_parts room compress [] out ptrs = Inr (out, ptrs)"
| "pack_parts room compress (Octets b # ps) out ptrs =
     res_bind (pack_bytes room b out) (\<lambda>out. pack_parts room compress ps out ptrs)"
| "pack_parts room compress (DName n may # ps) out ptrs =
     res_bind (packDomainName room n out ptrs (compress \<and> may)) (\<lambda>(out, ptrs). pack_parts room compress ps out ptrs)"

definition with_ptrs :: "pointers \<Rightarrow> pack_error + string \<Rightarrow> pack_error + string \<times> pointers" where
  "with_ptrs ptrs r = res_bind r (\<lambda>out. Inr (out, ptrs))"

fun pack_rdata :: "nat \<Rightarrow> bool \<Rightarrow> rr \<Rightarrow> string \<Rightarrow> pointers \<Rightarrow> pack_error + string \<times> pointers" where
  "pack_rdata room compress (RR_A h a) out ptrs = with_ptrs ptrs (packDataA room a out)"
| "pack_rdata room compress (RR_AAAA h a) out ptrs = with_ptrs ptrs (packDataAAAA room a out)"
| "pack_rdata room compress (RR_PTR h n) out ptrs = packDomainName room n out ptrs compress"
| "pack_rdata room compress (RR_OPT h options) out ptrs = with_ptrs ptrs (packDataOpt room options out)"
| "pack_rdata room compress (OtherRR h ps) out ptrs = pack_parts room compress ps out ptrs"

definition put16 :: "nat \<Rightarrow> 16 word \<Rightarrow> string \<Rightarrow> string" where
  "put16 off i out = take off out @ be16 i @ drop (off + 2) out"

definition packRR :: "nat \<Rightarrow> bool \<Rightarrow> rr \<Rightarrow> string \<times> pointers \<Rightarrow> pack_error + string \<times> pointers" where
  "packRR room compress r = (\<lambda>(out, ptrs).
     res_bind (packHeader room compress (rr_hdr r) out ptrs) (\<lambda>(out, ptrs).
     let headerEnd = length out in
     res_bind (pack_rdata room compress r out ptrs) (\<lambda>(out, ptrs).
     let rdlength = length out - headerEnd in
     if uint (word_of_nat rdlength :: 16 word) \<noteq> int rdlength then Inl ErrRdata
     else Inr (put16 (headerEnd - 2) (word_of_nat rdlength) out, ptrs))))"

subsection \<open>Messages\<close>

fun pack_all :: "('a \<Rightarrow> 's \<Rightarrow> 'e + 's) \<Rightarrow> 'a list \<Rightarrow> 's \<Rightarrow> 'e + 's" where
  "pack_all f [] st = Inr st"
| "pack_all f (x # xs) st = res_bind (f x st) (pack_all f xs)"


text \<open>The OPT record the message is read by, the last one, gets the upper bits of the code.\<close>

definition SetExtendedRcode :: "16 word \<Rightarrow> rr \<Rightarrow> rr" where
  "SetExtendedRcode v r =
     (case r of
        RR_OPT h os \<Rightarrow> RR_OPT (h\<lparr>hdr_Ttl := (hdr_Ttl h AND 0x00FFFFFF) OR push_bit 24 (ucast (drop_bit 4 v))\<rparr>) os
      | _ \<Rightarrow> r)"

fun update_last :: "('a \<Rightarrow> bool) \<Rightarrow> ('a \<Rightarrow> 'a) \<Rightarrow> 'a list \<Rightarrow> 'a list" where
  "update_last P f [] = []"
| "update_last P f (x # xs) = (if P x \<and> \<not> list_ex P xs then f x # xs else x # update_last P f xs)"

definition header_bits :: "msg \<Rightarrow> 16 word" where
  "header_bits m =
     push_bit 11 (word_of_int (m_Opcode m)) OR (word_of_int (m_Rcode m) AND 0xF)
     OR (if m_Response m then 0x8000 else 0) OR (if m_Authoritative m then 0x0400 else 0)
     OR (if m_Truncated m then 0x0200 else 0) OR (if m_RecursionDesired m then 0x0100 else 0)
     OR (if m_RecursionAvailable m then 0x0080 else 0) OR (if m_Zero m then 0x0040 else 0)
     OR (if m_AuthenticatedData m then 0x0020 else 0) OR (if m_CheckingDisabled m then 0x0010 else 0)"

definition packBufferWithCompressionMap :: "msg \<Rightarrow> pointers \<Rightarrow> bool \<Rightarrow> pack_error + string" where
  "packBufferWithCompressionMap m ptrs compress =
     (if m_Rcode m < 0 \<or> m_Rcode m > 0xFFF then Inl ErrRcode
      else if IsEdns0 m = None \<and> m_Rcode m > 0xF then Inl ErrExtendedRcode
      else
        let m = m\<lparr>m_Extra := update_last (\<lambda>r. rr_type r = TypeOPT) (SetExtendedRcode (word_of_int (m_Rcode m))) (m_Extra m)\<rparr>;
            room = msgLenWithCompressionMap m None + 1 in
        res_bind (pack_all (packUint16 room)
          [m_Id m, header_bits m, word_of_nat (length (m_Question m)), word_of_nat (length (m_Answer m)),
           word_of_nat (length (m_Ns m)), word_of_nat (length (m_Extra m))] '''') (\<lambda>out.
        res_bind (pack_all (pack_question room compress) (m_Question m) (out, ptrs)) (\<lambda>st.
        res_bind (pack_all (packRR room compress) (m_Answer m) st) (\<lambda>st.
        res_bind (pack_all (packRR room compress) (m_Ns m) st) (\<lambda>st.
        res_bind (pack_all (packRR room compress) (m_Extra m) st) (\<lambda>(out, ptrs). Inr out))))))"

definition Pack :: "msg \<Rightarrow> pack_error + string" where
  "Pack m =
     (if m_Compress m \<and> isCompressible m then packBufferWithCompressionMap m (Some []) True
      else packBufferWithCompressionMap m None False)"


section \<open>The loop over a name\<close>

text \<open>Whether the name ends in a dot that is not escaped, read from the left.\<close>

fun ends_dot :: "bool \<Rightarrow> string \<Rightarrow> bool" where
  "ends_dot esc [] = False"
| "ends_dot esc [c] = (c = CHR ''.'' \<and> \<not> esc)"
| "ends_dot esc (c # d # r) = ends_dot (c = CHR 92 \<and> \<not> esc) (d # r)"

lemma ends_dot_snoc:
  "ends_dot esc (s @ ''.'') \<longleftrightarrow>
     even (length (takeWhile (\<lambda>c. c = CHR 92) (rev s)) + (if esc \<and> (\<forall>c\<in>set s. c = CHR 92) then 1 else 0))"
proof (induction s arbitrary: esc)
  case (Cons c s)
  have "ends_dot esc ((c # s) @ ''.'') = ends_dot (c = CHR 92 \<and> \<not> esc) (s @ ''.'')" by (cases s) simp_all
  then have e: "ends_dot esc ((c # s) @ ''.'') \<longleftrightarrow> even (length (takeWhile (\<lambda>c. c = CHR 92) (rev s)) +
      (if (c = CHR 92 \<and> \<not> esc) \<and> (\<forall>c\<in>set s. c = CHR 92) then 1 else 0))" using Cons.IH by simp
  have t: "takeWhile (\<lambda>c. c = CHR 92) (rev (c # s)) =
      (if \<forall>x\<in>set s. x = CHR 92 then rev s @ (if c = CHR 92 then [c] else []) else takeWhile (\<lambda>c. c = CHR 92) (rev s))"
    by (cases "\<forall>x\<in>set s. x = CHR 92") (simp_all add: takeWhile_append, blast)
  show ?case
  proof (cases "\<forall>x\<in>set s. x = CHR 92")
    case True
    then have "takeWhile (\<lambda>c. c = CHR 92) (rev s) = rev s" by (simp add: takeWhile_eq_all_conv)
    then have "length (takeWhile (\<lambda>c. c = CHR 92) (rev s)) = length s" by (metis length_rev)
    with True show ?thesis unfolding e t by (cases "c = CHR 92"; cases esc) simp_all
  next
    case False
    then show ?thesis unfolding e t by auto
  qed
qed simp

lemma IsFqdn_ends_dot_iff: "IsFqdn s \<longleftrightarrow> ends_dot False s"
proof (cases s rule: rev_cases)
  case (snoc t c)
  show ?thesis
  proof (cases "c = CHR ''.''")
    case True
    then show ?thesis using snoc IsFqdn_snoc_dot [of t] ends_dot_snoc [of False t] by simp
  next
    case False
    have "ends_dot e (t @ [c]) = False" for e using False by (induction t arbitrary: e) (auto, case_tac t, auto)
    then show ?thesis using snoc False by (simp add: IsFqdn_def)
  qed
qed (simp add: IsFqdn_def)

lemma ends_dot_Cons: "ends_dot e (c # r) \<longleftrightarrow> (if r = [] then c = CHR ''.'' \<and> \<not> e else ends_dot (c = CHR 92 \<and> \<not> e) r)"
  by (cases r) simp_all

lemma pieces_Cons:
  "label_pieces_aux e cur (c # r) =
     (if r = [] then [rev (c # cur)]
      else if c = CHR ''.'' \<and> \<not> e then rev (c # cur) # label_pieces_aux False [] r
      else label_pieces_aux (c = CHR 92 \<and> \<not> e) (c # cur) r)"
  by (cases r) simp_all

text \<open>An escape is read as a whole.\<close>

lemma isDDD_split:
  assumes "isDDD r"
  obtains x y z t where "r = x # y # z # t" "is_digit x" "is_digit y" "is_digit z"
proof -
  obtain x y z t where "r = x # y # z # t"
    using assms by (auto simp: isDDD_def numeral_3_eq_3 Suc_le_length_iff)
  with assms show thesis by (intro that) (auto simp: isDDD_def)
qed

lemma is_digit_plain: "is_digit c \<Longrightarrow> c \<noteq> CHR ''.'' \<and> c \<noteq> CHR 92"
  by (auto simp: is_digit_def)

lemma escape_DDD:
  assumes "isDDD r" "ends_dot False (CHR 92 # r)"
  shows "ends_dot False (drop 3 r)" "drop 3 r \<noteq> []"
    "label_pieces_aux False cur (CHR 92 # r) = label_pieces_aux False (rev (take 3 r) @ CHR 92 # cur) (drop 3 r)"
proof -
  obtain x y z t where r: "r = x # y # z # t" and d: "is_digit x" "is_digit y" "is_digit z" using isDDD_split [OF assms(1)] by blast
  then have t: "t \<noteq> []" using assms(2) is_digit_plain [of z] by (auto simp: ends_dot_Cons)
  with r d assms(2) show "ends_dot False (drop 3 r)" "drop 3 r \<noteq> []"
    "label_pieces_aux False cur (CHR 92 # r) = label_pieces_aux False (rev (take 3 r) @ CHR 92 # cur) (drop 3 r)"
    using is_digit_plain by (auto simp: ends_dot_Cons pieces_Cons)
qed

lemma escape_char:
  assumes "ends_dot False (CHR 92 # r)"
  obtains x t where "r = x # t" "t \<noteq> []" "ends_dot False t"
    "\<And>cur. label_pieces_aux False cur (CHR 92 # r) = label_pieces_aux False (x # CHR 92 # cur) t"
proof -
  obtain x t where r: "r = x # t" using assms by (cases r) auto
  then have "t \<noteq> []" using assms by (auto simp: ends_dot_Cons)
  with r assms show thesis by (intro that) (auto simp: ends_dot_Cons pieces_Cons)
qed

subsection \<open>What the loop looks up and writes\<close>

text \<open>The search of the packer over the labels of a name, beside that of \<open>compressionLenSearch_loop\<close>.\<close>

fun pack_search :: "bool \<Rightarrow> string set \<Rightarrow> nat \<Rightarrow> string list \<Rightarrow> bool \<times> nat \<times> string set" where
  "pack_search compress k off [] = (False, off, k)"
| "pack_search compress k off (p # ps) =
     (if concat (p # ps) \<in> k then
        if compress then (True, off, k) else pack_search compress k (off + escapedNameLen p) ps
      else pack_search compress (if off < maxCompressionOffset then insert (concat (p # ps)) k else k) (off + escapedNameLen p) ps)"


text \<open>\<open>cur\<close>, the characters of a label read so far backwards, does not end within an escape.\<close>

definition whole :: "string \<Rightarrow> bool" where
  "whole cur \<longleftrightarrow> (\<forall>t. t \<noteq> [] \<longrightarrow> ends_dot False (rev cur @ t) = ends_dot False t)"

lemma whole_Nil [simp]: "whole []"
  by (simp add: whole_def)

lemma whole_char: "whole cur \<Longrightarrow> c \<noteq> CHR 92 \<Longrightarrow> whole (c # cur)"
  by (simp add: whole_def ends_dot_Cons)

lemma whole_escape: "whole cur \<Longrightarrow> whole (x # CHR 92 # cur)"
  by (simp add: whole_def ends_dot_Cons)

lemma whole_DDD: "whole cur \<Longrightarrow> isDDD r \<Longrightarrow> whole (rev (take 3 r) @ CHR 92 # cur)"
  by (elim isDDD_split) (simp add: whole_escape whole_char is_digit_plain)

lemma isDDD_append: "ends_dot e r \<Longrightarrow> isDDD (r @ t) = isDDD r"
proof (cases "length r \<ge> 3")
  case False
  assume e: "ends_dot e r"
  have "ends_dot e r \<Longrightarrow> CHR ''.'' \<in> set r" for e r by (induction e r rule: ends_dot.induct) auto
  with e False have "CHR ''.'' \<in> set (take 3 (r @ t))" by auto
  then have "\<not> list_all is_digit (take 3 (r @ t))" using is_digit_plain by (metis list_all_iff)
  with False show ?thesis by (simp add: isDDD_def)
qed (simp add: isDDD_def)

lemma escapedNameLen_append: "ends_dot False p \<Longrightarrow> escapedNameLen (p @ t) = escapedNameLen p + escapedNameLen t"
proof (induction p rule: escapedNameLen.induct)
  case (2 c p)
  show ?case
  proof (cases "c = CHR 92")
    case c: True
    obtain x r where p: "p = x # r" "r \<noteq> []" "ends_dot False r" using escape_char 2(4) c by metis
    have d: "isDDD (p @ t) = isDDD p" using 2(4) c p(1) isDDD_append [of True p t] by (simp add: ends_dot_Cons)
    show ?thesis
    proof (cases "isDDD p")
      case True
      with 2(4) c escape_DDD(1) have "ends_dot False (drop 3 p)" by simp
      moreover have "drop 3 (p @ t) = drop 3 p @ t" using True by (simp add: isDDD_def)
      ultimately show ?thesis using 2(2) [OF _ True] c d True by simp
    qed (use 2(3) c d p in simp)
  next
    case c: False
    show ?thesis using 2(1) [OF c] c 2(4) by (cases "p = []") (auto simp: ends_dot_Cons)
  qed
qed simp

lemma piece_len:
  assumes "whole cur" "escapedNameLen (rev cur @ CHR ''.'' # r) = length lab + escapedNameLen (CHR ''.'' # r)"
  shows "escapedNameLen (rev (CHR ''.'' # cur)) = length lab + 1"
proof -
  have "ends_dot False (rev (CHR ''.'' # cur))" using assms(1) by (simp add: whole_def)
  from escapedNameLen_append [OF this, of r] assms(2) show ?thesis by simp
qed

lemma loop_search:
  assumes "packName_loop room compress s (Some m) out start lab wasDot rest = Inr (ptr, out', ptrs)"
    and "ends_dot False rest" "start = rev cur @ rest" "whole cur" "length s > 1" "lab = [] \<Longrightarrow> wasDot \<or> rest = s"
    and "escapedNameLen start = length lab + escapedNameLen rest"
  shows "\<exists>k. ptrs = Some k \<and> pack_search compress (set (keys m)) (length out) (label_pieces_aux False cur rest) = (ptr \<noteq> None, length out', set (keys k))"
  using assms
proof (induction "length rest" arbitrary: m out start lab wasDot rest cur rule: less_induct)
  case less
  note IH = less.hyps and P = less.prems
  obtain c r where rest: "rest = c # r" using P(2) by (cases rest) auto
  consider (esc) "c = CHR 92" | (dot) "c = CHR ''.''" | (char) "c \<noteq> CHR 92" "c \<noteq> CHR ''.''" by blast
  then show ?case
  proof cases
    case esc
    have b: "\<not> length out + 1 > room" using P(1) rest esc by (auto split: if_splits)
    show ?thesis
    proof (cases "isDDD r")
      case True
      have e: "ends_dot False (CHR 92 # r)" using P(2) rest esc by simp
      note d = escape_DDD(1,2) [OF True e] escape_DDD(3) [OF True e, of cur]
      show ?thesis unfolding rest esc d(3)
      proof (rule IH [where rest = "drop 3 r" and lab = "lab @ [dddToByte r]" and wasDot = False and start = start])
        show "start = rev (rev (take 3 r) @ CHR 92 # cur) @ drop 3 r" using P(3) rest esc by simp
        show "escapedNameLen start = length (lab @ [dddToByte r]) + escapedNameLen (drop 3 r)" using P(7) rest esc True by simp
      qed (use P rest esc b True d whole_DDD in auto)
    next
      case False
      obtain x t where x: "r = x # t" "t \<noteq> []" "ends_dot False t"
        "\<And>cur. label_pieces_aux False cur (CHR 92 # r) = label_pieces_aux False (x # CHR 92 # cur) t"
        using escape_char P(2) rest esc by metis
      show ?thesis unfolding rest esc x(4)
      proof (rule IH [where rest = t and lab = "lab @ [x]" and wasDot = False and start = start])
        show "escapedNameLen start = length (lab @ [x]) + escapedNameLen t" using P(7) rest esc False x(1) by simp
      qed (use P rest esc b False x whole_escape in auto)
    qed
  next
    case dot
    have ok: "c # r \<noteq> s" "\<not> wasDot" "\<not> length lab \<ge> 64" "\<not> length out + 1 + length lab > room"
      using P(1,5) rest dot by (auto split: if_splits)
    then have lab: "lab \<noteq> []" using P(5,6) rest by auto
    have pl: "escapedNameLen (rev cur @ ''.'') = length lab + 1" using piece_len [OF P(4)] P(3,7) rest dot by simp
    have start: "start = rev cur @ ''.'' @ r" using P(3) rest dot by simp
    let ?w = "out @ [char_of (length lab)] @ lab"
    have next_label: "\<exists>k. ptrs = Some k \<and> pack_search compress (set (keys m')) (length ?w) (if r = [] then [] else label_pieces_aux False [] r) =
          (ptr \<noteq> None, length out', set (keys k))"
      if "packName_loop room compress s (Some m') ?w r [] True r = Inr (ptr, out', ptrs)" for m'
    proof (cases "r = []")
      case False
      then have "ends_dot False r" using P(2) rest dot by (simp add: ends_dot_Cons)
      with IH [where rest = r and lab = "[]" and wasDot = True and start = r and cur = "[]", OF _ that] P(5) False rest show ?thesis by simp
    qed (use that in auto)
    have pieces: "label_pieces_aux False cur rest = rev (CHR ''.'' # cur) # (if r = [] then [] else label_pieces_aux False [] r)"
      using rest dot by (simp add: pieces_Cons)
    have whole_start: "concat (label_pieces_aux False cur rest) = start" using P(3) by (simp add: concat_label_pieces_aux)
    have len: "length ?w = length out + escapedNameLen (rev (CHR ''.'' # cur))" using pl by simp
    show ?thesis
    proof (cases "map_of m start")
      case None
      have "start \<notin> set (keys m)" using None map_of_None_keys by metis
      moreover have "packName_loop room compress s (if length out < maxCompressionOffset then Some (insert_map start (length out) m) else Some m) ?w r [] True r =
          Inr (ptr, out', ptrs)" using P(1) rest dot ok lab None by (simp add: Let_def)
      ultimately show ?thesis
        using next_label [of "if length out < maxCompressionOffset then insert_map start (length out) m else m"] whole_start
        unfolding pieces pack_search.simps len by (auto simp: set_keys_insert_map [unfolded set_map] split: if_splits)
    next
      case (Some p)
      have "start \<in> set (keys m)" using Some by (metis map_of_None_keys option.distinct(1))
      then have known: "concat (rev (CHR ''.'' # cur) # (if r = [] then [] else label_pieces_aux False [] r)) \<in> set (keys m)"
        using whole_start pieces by simp
      show ?thesis
      proof (cases compress)
        case True
        then have "ptr = Some p \<and> out' = out \<and> ptrs = Some m" using P(1) rest dot ok lab Some by (simp add: Let_def)
        with True known show ?thesis unfolding pieces by simp
      next
        case False
        then have "packName_loop room compress s (Some m) ?w r [] True r = Inr (ptr, out', ptrs)"
          using P(1) rest dot ok lab Some by (simp add: Let_def)
        from next_label [OF this] known False show ?thesis unfolding pieces pack_search.simps len by (simp only: if_True if_False)
      qed
    qed
  next
    case char
    then have r: "r \<noteq> []" using P(2) rest by (auto simp: ends_dot_Cons)
    then have "label_pieces_aux False cur rest = label_pieces_aux False (c # cur) r" using rest char by (simp add: pieces_Cons)
    moreover have "\<exists>k. ptrs = Some k \<and> pack_search compress (set (keys m)) (length out) (label_pieces_aux False (c # cur) r) =
        (ptr \<noteq> None, length out', set (keys k))"
    proof (rule IH [where rest = r and lab = "lab @ [c]" and wasDot = False and start = start])
      show "escapedNameLen start = length (lab @ [c]) + escapedNameLen r" using P(7) rest char by simp
    qed (use P rest char r whole_char [of cur c] in \<open>auto simp: ends_dot_Cons\<close>)
    ultimately show ?thesis by simp
  qed
qed

text \<open>
  The search of the packer against that of the length: the names the length knows are
  known to the packer, which is never further along. Every name of the packer has its
  parents among them, unless it has come too far to point at them.
\<close>

definition parents :: "string set \<Rightarrow> nat \<Rightarrow> bool" where
  "parents k off \<longleftrightarrow> off \<ge> maxCompressionOffset \<or>
     (\<forall>p ps. ps \<noteq> [] \<longrightarrow> concat (p # ps) \<in> k \<longrightarrow> label_pieces (concat (p # ps)) = p # ps \<longrightarrow> concat ps \<in> k)"

text \<open>The names a packed name holds: its suffixes from a label on.\<close>

fun sufs :: "string list \<Rightarrow> string list" where
  "sufs [] = []"
| "sufs (p # ps) = concat (p # ps) # sufs ps"

text \<open>How many labels come before the first of these names that is known, and where they end.\<close>

definition hit :: "string set \<Rightarrow> string list \<Rightarrow> nat" where
  "hit k ps = length (takeWhile (\<lambda>s. s \<notin> k) (sufs ps))"

definition wire_len :: "string list \<Rightarrow> nat" where
  "wire_len ps = sum_list (map escapedNameLen ps)"

lemma length_sufs [simp]: "length (sufs ps) = length ps"
  by (induction ps) auto

lemma sufs_nth: "j < length ps \<Longrightarrow> sufs ps ! j = concat (drop j ps)"
  by (induction ps arbitrary: j) (auto simp: nth_Cons split: nat.split)

lemma hit_simps [simp]:
  "hit k [] = 0" "hit k (p # ps) = (if concat (p # ps) \<in> k then 0 else Suc (hit k ps))"
  by (simp_all add: hit_def)

lemma wire_len_simps [simp]: "wire_len [] = 0" "wire_len (p # ps) = escapedNameLen p + wire_len ps"
  by (simp_all add: wire_len_def)

lemma hit_le: "hit k ps \<le> length ps"
  by (induction ps) auto

lemma hit_antimono: "c \<subseteq> k \<Longrightarrow> hit k ps \<le> hit c ps"
  by (induction ps) auto

lemma hit_known: "hit k ps < length ps \<Longrightarrow> concat (drop (hit k ps) ps) \<in> k"
  by (induction ps) (auto split: if_splits)

lemma hit_insert_longer: "(\<And>s. s \<in> set (sufs ps) \<Longrightarrow> s \<noteq> x) \<Longrightarrow> hit (insert x k) ps = hit k ps"
  by (induction ps) auto

lemma sufs_shorter: "s \<in> set (sufs ps) \<Longrightarrow> length s \<le> length (concat ps)"
  by (induction ps) auto

lemma hit_insert: "p \<noteq> [] \<Longrightarrow> hit (if b then insert (concat (p # ps)) k else k) ps = hit k ps"
  using sufs_shorter [of "concat (p # ps)" ps] by (auto intro!: hit_insert_longer)

definition added :: "nat \<Rightarrow> (string list \<Rightarrow> nat) \<Rightarrow> nat \<Rightarrow> string list \<Rightarrow> string set" where
  "added off len n ps = (\<lambda>j. concat (drop j ps)) ` {j. j < n \<and> off + len (take j ps) < maxCompressionOffset}"

lemma added_0 [simp]: "added off len 0 ps = {}"
  by (simp add: added_def)

lemma added_Suc:
  assumes "len [] = 0" "\<And>qs. len (p # qs) = l + len qs"
  shows "added off len (Suc n) (p # ps) =
    (if off < maxCompressionOffset then {concat (p # ps)} else {}) \<union> added (off + l) len n ps"
proof -
  have "{j. j < Suc n \<and> off + len (take j (p # ps)) < maxCompressionOffset} =
      (if off < maxCompressionOffset then {0} else {}) \<union> Suc ` {j. j < n \<and> off + l + len (take j ps) < maxCompressionOffset}"
    using assms by (auto simp: less_Suc_eq_0_disj add.assoc)
  then show ?thesis unfolding added_def by (auto simp: image_Un image_image)
qed

lemma pack_search_spec:
  assumes "\<forall>p\<in>set ps. p \<noteq> []"
  shows "pack_search True k off ps =
      (hit k ps < length ps, off + wire_len (take (hit k ps) ps), k \<union> added off wire_len (hit k ps) ps)"
    "pack_search False k off ps = (False, off + wire_len ps, k \<union> added off wire_len (length ps) ps)"
proof -
  show "pack_search True k off ps =
      (hit k ps < length ps, off + wire_len (take (hit k ps) ps), k \<union> added off wire_len (hit k ps) ps)"
    using assms
  proof (induction ps arbitrary: k off)
    case (Cons p ps)
    then show ?case
      using hit_insert [of p "off < maxCompressionOffset" ps k] by (auto simp: added_Suc [of wire_len p "escapedNameLen p"])
  qed simp
  show "pack_search False k off ps = (False, off + wire_len ps, k \<union> added off wire_len (length ps) ps)"
    using assms
    by (induction ps arbitrary: k off) (auto simp: added_Suc [of wire_len _ "escapedNameLen _"])
qed

definition text_len :: "string list \<Rightarrow> nat" where
  "text_len ps = length (concat ps)"

lemma text_len_simps [simp]: "text_len [] = 0" "text_len (p # ps) = length p + text_len ps"
  by (simp_all add: text_len_def)

lemma compressionLenSearch_loop_spec:
  assumes "\<forall>p\<in>set ps. p \<noteq> []"
  shows "compressionLenSearch_loop c msgOff off ps =
    (if hit c ps < length ps then Some (off + text_len (take (hit c ps) ps)) else None,
     c \<union> added (msgOff + off) text_len (hit c ps) ps)"
  using assms
proof (induction ps arbitrary: c off)
  case (Cons p ps)
  then show ?case
    using hit_insert [of p "msgOff + off < maxCompressionOffset" ps c]
    by (auto simp: added_Suc [of text_len p "length p"] add.assoc)
qed simp


subsection \<open>The labels of a name\<close>

lemma pieces_tail: "label_pieces_aux e cur rest = p # ps \<Longrightarrow> ps \<noteq> [] \<Longrightarrow> label_pieces (concat ps) = ps"
proof (induction e cur rest arbitrary: p ps rule: label_pieces_aux.induct)
  case (3 e cur c d r)
  show ?case
  proof (cases "c = CHR ''.'' \<and> \<not> e")
    case True
    then have "ps = label_pieces_aux False [] (d # r)" using 3(3) by simp
    then show ?thesis by (simp only: label_pieces_def concat_label_pieces_aux) simp
  qed (use 3 in auto)
qed simp_all

lemma pieces_drop: "label_pieces s = ps \<Longrightarrow> j < length ps \<Longrightarrow> label_pieces (concat (drop j ps)) = drop j ps"
proof (induction j)
  case (Suc j)
  then have "label_pieces (concat (drop j ps)) = ps ! j # drop (Suc j) ps" by (simp add: Cons_nth_drop_Suc)
  with pieces_tail [of False "[]" "concat (drop j ps)" "ps ! j" "drop (Suc j) ps"] Suc.prems show ?case by (simp add: label_pieces_def)
qed auto

lemma pieces_not_Nil: "p \<in> set (label_pieces_aux e cur rest) \<Longrightarrow> cur \<noteq> [] \<or> rest \<noteq> [] \<Longrightarrow> p \<noteq> []"
  by (induction e cur rest rule: label_pieces_aux.induct) (auto split: if_splits)

lemma pieces_end:
  assumes "p \<in> set (label_pieces_aux e cur rest)" "\<And>t. t \<noteq> [] \<Longrightarrow> ends_dot False (rev cur @ t) = ends_dot e t" "ends_dot e rest"
  shows "ends_dot False p"
  using assms
proof (induction e cur rest rule: label_pieces_aux.induct)
  case (3 e cur c d r)
  show ?case
  proof (cases "c = CHR ''.'' \<and> \<not> e")
    case True
    then show ?thesis using 3(1) [OF True] 3(3,5) 3(4) [of "''.''"] by auto
  next
    case False
    show ?thesis
    proof (rule 3(2) [OF False])
      show "ends_dot False (rev (c # cur) @ t) = ends_dot (c = CHR 92 \<and> \<not> e) t" if "t \<noteq> []" for t
        using 3(4) [of "c # t"] that by (simp add: ends_dot_Cons)
    qed (use 3(3,5) False in auto)
  qed
qed auto

lemma pieces_end_dot: "ends_dot False s \<Longrightarrow> p \<in> set (label_pieces s) \<Longrightarrow> ends_dot False p"
  unfolding label_pieces_def by (rule pieces_end) auto

lemma escapedNameLen_concat: "(\<And>p. p \<in> set ps \<Longrightarrow> ends_dot False p) \<Longrightarrow> escapedNameLen (concat ps) = wire_len ps"
  by (induction ps) (auto simp: escapedNameLen_append)

lemma escapedNameLen_le: "escapedNameLen s \<le> length s"
  by (induction s rule: escapedNameLen.induct) (auto simp: isDDD_def)

lemma escapedNameLen_pos: "ends_dot False s \<Longrightarrow> escapedNameLen s \<ge> 1"
proof (induction s rule: escapedNameLen.induct)
  case (2 c s)
  show ?case
  proof (cases "c = CHR 92")
    case True
    then show ?thesis using 2(4) by (cases s) auto
  qed simp
qed simp

lemma escapedNameLen_plain: "CHR 92 \<notin> set s \<Longrightarrow> escapedNameLen s = length s"
  by (induction s) auto

lemma wire_len_le: "wire_len ps \<le> text_len ps"
  by (induction ps) (auto intro: add_mono escapedNameLen_le)

lemma wire_len_append [simp]: "wire_len (ps @ qs) = wire_len ps + wire_len qs"
  by (simp add: wire_len_def)

lemma wire_len_take: "wire_len ps = wire_len (take n ps) + wire_len (drop n ps)"
  by (metis append_take_drop_id wire_len_append)

lemma wire_len_take_le: "wire_len (take n ps) \<le> wire_len ps"
  using wire_len_take [of ps n] by linarith

lemma wire_len_take_mono: "i \<le> j \<Longrightarrow> wire_len (take i ps) \<le> wire_len (take j ps)"
  by (metis le_add1 take_take min.absorb1 wire_len_take)

subsection \<open>The packer and the length agree on a name\<close>

lemma parents_up:
  assumes "parents k off" "off < maxCompressionOffset" "label_pieces s = ps" "i \<le> j" "j < length ps" "concat (drop i ps) \<in> k"
  shows "concat (drop j ps) \<in> k"
  using assms(4,5)
proof (induction j rule: dec_induct)
  case (step j)
  then have "concat (drop j ps) \<in> k" "drop j ps = ps ! j # drop (Suc j) ps" by (auto simp: Cons_nth_drop_Suc)
  moreover have "label_pieces (concat (drop j ps)) = drop j ps" using pieces_drop [OF assms(3)] step.prems by simp
  moreover have "drop (Suc j) ps \<noteq> []" using step.prems by simp
  ultimately show ?case using assms(1,2) unfolding parents_def by (metis leD)
qed (use assms(6) in simp)

lemma parents_mono: "parents k off \<Longrightarrow> off \<le> off' \<Longrightarrow> parents k off'"
  by (auto simp: parents_def)

lemma parents_added:
  assumes "parents k off" "label_pieces s = ps" "n \<le> length ps" "n < length ps \<Longrightarrow> concat (drop n ps) \<in> k"
    and "off + wire_len (take n ps) \<le> off'"
  shows "parents (k \<union> added off wire_len n ps) off'"
proof (cases "off' < maxCompressionOffset")
  case True
  let ?k = "k \<union> added off wire_len n ps"
  have in_added: "concat (drop j ps) \<in> ?k" if "j < n" for j
  proof -
    have "off + wire_len (take j ps) < maxCompressionOffset" using wire_len_take_mono [of j n ps] that assms(5) True by linarith
    then show ?thesis using that by (auto simp: added_def)
  qed
  have "concat qs \<in> ?k" if qs0: "qs \<noteq> []" and known: "concat (q # qs) \<in> ?k" and pieces: "label_pieces (concat (q # qs)) = q # qs" for q qs
  proof (cases "concat (q # qs) \<in> k")
    case False
    then obtain j where j: "concat (q # qs) = concat (drop j ps)" "j < n" using known by (auto simp: added_def)
    moreover have "label_pieces (concat (drop j ps)) = drop j ps" using pieces_drop [OF assms(2), of j] j(2) assms(3) by simp
    ultimately have "q # qs = drop j ps" using pieces by argo
    then have qs: "qs = drop (Suc j) ps" by (metis drop_Suc list.sel(3) tl_drop)
    show ?thesis
    proof (cases "Suc j < n")
      case False
      then have "Suc j = n" "n < length ps" using j(2) qs0 qs assms(3) by auto
      then show ?thesis using assms(4) qs by simp
    qed (use in_added qs in simp)
  next
    case k: True
    have "off < maxCompressionOffset" using assms(5) True by linarith
    then show ?thesis using k assms(1) qs0 pieces unfolding parents_def by (metis UnI1 leD)
  qed
  then show ?thesis by (auto simp: parents_def)
qed (simp add: parents_def)


lemma loop_plain:
  assumes "packName_loop room compress s None out start lab wasDot rest = Inr (ptr, out', ptrs)" "ends_dot False rest"
  shows "ptr = None \<and> ptrs = None \<and> length out' = length out + length lab + escapedNameLen rest"
  using assms
proof (induction "length rest" arbitrary: out start lab wasDot rest rule: less_induct)
  case less
  note IH = less.hyps and P = less.prems
  obtain c r where rest: "rest = c # r" using P(2) by (cases rest) auto
  consider (esc) "c = CHR 92" | (dot) "c = CHR ''.''" | (char) "c \<noteq> CHR 92" "c \<noteq> CHR ''.''" by blast
  then show ?case
  proof cases
    case esc
    show ?thesis
    proof (cases "isDDD r")
      case True
      then show ?thesis
        using IH [of "drop 3 r" out start "lab @ [dddToByte r]" False] P rest esc escape_DDD(1,2) [OF True] by (auto split: if_splits)
    next
      case False
      obtain x t where x: "r = x # t" "t \<noteq> []" "ends_dot False t" using escape_char P(2) rest esc by metis
      then show ?thesis using IH [of t out start "lab @ [x]" False] P rest esc False by (auto split: if_splits)
    qed
  next
    case dot
    let ?w = "out @ [char_of (length lab)] @ lab"
    have "packName_loop room compress s None ?w r [] True r = Inr (ptr, out', ptrs)"
      using P(1) rest dot by (auto simp: Let_def split: if_splits)
    then show ?thesis
      using IH [of r ?w r "[]" True] P(2) rest dot by (cases "r = []") (auto simp: ends_dot_Cons)
  next
    case char
    then show ?thesis
      using IH [of r out start "lab @ [c]" False] P rest by (auto simp: ends_dot_Cons split: if_splits)
  qed
qed

text \<open>
  What was packed so far, and what the length of it was computed to be; \<open>u\<close> is the length
  without compression, for which there is room in the buffer.
\<close>

fun in_step :: "nat \<Rightarrow> string \<times> pointers \<Rightarrow> nat \<times> compression \<Rightarrow> bool" where
  "in_step u (out, None) (l, None) \<longleftrightarrow> length out \<le> u \<and> length out \<le> l"
| "in_step u (out, Some m) (l, Some c) \<longleftrightarrow> length out \<le> u \<and> length out \<le> l \<and> c \<subseteq> set (keys m) \<and> parents (set (keys m)) (length out)"
| "in_step _ _ _ \<longleftrightarrow> False"

lemma in_step_bytes: "in_step u (out, ptrs) (l, c) \<Longrightarrow> length out \<le> length out' \<Longrightarrow> length out' \<le> length out + n \<Longrightarrow> in_step (u + n) (out', ptrs) (l + n, c)"
  by (cases ptrs; cases c) (auto intro: parents_mono)

lemma domainNameLen_Some:
  assumes "ends_dot False s" "s \<noteq> ''.''" "ps = label_pieces s"
  shows "domainNameLen s off (Some c) compress =
    (let n = hit c ps; c' = Some (c \<union> added off text_len n ps) in
     if compress then (if n < length ps then wire_len (take n ps) + 2 else wire_len ps + 1, c')
     else (wire_len ps + 1, if off < maxCompressionOffset then c' else Some c))"
proof -
  have ne: "s \<noteq> ''''" using assms(1) by auto
  have pd: "ends_dot False p" if "p \<in> set ps" for p using pieces_end_dot [OF assms(1)] that assms(3) by simp
  have span: "(if CHR 92 \<in> set s then escapedNameLen t else length t) = escapedNameLen t" if "set t \<subseteq> set s" for t
    using that escapedNameLen_plain [of t] by (metis subsetD)
  have s: "escapedNameLen s = wire_len ps" using escapedNameLen_concat [of ps] pd assms(3) by (metis concat_label_pieces)
  have "take (text_len (take n ps)) s = concat (take n ps)" for n
    using assms(3) by (metis append_eq_conv_conj append_take_drop_id concat_append concat_label_pieces text_len_def)
  then have t: "escapedNameLen (take (text_len (take n ps)) s) = wire_len (take n ps)" for n
    using escapedNameLen_concat [of "take n ps"] pd by (metis in_set_takeD)
  have "compressionLenSearch c s off =
      (if hit c ps < length ps then Some (text_len (take (hit c ps) ps)) else None, c \<union> added off text_len (hit c ps) ps)"
    using compressionLenSearch_loop_spec [of ps c off 0] pd assms(3) unfolding compressionLenSearch_def by fastforce
  then show ?thesis
    using ne assms(2) by (auto simp: domainNameLen_def Let_def span set_take_subset s t)
qed


lemma domainNameLen_plain:
  assumes "ends_dot False s" "s \<noteq> ''.''"
  shows "domainNameLen s off None may = (escapedNameLen s + 1, None)"
  using assms escapedNameLen_plain [of s] by (auto simp: domainNameLen_def Let_def)

lemma domainNameLen_pieces:
  assumes "ends_dot False s" "s \<noteq> ''.''" "ps = label_pieces s"
  shows "fst (domainNameLen s off None may) = wire_len ps + 1"
proof -
  have "escapedNameLen (concat ps) = wire_len ps" using pieces_end_dot [OF assms(1)] assms(3) by (intro escapedNameLen_concat) simp
  then show ?thesis using assms by (simp add: domainNameLen_plain)
qed

lemma name_in_step_Some:
  assumes "packDomainName room s out (Some m) compress = Inr (out', ptrs)" "in_step u (out, Some m) (l, Some c)"
    and "ends_dot False s" "s \<noteq> ''.''"
  shows "in_step (u + fst (domainNameLen s u None compress)) (out', ptrs) (l + fst (domainNameLen s l (Some c) compress), snd (domainNameLen s l (Some c) compress)) \<and> length out \<le> length out'"
proof -
  define ps where "ps = label_pieces s"
  let ?k = "set (keys m)" and ?off = "length out"
  have st: "?off \<le> l" "c \<subseteq> ?k" "parents ?k ?off" using assms(2) by auto
  have pd: "ends_dot False p" if "p \<in> set ps" for p using pieces_end_dot [OF assms(3)] that ps_def by simp
  then have ne: "\<forall>p\<in>set ps. p \<noteq> []" by fastforce
  have long: "length s > 1" using assms(3,4) by (cases s; cases "tl s") auto
  obtain ptr out1 ptrs1 where loop: "packName_loop room compress s (Some m) out s [] False s = Inr (ptr, out1, ptrs1)"
    using assms by (auto simp: packDomainName_def res_bind_Inr_iff split: if_splits)
  from loop_search [OF this assms(3), of "[]"] long obtain k
    where k: "ptrs1 = Some k" "pack_search compress ?k ?off ps = (ptr \<noteq> None, length out1, set (keys k))"
    unfolding ps_def label_pieces_def by auto
  have out': "ptrs = Some k" "length out' = length out1 + (if ptr \<noteq> None then 2 else 1)"
    using assms loop k(1) by (auto simp: packDomainName_def res_bind_Inr_iff pointer_bytes_def be16_def split: if_splits option.splits)
  have subset: "c \<union> added l text_len (hit c ps) ps \<subseteq> ?k \<union> added ?off wire_len n ps"
    if n: "n = (if compress then hit ?k ps else length ps)" for n
  proof
    fix x assume "x \<in> c \<union> added l text_len (hit c ps) ps"
    then consider "x \<in> c" | j where "x = concat (drop j ps)" "j < hit c ps" "l + text_len (take j ps) < maxCompressionOffset"
      by (auto simp: added_def)
    then show "x \<in> ?k \<union> added ?off wire_len n ps"
    proof cases
      case 2
      then have "?off + wire_len (take j ps) < maxCompressionOffset" using wire_len_le [of "take j ps"] st(1) by linarith
      moreover have "x \<in> ?k" if "\<not> j < n"
      proof -
        have h: "n = hit ?k ps" "hit ?k ps \<le> j" "j < length ps" using that n 2(2) hit_le [of c ps] by (auto split: if_splits)
        then have "concat (drop (hit ?k ps) ps) \<in> ?k" using hit_known [of ?k ps] by simp
        with parents_up [OF st(3) _ ps_def [symmetric] h(2,3)] 2 st(1) show ?thesis by simp
      qed
      ultimately show ?thesis using 2(1) by (auto simp: added_def)
    qed (use st(2) in auto)
  qed
  have w: "wire_len (take (hit ?k ps) ps) + 1 \<le> wire_len ps" if "hit ?k ps < length ps"
  proof -
    have "drop (hit ?k ps) ps = ps ! hit ?k ps # drop (Suc (hit ?k ps)) ps" using that by (simp add: Cons_nth_drop_Suc)
    then have "wire_len (drop (hit ?k ps) ps) \<ge> 1" using escapedNameLen_pos [OF pd, of "ps ! hit ?k ps"] that by simp
    then show ?thesis using wire_len_take [of ps "hit ?k ps"] by linarith
  qed
  have u: "fst (domainNameLen s u None compress) = wire_len ps + 1" using domainNameLen_pieces [OF assms(3,4) ps_def] .
  have ul: "?off \<le> u" using assms(2) by simp
  show ?thesis
  proof (cases compress)
    case True
    then have s: "ptr \<noteq> None \<longleftrightarrow> hit ?k ps < length ps" "length out1 = ?off + wire_len (take (hit ?k ps) ps)"
      "set (keys k) = ?k \<union> added ?off wire_len (hit ?k ps) ps" using k(2) pack_search_spec(1) [OF ne, of ?k ?off] by auto
    have "parents (set (keys k)) (length out')" unfolding s(3)
      using parents_added [OF st(3) ps_def [symmetric] hit_le, of ?k "length out'"] hit_known [of ?k ps] s(2) out'(2) by simp
    moreover have "length out' \<le> l + fst (domainNameLen s l (Some c) compress)"
    proof -
      have a: "hit ?k ps \<le> hit c ps" using hit_antimono [OF st(2)] .
      have "wire_len (take (hit ?k ps) ps) \<le> wire_len (take (hit c ps) ps)" using wire_len_take_mono [OF a] .
      moreover have "\<not> hit ?k ps < length ps \<Longrightarrow> \<not> hit c ps < length ps" using a by simp
      moreover note wire_len_take_le [of "hit ?k ps" ps]
      moreover have "fst (domainNameLen s l (Some c) compress) =
          (if hit c ps < length ps then wire_len (take (hit c ps) ps) + 2 else wire_len ps + 1)"
        unfolding domainNameLen_Some [OF assms(3,4) ps_def] Let_def using True by simp
      moreover have "length out' = ?off + wire_len (take (hit ?k ps) ps) + (if hit ?k ps < length ps then 2 else 1)"
        using s(1,2) out'(2) by simp
      ultimately show ?thesis using st(1) w by (cases "hit ?k ps < length ps"; cases "hit c ps < length ps") simp_all
    qed
    moreover have "length out' \<le> u + (wire_len ps + 1)"
      using s(1,2) out'(2) w ul wire_len_take_le [of "hit ?k ps" ps] by (cases "hit ?k ps < length ps") simp_all
    moreover have "c \<union> added l text_len (hit c ps) ps \<subseteq> set (keys k)" unfolding s(3) using subset [of "hit ?k ps"] True by metis
    ultimately have "in_step (u + fst (domainNameLen s u None compress)) (out', Some k)
        (l + fst (domainNameLen s l (Some c) compress), Some (c \<union> added l text_len (hit c ps) ps))"
      unfolding in_step.simps u by blast
    moreover have "snd (domainNameLen s l (Some c) compress) = Some (c \<union> added l text_len (hit c ps) ps)"
      unfolding domainNameLen_Some [OF assms(3,4) ps_def] Let_def using True by simp
    ultimately show ?thesis unfolding out'(1) using s(2) out'(2) by simp
  next
    case False
    then have s: "ptr = None" "length out1 = ?off + wire_len ps" "set (keys k) = ?k \<union> added ?off wire_len (length ps) ps"
      using k(2) pack_search_spec(2) [OF ne, of ?k ?off] by auto
    have "parents (set (keys k)) (length out')" unfolding s(3)
      using parents_added [OF st(3) ps_def [symmetric], of "length ps" "length out'"] s(2) out'(2) by simp
    moreover have "fst (domainNameLen s l (Some c) compress) = wire_len ps + 1"
      "snd (domainNameLen s l (Some c) compress) = Some (c \<union> added l text_len (hit c ps) ps) \<or> snd (domainNameLen s l (Some c) compress) = Some c"
      unfolding domainNameLen_Some [OF assms(3,4) ps_def] Let_def using False by auto
    ultimately show ?thesis using subset [of "length ps"] False s out' st ul unfolding u by auto
  qed
qed

lemma name_in_step:
  assumes "packDomainName room s out ptrs compress = Inr (out', ptrs')" "in_step u (out, ptrs) (l, c)" "ptrs \<noteq> None \<Longrightarrow> compress = may"
  shows "in_step (u + fst (domainNameLen s u None may)) (out', ptrs') (l + fst (domainNameLen s l c may), snd (domainNameLen s l c may)) \<and> length out \<le> length out'"
proof -
  consider "s = ''''" | "s = ''.''" | "ends_dot False s" "s \<noteq> ''.''" "s \<noteq> ''''"
    using assms(1) by (auto simp: packDomainName_def IsFqdn_ends_dot_iff split: if_splits)
  then show ?thesis
  proof cases
    case 1
    then have "out' = out" "ptrs' = ptrs" using assms(1) by (auto simp: packDomainName_def)
    then show ?thesis using in_step_bytes [OF assms(2), of out 1] 1 by (simp add: domainNameLen_def)
  next
    case 2
    then have "length out' = length out + 1" "ptrs' = ptrs"
      using assms(1) by (auto simp: packDomainName_def res_bind_Inr_iff Let_def IsFqdn_def split: if_splits option.splits)
    then show ?thesis using in_step_bytes [OF assms(2), of out' 1] 2 by (simp add: domainNameLen_def)
  next
    case 3
    show ?thesis
    proof (cases ptrs)
      case None
      then have c: "c = None" using assms(2) by (cases c) auto
      obtain ptr out1 ptrs1 where loop: "packName_loop room compress s None out s [] False s = Inr (ptr, out1, ptrs1)"
        using assms(1) 3 None by (auto simp: packDomainName_def res_bind_Inr_iff split: if_splits)
      note p = loop_plain [OF loop 3(1)]
      have "ptrs' = None" "length out' = length out + escapedNameLen s + 1"
        using assms(1) 3 None loop p by (auto simp: packDomainName_def res_bind_Inr_iff split: if_splits)
      then show ?thesis using assms(2) None c by (simp add: domainNameLen_plain [OF 3(1,2)])
    next
      case (Some m)
      then obtain c0 where "c = Some c0" using assms(2) by (cases c) auto
      with Some assms name_in_step_Some [of room s out m compress out' ptrs' u l c0] 3 show ?thesis by simp
    qed
  qed
qed


lemma domainNameLen_None [simp]: "(snd (domainNameLen s off c may) = None) = (c = None)"
  by (auto simp: domainNameLen_def Let_def split: option.splits prod.splits)

lemma header_len_None [simp]: "(snd (header_len h off c) = None) = (c = None)"
  by (simp add: header_len_def case_prod_beta Let_def)

lemma lens_None [simp]: "snd (domainNameLen s off None may) = None" "snd (header_len h off None) = None"
  by simp_all

section \<open>The bytes of a message are no more than its length\<close>

lemma packUint16_Inr: "packUint16 room i out = Inr out' \<longleftrightarrow> length out + 2 \<le> room \<and> out' = out @ be16 i"
  by (auto simp: packUint16_def)

lemma packUint32_Inr: "packUint32 room i out = Inr out' \<longleftrightarrow> length out + 4 \<le> room \<and> out' = out @ be32 i"
  by (auto simp: packUint32_def)

lemma length_be [simp]: "length (be16 i) = 2" "length (be32 j) = 4"
  by (simp_all add: be16_def be32_def)

lemma question_in_step:
  assumes "pack_question room compress q (out, ptrs) = Inr (out', ptrs')" "in_step u (out, ptrs) (l, c)" "ptrs \<noteq> None \<Longrightarrow> compress"
  shows "in_step (u + fst (question_len q u None)) (out', ptrs') (l + fst (question_len q l c), snd (question_len q l c)) \<and> length out \<le> length out'"
proof -
  obtain o1 where n: "packDomainName room (qn_Name q) out ptrs compress = Inr (o1, ptrs')" "out' = o1 @ be16 (qn_Qtype q) @ be16 (qn_Qclass q)"
    using assms(1) by (auto simp: pack_question_def res_bind_Inr_iff packUint16_Inr)
  have s: "in_step (u + fst (domainNameLen (qn_Name q) u None True)) (o1, ptrs') (l + fst (domainNameLen (qn_Name q) l c True), snd (domainNameLen (qn_Name q) l c True))" "length out \<le> length o1"
    using name_in_step [OF n(1) assms(2), of True] assms(3) by simp_all
  have "fst (question_len q u None) = fst (domainNameLen (qn_Name q) u None True) + 4" "l + fst (question_len q l c) = l + fst (domainNameLen (qn_Name q) l c True) + 4"
    "snd (question_len q l c) = snd (domainNameLen (qn_Name q) l c True)" by (simp_all add: question_len_def case_prod_beta Let_def)
  with in_step_bytes [OF s(1), of out' 4] n(2) s(2) show ?thesis by (simp add: add.assoc)
qed

lemma header_in_step:
  assumes "packHeader room compress h out ptrs = Inr (out', ptrs')" "in_step u (out, ptrs) (l, c)" "ptrs \<noteq> None \<Longrightarrow> compress"
    and "length out \<noteq> room"
  shows "in_step (u + fst (header_len h u None)) (out', ptrs') (l + fst (header_len h l c), snd (header_len h l c)) \<and> length out + 10 \<le> length out'"
proof -
  obtain o1 where n: "packDomainName room (hdr_Name h) out ptrs compress = Inr (o1, ptrs')"
    "out' = o1 @ be16 (hdr_Rrtype h) @ be16 (hdr_Class h) @ be32 (hdr_Ttl h) @ be16 0"
    using assms(1,4) by (auto simp: packHeader_def res_bind_Inr_iff packUint16_Inr packUint32_Inr)
  have s: "in_step (u + fst (domainNameLen (hdr_Name h) u None True)) (o1, ptrs') (l + fst (domainNameLen (hdr_Name h) l c True), snd (domainNameLen (hdr_Name h) l c True))" "length out \<le> length o1"
    using name_in_step [OF n(1) assms(2), of True] assms(3) by simp_all
  have "fst (header_len h u None) = fst (domainNameLen (hdr_Name h) u None True) + 10" "l + fst (header_len h l c) = l + fst (domainNameLen (hdr_Name h) l c True) + 10"
    "snd (header_len h l c) = snd (domainNameLen (hdr_Name h) l c True)" by (simp_all add: header_len_def case_prod_beta Let_def)
  with in_step_bytes [OF s(1), of out' 10] n(2) s(2) show ?thesis by (simp add: add.assoc)
qed

lemma parts_in_step:
  assumes "pack_parts room compress ps out ptrs = Inr (out', ptrs')" "in_step (v + u) (out, ptrs) (off + l, c)" "ptrs \<noteq> None \<Longrightarrow> compress"
  shows "in_step (v + fst (parts_len ps v u None)) (out', ptrs') (off + fst (parts_len ps off l c), snd (parts_len ps off l c)) \<and> length out \<le> length out'"
  using assms
proof (induction ps arbitrary: out ptrs l c u)
  case (Cons p ps)
  show ?case
  proof (cases p)
    case (Octets b)
    then have "pack_parts room compress ps (out @ b) ptrs = Inr (out', ptrs')"
      using Cons.prems(1) by (auto simp: res_bind_Inr_iff pack_bytes_def split: if_splits)
    with Cons.IH [OF this, of "u + length b" "l + length b" c] in_step_bytes [OF Cons.prems(2), of "out @ b" "length b"] Cons.prems(3) Octets
    show ?thesis by (simp add: add.assoc)
  next
    case (DName n may)
    then obtain o1 p1 where n: "packDomainName room n out ptrs (compress \<and> may) = Inr (o1, p1)" "pack_parts room compress ps o1 p1 = Inr (out', ptrs')"
      using Cons.prems(1) by (auto simp: res_bind_Inr_iff)
    have s: "in_step (v + u + fst (domainNameLen n (v + u) None may)) (o1, p1) (off + l + fst (domainNameLen n (off + l) c may), snd (domainNameLen n (off + l) c may)) \<and> length out \<le> length o1"
      using name_in_step [OF n(1) Cons.prems(2)] Cons.prems(3) by auto
    moreover have "p1 \<noteq> None \<Longrightarrow> compress" using s Cons.prems(2,3) by (cases ptrs; cases c) (auto simp: domainNameLen_def Let_def split: if_splits)
    ultimately show ?thesis
      using Cons.IH [OF n(2), of "u + fst (domainNameLen n (v + u) None may)" "l + fst (domainNameLen n (off + l) c may)" "snd (domainNameLen n (off + l) c may)"] DName
      by (auto simp: case_prod_beta Let_def add.assoc)
  qed
qed simp

lemma packDataOpt_len: "packDataOpt room os out = Inr out' \<Longrightarrow> length out' = length out + options_len os"
  by (induction room os out rule: packDataOpt.induct) (auto simp: Let_def split: if_splits)

lemma packData_len:
  "packDataA room a out = Inr out' \<Longrightarrow> length out \<le> length out' \<and> length out' \<le> length out + ip_len 4 a"
  "packDataAAAA room a out = Inr out' \<Longrightarrow> length out \<le> length out' \<and> length out' \<le> length out + ip_len 16 a"
  by (auto simp: packDataA_def packDataAAAA_def pack_bytes_def ip_len_def To4_length split: option.splits if_splits)

definition rdata_len :: "rr \<Rightarrow> nat \<Rightarrow> nat \<Rightarrow> compression \<Rightarrow> nat \<times> compression" where
  "rdata_len r off l c =
     (case r of
        RR_A h ip \<Rightarrow> (l + ip_len 4 ip, c)
      | RR_AAAA h ip \<Rightarrow> (l + ip_len 16 ip, c)
      | RR_PTR h s \<Rightarrow> (let (k, c) = domainNameLen s (off + l) c True in (l + k, c))
      | RR_OPT h os \<Rightarrow> (l + options_len os, c)
      | OtherRR h ps \<Rightarrow> parts_len ps off l c)"

lemma rr_len_split: "rr_len r off c = (let (l, c) = header_len (rr_hdr r) off c in rdata_len r off l c)"
  by (cases r) (simp_all add: rdata_len_def case_prod_beta Let_def)

lemma rdata_in_step:
  assumes "pack_rdata room compress r out ptrs = Inr (out', ptrs')" "in_step (v + u) (out, ptrs) (off + l, c)" "ptrs \<noteq> None \<Longrightarrow> compress"
  shows "in_step (v + fst (rdata_len r v u None)) (out', ptrs') (off + fst (rdata_len r off l c), snd (rdata_len r off l c)) \<and> length out \<le> length out'"
proof (cases r)
  case (RR_A h a)
  then have p: "packDataA room a out = Inr out'" "ptrs' = ptrs" using assms(1) by (auto simp: with_ptrs_def res_bind_Inr_iff)
  with in_step_bytes [OF assms(2), of out' "ip_len 4 a"] packData_len(1) [OF p(1)] RR_A show ?thesis by (simp add: rdata_len_def add.assoc)
next
  case (RR_AAAA h a)
  then have p: "packDataAAAA room a out = Inr out'" "ptrs' = ptrs" using assms(1) by (auto simp: with_ptrs_def res_bind_Inr_iff)
  with in_step_bytes [OF assms(2), of out' "ip_len 16 a"] packData_len(2) [OF p(1)] RR_AAAA show ?thesis by (simp add: rdata_len_def add.assoc)
next
  case (RR_PTR h s)
  then show ?thesis
    using name_in_step [OF _ assms(2), of room s compress out' ptrs' True] assms(1,3)
    by (auto simp: rdata_len_def case_prod_beta Let_def add.assoc)
next
  case (RR_OPT h os)
  then have p: "packDataOpt room os out = Inr out'" "ptrs' = ptrs" using assms(1) by (auto simp: with_ptrs_def res_bind_Inr_iff)
  with in_step_bytes [OF assms(2), of out' "options_len os"] packDataOpt_len [OF p(1)] RR_OPT show ?thesis by (simp add: rdata_len_def add.assoc)
next
  case (OtherRR h ps)
  then show ?thesis using parts_in_step [OF _ assms(2,3)] assms(1) by (simp add: rdata_len_def)
qed


lemma length_put16 [simp]: "off + 2 \<le> length out \<Longrightarrow> length (put16 off i out) = length out"
  by (simp add: put16_def)

lemma in_step_same: "in_step u (out, ptrs) lc \<Longrightarrow> length out' = length out \<Longrightarrow> in_step u (out', ptrs) lc"
  by (cases lc; cases ptrs; cases "snd lc") auto

lemma in_step_ptrs: "in_step u (out, ptrs) (l, c) \<Longrightarrow> (ptrs = None) = (c = None)"
  by (cases ptrs; cases c) auto

lemma parts_len_None: "(snd (parts_len ps off l c) = None) = (c = None)"
  by (induction ps off l c rule: parts_len.induct) (auto simp: case_prod_beta Let_def domainNameLen_None)

lemma rr_len_None: "(snd (rr_len r off c) = None) = (c = None)"
  by (cases r) (auto simp: header_len_def case_prod_beta Let_def domainNameLen_None parts_len_None)

lemma question_len_None: "(snd (question_len q off c) = None) = (c = None)"
  by (auto simp: question_len_def case_prod_beta Let_def domainNameLen_None)

text \<open>A record starts before the end of the buffer when the buffer has room for the length of the message.\<close>

lemma rr_in_step:
  assumes "packRR room compress r (out, ptrs) = Inr (out', ptrs')" "in_step u (out, ptrs) (l, c)" "ptrs \<noteq> None \<Longrightarrow> compress"
    and "length out < room"
  shows "in_step (u + fst (rr_len r u None)) (out', ptrs') (l + fst (rr_len r l c), snd (rr_len r l c)) \<and> length out \<le> length out'"
proof -
  obtain o1 p1 o2 i where p: "packHeader room compress (rr_hdr r) out ptrs = Inr (o1, p1)"
    "pack_rdata room compress r o1 p1 = Inr (o2, ptrs')" "out' = put16 (length o1 - 2) i o2"
    using assms(1) by (auto simp: packRR_def res_bind_Inr_iff Let_def split: if_splits)
  have h: "in_step (u + fst (header_len (rr_hdr r) u None)) (o1, p1) (l + fst (header_len (rr_hdr r) l c), snd (header_len (rr_hdr r) l c))" "length out + 10 \<le> length o1"
    using header_in_step [OF p(1) assms(2,3)] assms(4) by simp_all
  have "p1 \<noteq> None \<Longrightarrow> compress"
    using in_step_ptrs [OF h(1)] in_step_ptrs [OF assms(2)] assms(3) by (auto simp: header_len_def case_prod_beta Let_def domainNameLen_None)
  from rdata_in_step [OF p(2) h(1) this]
  have d: "in_step (u + fst (rr_len r u None)) (o2, ptrs') (l + fst (rr_len r l c), snd (rr_len r l c))" "length o1 \<le> length o2"
    by (simp_all add: rr_len_split case_prod_beta Let_def)
  then show ?thesis using in_step_same [OF d(1), of out'] p(3) h(2) by simp
qed

definition some_len :: "('a \<Rightarrow> nat \<Rightarrow> compression \<Rightarrow> nat \<times> compression) \<Rightarrow> 'a list \<Rightarrow> nat \<times> compression \<Rightarrow> nat \<times> compression" where
  "some_len len xs = fold (\<lambda>x (l, c). let (k, c) = len x l c in (l + k, c)) xs"

lemma some_len_eq: "questions_len = some_len question_len" "rrs_len = some_len rr_len"
  by (simp_all add: fun_eq_iff questions_len_def rrs_len_def some_len_def)

lemma some_len_simps [simp]:
  "some_len len [] lc = lc" "some_len len (x # xs) (l, c) = some_len len xs (l + fst (len x l c), snd (len x l c))"
  by (simp_all add: some_len_def case_prod_beta Let_def)

lemma some_len_mono: "fst lc \<le> fst (some_len len xs lc)"
proof (induction xs arbitrary: lc)
  case (Cons x xs)
  then show ?case using Cons.IH [of "(fst lc + fst (len x (fst lc) (snd lc)), snd (len x (fst lc) (snd lc)))"] by (cases lc) simp
qed simp


locale packer =
  fixes pack :: "nat \<Rightarrow> bool \<Rightarrow> 'a \<Rightarrow> string \<times> pointers \<Rightarrow> pack_error + string \<times> pointers"
    and len :: "'a \<Rightarrow> nat \<Rightarrow> compression \<Rightarrow> nat \<times> compression"
  assumes packs: "pack room compress x (out, ptrs) = Inr (out', ptrs') \<Longrightarrow> in_step u (out, ptrs) (l, c) \<Longrightarrow>
      (ptrs \<noteq> None \<Longrightarrow> compress) \<Longrightarrow> length out < room \<Longrightarrow>
      in_step (u + fst (len x u None)) (out', ptrs') (l + fst (len x l c), snd (len x l c)) \<and> length out \<le> length out'"
    and len_None: "(snd (len x off c) = None) = (c = None)"
begin

lemma packs_all:
  assumes "pack_all (pack room compress) xs (out, ptrs) = Inr (out', ptrs')" "in_step u (out, ptrs) (l, c)" "ptrs \<noteq> None \<Longrightarrow> compress"
    and "fst (some_len len xs (u, None)) < room"
  shows "in_step (fst (some_len len xs (u, None))) (out', ptrs') (some_len len xs (l, c)) \<and> (ptrs' \<noteq> None \<longrightarrow> compress)"
  using assms
proof (induction xs arbitrary: out ptrs u l c)
  case (Cons x xs)
  obtain o1 p1 where p: "pack room compress x (out, ptrs) = Inr (o1, p1)" "pack_all (pack room compress) xs (o1, p1) = Inr (out', ptrs')"
    using Cons.prems(1) by (auto simp: res_bind_Inr_iff)
  have n: "some_len len (x # xs) (u, None) = some_len len xs (u + fst (len x u None), None)" using len_None [of x u None] by simp
  have "length out \<le> u" using Cons.prems(2) by (cases ptrs; cases c) auto
  then have "length out < room" using Cons.prems(4) some_len_mono [of "(u, None)" len "x # xs"] by simp
  then have s: "in_step (u + fst (len x u None)) (o1, p1) (l + fst (len x l c), snd (len x l c))"
    using packs [OF p(1) Cons.prems(2,3)] by blast
  moreover have "p1 \<noteq> None \<Longrightarrow> compress" using in_step_ptrs [OF s] in_step_ptrs [OF Cons.prems(2)] len_None Cons.prems(3) by auto
  ultimately show ?case using Cons.IH [OF p(2)] Cons.prems(4) unfolding n by simp
qed simp

lemma some_len_None: "snd (some_len len xs (u, None)) = None"
proof (induction xs arbitrary: u)
  case (Cons x xs)
  then show ?case using len_None [of x u None] by simp
qed simp

end

interpretation questions: packer pack_question question_len
  by unfold_locales (auto simp: question_len_None dest: question_in_step)

interpretation records: packer packRR rr_len
  by unfold_locales (auto simp: rr_len_None dest: rr_in_step)

lemma rr_len_SetExtendedRcode: "rr_len (SetExtendedRcode v r) = rr_len r"
  by (cases r) (auto simp: SetExtendedRcode_def fun_eq_iff header_len_def)

lemma rrs_len_update_last: "(\<And>r. rr_len (f r) = rr_len r) \<Longrightarrow> rrs_len (update_last P f rs) lc = rrs_len rs lc"
  by (induction rs arbitrary: lc) (auto split: prod.split)

lemma length_pack16: "pack_all (packUint16 room) ws out = Inr out' \<Longrightarrow> length out' = length out + 2 * length ws"
  by (induction ws arbitrary: out) (auto simp: res_bind_Inr_iff packUint16_Inr)

text \<open>
  The stages of packing a message: the header, the questions and the three sections, the last
  with the code in its OPT record; and the length up to the end of each.
\<close>

definition sent_extra :: "msg \<Rightarrow> rr list" where
  "sent_extra m = update_last (\<lambda>r. rr_type r = TypeOPT) (SetExtendedRcode (word_of_int (m_Rcode m))) (m_Extra m)"

definition header_words :: "msg \<Rightarrow> 16 word list" where
  "header_words m = [m_Id m, header_bits m, word_of_nat (length (m_Question m)), word_of_nat (length (m_Answer m)),
     word_of_nat (length (m_Ns m)), word_of_nat (length (sent_extra m))]"

abbreviation (input) msg_room :: "msg \<Rightarrow> nat" where
  "msg_room m \<equiv> msgLenWithCompressionMap m None + 1"

lemma sent_extra_len: "rrs_len (sent_extra m) lc = rrs_len (m_Extra m) lc"
  unfolding sent_extra_def by (rule rrs_len_update_last) (rule rr_len_SetExtendedRcode)

lemma packed_stages:
  "packBufferWithCompressionMap m ptrs compress = Inr bytes \<longleftrightarrow>
     0 \<le> m_Rcode m \<and> m_Rcode m \<le> (if IsEdns0 m = None then 0xF else 0xFFF) \<and>
     (\<exists>o0 o1 p1 o2 p2 o3 p3 p4. pack_all (packUint16 (msg_room m)) (header_words m) [] = Inr o0 \<and>
       pack_all (pack_question (msg_room m) compress) (m_Question m) (o0, ptrs) = Inr (o1, p1) \<and>
       pack_all (packRR (msg_room m) compress) (m_Answer m) (o1, p1) = Inr (o2, p2) \<and>
       pack_all (packRR (msg_room m) compress) (m_Ns m) (o2, p2) = Inr (o3, p3) \<and>
       pack_all (packRR (msg_room m) compress) (sent_extra m) (o3, p3) = Inr (bytes, p4))"
proof -
  have len: "msgLenWithCompressionMap (m\<lparr>m_Extra := sent_extra m\<rparr>) None = msgLenWithCompressionMap m None"
    by (simp add: msgLenWithCompressionMap_def sent_extra_len Let_def)
  have w: "header_bits (m\<lparr>m_Extra := sent_extra m\<rparr>) = header_bits m" by (simp add: header_bits_def)
  have b: "(m_Rcode m < 0 \<or> m_Rcode m > 0xFFF) \<or> (IsEdns0 m = None \<and> m_Rcode m > 0xF) \<longleftrightarrow>
      \<not> (0 \<le> m_Rcode m \<and> m_Rcode m \<le> (if IsEdns0 m = None then 0xF else 0xFFF))" by auto
  show ?thesis
    unfolding packBufferWithCompressionMap_def Let_def sent_extra_def [symmetric] msg.simps len w header_words_def
    using b by (auto simp: res_bind_Inr_iff simp del: pack_all.simps)
qed

definition len_question :: "msg \<Rightarrow> compression \<Rightarrow> nat \<times> compression" where
  "len_question m c = some_len question_len (m_Question m) (12, c)"

definition len_answer :: "msg \<Rightarrow> compression \<Rightarrow> nat \<times> compression" where
  "len_answer m c = some_len rr_len (m_Answer m) (len_question m c)"

definition len_ns :: "msg \<Rightarrow> compression \<Rightarrow> nat \<times> compression" where
  "len_ns m c = some_len rr_len (m_Ns m) (len_answer m c)"

lemma msgLen_stages: "msgLenWithCompressionMap m c = fst (some_len rr_len (sent_extra m) (len_ns m c))"
  using sent_extra_len [of m]
  by (simp add: msgLenWithCompressionMap_def len_ns_def len_answer_def len_question_def some_len_eq Let_def case_prod_beta)

lemma stages_None:
  "len_question m None = (fst (len_question m None), None)" "len_answer m None = (fst (len_answer m None), None)"
  "len_ns m None = (fst (len_ns m None), None)"
  unfolding len_ns_def len_answer_def len_question_def using questions.some_len_None records.some_len_None by (metis prod.collapse)+

lemma stages_room:
  "12 < msg_room m" "fst (len_question m None) < msg_room m" "fst (len_answer m None) < msg_room m" "fst (len_ns m None) < msg_room m"
  "fst (some_len rr_len (sent_extra m) (len_ns m None)) < msg_room m"
  using some_len_mono [of "(12, None)" question_len "m_Question m"] some_len_mono [of "len_question m None" rr_len "m_Answer m"]
    some_len_mono [of "len_answer m None" rr_len "m_Ns m"] some_len_mono [of "len_ns m None" rr_len "sent_extra m"]
  unfolding msgLen_stages len_question_def [symmetric] len_answer_def [symmetric] len_ns_def [symmetric] by simp_all

lemma packed_le:
  assumes "packBufferWithCompressionMap m ptrs compress = Inr bytes" "in_step 12 (replicate 12 undefined, ptrs) (12, c)" "ptrs \<noteq> None \<Longrightarrow> compress"
  shows "length bytes \<le> msgLenWithCompressionMap m c \<and> length bytes < msg_room m"
proof -
  obtain o0 o1 p1 o2 p2 o3 p3 p4 where p: "pack_all (packUint16 (msg_room m)) (header_words m) [] = Inr o0"
    "pack_all (pack_question (msg_room m) compress) (m_Question m) (o0, ptrs) = Inr (o1, p1)"
    "pack_all (packRR (msg_room m) compress) (m_Answer m) (o1, p1) = Inr (o2, p2)"
    "pack_all (packRR (msg_room m) compress) (m_Ns m) (o2, p2) = Inr (o3, p3)"
    "pack_all (packRR (msg_room m) compress) (sent_extra m) (o3, p3) = Inr (bytes, p4)"
    using assms(1) unfolding packed_stages by blast
  have o0: "in_step 12 (o0, ptrs) (12, c)" using in_step_same [OF assms(2)] length_pack16 [OF p(1)] by (simp add: header_words_def)
  have 1: "in_step (fst (len_question m None)) (o1, p1) (len_question m c)" "p1 \<noteq> None \<longrightarrow> compress"
    using questions.packs_all [OF p(2) o0 assms(3)] stages_room(2) [of m] by (simp_all add: len_question_def)
  have 2: "in_step (fst (len_answer m None)) (o2, p2) (len_answer m c)" "p2 \<noteq> None \<longrightarrow> compress"
    using records.packs_all [OF p(3), of "fst (len_question m None)" "fst (len_question m c)" "snd (len_question m c)"] 1 stages_room(3) [of m]
      stages_None(1) [of m] by (simp_all add: len_answer_def)
  have 3: "in_step (fst (len_ns m None)) (o3, p3) (len_ns m c)" "p3 \<noteq> None \<longrightarrow> compress"
    using records.packs_all [OF p(4), of "fst (len_answer m None)" "fst (len_answer m c)" "snd (len_answer m c)"] 2 stages_room(4) [of m]
      stages_None(2) [of m] by (simp_all add: len_ns_def)
  have "in_step (fst (some_len rr_len (sent_extra m) (len_ns m None))) (bytes, p4) (some_len rr_len (sent_extra m) (len_ns m c))"
    using records.packs_all [OF p(5), of "fst (len_ns m None)" "fst (len_ns m c)" "snd (len_ns m c)"] 3 stages_room(5) [of m]
      stages_None(3) [of m] by simp
  then show ?thesis using stages_room(5) [of m] unfolding msgLen_stages
    by (cases p4; cases "some_len rr_len (sent_extra m) (len_ns m c)"; cases "snd (some_len rr_len (sent_extra m) (len_ns m c))") auto
qed

lemma Pack_room: "Pack m = Inr bytes \<Longrightarrow> length bytes < msg_room m"
  using packed_le [of m "Some []" True bytes "Some {}"] packed_le [of m None False bytes None]
  by (auto simp: Pack_def parents_def split: if_splits)

lemma Pack_le_Len: "Pack m = Inr bytes \<Longrightarrow> length bytes \<le> Len m"
  using packed_le [of m "Some []" True bytes "Some {}"] packed_le [of m None False bytes None]
  by (auto simp: Pack_def Len_def parents_def split: if_splits)


section \<open>Messages that can be packed\<close>

text \<open>Labels of one to 63 bytes; the byte for the dot is the one for the length.\<close>

definition good_label :: "string \<Rightarrow> bool" where
  "good_label p \<longleftrightarrow> 2 \<le> escapedNameLen p \<and> escapedNameLen p \<le> 64"

definition good_name :: "string \<Rightarrow> bool" where
  "good_name s \<longleftrightarrow> s = '''' \<or> s = ''.'' \<or> IsFqdn s \<and> list_all good_label (label_pieces s)"

lemma loop_total:
  assumes "ends_dot False rest" "whole cur" "escapedNameLen (rev cur @ rest) = length lab + escapedNameLen rest"
    and "list_all good_label (label_pieces_aux False cur rest)" "wasDot \<Longrightarrow> lab = []" "lab \<noteq> [] \<Longrightarrow> length rest < length s"
    and "length out + length lab + escapedNameLen rest \<le> room" "length rest \<le> length s"
  shows "\<exists>x. packName_loop room compress s ptrs out start lab wasDot rest = Inr x"
  using assms
proof (induction "length rest" arbitrary: ptrs out start lab wasDot rest cur rule: less_induct)
  case less
  note IH = less.hyps and P = less.prems
  obtain c r where rest: "rest = c # r" using P(1) by (cases rest) auto
  consider (esc) "c = CHR 92" | (dot) "c = CHR ''.''" | (char) "c \<noteq> CHR 92" "c \<noteq> CHR ''.''" by blast
  then show ?case
  proof cases
    case esc
    have b: "\<not> length out + 1 > room" using P(7) escapedNameLen_pos [OF P(1)] by linarith
    show ?thesis
    proof (cases "isDDD r")
      case True
      have e: "ends_dot False (CHR 92 # r)" using P(1) rest esc by simp
      note d = escape_DDD(1,2) [OF True e] escape_DDD(3) [OF True e, of cur]
      have "\<exists>x. packName_loop room compress s ptrs out start (lab @ [dddToByte r]) False (drop 3 r) = Inr x"
        by (rule IH [where cur = "rev (take 3 r) @ CHR 92 # cur"]) (use P rest esc True d whole_DDD in auto)
      then show ?thesis using rest esc b True by simp
    next
      case False
      obtain x t where x: "r = x # t" "t \<noteq> []" "ends_dot False t"
        "\<And>cur. label_pieces_aux False cur (CHR 92 # r) = label_pieces_aux False (x # CHR 92 # cur) t"
        using escape_char P(1) rest esc by metis
      have "\<exists>y. packName_loop room compress s ptrs out start (lab @ [x]) False t = Inr y"
        by (rule IH [where cur = "x # CHR 92 # cur"]) (use P rest esc False x whole_escape in auto)
      then show ?thesis using rest esc b False x(1) by simp
    qed
  next
    case dot
    have pl: "escapedNameLen (rev cur @ ''.'') = length lab + 1" using piece_len [OF P(2), of r lab] P(3) rest dot by simp
    have "label_pieces_aux False cur rest = rev (CHR ''.'' # cur) # (if r = [] then [] else label_pieces_aux False [] r)"
      using rest dot by (simp add: pieces_Cons)
    then have g: "1 \<le> length lab" "length lab \<le> 63" "r \<noteq> [] \<Longrightarrow> list_all good_label (label_pieces_aux False [] r)"
      using P(4) pl by (auto simp: good_label_def)
    have lab: "lab \<noteq> []" using g(1) by auto
    have ok: "c # r \<noteq> s" "\<not> wasDot" "\<not> length lab \<ge> 64" "\<not> length out + 1 + length lab > room"
      using P(5-7) g(2) rest dot lab by auto
    let ?w = "out @ [char_of (length lab)] @ lab"
    have more: "\<exists>x. packName_loop room compress s ptrs' ?w r [] True r = Inr x" for ptrs'
    proof (cases "r = []")
      case False
      then show ?thesis
        using IH [where rest = r and cur = "[]" and lab = "[]" and out = ?w and wasDot = True] P rest dot g(3) by (auto simp: ends_dot_Cons)
    qed simp
    show ?thesis
    proof (cases ptrs)
      case None
      then show ?thesis using more [of None] rest dot ok lab by (simp add: Let_def)
    next
      case (Some m)
      then show ?thesis
        using more [of "Some m"] more [of "Some (insert_map start (length out) m)"] rest dot ok lab
        by (cases "map_of m start"; cases compress) (auto simp: Let_def)
    qed
  next
    case char
    then have r: "r \<noteq> []" using P(1) rest by (auto simp: ends_dot_Cons)
    then have "label_pieces_aux False cur rest = label_pieces_aux False (c # cur) r" using rest char by (simp add: pieces_Cons)
    then have "\<exists>x. packName_loop room compress s ptrs out start (lab @ [c]) False r = Inr x"
      by (intro IH [where cur = "c # cur"]) (use P rest char r whole_char [of cur c] in \<open>auto simp: ends_dot_Cons\<close>)
    then show ?thesis using rest char by simp
  qed
qed

lemma name_total:
  assumes "good_name s" "length out \<le> u" "u + fst (domainNameLen s u None may) \<le> room"
  shows "\<exists>x. packDomainName room s out ptrs compress = Inr x"
proof -
  consider "s = ''''" | "s = ''.''" | "ends_dot False s" "s \<noteq> ''.''" "s \<noteq> ''''" "list_all good_label (label_pieces s)"
    using assms(1) by (auto simp: good_name_def IsFqdn_ends_dot_iff)
  then show ?thesis
  proof cases
    case 1
    then show ?thesis by (simp add: packDomainName_def)
  next
    case 2
    then have "length out + 1 \<le> room" using assms(2,3) by (simp add: domainNameLen_def)
    then show ?thesis using 2 by (cases ptrs) (simp_all add: packDomainName_def IsFqdn_def Let_def)
  next
    case 3
    have u: "length out + escapedNameLen s + 1 \<le> room" using assms(2,3) domainNameLen_plain [OF 3(1,2)] by simp
    obtain ptr out1 ptrs1 where l: "packName_loop room compress s ptrs out s [] False s = Inr (ptr, out1, ptrs1)"
      using loop_total [OF 3(1), of "[]" "[]" False s out room compress ptrs s] 3 u by (auto simp: label_pieces_def)
    have "length out1 \<le> length out + escapedNameLen s"
    proof (cases ptrs)
      case None
      then show ?thesis using loop_plain [of room compress s out s "[]" False s ptr out1 ptrs1] l 3 by simp
    next
      case (Some m)
      have ne: "\<forall>p\<in>set (label_pieces s). p \<noteq> []" using pieces_end_dot [OF 3(1)] by fastforce
      have "length s > 1" using 3(1,2) by (cases s; cases "tl s") auto
      then obtain k where "pack_search compress (set (keys m)) (length out) (label_pieces s) = (ptr \<noteq> None, length out1, k)"
        using loop_search [of room compress s m out s "[]" False s ptr out1 ptrs1 "[]"] l Some 3(1) by (auto simp: label_pieces_def)
      moreover have "wire_len (label_pieces s) = escapedNameLen s"
        using escapedNameLen_concat [of "label_pieces s"] pieces_end_dot [OF 3(1)] by simp
      ultimately show ?thesis
        using pack_search_spec [OF ne, of "set (keys m)" "length out"] wire_len_take_le [of "hit (set (keys m)) (label_pieces s)" "label_pieces s"]
        by (cases compress) auto
    qed
    then show ?thesis using u l 3 IsFqdn_ends_dot_iff [of s] by (auto simp: packDomainName_def split: option.split)
  qed
qed


definition good_question :: "question \<Rightarrow> bool" where
  "good_question q \<longleftrightarrow> good_name (qn_Name q)"

fun good_part :: "rdata_part \<Rightarrow> bool" where
  "good_part (Octets b) \<longleftrightarrow> True"
| "good_part (DName n may) \<longleftrightarrow> good_name n"

definition good_ip :: "nat set \<Rightarrow> go_ip \<Rightarrow> bool" where
  "good_ip ns ip \<longleftrightarrow> (case ip of None \<Rightarrow> True | Some b \<Rightarrow> length b \<in> insert 0 ns)"

fun good_rdata :: "rr \<Rightarrow> bool" where
  "good_rdata (RR_A h a) \<longleftrightarrow> good_ip {4, 16} a"
| "good_rdata (RR_AAAA h a) \<longleftrightarrow> good_ip {16} a"
| "good_rdata (RR_PTR h n) \<longleftrightarrow> good_name n"
| "good_rdata (RR_OPT h os) \<longleftrightarrow> True"
| "good_rdata (OtherRR h ps) \<longleftrightarrow> list_all good_part ps"

definition good_rr :: "rr \<Rightarrow> bool" where
  "good_rr r \<longleftrightarrow> good_name (hdr_Name (rr_hdr r)) \<and> good_rdata r \<and> fst (rdata_len r 0 0 None) < 2 ^ 16"

lemma in_step_room: "in_step u (out, ptrs) lc \<Longrightarrow> length out \<le> u' \<Longrightarrow> in_step u' (out, ptrs) lc"
  by (cases lc; cases ptrs; cases "snd lc") auto

lemma in_step_le: "in_step u (out, ptrs) lc \<Longrightarrow> length out \<le> u \<and> length out \<le> fst lc"
  by (cases lc; cases ptrs; cases "snd lc") auto

lemma domainNameLen_off: "fst (domainNameLen s off None may) = fst (domainNameLen s 0 None True)"
  by (simp add: domainNameLen_def Let_def)

lemma parts_len_off: "fst (parts_len ps off l None) = l + fst (parts_len ps 0 0 None)"
proof (induction ps arbitrary: off l)
  case (Cons p ps)
  show ?case
  proof (cases p)
    case (Octets b)
    then show ?thesis using Cons.IH [of off "l + length b"] Cons.IH [of 0 "length b"] by simp
  next
    case (DName n may)
    then show ?thesis
      using Cons.IH [of off "l + fst (domainNameLen n 0 None True)"] Cons.IH [of 0 "fst (domainNameLen n 0 None True)"] domainNameLen_off [of n _ may]
      by (simp add: case_prod_beta Let_def)
  qed
qed simp

lemma rdata_len_off: "fst (rdata_len r off l None) = l + fst (rdata_len r 0 0 None)"
proof (cases r)
  case (RR_PTR h s)
  then show ?thesis using domainNameLen_off [of s "off + l" True] by (simp add: rdata_len_def case_prod_beta Let_def)
next
  case (OtherRR h ps)
  then show ?thesis using parts_len_off [of ps off l] by (simp add: rdata_len_def)
qed (simp_all add: rdata_len_def)

lemma question_total:
  assumes "good_question q" "length out \<le> u" "u + fst (question_len q u None) \<le> room"
    and "in_step u (out, ptrs) (l, c)" "ptrs \<noteq> None \<Longrightarrow> compress"
  shows "\<exists>x. pack_question room compress q (out, ptrs) = Inr x"
proof -
  have l: "fst (question_len q u None) = fst (domainNameLen (qn_Name q) u None True) + 4" by (simp add: question_len_def case_prod_beta Let_def)
  then obtain o1 p1 where n: "packDomainName room (qn_Name q) out ptrs compress = Inr (o1, p1)"
    using name_total [of "qn_Name q" out u True room ptrs compress] assms(1-3) by (auto simp: good_question_def)
  have "length o1 \<le> u + fst (domainNameLen (qn_Name q) u None True)"
    using in_step_le [OF conjunct1 [OF name_in_step [OF n assms(4), of True]]] assms(5) by simp
  then show ?thesis using n l assms(3) by (simp add: pack_question_def packUint16_def)
qed

lemma header_total:
  assumes "good_name (hdr_Name h)" "length out \<le> u" "u + fst (header_len h u None) \<le> room"
    and "in_step u (out, ptrs) (l, c)" "ptrs \<noteq> None \<Longrightarrow> compress"
  shows "\<exists>x. packHeader room compress h out ptrs = Inr x"
proof -
  have l: "fst (header_len h u None) = fst (domainNameLen (hdr_Name h) u None True) + 10" by (simp add: header_len_def case_prod_beta Let_def)
  then obtain o1 p1 where n: "packDomainName room (hdr_Name h) out ptrs compress = Inr (o1, p1)"
    using name_total [of "hdr_Name h" out u True room ptrs compress] assms(1-3) by auto
  have "length o1 \<le> u + fst (domainNameLen (hdr_Name h) u None True)"
    using in_step_le [OF conjunct1 [OF name_in_step [OF n assms(4), of True]]] assms(5) by simp
  then show ?thesis using n l assms(3) by (simp add: packHeader_def packUint16_def packUint32_def)
qed

lemma parts_total:
  assumes "list_all good_part ps" "v + fst (parts_len ps v u None) \<le> room" "in_step (v + u) (out, ptrs) (off + l, c)" "ptrs \<noteq> None \<Longrightarrow> compress"
  shows "\<exists>x. pack_parts room compress ps out ptrs = Inr x"
  using assms
proof (induction ps arbitrary: out ptrs l c u)
  case (Cons p ps)
  show ?case
  proof (cases p)
    case (Octets b)
    have "length out \<le> v + u" using in_step_le [OF Cons.prems(3)] by simp
    moreover have "v + (u + length b) \<le> room" using Cons.prems(2) parts_len_off [of ps v "u + length b"] Octets by simp
    ultimately show ?thesis
      using Cons.IH [of "u + length b" "out @ b" ptrs "l + length b" c] in_step_bytes [OF Cons.prems(3), of "out @ b" "length b"] Cons.prems Octets
      by (simp add: pack_bytes_def add.assoc)
  next
    case (DName n may)
    let ?k = "fst (domainNameLen n (v + u) None may)"
    have room: "v + fst (parts_len ps v (u + ?k) None) \<le> room" using Cons.prems(2) DName by (simp add: case_prod_beta Let_def)
    then have "v + u + ?k \<le> room" using parts_len_off [of ps v "u + ?k"] by simp
    then obtain o1 p1 where n: "packDomainName room n out ptrs (compress \<and> may) = Inr (o1, p1)"
      using name_total [of n out "v + u" may room ptrs "compress \<and> may"] Cons.prems(1) DName in_step_le [OF Cons.prems(3)] by auto
    have s: "in_step (v + u + ?k) (o1, p1) (off + l + fst (domainNameLen n (off + l) c may), snd (domainNameLen n (off + l) c may))"
      using name_in_step [OF n Cons.prems(3), of may] Cons.prems(4) by auto
    moreover have "p1 \<noteq> None \<Longrightarrow> compress" using in_step_ptrs [OF s] in_step_ptrs [OF Cons.prems(3)] Cons.prems(4) by auto
    ultimately show ?thesis
      using Cons.IH [of "u + ?k" o1 p1 "l + fst (domainNameLen n (off + l) c may)" "snd (domainNameLen n (off + l) c may)"] Cons.prems(1) DName n room
      by (auto simp: add.assoc)
  qed
qed simp

lemma packDataOpt_total: "length out + options_len os \<le> room \<Longrightarrow> \<exists>x. packDataOpt room os out = Inr x"
  by (induction room os out rule: packDataOpt.induct) (auto simp: Let_def)

lemma packData_total:
  "good_ip {4, 16} a \<Longrightarrow> length out + ip_len 4 a \<le> room \<Longrightarrow> \<exists>x. packDataA room a out = Inr x"
  "good_ip {16} a \<Longrightarrow> length out + ip_len 16 a \<le> room \<Longrightarrow> \<exists>x. packDataAAAA room a out = Inr x"
  by (auto simp: packDataA_def packDataAAAA_def pack_bytes_def good_ip_def ip_len_def To4_length split: option.splits if_splits)

lemma rdata_total:
  assumes "good_rdata r" "v + fst (rdata_len r v u None) \<le> room" "in_step (v + u) (out, ptrs) (off + l, c)" "ptrs \<noteq> None \<Longrightarrow> compress"
  shows "\<exists>x. pack_rdata room compress r out ptrs = Inr x"
proof -
  have o: "length out \<le> v + u" using in_step_le [OF assms(3)] by simp
  show ?thesis
  proof (cases r)
    case (RR_A h a)
    then show ?thesis using packData_total(1) [of a out room] assms(1,2) o by (auto simp: rdata_len_def with_ptrs_def)
  next
    case (RR_AAAA h a)
    then show ?thesis using packData_total(2) [of a out room] assms(1,2) o by (auto simp: rdata_len_def with_ptrs_def)
  next
    case (RR_PTR h s)
    then show ?thesis
      using name_total [of s out "v + u" True room ptrs compress] assms(1,2) o by (auto simp: rdata_len_def case_prod_beta Let_def add.assoc)
  next
    case (RR_OPT h os)
    then show ?thesis using packDataOpt_total [of out os room] assms(1,2) o by (auto simp: rdata_len_def with_ptrs_def)
  next
    case (OtherRR h ps)
    then show ?thesis using parts_total [OF _ _ assms(3,4)] assms(1,2) by (simp add: rdata_len_def)
  qed
qed

lemma rr_total:
  assumes "good_rr r" "in_step u (out, ptrs) (l, c)" "ptrs \<noteq> None \<Longrightarrow> compress" "u + fst (rr_len r u None) < room"
  shows "\<exists>x. packRR room compress r (out, ptrs) = Inr x"
proof -
  let ?h = "fst (header_len (rr_hdr r) u None)"
  have g: "good_name (hdr_Name (rr_hdr r))" "good_rdata r" "fst (rdata_len r 0 0 None) < 2 ^ 16" using assms(1) by (simp_all add: good_rr_def)
  have d: "u + fst (rdata_len r u ?h None) < room" using assms(4) by (simp add: rr_len_split case_prod_beta Let_def)
  then have h: "u + ?h \<le> room" using rdata_len_off [of r u ?h] by linarith
  have o: "length out \<le> u" "length out \<noteq> room" using in_step_le [OF assms(2)] assms(4) by auto
  obtain o1 p1 where p: "packHeader room compress (rr_hdr r) out ptrs = Inr (o1, p1)"
    using header_total [OF g(1) o(1) h assms(2,3)] by auto
  have s: "in_step (u + ?h) (o1, p1) (l + fst (header_len (rr_hdr r) l c), snd (header_len (rr_hdr r) l c))"
    using header_in_step [OF p assms(2,3) o(2)] by simp
  have c: "p1 \<noteq> None \<Longrightarrow> compress" using in_step_ptrs [OF s] in_step_ptrs [OF assms(2)] assms(3) by auto
  obtain o2 p2 where q: "pack_rdata room compress r o1 p1 = Inr (o2, p2)"
    using rdata_total [OF g(2) less_imp_le [OF d] s c] by auto
  have "in_step (length o1 + 0) (o1, p1) (l + fst (header_len (rr_hdr r) l c), snd (header_len (rr_hdr r) l c))" using in_step_room [OF s] by simp
  from in_step_le [OF conjunct1 [OF rdata_in_step [OF q this c]]] have "length o2 \<le> length o1 + fst (rdata_len r 0 0 None)"
    using rdata_len_off [of r "length o1" 0] by simp
  then have "uint (word_of_nat (length o2 - length o1) :: 16 word) = int (length o2 - length o1)"
    using g(3) by (simp add: uint_nat unat_of_nat)
  then show ?thesis using p q by (simp add: packRR_def Let_def)
qed

text \<open>A packer that succeeds on what is well formed, whenever the buffer has room for the length it counts.\<close>

locale total_packer = packer +
  fixes good :: "'a \<Rightarrow> bool"
  assumes total: "good x \<Longrightarrow> in_step u (out, ptrs) (l, c) \<Longrightarrow> (ptrs \<noteq> None \<Longrightarrow> compress) \<Longrightarrow> u + fst (len x u None) < room \<Longrightarrow>
      \<exists>st. pack room compress x (out, ptrs) = Inr st"
begin

lemma total_all:
  assumes "list_all good xs" "in_step u (out, ptrs) (l, c)" "ptrs \<noteq> None \<Longrightarrow> compress" "fst (some_len len xs (u, None)) < room"
  shows "\<exists>out' ptrs'. pack_all (pack room compress) xs (out, ptrs) = Inr (out', ptrs') \<and>
    in_step (fst (some_len len xs (u, None))) (out', ptrs') (some_len len xs (l, c)) \<and> (ptrs' \<noteq> None \<longrightarrow> compress)"
proof -
  have "\<exists>st. pack_all (pack room compress) xs (out, ptrs) = Inr st"
    using assms
  proof (induction xs arbitrary: out ptrs u l c)
    case (Cons x xs)
    have n: "some_len len (x # xs) (u, None) = some_len len xs (u + fst (len x u None), None)" using len_None [of x u None] by simp
    have r: "u + fst (len x u None) < room" "length out < room"
      using Cons.prems(4) some_len_mono [of "(u + fst (len x u None), None)" len xs] in_step_le [OF Cons.prems(2)] unfolding n by simp_all
    obtain o1 p1 where p: "pack room compress x (out, ptrs) = Inr (o1, p1)"
      using total [OF _ Cons.prems(2,3) r(1)] Cons.prems(1) by auto
    have s: "in_step (u + fst (len x u None)) (o1, p1) (l + fst (len x l c), snd (len x l c))"
      using packs [OF p Cons.prems(2,3) r(2)] by blast
    have "p1 \<noteq> None \<Longrightarrow> compress" using in_step_ptrs [OF s] in_step_ptrs [OF Cons.prems(2)] len_None Cons.prems(3) by auto
    with Cons.IH [OF _ s] Cons.prems(1,4) p show ?case unfolding n by auto
  qed simp
  then show ?thesis using packs_all [OF _ assms(2-4)] by fastforce
qed

end

interpretation questions: total_packer pack_question question_len good_question
  by unfold_locales (metis question_total in_step_le less_imp_le)

interpretation records: total_packer packRR rr_len good_rr
  by unfold_locales (metis rr_total)

definition good_msg :: "msg \<Rightarrow> bool" where
  "good_msg m \<longleftrightarrow> list_all good_question (m_Question m) \<and> list_all good_rr (m_Answer m @ m_Ns m @ m_Extra m) \<and>
     0 \<le> m_Rcode m \<and> m_Rcode m \<le> (if IsEdns0 m = None then 0xF else 0xFFF)"

lemma good_rr_SetExtendedRcode: "good_rr r \<Longrightarrow> good_rr (SetExtendedRcode v r)"
  by (cases r) (auto simp: SetExtendedRcode_def good_rr_def rdata_len_def)

lemma list_all_update_last: "list_all P xs \<Longrightarrow> (\<And>x. P x \<Longrightarrow> P (f x)) \<Longrightarrow> list_all P (update_last Q f xs)"
  by (induction xs) auto

lemma pack16_total: "length out + 2 * length ws \<le> room \<Longrightarrow> \<exists>out'. pack_all (packUint16 room) ws out = Inr out'"
  by (induction ws arbitrary: out) (simp_all add: packUint16_def)

lemma packed_total:
  assumes "good_msg m" "in_step 12 (replicate 12 undefined, ptrs) (12, c)" "ptrs \<noteq> None \<Longrightarrow> compress"
  shows "\<exists>bytes. packBufferWithCompressionMap m ptrs compress = Inr bytes"
proof -
  have good: "list_all good_question (m_Question m)" "list_all good_rr (m_Answer m)" "list_all good_rr (m_Ns m)" "list_all good_rr (sent_extra m)"
    using assms(1) by (auto simp: good_msg_def sent_extra_def intro: list_all_update_last good_rr_SetExtendedRcode)
  obtain o0 where p0: "pack_all (packUint16 (msg_room m)) (header_words m) [] = Inr o0"
    using pack16_total [of "[]" "header_words m" "msg_room m"] stages_room(1) [of m] by (auto simp: header_words_def simp del: pack_all.simps)
  have o0: "in_step 12 (o0, ptrs) (12, c)" using in_step_same [OF assms(2)] length_pack16 [OF p0] by (simp add: header_words_def)
  obtain o1 p1 where p1: "pack_all (pack_question (msg_room m) compress) (m_Question m) (o0, ptrs) = Inr (o1, p1)"
    "in_step (fst (len_question m None)) (o1, p1) (len_question m c)" "p1 \<noteq> None \<longrightarrow> compress"
    using questions.total_all [OF good(1) o0 assms(3), of "msg_room m"] stages_room(2) [of m] unfolding len_question_def by blast
  obtain o2 p2 where p2: "pack_all (packRR (msg_room m) compress) (m_Answer m) (o1, p1) = Inr (o2, p2)"
    "in_step (fst (len_answer m None)) (o2, p2) (len_answer m c)" "p2 \<noteq> None \<longrightarrow> compress"
    using records.total_all [OF good(2), of "fst (len_question m None)" o1 p1 "fst (len_question m c)" "snd (len_question m c)" compress "msg_room m"]
      p1 stages_room(3) [of m] stages_None(1) [of m] unfolding len_answer_def by auto
  obtain o3 p3 where p3: "pack_all (packRR (msg_room m) compress) (m_Ns m) (o2, p2) = Inr (o3, p3)"
    "in_step (fst (len_ns m None)) (o3, p3) (len_ns m c)" "p3 \<noteq> None \<longrightarrow> compress"
    using records.total_all [OF good(3), of "fst (len_answer m None)" o2 p2 "fst (len_answer m c)" "snd (len_answer m c)" compress "msg_room m"]
      p2 stages_room(4) [of m] stages_None(2) [of m] by (auto simp: len_ns_def)
  obtain o4 p4 where p4: "pack_all (packRR (msg_room m) compress) (sent_extra m) (o3, p3) = Inr (o4, p4)"
    using records.total_all [OF good(4), of "fst (len_ns m None)" o3 p3 "fst (len_ns m c)" "snd (len_ns m c)" compress "msg_room m"]
      p3 stages_room(5) [of m] stages_None(3) [of m] by auto
  show ?thesis unfolding packed_stages using p0 p1(1) p2(1) p3(1) p4 assms(1) unfolding good_msg_def by blast
qed

lemma Pack_total: "good_msg m \<Longrightarrow> \<exists>bytes. Pack m = Inr bytes"
  using packed_total [of m "Some []" "Some {}" True] packed_total [of m None None False] by (simp add: Pack_def parents_def)


lemma Pack_example:
  "map_sum id (map of_char) (Pack (new_msg\<lparr>m_Id := 0x0102, m_Response := True, m_Compress := True,
     m_Question := [\<lparr>qn_Name = ''a.bosh.'', qn_Qtype = TypeA, qn_Qclass = ClassINET\<rparr>],
     m_Answer := [RR_A (header_for ''a.bosh.'' TypeA 7) (Some [10, 0, 0, 1]), RR_PTR (header_for ''b.bosh.'' TypePTR 0) (''c'' @ [CHR 92] @ ''046.bosh.'')]\<rparr>)) =
   (Inr ([1, 2, 0x80, 0, 0, 1, 0, 2, 0, 0, 0, 0] @ [1, 97, 4, 98, 111, 115, 104, 0, 0, 1, 0, 1] @
     [0xC0, 12, 0, 1, 0, 1, 0, 0, 0, 7, 0, 4, 10, 0, 0, 1] @ [1, 98, 0xC0, 14, 0, 12, 0, 1, 0, 0, 0, 0, 0, 5, 2, 99, 46, 0xC0, 14]) :: pack_error + nat list)"
  by code_simp

section \<open>Replies on the wire\<close>

definition all_records :: "msg \<Rightarrow> rr list" where
  "all_records m = m_Answer m @ m_Ns m @ m_Extra m"

lemma pop_first_set: "set (snd (pop_first P xs)) \<subseteq> set xs"
  by (induction xs) (auto simp: case_prod_beta)

lemma pop_first_in: "fst (pop_first P xs) = Some x \<Longrightarrow> x \<in> set xs"
  by (auto simp: pop_first_find find_Some_iff)

text \<open>The truncater drops records and adds none but an OPT record without options.\<close>

lemma Truncate_records: "set (all_records (Truncate n m)) \<subseteq> set (all_records m)"
proof -
  obtain o1 rest where p: "pop_first (\<lambda>r. rr_type r = TypeOPT) (rev (m_Extra m)) = (o1, rest)" by fastforce
  have "set rest \<subseteq> set (m_Extra m)" "o1 = Some x \<Longrightarrow> x \<in> set (m_Extra m)" for x
    using pop_first_set [of "\<lambda>r. rr_type r = TypeOPT" "rev (m_Extra m)"] pop_first_in [of "\<lambda>r. rr_type r = TypeOPT" "rev (m_Extra m)" x] p by simp_all
  then show ?thesis
    using p by (auto simp: all_records_def Truncate_def popEdns0_def Let_def split: prod.split option.split dest!: in_set_takeD)
qed

lemma TruncateIfNeeded_records:
  assumes "list_all P (all_records resp)" "\<And>h. hdr_Name h = ''.'' \<Longrightarrow> hdr_Rrtype h = TypeOPT \<Longrightarrow> P (RR_OPT h [])"
  shows "list_all P (all_records (TruncateIfNeeded network req resp))"
proof -
  obtain n t where t: "truncation_target network req resp = (n, t)" by fastforce
  with assms have "list_all P (all_records t)"
    by (auto simp: truncation_target_def all_records_def SetEdns0_def split: if_splits option.splits)
  moreover have "all_records (m\<lparr>m_Truncated := b\<rparr>) = all_records m" for m b by (simp add: all_records_def)
  ultimately show ?thesis
    using Truncate_records [of n t] unfolding TruncateIfNeeded_target t by (auto simp: Let_def list_all_iff)
qed

lemma reply_total:
  "list_all good_rr (all_records m) \<Longrightarrow> is_reply req m \<Longrightarrow> m_Question req = q # qs \<Longrightarrow> good_name (qn_Name q) \<Longrightarrow> 0 \<le> m_Rcode m \<Longrightarrow> m_Rcode m \<le> 0xF \<Longrightarrow>
   \<exists>bytes. Pack m = Inr bytes"
  by (rule Pack_total) (auto simp: good_msg_def is_reply_def good_question_def all_records_def)

lemma good_answer: "good_name (qn_Name q) \<Longrightarrow> a \<in> set (ip_answer q ip) \<Longrightarrow> good_rr a"
  using ParseIP_length [of ip]
  by (cases "ParseIP ip") (auto simp: ip_answer_def Let_def good_rr_def good_ip_def header_for_def rdata_len_def ip_len_def split: if_splits)

lemma lookup_rcode_range: "0 \<le> lookup_rcode e \<and> lookup_rcode e \<le> 0xF"
  by (cases e rule: lookup_rcode.cases) simp_all


lemma name_len: "escapedNameLen s \<le> 254 \<Longrightarrow> fst (domainNameLen s off None may) \<le> 255"
  using escapedNameLen_plain [of s] by (auto simp: domainNameLen_def Let_def)

text \<open>The reply of the discovery handler: what its records are, and that it fits.\<close>

lemma discovery_address_reply:
  assumes "\<forall>xs. mset (shuffle xs) = mset xs" "m_Question req = q # qs" "escapedNameLen (qn_Name q) \<le> 254" "address_question q"
    and "\<And>a ip. a \<in> set (ip_answer q ip) \<Longrightarrow> P a" "\<And>h. hdr_Name h = ''.'' \<Longrightarrow> hdr_Rrtype h = TypeOPT \<Longrightarrow> P (RR_OPT h [])"
  shows "\<exists>m. DiscoveryHandler_ServeDNS (LocalDomain_Resolve shuffle resolve TruncateIfNeeded) network req = [m] \<and>
    list_all P (all_records m) \<and> is_reply req m \<and> 0 \<le> m_Rcode m \<and> m_Rcode m \<le> 0xF \<and> Len m \<le> reply_limit network req"
proof -
  let ?serve = "DiscoveryHandler_ServeDNS (LocalDomain_Resolve shuffle resolve TruncateIfNeeded) network req"
  obtain answers rcode where a: "LocalDomain_resolve shuffle resolve q = (answers, rcode)" by fastforce
  let ?m = "SetRcode req rcode (new_msg\<lparr>m_RecursionAvailable := True, m_Authoritative := True, m_Answer := answers\<rparr>)"
  define m where "m = (TruncateIfNeeded network req ?m)\<lparr>m_Authoritative := True, m_RecursionAvailable := True\<rparr>"
  have s: "set (shuffle xs) = set xs" for xs using assms(1) by (metis mset_eq_setD)
  have r: "0 \<le> rcode \<and> rcode \<le> 0xF" "list_all P answers"
    using a assms(5) lookup_rcode_range s by (auto simp: LocalDomain_resolve_cases list_all_iff split: sum.splits)
  have m: "?serve = [m]"
    using assms(2,4) a by (auto simp: m_def DiscoveryHandler_ServeDNS_def LocalDomain_Resolve_def address_question_def Let_def)
  have "list_all P (all_records ?m)" using r(2) by (simp add: all_records_def SetRcode_def new_msg_def)
  then have "list_all P (all_records m)"
    using TruncateIfNeeded_records [of P ?m network req] assms(6) by (simp add: m_def all_records_def)
  moreover have "m_Rcode m = rcode" "is_reply req m"
    using TruncateIfNeeded_keeps(1,2) [where network = network and req = req and resp = ?m] by (auto simp: m_def)
  moreover have "Len m \<le> reply_limit network req"
    by (rule discovery_fits [OF assms(2,4), where shuffle = shuffle and resolve = resolve]) (use m assms(3) name_len in auto)
  ultimately show ?thesis using m r(1) by blast
qed

lemma discovery_other_reply:
  assumes "m_Question req = q # qs" "escapedNameLen (qn_Name q) \<le> 254" "\<not> address_question q"
  shows "\<exists>m. DiscoveryHandler_ServeDNS resolve network req = [m] \<and> list_all P (all_records m) \<and> is_reply req m \<and> 0 \<le> m_Rcode m \<and> m_Rcode m \<le> 0xF \<and>
    Len m \<le> reply_limit network req"
proof -
  define m where "m = (SetRcode req (if m_Rcode (resolve network req) = RcodeNameError then RcodeNameError else RcodeSuccess) new_msg)
    \<lparr>m_Authoritative := True, m_RecursionAvailable := True\<rparr>"
  have m: "DiscoveryHandler_ServeDNS resolve network req = [m]"
    using assms(1,3) by (auto simp: m_def DiscoveryHandler_ServeDNS_def address_question_def Let_def)
  have e: "all_records m = []" "m_Question m = [q]" "\<not> m_Compress m" "is_reply req m" "0 \<le> m_Rcode m" "m_Rcode m \<le> 0xF"
    using assms(1) by (simp_all add: m_def all_records_def SetRcode_def SetReply_def new_msg_def is_reply_def Let_def)
  have "Len m \<le> 271"
    using e name_len [OF assms(2), of 12 True]
    by (simp add: Len_def msgLenWithCompressionMap_def all_records_def questions_len_def question_len_def rrs_len_def case_prod_beta Let_def)
  then show ?thesis using m e reply_limit_ge [of network req] by fastforce
qed

lemma discovery_reply_shape:
  assumes "\<forall>xs. mset (shuffle xs) = mset xs" "m_Question req = q # qs" "escapedNameLen (qn_Name q) \<le> 254"
    and "\<And>a ip. a \<in> set (ip_answer q ip) \<Longrightarrow> P a" "\<And>h. hdr_Name h = ''.'' \<Longrightarrow> hdr_Rrtype h = TypeOPT \<Longrightarrow> P (RR_OPT h [])"
  shows "\<exists>m. DiscoveryHandler_ServeDNS (LocalDomain_Resolve shuffle resolve TruncateIfNeeded) network req = [m] \<and>
    list_all P (all_records m) \<and> is_reply req m \<and> 0 \<le> m_Rcode m \<and> m_Rcode m \<le> 0xF \<and> Len m \<le> reply_limit network req"
proof (cases "address_question q")
  case True
  show ?thesis by (rule discovery_address_reply [OF assms(1-3) True]) (rule assms(4,5), assumption+)+
next
  case False
  show ?thesis by (rule discovery_other_reply [OF assms(2,3) False])
qed

lemma good_opt: "hdr_Name h = ''.'' \<Longrightarrow> good_rr (RR_OPT h [])"
  by (simp add: good_rr_def good_name_def rdata_len_def)

text \<open>
  Whatever the record set answers, the reply of the discovery handler to a question for
  a name that the protocol allows (labels of 1 to 63 bytes, at most 255 bytes in all) can be
  packed, and its bytes fit into the room of the client: the packer finds at
  least the compression the truncater counted on, and no length overflows its field.
\<close>

theorem discovery_reply_packed:
  assumes "\<forall>xs. mset (shuffle xs) = mset xs" "m_Question req = q # qs" "good_name (qn_Name q)" "escapedNameLen (qn_Name q) \<le> 254"
  shows "\<exists>m bytes. DiscoveryHandler_ServeDNS (LocalDomain_Resolve shuffle resolve TruncateIfNeeded) network req = [m] \<and>
    Pack m = Inr bytes \<and> length bytes \<le> reply_limit network req"
  using discovery_reply_shape [OF assms(1,2,4), where P = good_rr and resolve = resolve and network = network] good_answer [OF assms(3)] good_opt
    reply_total [OF _ _ assms(2,3)] Pack_le_Len
  by (metis order_trans)

theorem discovery_reply_packed_witness:
  "let req = new_msg\<lparr>m_Id := 9, m_Question := [\<lparr>qn_Name = ''web.bosh.'', qn_Qtype = TypeA, qn_Qclass = ClassINET\<rparr>]\<rparr> in
   \<exists>m bytes. DiscoveryHandler_ServeDNS (LocalDomain_Resolve rev (\<lambda>n. Inr (replicate 40 ''10.0.0.1'')) TruncateIfNeeded) UDP req = [m] \<and>
     Pack m = Inr bytes \<and> length bytes \<le> 512"
proof -
  let ?req = "new_msg\<lparr>m_Id := 9, m_Question := [\<lparr>qn_Name = ''web.bosh.'', qn_Qtype = TypeA, qn_Qclass = ClassINET\<rparr>]\<rparr>"
  have "good_name ''web.bosh.''" "escapedNameLen ''web.bosh.'' \<le> 254" by code_simp+
  moreover have "reply_limit UDP ?req = 512" by (simp add: reply_limit_def IsEdns0_def new_msg_def)
  ultimately show ?thesis
    using discovery_reply_packed [of rev ?req _ "[]" "\<lambda>n. Inr (replicate 40 ''10.0.0.1'')" UDP] unfolding Let_def by (auto simp: new_msg_def)
qed

end
