(* ===== verification/Ip_Text.thy ===== *)
theory Ip_Text
  imports Dns_Config
begin

text \<open>
  Addresses as text and back: what \<^verbatim>\<open>IP.String\<close> prints, as the configuration of the recursors and
  the adapters of Windows use it, \<^verbatim>\<open>net.ParseIP\<close> reads as the same address.
\<close>

section \<open>Numbers\<close>

lemma hex_val_text: "k < 16 \<Longrightarrow> hex_val (''0123456789abcdef'' ! k) = Some k"
proof -
  have "\<forall>k<16. hex_val (''0123456789abcdef'' ! k) = Some k" by code_simp
  then show "k < 16 \<Longrightarrow> ?thesis" by blast
qed

lemma hex_text_hex: "c \<in> set (hex_text n) \<Longrightarrow> is_hex c"
  by (induction n rule: hex_text.induct) (subst (asm) hex_text.simps, auto simp: hex_val_text split: if_splits)

lemma hex_text_not_Nil [simp]: "hex_text n \<noteq> []"
  by (subst hex_text.simps) simp

lemma hex_text_value: "foldl (\<lambda>n c. 16 * n + (case hex_val c of None \<Rightarrow> 0 | Some v \<Rightarrow> v)) 0 (hex_text n) = n"
  by (induction n rule: hex_text.induct) (subst hex_text.simps, simp add: hex_val_text)

lemma hex_text_length: "n < 16 ^ Suc k \<Longrightarrow> length (hex_text n) \<le> Suc k"
proof (induction k arbitrary: n)
  case (Suc k)
  show ?case
  proof (cases "n < 16")
    case False
    have "n div 16 < 16 ^ Suc k" using Suc.prems by (simp add: less_mult_imp_div_less mult.commute)
    then show ?thesis using Suc.IH [of "n div 16"] False by (subst hex_text.simps) simp
  qed (subst hex_text.simps, simp)
qed (subst hex_text.simps, simp)

lemma hex_chunk_text: "n < 65536 \<Longrightarrow> hex_chunk (hex_text n) = [n div 256, n mod 256]"
proof -
  assume "n < 65536"
  then have "n div 256 < 256" by simp
  then show ?thesis using hex_text_value [of n] by (simp add: hex_chunk_def Let_def)
qed

lemma text_plain: "c \<in> set (hex_text n) \<Longrightarrow> c \<noteq> CHR '':'' \<and> c \<noteq> CHR ''.'' \<and> c \<noteq> CHR ''%''"
proof -
  have "\<not> is_hex CHR '':''" "\<not> is_hex CHR ''.''" "\<not> is_hex CHR ''%''" by code_simp+
  then show "c \<in> set (hex_text n) \<Longrightarrow> ?thesis" using hex_text_hex by metis
qed

section \<open>Groups\<close>

definition group_bytes :: "nat list \<Rightarrow> nat list" where
  "group_bytes gs = concat (map (\<lambda>g. [g div 256, g mod 256]) gs)"

lemma group_bytes_simps [simp]:
  "group_bytes [] = []" "group_bytes (g # gs) = g div 256 # g mod 256 # group_bytes gs" "group_bytes (gs @ hs) = group_bytes gs @ group_bytes hs"
  "length (group_bytes gs) = 2 * length gs" "group_bytes (replicate n 0) = replicate (2 * n) 0"
proof -
  show "length (group_bytes gs) = 2 * length gs" "group_bytes (replicate n 0) = replicate (2 * n) 0"
    by (induction gs; induction n; simp add: group_bytes_def)+
qed (simp_all add: group_bytes_def)

lemma group_bytes_groups16: "even (length b) \<Longrightarrow> list_all (\<lambda>x. x < 256) b \<Longrightarrow> group_bytes (groups16 b) = b"
  by (induction b rule: groups16.induct) auto

lemma groups16_length: "length (groups16 b) = length b div 2"
  by (induction b rule: groups16.induct) auto

lemma groups16_bound: "list_all (\<lambda>x. x < 256) b \<Longrightarrow> list_all (\<lambda>g. g < 65536) (groups16 b)"
  by (induction b rule: groups16.induct) auto

lemma first_group:
  "takeWhile is_hex (hex_text g @ CHR '':'' # s) = hex_text g" "dropWhile is_hex (hex_text g @ CHR '':'' # s) = CHR '':'' # s"
  "takeWhile is_hex (hex_text g) = hex_text g" "dropWhile is_hex (hex_text g) = []"
proof -
  have "\<not> is_hex CHR '':''" by code_simp
  then show "takeWhile is_hex (hex_text g @ CHR '':'' # s) = hex_text g" "dropWhile is_hex (hex_text g @ CHR '':'' # s) = CHR '':'' # s"
    using hex_text_hex [of _ g] by (simp_all add: takeWhile_append dropWhile_append)
  show "takeWhile is_hex (hex_text g) = hex_text g" "dropWhile is_hex (hex_text g) = []"
    using hex_text_hex [of _ g] by (simp_all add: takeWhile_eq_all_conv dropWhile_eq_Nil_conv)
qed


text \<open>The parser reads the groups it finds, up to the end of the text or to an ellipsis.\<close>

lemma parse_group:
  assumes "length ip + 2 \<le> 16" "g < 65536"
  shows "parse_groups ip ell (hex_text g) = Some (ip @ [g div 256, g mod 256], ell)"
    and "c1 \<noteq> CHR '':'' \<Longrightarrow> parse_groups ip ell (hex_text g @ CHR '':'' # c1 # s) = parse_groups (ip @ [g div 256, g mod 256]) ell (c1 # s)"
    and "parse_groups ip None (hex_text g @ ''::'' @ s) =
      (if s = [] then Some (ip @ [g div 256, g mod 256], Some (length ip + 2)) else parse_groups (ip @ [g div 256, g mod 256]) (Some (length ip + 2)) s)"
proof -
  have l: "length (hex_text g) \<le> 4" using hex_text_length [of g 3] assms(2) by simp
  note p = first_group hex_chunk_text [OF assms(2)]
  show "parse_groups ip ell (hex_text g) = Some (ip @ [g div 256, g mod 256], ell)"
    using assms(1) l by (subst parse_groups.simps) (simp only: p Let_def append.simps, simp)
  show "c1 \<noteq> CHR '':'' \<Longrightarrow> parse_groups ip ell (hex_text g @ CHR '':'' # c1 # s) = parse_groups (ip @ [g div 256, g mod 256]) ell (c1 # s)"
    using assms(1) l by (subst parse_groups.simps) (simp only: p Let_def append.simps, simp)
  show "parse_groups ip None (hex_text g @ ''::'' @ s) =
      (if s = [] then Some (ip @ [g div 256, g mod 256], Some (length ip + 2)) else parse_groups (ip @ [g div 256, g mod 256]) (Some (length ip + 2)) s)"
    using assms(1) l by (subst parse_groups.simps) (simp only: p Let_def append.simps, simp)
qed

lemma hex_text_hd: "\<exists>c t. hex_text g = c # t \<and> c \<noteq> CHR '':''"
  using text_plain [of "hd (hex_text g)" g] by (cases "hex_text g") auto

lemma parse_group_next:
  assumes "length ip + 2 \<le> 16" "g < 65536"
  shows "parse_groups ip ell (hex_text g @ CHR '':'' # hex_text h @ s) = parse_groups (ip @ [g div 256, g mod 256]) ell (hex_text h @ s)"
  using parse_group(2) [OF assms] hex_text_hd [of h] by fastforce

lemma Join_text_Cons: "Join (map hex_text (g # h # gs)) '':'' = hex_text g @ CHR '':'' # Join (map hex_text (h # gs)) '':''"
  by simp

lemma Join_text_hd: "\<exists>t. Join (map hex_text (h # gs)) '':'' = hex_text h @ t"
  by (cases gs) auto

lemma parse_groups_Join:
  "gs \<noteq> [] \<Longrightarrow> length ip + 2 * length gs \<le> 16 \<Longrightarrow> list_all (\<lambda>g. g < 65536) gs \<Longrightarrow>
   parse_groups ip ell (Join (map hex_text gs) '':'') = Some (ip @ group_bytes gs, ell)"
proof (induction gs arbitrary: ip)
  case (Cons g gs)
  show ?case
  proof (cases gs)
    case Nil
    then show ?thesis using parse_group(1) [of ip g ell] Cons.prems by simp
  next
    case (Cons h hs)
    obtain t where t: "Join (map hex_text (h # hs)) '':'' = hex_text h @ t" using Join_text_hd by blast
    then have "parse_groups ip ell (Join (map hex_text (g # gs)) '':'') = parse_groups (ip @ [g div 256, g mod 256]) ell (Join (map hex_text gs) '':'')"
      using parse_group_next [of ip g ell h t] Cons.prems Cons unfolding Cons Join_text_Cons by simp
    then show ?thesis using Cons.IH [of "ip @ [g div 256, g mod 256]"] Cons.prems Cons by simp
  qed
qed simp

lemma parse_groups_ellipsis:
  "gs \<noteq> [] \<Longrightarrow> length ip + 2 * length gs \<le> 16 \<Longrightarrow> list_all (\<lambda>g. g < 65536) gs \<Longrightarrow>
   parse_groups ip None (Join (map hex_text gs) '':'' @ ''::'' @ s) =
     (if s = [] then Some (ip @ group_bytes gs, Some (length ip + 2 * length gs))
      else parse_groups (ip @ group_bytes gs) (Some (length ip + 2 * length gs)) s)"
proof (induction gs arbitrary: ip)
  case (Cons g gs)
  show ?case
  proof (cases gs)
    case Nil
    then show ?thesis using parse_group(3) [of ip g s] Cons.prems by simp
  next
    case (Cons h hs)
    obtain t where t: "Join (map hex_text (h # hs)) '':'' = hex_text h @ t" using Join_text_hd by blast
    then have "parse_groups ip None (Join (map hex_text (g # gs)) '':'' @ ''::'' @ s) =
        parse_groups (ip @ [g div 256, g mod 256]) None (Join (map hex_text gs) '':'' @ ''::'' @ s)"
      using parse_group_next [of ip g None h "t @ ''::'' @ s"] Cons.prems Cons unfolding Cons Join_text_Cons by simp
    then show ?thesis using Cons.IH [of "ip @ [g div 256, g mod 256]"] Cons.prems Cons by simp
  qed
qed simp

section \<open>Runs of zeros\<close>

definition zeros_at :: "nat list \<Rightarrow> nat \<times> nat \<Rightarrow> bool" where
  "zeros_at gs = (\<lambda>(start, len). len = 0 \<or> len \<ge> 2 \<and> start + len \<le> length gs \<and> take len (drop start gs) = replicate len 0)"

lemma zero_run_zeros: "zeros_at gs (zero_run gs)"
proof -
  have step: "zeros_at gs (foldl (\<lambda>(start, len) i. let l = length (takeWhile (\<lambda>g. g = 0) (drop i gs)) in
      if l \<ge> 2 \<and> l > len then (i, l) else (start, len)) st is)" if "zeros_at gs st" "\<forall>i\<in>set is. i \<le> length gs" for st "is"
    using that
  proof (induction "is" arbitrary: st)
    case (Cons i "is")
    let ?z = "takeWhile (\<lambda>g. g = 0) (drop i gs)"
    have "take (length ?z) (drop i gs) = ?z" by (metis takeWhile_eq_take)
    also have "?z = replicate (length ?z) 0" by (metis (mono_tags, lifting) replicate_length_same set_takeWhileD)
    finally have "zeros_at gs (i, length ?z)" if "length ?z \<ge> 2"
      using that length_takeWhile_le [of "\<lambda>g. g = 0" "drop i gs"] Cons.prems(2) by (auto simp: zeros_at_def)
    then show ?case using Cons by (auto simp: Let_def split: prod.split)
  qed simp
  show ?thesis unfolding zero_run_def by (rule step) (auto simp: zeros_at_def)
qed


section \<open>Addresses\<close>

lemma decimal_itoa: "decimal (itoa n) = n"
proof -
  have "\<forall>k<10. digit_val (''0123456789'' ! k) = k" by code_simp
  then have d: "digit_val (digit_char m) = m mod 10" for m by (simp add: digit_char_def)
  show ?thesis by (induction n rule: itoa.induct) (subst itoa.simps, simp add: decimal_def d)
qed

lemma itoa_hd: "n > 0 \<Longrightarrow> hd (itoa n) \<noteq> CHR ''0''"
proof (induction n rule: itoa.induct)
  case (1 n)
  have "\<forall>k<10. k \<noteq> 0 \<longrightarrow> ''0123456789'' ! k \<noteq> CHR ''0''" by code_simp
  moreover have "itoa (n div 10) \<noteq> []" using all_digits_itoa [of "n div 10"] by (auto simp: all_digits_def)
  ultimately show ?case using 1 by (subst itoa.simps) (simp add: digit_char_def)
qed

lemma octet_itoa: "n \<le> 255 \<Longrightarrow> octet (itoa n) = Some n"
  using all_digits_itoa [of n] itoa_hd [of n] decimal_itoa [of n]
  by (cases "n = 0") (auto simp: octet_def itoa.simps [of 0])

lemma itoa_decimal: "c \<in> set (itoa n) \<Longrightarrow> is_digit c"
  using all_digits_itoa [of n] by (auto simp: all_digits_def list_all_iff)

lemma dots_text: "CHR ''.'' \<notin> set (itoa n)" "c \<in> set (itoa n) \<Longrightarrow> c \<noteq> CHR '':'' \<and> c \<noteq> CHR ''%''"
proof -
  have "\<not> is_digit CHR ''.''" "\<not> is_digit CHR '':''" "\<not> is_digit CHR ''%''" by code_simp+
  then show "CHR ''.'' \<notin> set (itoa n)" "c \<in> set (itoa n) \<Longrightarrow> c \<noteq> CHR '':'' \<and> c \<noteq> CHR ''%''" using itoa_decimal by metis+
qed

lemma parseIPv4Fields_text: "list_all (\<lambda>x. x < 256) [a, b, c, d] \<Longrightarrow> parseIPv4Fields (Join (map itoa [a, b, c, d]) ''.'') = Some [a, b, c, d]"
  using Split_Join [of "map itoa [a, b, c, d]" "CHR ''.''"] dots_text(1) by (simp add: parseIPv4Fields_def octet_itoa del: Join.simps)

lemma find_first: "\<forall>c\<in>set s. \<not> P c \<Longrightarrow> P x \<Longrightarrow> find P (s @ x # t) = Some x"
  by (induction s) auto

lemma ParseIP_dotted:
  assumes "list_all (\<lambda>x. x < 256) b" "length b = 4"
  shows "ParseIP (Join (map itoa b) ''.'') = Some (v4_prefix @ b)"
proof -
  obtain p q r s where b: "b = [p, q, r, s]" using assms(2) by (auto simp: length_Suc_conv numeral_eq_Suc)
  have f: "find (\<lambda>c. c \<in> set ''.:%'') (itoa p @ CHR ''.'' # t) = Some (CHR ''.'')" for t
    using dots_text(2) [of _ p] dots_text(1) [of p] by (intro find_first) auto
  have "CHR ''%'' \<notin> set (Join (map itoa b) ''.'')" using dots_text(2) b by fastforce
  then show ?thesis
    using f [of "itoa q @ CHR ''.'' # itoa r @ CHR ''.'' # itoa s"] parseIPv4Fields_text [of p q r s] assms(1) b by (simp add: ParseIP_def)
qed

lemma text_groups_plain: "c \<in> set (Join (map hex_text gs) '':'') \<Longrightarrow> c = CHR '':'' \<or> is_hex c \<and> c \<noteq> CHR ''.'' \<and> c \<noteq> CHR ''%''"
proof (induction gs)
  case (Cons g gs)
  then show ?case using text_plain [of c g] hex_text_hex [of c g] by (cases gs) auto
qed simp

lemma ParseIP_colons:
  assumes "\<forall>c\<in>set s. c \<noteq> CHR ''.'' \<and> c \<noteq> CHR ''%''" "CHR '':'' \<in> set s"
  shows "ParseIP s = parseIPv6 s"
proof -
  have "find (\<lambda>c. c \<in> set ''.:%'') s = Some (CHR '':'')"
    using assms
  proof (induction s)
    case (Cons c s)
    then show ?case by (cases "c = CHR '':''") auto
  qed simp
  moreover have "CHR ''%'' \<notin> set s" using assms(1) by blast
  ultimately show ?thesis by (simp add: ParseIP_def)
qed


lemma text_no_ellipsis: "\<not> HasPrefix (hex_text g @ s) ''::''"
  using hex_text_hd [of g] by (auto simp: HasPrefix_def)

lemma Join_text_no_ellipsis: "gs \<noteq> [] \<Longrightarrow> \<not> HasPrefix (Join (map hex_text gs) '':'' @ s) ''::''"
  using text_no_ellipsis Join_text_hd by (metis append.assoc list.exhaust)

lemma parseIPv6_groups:
  assumes "length gs = 8" "list_all (\<lambda>g. g < 65536) gs"
  shows "parseIPv6 (Join (map hex_text gs) '':'') = Some (group_bytes gs)"
proof -
  have "gs \<noteq> []" using assms(1) by auto
  then show ?thesis
    using Join_text_no_ellipsis [of gs "[]"] parse_groups_Join [of gs "[]" None] assms by (simp add: parseIPv6_def expand_ellipsis_def)
qed

lemma parseIPv6_ellipsis:
  assumes "length pre + n + length post = 8" "n \<ge> 2" "list_all (\<lambda>g. g < 65536) (pre @ post)"
  shows "parseIPv6 (Join (map hex_text pre) '':'' @ ''::'' @ Join (map hex_text post) '':'') = Some (group_bytes (pre @ replicate n 0 @ post))"
proof -
  have post: "Join (map hex_text post) '':'' = [] \<longleftrightarrow> post = []" by (cases post rule: list.exhaust; cases "tl post") auto
  have n: "16 - 2 * (length pre + length post) = 2 * n" using assms(1) by auto
  show ?thesis
  proof (cases "pre = []")
    case True
    have "parse_groups [] (Some 0) (Join (map hex_text post) '':'') = Some (group_bytes post, Some 0)" if "post \<noteq> []"
      using parse_groups_Join [of post "[]" "Some 0"] that assms by simp
    moreover have "n = 8" if "post = []" using that True assms(1) by simp
    ultimately show ?thesis
      using True n assms(1,2) post by (cases "post = []") (simp_all add: parseIPv6_def HasPrefix_def expand_ellipsis_def)
  next
    case False
    have "parse_groups (group_bytes pre) (Some (2 * length pre)) (Join (map hex_text post) '':'') = Some (group_bytes (pre @ post), Some (2 * length pre))"
      if "post \<noteq> []" using parse_groups_Join [of post "group_bytes pre" "Some (2 * length pre)"] that assms by simp
    then have "parse_groups [] None (Join (map hex_text pre) '':'' @ ''::'' @ Join (map hex_text post) '':'') = Some (group_bytes (pre @ post), Some (2 * length pre))"
      using parse_groups_ellipsis [OF False, of "[]" "Join (map hex_text post) '':''"] assms post by (cases "post = []") simp_all
    moreover have "\<not> HasPrefix (Join (map hex_text pre) '':'' @ ''::'' @ Join (map hex_text post) '':'') ''::''"
      by (rule Join_text_no_ellipsis [OF False])
    moreover have "2 * (length pre + length post) < 16" using assms(1,2) by auto
    ultimately show ?thesis using n by (simp add: parseIPv6_def expand_ellipsis_def)
  qed
qed

text \<open>The text of an address is read back as the address, a dotted quad in its mapped form.\<close>

lemma ParseIP_IP_String:
  assumes "list_all (\<lambda>x. x < 256) b" "length b = 4 \<or> length b = 16"
  shows "ParseIP (IP_String b) = Some (if length b = 4 then v4_prefix @ b else b)"
proof (cases "To4 (Some b)")
  case (Some v4)
  have "length v4 = 4" using Some by (rule To4_length)
  moreover have "list_all (\<lambda>x. x < 256) v4"
    using Some assms(1) by (auto simp: To4_def list_all_iff split: if_splits dest: in_set_dropD)
  moreover have "v4_prefix @ v4 = (if length b = 4 then v4_prefix @ b else b)"
    using Some by (auto simp: To4_def split: if_splits) (metis append_take_drop_id)
  ultimately show ?thesis using Some ParseIP_dotted by (simp add: IP_String_def)
next
  case None
  let ?gs = "groups16 b"
  obtain start n where z: "zero_run ?gs = (start, n)" by fastforce
  have b: "length b = 16" using None assms(2) by (auto simp: To4_def)
  have g: "length ?gs = 8" "list_all (\<lambda>g. g < 65536) ?gs" "group_bytes ?gs = b"
    using b assms(1) groups16_bound group_bytes_groups16 by (simp_all add: groups16_length)
  have s: "ParseIP s = parseIPv6 s"
    if "s = Join (map hex_text xs) '':'' @ t @ Join (map hex_text ys) '':''" "CHR '':'' \<in> set s" "t = '''' \<or> t = ''::''" for s t xs ys
    using that text_groups_plain by (intro ParseIP_colons) fastforce+
  show ?thesis
  proof (cases "n = 0")
    case True
    obtain g1 g2 rest where "?gs = g1 # g2 # rest" using g(1) by (auto simp: length_Suc_conv numeral_eq_Suc)
    then have "CHR '':'' \<in> set (Join (map hex_text ?gs) '':'')" by simp
    then show ?thesis using s [of _ ?gs "''''" "[]"] True z None g parseIPv6_groups b by (simp add: IP_String_def Let_def)
  next
    case False
    let ?pre = "take start ?gs" and ?post = "drop (start + n) ?gs"
    have r: "n \<ge> 2" "start + n \<le> length ?gs" "take n (drop start ?gs) = replicate n 0"
      using zero_run_zeros [of ?gs] z False by (auto simp: zeros_at_def)
    have split: "?gs = ?pre @ replicate n 0 @ ?post"
      using r(3) by (metis add.commute append_take_drop_id drop_drop)
    have "list_all (\<lambda>g. g < 65536) (?pre @ ?post)" using g(2) by (auto simp: list_all_iff dest: in_set_takeD in_set_dropD)
    then have "parseIPv6 (IP_String b) = Some (group_bytes ?gs)"
      using parseIPv6_ellipsis [of ?pre n ?post] r(1,2) g(1) z None False split by (simp add: IP_String_def Let_def)
    then show ?thesis using s [of "IP_String b" ?pre "''::''" ?post] z None False g(3) b by (simp add: IP_String_def Let_def)
  qed
qed


text \<open>What the parser returns is bytes.\<close>

lemma parseIPv4Fields_bytes: "parseIPv4Fields s = Some f \<Longrightarrow> list_all (\<lambda>x. x < 256) f"
  by (auto simp: parseIPv4Fields_def octet_def split: list.splits option.splits if_splits)

lemma hex_chunk_bytes: "list_all (\<lambda>x. x < 256) (hex_chunk s)"
  by (simp add: hex_chunk_def Let_def)

lemma parse_groups_bytes: "parse_groups ip ell s = Some (ip', ell') \<Longrightarrow> list_all (\<lambda>x. x < 256) ip \<Longrightarrow> list_all (\<lambda>x. x < 256) ip'"
proof (induction ip ell s rule: parse_groups.induct)
  case (1 ip ell s)
  then show ?case
    using hex_chunk_bytes
    by (subst (asm) parse_groups.simps) (auto simp: Let_def split: if_splits list.splits dest: parseIPv4Fields_bytes)
qed

lemma ParseIP_bytes: "ParseIP s = Some b \<Longrightarrow> list_all (\<lambda>x. x < 256) b"
proof -
  assume *: "ParseIP s = Some b"
  have "list_all (\<lambda>x. x < 256) b" if "Option.bind (parse_groups [] ell t) expand_ellipsis = Some b" for ell t
    using that parse_groups_bytes [of "[]" ell t]
    by (fastforce simp: bind_eq_Some_conv expand_ellipsis_def list_all_iff split: if_splits option.splits dest: in_set_takeD in_set_dropD)
  with * show ?thesis
    by (auto simp: ParseIP_def parseIPv6_def v4_prefix_def list_all_iff split: option.splits if_splits dest!: parseIPv4Fields_bytes)
qed

text \<open>
  C38: A recursor that was configured as an address without a port is still that machine
  after the default port is added: the host of its new text is read as the same address, a
  dotted quad as well as the groups of IPv6 with the longest run of zeros left out, and
  the port is 53. One that has a port already is not touched.
\<close>

theorem default_port_same_machine:
  assumes "default_port recursor = Inr r"
  shows "if isl (SplitHostPort recursor)
    then \<exists>ip host. ParseIP recursor = Some ip \<and> SplitHostPort r = Inr (host, ''53'') \<and> ParseIP host = Some ip
    else r = recursor"
proof (cases "SplitHostPort recursor")
  case (Inl err)
  then obtain ip where ip: "ParseIP recursor = Some ip" "r = JoinHostPort (IP_String ip) ''53''"
    using assms by (auto simp: default_port_def split: if_splits option.splits)
  have "SplitHostPort r = Inr (IP_String ip, ''53'')"
    unfolding ip(2) using bracket_free_IP_String by (intro SplitHostPort_JoinHostPort) (simp_all add: bracket_free_def)
  moreover have "ParseIP (IP_String ip) = Some ip"
    using ParseIP_IP_String [OF ParseIP_bytes [OF ip(1)]] ParseIP_length [OF ip(1)] by simp
  ultimately show ?thesis using Inl ip(1) by simp
next
  case (Inr hp)
  then show ?thesis using assms by (simp add: default_port_def)
qed

theorem default_port_same_machine_witness:
  "default_port ''10::0:1'' = Inr ''[10::1]:53'' \<and> (\<exists>host. SplitHostPort ''[10::1]:53'' = Inr (host, ''53'') \<and> ParseIP host = ParseIP ''10::0:1'')"
proof -
  have "default_port ''10::0:1'' = Inr ''[10::1]:53''" "isl (SplitHostPort ''10::0:1'')" by code_simp+
  then show ?thesis using default_port_same_machine [of "''10::0:1''" "''[10::1]:53''"] by auto
qed

end
