(* ===== verification/Dns_Unpack.thy ===== *)
theory Dns_Unpack
  imports Dns_Pack Ip_Text
begin

text \<open>
  Messages read from the wire (\<^verbatim>\<open>src/bosh-dns/vendor/github.com/miekg/dns/{msg,msg_helpers,zmsg}.go\<close>):
  names with their compression pointers, questions, records and messages, and that what
  was packed is read back.
\<close>

section \<open>Definitions\<close>

datatype unpack_error = BufTooSmall | LongDomain | TooManyPointers | BadLabelType | Overflowing | BadRdlength | BadOption

abbreviation (input) maxDomainNameWireOctets :: int where "maxDomainNameWireOctets \<equiv> 255"

abbreviation (input) maxCompressionPointers :: nat where "maxCompressionPointers \<equiv> 126"

abbreviation (input) byte_at :: "string \<Rightarrow> nat \<Rightarrow> nat" where "byte_at msg off \<equiv> of_char (msg ! off)"

text \<open>The text of a label.\<close>

definition label_text :: "string \<Rightarrow> string" where
  "label_text l = concat (map (\<lambda>b. if isDomainNameLabelSpecial b then [CHR 92, b] else if unprintable b then escapeByte b else [b]) l)"

text \<open>
  The loop over a name: the offset, what is left of the 255 bytes, the number of pointers
  followed, the text so far, and where the reading goes on after the first pointer. The
  two upper bits of a byte tell a label from a pointer.
\<close>

function unpackName_loop :: "string \<Rightarrow> nat \<Rightarrow> int \<Rightarrow> nat \<Rightarrow> string \<Rightarrow> nat \<Rightarrow> unpack_error + string \<times> nat" where
  "unpackName_loop msg off budget ptr s off1 =
     (if off \<ge> length msg then Inl BufTooSmall
      else
        let c = byte_at msg off in
        if c div 64 = 0 then
          if c = 0 then Inr (if s = '''' then ''.'' else s, if ptr = 0 then off + 1 else off1)
          else if off + 1 + c > length msg then Inl BufTooSmall
          else if budget - int (c + 1) \<le> 0 then Inl LongDomain
          else unpackName_loop msg (off + 1 + c) (budget - int (c + 1)) ptr (s @ label_text (take c (drop (off + 1) msg)) @ ''.'') off1
        else if c div 64 = 3 then
          if off + 1 \<ge> length msg then Inl BufTooSmall
          else if ptr + 1 > maxCompressionPointers then Inl TooManyPointers
          else unpackName_loop msg ((c - 192) * 256 + byte_at msg (off + 1)) budget (ptr + 1) s (if ptr = 0 then off + 2 else off1)
        else Inl BadLabelType)"
  by pat_completeness auto
termination
  by (relation "measures [\<lambda>(msg, off, budget, ptr, s, off1). maxCompressionPointers - ptr, \<lambda>(msg, off, budget, ptr, s, off1). length msg - off]") auto

declare unpackName_loop.simps [simp del]

definition UnpackDomainName :: "string \<Rightarrow> nat \<Rightarrow> unpack_error + string \<times> nat" where
  "UnpackDomainName msg off = unpackName_loop msg off maxDomainNameWireOctets 0 '''' 0"

definition unpackUint16 :: "string \<Rightarrow> nat \<Rightarrow> unpack_error + 16 word \<times> nat" where
  "unpackUint16 msg off =
     (if off + 2 > length msg then Inl Overflowing else Inr (word_of_nat (byte_at msg off * 256 + byte_at msg (off + 1)), off + 2))"

definition unpackUint32 :: "string \<Rightarrow> nat \<Rightarrow> unpack_error + 32 word \<times> nat" where
  "unpackUint32 msg off =
     (if off + 4 > length msg then Inl Overflowing
      else Inr (word_of_nat (((byte_at msg off * 256 + byte_at msg (off + 1)) * 256 + byte_at msg (off + 2)) * 256 + byte_at msg (off + 3)), off + 4))"

text \<open>A question that the message ends in the middle of keeps zeros.\<close>

definition unpackQuestion :: "string \<Rightarrow> nat \<Rightarrow> unpack_error + question \<times> nat" where
  "unpackQuestion msg off =
     res_bind (UnpackDomainName msg off) (\<lambda>(name, off).
     if off = length msg then Inr (\<lparr>qn_Name = name, qn_Qtype = 0, qn_Qclass = 0\<rparr>, off)
     else res_bind (unpackUint16 msg off) (\<lambda>(qtype, off).
     if off = length msg then Inr (\<lparr>qn_Name = name, qn_Qtype = qtype, qn_Qclass = 0\<rparr>, off)
     else res_bind (unpackUint16 msg off) (\<lambda>(qclass, off).
     Inr (\<lparr>qn_Name = name, qn_Qtype = qtype, qn_Qclass = qclass\<rparr>, off))))"

text \<open>The header of a record, its length, the offset of its data and the message up to their end.\<close>

definition unpackHeader :: "string \<Rightarrow> nat \<Rightarrow> unpack_error + rr_header \<times> nat \<times> nat \<times> string" where
  "unpackHeader msg off =
     (if off = length msg then Inr (\<lparr>hdr_Name = '''', hdr_Rrtype = 0, hdr_Class = 0, hdr_Ttl = 0\<rparr>, 0, off, msg)
      else
        res_bind (UnpackDomainName msg off) (\<lambda>(name, off).
        res_bind (unpackUint16 msg off) (\<lambda>(rrtype, off).
        res_bind (unpackUint16 msg off) (\<lambda>(cls, off).
        res_bind (unpackUint32 msg off) (\<lambda>(ttl, off).
        res_bind (unpackUint16 msg off) (\<lambda>(rdlength, off).
        if off + unat rdlength > length msg then Inl Overflowing
        else Inr (\<lparr>hdr_Name = name, hdr_Rrtype = rrtype, hdr_Class = cls, hdr_Ttl = ttl\<rparr>, unat rdlength, off, take (off + unat rdlength) msg)))))))"

text \<open>
  What the library has beside this: the options of OPT records, of which it takes the
  data apart, and the records of the types that the program only passes on.
\<close>

record rdata_library =
  rl_option :: "16 word \<Rightarrow> string \<Rightarrow> string option"
  rl_new :: "rr_header \<Rightarrow> rr"
  rl_unpack :: "rr_header \<Rightarrow> string \<Rightarrow> nat \<Rightarrow> unpack_error + rr \<times> nat"

definition unpack_ip :: "nat \<Rightarrow> string \<Rightarrow> nat \<Rightarrow> unpack_error + nat list \<times> nat" where
  "unpack_ip n msg off = (if off + n > length msg then Inl Overflowing else Inr (map of_char (take n (drop off msg)), off + n))"

function unpackDataOpt :: "(16 word \<Rightarrow> string \<Rightarrow> string option) \<Rightarrow> string \<Rightarrow> nat \<Rightarrow> unpack_error + (16 word \<times> string) list \<times> nat" where
  "unpackDataOpt option1 msg off =
     (if off < length msg then
        if off + 4 > length msg then Inl Overflowing
        else
          let code = word_of_nat (byte_at msg off * 256 + byte_at msg (off + 1));
              optlen = byte_at msg (off + 2) * 256 + byte_at msg (off + 3)
          in if off + 4 + optlen > length msg then Inl Overflowing
             else (case option1 code (take optlen (drop (off + 4) msg)) of
                     None \<Rightarrow> Inl BadOption
                   | Some b \<Rightarrow> res_bind (unpackDataOpt option1 msg (off + 4 + optlen)) (\<lambda>(options, off). Inr ((code, b) # options, off)))
      else Inr ([], off))"
  by pat_completeness auto
termination by (relation "measure (\<lambda>(option1, msg, off). length msg - off)") auto

declare unpackDataOpt.simps [simp del]

definition new_rr :: "rdata_library \<Rightarrow> rr_header \<Rightarrow> rr" where
  "new_rr lib h =
     (if hdr_Rrtype h = TypeA then RR_A h None else if hdr_Rrtype h = TypeAAAA then RR_AAAA h None
      else if hdr_Rrtype h = TypePTR then RR_PTR h '''' else if hdr_Rrtype h = TypeOPT then RR_OPT h []
      else rl_new lib h)"

definition unpack_rdata :: "rdata_library \<Rightarrow> rr_header \<Rightarrow> string \<Rightarrow> nat \<Rightarrow> unpack_error + rr \<times> nat" where
  "unpack_rdata lib h msg off =
     (if hdr_Rrtype h = TypeA then res_bind (unpack_ip 4 msg off) (\<lambda>(ip, off). Inr (RR_A h (Some ip), off))
      else if hdr_Rrtype h = TypeAAAA then res_bind (unpack_ip 16 msg off) (\<lambda>(ip, off). Inr (RR_AAAA h (Some ip), off))
      else if hdr_Rrtype h = TypePTR then res_bind (UnpackDomainName msg off) (\<lambda>(ptr, off). Inr (RR_PTR h ptr, off))
      else if hdr_Rrtype h = TypeOPT then res_bind (unpackDataOpt (rl_option lib) msg off) (\<lambda>(options, off). Inr (RR_OPT h options, off))
      else rl_unpack lib h msg off)"

definition UnpackRRWithHeader :: "rdata_library \<Rightarrow> rr_header \<Rightarrow> nat \<Rightarrow> string \<Rightarrow> nat \<Rightarrow> unpack_error + rr \<times> nat" where
  "UnpackRRWithHeader lib h rdlength msg off =
     (let end1 = off + rdlength in
      if end1 > length msg then Inl BadRdlength
      else if rdlength = 0 then Inr (new_rr lib h, off)
      else res_bind (unpack_rdata lib h msg off) (\<lambda>(r, off). if off \<noteq> end1 then Inl BadRdlength else Inr (r, off)))"

definition UnpackRR :: "rdata_library \<Rightarrow> string \<Rightarrow> nat \<Rightarrow> unpack_error + rr \<times> nat" where
  "UnpackRR lib msg off = res_bind (unpackHeader msg off) (\<lambda>(h, rdlength, off, msg). UnpackRRWithHeader lib h rdlength msg off)"

text \<open>
  The loops over the questions and over the records of a section: they end early when the offset does not
  advance. An error drops what was read.
\<close>

fun unpack_slice :: "(string \<Rightarrow> nat \<Rightarrow> 'e + 'a \<times> nat) \<Rightarrow> nat \<Rightarrow> string \<Rightarrow> nat \<Rightarrow> 'e + 'a list \<times> nat" where
  "unpack_slice unpack 0 msg off = Inr ([], off)"
| "unpack_slice unpack (Suc l) msg off =
     res_bind (unpack msg off) (\<lambda>(x, off').
     if off' = off then Inr ([], off')
     else res_bind (unpack_slice unpack l msg off') (\<lambda>(xs, off). Inr (x # xs, off)))"

definition setHdr :: "16 word \<Rightarrow> 16 word \<Rightarrow> msg" where
  "setHdr i bits = new_msg\<lparr>m_Id := i, m_Response := bits AND 0x8000 \<noteq> 0, m_Opcode := uint (drop_bit 11 bits) AND 0xF,
     m_Authoritative := bits AND 0x0400 \<noteq> 0, m_Truncated := bits AND 0x0200 \<noteq> 0, m_RecursionDesired := bits AND 0x0100 \<noteq> 0,
     m_RecursionAvailable := bits AND 0x0080 \<noteq> 0, m_Zero := bits AND 0x0040 \<noteq> 0, m_AuthenticatedData := bits AND 0x0020 \<noteq> 0,
     m_CheckingDisabled := bits AND 0x0010 \<noteq> 0, m_Rcode := uint (bits AND 0xF)\<rparr>"

definition ExtendedRcode :: "rr \<Rightarrow> int" where
  "ExtendedRcode r = push_bit 4 (uint (drop_bit 24 (hdr_Ttl (rr_hdr r) AND 0xFF000000)))"

fun unpack_words :: "nat \<Rightarrow> string \<Rightarrow> nat \<Rightarrow> unpack_error + 16 word list \<times> nat" where
  "unpack_words 0 msg off = Inr ([], off)"
| "unpack_words (Suc n) msg off =
     res_bind (unpackUint16 msg off) (\<lambda>(w, off). res_bind (unpack_words n msg off) (\<lambda>(ws, off). Inr (w # ws, off)))"

definition unpack_sections :: "rdata_library \<Rightarrow> 16 word list \<Rightarrow> string \<Rightarrow> nat \<Rightarrow> msg \<Rightarrow> unpack_error + msg" where
  "unpack_sections lib counts bytes off m =
     (if off = length bytes then Inr (m\<lparr>m_Question := [], m_Answer := [], m_Ns := [], m_Extra := []\<rparr>)
      else
        res_bind (unpack_slice unpackQuestion (unat (counts ! 0)) bytes off) (\<lambda>(question, off).
        res_bind (unpack_slice (UnpackRR lib) (unat (counts ! 1)) bytes off) (\<lambda>(answer, off).
        res_bind (unpack_slice (UnpackRR lib) (unat (counts ! 2)) bytes off) (\<lambda>(ns, off).
        res_bind (unpack_slice (UnpackRR lib) (unat (counts ! 3)) bytes off) (\<lambda>(extra, off).
        let m = m\<lparr>m_Question := question, m_Answer := answer, m_Ns := ns, m_Extra := extra\<rparr> in
        Inr (case IsEdns0 m of None \<Rightarrow> m | Some opt \<Rightarrow> m\<lparr>m_Rcode := m_Rcode m OR ExtendedRcode opt\<rparr>))))))"

definition Unpack :: "rdata_library \<Rightarrow> string \<Rightarrow> unpack_error + msg" where
  "Unpack lib bytes =
     res_bind (unpack_words 6 bytes 0) (\<lambda>(ws, off). unpack_sections lib (drop 2 ws) bytes off (setHdr (ws ! 0) (ws ! 1)))"

section \<open>Names\<close>

text \<open>
  The labels \<open>ls\<close> of a name stand in a message at an offset, with \<open>k\<close> pointers among them;
  \<open>e\<close> is where the bytes end that follow one another.
\<close>

inductive name_at :: "string \<Rightarrow> nat \<Rightarrow> nat \<Rightarrow> string list \<Rightarrow> nat \<Rightarrow> bool" for msg where
  root: "off < length msg \<Longrightarrow> byte_at msg off = 0 \<Longrightarrow> name_at msg off 0 [] (off + 1)"
| label: "name_at msg (off + 1 + length l) k ls e \<Longrightarrow> 0 < length l \<Longrightarrow> length l < 64 \<Longrightarrow> off + 1 + length l \<le> length msg \<Longrightarrow>
    byte_at msg off = length l \<Longrightarrow> take (length l) (drop (off + 1) msg) = l \<Longrightarrow> name_at msg off k (l # ls) e"
| pointer: "name_at msg p k ls e \<Longrightarrow> off + 1 < length msg \<Longrightarrow> p < 2 ^ 14 \<Longrightarrow> byte_at msg off = 192 + p div 256 \<Longrightarrow>
    byte_at msg (off + 1) = p mod 256 \<Longrightarrow> name_at msg off (Suc k) ls (off + 2)"

definition encode_labels :: "string list \<Rightarrow> string" where
  "encode_labels ls = concat (map (\<lambda>l. char_of (length l) # l) ls)"

definition text_of :: "string list \<Rightarrow> string" where
  "text_of ls = concat (map (\<lambda>l. label_text l @ ''.'') ls)"

lemma encode_labels_simps [simp]: "encode_labels [] = []" "encode_labels (l # ls) = char_of (length l) # l @ encode_labels ls" "encode_labels (ls @ ls') = encode_labels ls @ encode_labels ls'"
  by (simp_all add: encode_labels_def)

lemma text_of_simps [simp]: "text_of [] = []" "text_of (l # ls) = label_text l @ ''.'' @ text_of ls"
  by (simp_all add: text_of_def)

lemma unpack_name_at:
  assumes "name_at msg off k ls e" "ptr + k \<le> maxCompressionPointers" "int (length (encode_labels ls)) < budget"
  shows "unpackName_loop msg off budget ptr s off1 =
    Inr (if s @ text_of ls = '''' then ''.'' else s @ text_of ls, if ptr = 0 then e else off1)"
  using assms
proof (induction arbitrary: ptr budget s off1 rule: name_at.induct)
  case (root off)
  then show ?case by (simp add: unpackName_loop.simps [of msg off])
next
  case (label off l k ls e)
  then show ?case by (simp add: unpackName_loop.simps [of msg off])
next
  case (pointer p k ls e off)
  have c: "byte_at msg off div 64 = 3" "(byte_at msg off - 192) * 256 + byte_at msg (off + 1) = p" using pointer by simp_all
  have "\<not> off \<ge> length msg" "\<not> off + 1 \<ge> length msg" "\<not> ptr + 1 > maxCompressionPointers" using pointer by simp_all
  then show ?case
    using pointer.IH [of "ptr + 1" budget s "if ptr = 0 then off + 2 else off1"] pointer.prems unfolding unpackName_loop.simps [of msg off] c Let_def by simp
qed

lemma name_at_append: "name_at msg off k ls e \<Longrightarrow> name_at (msg @ later) off k ls e"
proof (induction rule: name_at.induct)
  case (root off)
  then show ?case by (intro name_at.root) (simp_all add: nth_append)
next
  case (label off l k ls e)
  then show ?case by (intro name_at.label) (simp_all add: nth_append)
next
  case (pointer p k ls e off)
  then show ?case by (intro name_at.pointer) (simp_all add: nth_append)
qed

lemma char_of_of_nat: "char_of (int n) = (char_of n :: char)"
  by (simp add: char_of_def bit_of_nat_iff)

text \<open>Labels written one after the other, in front of a name.\<close>

lemma name_at_encode:
  assumes "name_at (out @ encode_labels ls @ t) (length out + length (encode_labels ls)) k ls' e" "list_all (\<lambda>l. 0 < length l \<and> length l < 64) ls"
  shows "name_at (out @ encode_labels ls @ t) (length out) k (ls @ ls') e"
  using assms
proof (induction ls arbitrary: out)
  case (Cons l ls)
  have "name_at ((out @ char_of (length l) # l) @ encode_labels ls @ t) (length (out @ char_of (length l) # l)) k (ls @ ls') e"
    using Cons.prems by (intro Cons.IH) (simp_all add: add.assoc)
  then show ?case using Cons.prems(2) by (simp add: name_at.label nth_append add.assoc)
qed simp

lemma pointer_bytes_at:
  assumes "p < 2 ^ 14"
  shows "pointer_bytes p = [char_of (192 + p div 256), char_of (p mod 256)]"
proof -
  let ?w = "word_of_nat p :: 16 word"
  have c: "(0xC000 :: 16 word) = push_bit 14 3" by (simp add: push_bit_eq_mult)
  have "bit (0xC000 :: 16 word) n \<Longrightarrow> 14 \<le> n" for n unfolding c bit_push_bit_iff by simp
  moreover have "bit p n \<Longrightarrow> n < 14" for n using assms by (metis bit_take_bit_iff take_bit_nat_eq_self)
  ultimately have "?w AND 0xC000 = 0" by (intro bit_eqI) (force simp: bit_and_iff bit_of_nat_iff simp del: bit_numeral_simps)
  then have "?w XOR 0xC000 = word_of_nat (p + 49152)" by (simp add: disjunctive_add_eq_xor [symmetric])
  moreover have "uint (word_of_nat (p + 49152) :: 16 word) = int (p + 49152)" 
    using assms unfolding unsigned_of_nat by (simp add: take_bit_nat_eq_self)
  moreover have "uint (drop_bit 8 w) = uint w div 256" for w :: "16 word" by (simp add: drop_bit_eq_div uint_div_distrib)
  moreover have "char_of (int (p + 49152) div 256) = char_of (192 + p div 256)"
  proof -
    have "int (p + 49152) div 256 = int (192 + p div 256)" by simp
    then show ?thesis by (simp only: char_of_of_nat)
  qed
  moreover have "char_of (int (p + 49152)) = char_of (p mod 256)"
  proof -
    have "char_of (int (p + 49152)) = (char_of (p + 49152) :: char)" by (rule char_of_of_nat)
    also have "\<dots> = char_of ((p + 49152) mod 256)" by (simp only: char_of_mod_256)
    also have "(p + 49152) mod 256 = p mod 256" using mod_mult_self1 [of p 192 256] by simp
    finally show ?thesis .
  qed
  ultimately show ?thesis by (simp add: pointer_bytes_def be16_def)
qed


text \<open>The labels of a name as the packer reads them: \<open>lab\<close> is the label begun.\<close>

function decode_labels :: "string \<Rightarrow> string \<Rightarrow> string list" where
  "decode_labels lab [] = []"
| "decode_labels lab (c # rest) =
     (if c = CHR 92 then
        if isDDD rest then decode_labels (lab @ [dddToByte rest]) (drop 3 rest) else decode_labels (lab @ take 1 rest) (drop 1 rest)
      else if c = CHR ''.'' then lab # decode_labels [] rest
      else decode_labels (lab @ [c]) rest)"
  by pat_completeness auto
termination by (relation "measure (\<lambda>(lab, rest). length rest)") auto

abbreviation labels :: "string \<Rightarrow> string list" where "labels \<equiv> decode_labels []"

abbreviation ok_labels :: "string list \<Rightarrow> bool" where "ok_labels \<equiv> list_all (\<lambda>l. 0 < length l \<and> length l < 64)"

text \<open>
  What a run of the packer's loop adds: the labels \<open>ls1\<close> in front of those of a name it points
  at, if any, and entries for the suffixes of the name that start at these labels.
\<close>

definition new_entries :: "pointers \<Rightarrow> pointers \<Rightarrow> nat \<Rightarrow> string list \<Rightarrow> string list \<Rightarrow> bool" where
  "new_entries ptrs ptrs' off ls1 ls2 \<longleftrightarrow> (\<forall>m' n p. ptrs' = Some m' \<longrightarrow> map_of m' n = Some p \<longrightarrow>
     (\<exists>m. ptrs = Some m \<and> map_of m n = Some p) \<or>
     p < 2 ^ 14 \<and> (\<exists>l1 l2. ls1 = l1 @ l2 \<and> l2 \<noteq> [] \<and> p = off + length (encode_labels l1) \<and> labels n = l2 @ ls2))"

definition points_to :: "pointers \<Rightarrow> nat option \<Rightarrow> nat \<Rightarrow> string list \<Rightarrow> bool" where
  "points_to ptrs pt len ls \<longleftrightarrow> (case pt of None \<Rightarrow> ls = []
     | Some p \<Rightarrow> ls \<noteq> [] \<and> (\<exists>m n. ptrs = Some m \<and> map_of m n = Some p \<and> labels n = ls \<and> length n \<le> len))"

lemma new_entries_step:
  assumes "new_entries ptrs' ptrs'' (off + length (encode_labels [l])) ls1 ls2"
    and "ptrs' = ptrs \<or> (\<exists>m. ptrs = Some m \<and> off < 2 ^ 14 \<and> ptrs' = Some (insert_map start off m))" "labels start = l # ls1 @ ls2"
  shows "new_entries ptrs ptrs'' off (l # ls1) ls2"
  unfolding new_entries_def
proof (intro allI impI)
  fix m'' n p
  assume m: "ptrs'' = Some m''" "map_of m'' n = Some p"
  consider m' where "ptrs' = Some m'" "map_of m' n = Some p"
    | l1 l2 where "p < 2 ^ 14" "ls1 = l1 @ l2" "l2 \<noteq> []" "p = off + length (encode_labels [l]) + length (encode_labels l1)" "labels n = l2 @ ls2"
    using assms(1) m unfolding new_entries_def by blast
  then show "(\<exists>m. ptrs = Some m \<and> map_of m n = Some p) \<or>
     p < 2 ^ 14 \<and> (\<exists>l1 l2. l # ls1 = l1 @ l2 \<and> l2 \<noteq> [] \<and> p = off + length (encode_labels l1) \<and> labels n = l2 @ ls2)"
  proof cases
    case 1
    then have "(\<exists>m. ptrs = Some m \<and> map_of m n = Some p) \<or> p < 2 ^ 14 \<and> n = start \<and> p = off" using assms(2) by (auto split: if_splits)
    then show ?thesis using assms(3) by (metis append_Nil append_Cons encode_labels_simps(1) list.distinct(1) list.size(3) add_0_right)
  next
    case 2
    then have "l # ls1 = (l # l1) @ l2 \<and> p = off + length (encode_labels (l # l1))" by simp
    with 2 show ?thesis by blast
  qed
qed

lemma loop_labels:
  assumes "packName_loop room compress s ptrs out start lab wasDot rest = Inr (pt, out', ptrs')"
    and "labels start = decode_labels lab rest" "length rest \<le> length start" "lab = [] \<Longrightarrow> wasDot \<or> rest = s \<or> rest = []" "length s > 1"
  shows "\<exists>ls1 ls2. decode_labels lab rest = ls1 @ ls2 \<and> out' = out @ encode_labels ls1 \<and> ok_labels ls1 \<and>
    points_to ptrs pt (length start) ls2 \<and> new_entries ptrs ptrs' (length out) ls1 ls2"
  using assms
proof (induction "length rest" arbitrary: ptrs out start lab wasDot rest rule: less_induct)
  case less
  note IH = less.hyps and P = less.prems
  show ?case
  proof (cases rest)
    case Nil
    then show ?thesis using P(1) by (intro exI [of _ "[]"]) (auto simp: points_to_def new_entries_def)
  next
    case (Cons c r)
    consider (esc) "c = CHR 92" | (dot) "c = CHR ''.''" | (char) "c \<noteq> CHR 92" "c \<noteq> CHR ''.''" by blast
    then show ?thesis
    proof cases
      case esc
      have b: "\<not> length out + 1 > room" using P(1) Cons esc by (auto split: if_splits)
      show ?thesis
      proof (cases "isDDD r")
        case True
        then show ?thesis
          using IH [of "drop 3 r" ptrs out start "lab @ [dddToByte r]" False] P Cons esc b by simp
      next
        case False
        then show ?thesis
          using IH [of "drop 1 r" ptrs out start "lab @ take 1 r" False] P Cons esc b by (cases r) auto
      qed
    next
      case dot
      have ok: "c # r \<noteq> s" "\<not> wasDot" "\<not> length lab \<ge> 64" "\<not> length out + 1 + length lab > room" and lab: "lab \<noteq> []"
        using P(1,4,5) Cons dot by (auto split: if_splits)
      let ?w = "out @ [char_of (length lab)] @ lab"
      have d: "decode_labels lab rest = lab # labels r" using Cons dot by simp
      have next_label: ?thesis
        if run: "packName_loop room compress s q ?w r [] True r = Inr (pt, out', ptrs')"
          and q: "q = ptrs \<or> (\<exists>m. ptrs = Some m \<and> length out < 2 ^ 14 \<and> q = Some (insert_map start (length out) m))" for q
      proof -
        obtain ls1 ls2 where ls: "labels r = ls1 @ ls2" "out' = ?w @ encode_labels ls1" "ok_labels ls1"
          "points_to q pt (length r) ls2" "new_entries q ptrs' (length ?w) ls1 ls2"
          using IH [of r q ?w r "[]" True, OF _ run] P(5) Cons by auto
        have "length r < length start" using P(3) Cons by simp
        then have "points_to ptrs pt (length start) ls2"
          using ls(4) q by (fastforce simp: points_to_def split: option.splits if_splits)
        moreover have "new_entries ptrs ptrs' (length out) (lab # ls1) ls2"
          using ls(1,5) q P(2) d by (intro new_entries_step) auto
        ultimately show ?thesis using ls ok(3) lab d by (intro exI [of _ "lab # ls1"] exI [of _ ls2]) simp
      qed
      show ?thesis
      proof (cases ptrs)
        case None
        then show ?thesis using P(1) Cons dot ok lab next_label [of None] by (simp add: Let_def)
      next
        case (Some m)
        show ?thesis
        proof (cases "map_of m start")
          case None
          then show ?thesis
            using P(1) Cons dot ok lab Some next_label [of ptrs] next_label [of "Some (insert_map start (length out) m)"]
            by (simp add: Let_def split: if_splits)
        next
          case (Some p)
          show ?thesis
          proof (cases compress)
            case True
            then have "pt = Some p \<and> out' = out \<and> ptrs' = ptrs" using P(1) Cons dot ok lab Some \<open>ptrs = Some m\<close> by (simp add: Let_def)
            then show ?thesis
              using P(2) d Some \<open>ptrs = Some m\<close> by (intro exI [of _ "[]"] exI [of _ "lab # labels r"]) (auto simp: points_to_def new_entries_def)
          next
            case False
            then show ?thesis using P(1) Cons dot ok lab Some \<open>ptrs = Some m\<close> next_label [of ptrs] by (simp add: Let_def)
          qed
        qed
      qed
    next
      case char
      then show ?thesis using IH [of r ptrs out start "lab @ [c]" False] P Cons by simp
    qed
  qed
qed


text \<open>Every pointer of the packer leads to a label of the name it is kept for.\<close>

definition ptrs_ok :: "string \<Rightarrow> pointers \<Rightarrow> bool" where
  "ptrs_ok out ptrs \<longleftrightarrow> (\<forall>m n p. ptrs = Some m \<longrightarrow> map_of m n = Some p \<longrightarrow>
     p < 2 ^ 14 \<and> (\<exists>k e. k < length (labels n) \<and> name_at out p k (labels n) e))"

lemma ptrs_ok_append: "ptrs_ok out ptrs \<Longrightarrow> ptrs_ok (out @ later) ptrs"
  unfolding ptrs_ok_def by (blast intro: name_at_append)

lemma ptrs_ok_start [simp]: "ptrs_ok out None" "ptrs_ok out (Some [])"
  by (simp_all add: ptrs_ok_def)

definition name_labels :: "string \<Rightarrow> string list" where
  "name_labels s = (if s = ''.'' then [] else labels s)"

lemma labels_packed:
  assumes "ptrs_ok out ptrs" "points_to ptrs pt len ls2" "new_entries ptrs ptrs' (length out) ls1 ls2" "ok_labels ls1"
    and "out' = out @ encode_labels ls1 @ (case pt of None \<Rightarrow> [char_of (0 :: nat)] | Some p \<Rightarrow> pointer_bytes p)"
  shows "ptrs_ok out' ptrs' \<and> (\<exists>k\<le>length (ls1 @ ls2). name_at out' (length out) k (ls1 @ ls2) (length out'))"
proof -
  have old: "ptrs_ok out' ptrs" using ptrs_ok_append [OF assms(1)] assms(5) by simp
  have end_at: "\<exists>k\<le>length ls2. name_at out' (length out + length (encode_labels ls1)) k ls2 (length out')"
  proof (cases pt)
    case None
    then have "name_at out' (length (out @ encode_labels ls1)) 0 [] (length (out @ encode_labels ls1) + 1)"
      using assms(5) by (intro name_at.root) (simp_all add: nth_append)
    then show ?thesis using None assms(2,5) by (auto simp: points_to_def)
  next
    case (Some p)
    then obtain k e where p: "p < 2 ^ 14" "k < length ls2" "name_at out' p k ls2 e"
      using assms(2) old by (fastforce simp: points_to_def ptrs_ok_def)
    have "p div 256 < 64" using p(1) by simp
    then have "name_at out' (length (out @ encode_labels ls1)) (Suc k) ls2 (length (out @ encode_labels ls1) + 2)"
      using Some assms(5) p pointer_bytes_at [OF p(1)] by (intro name_at.pointer [OF p(3)]) (simp_all add: nth_append)
    then show ?thesis using Some assms(5) p(2) pointer_bytes_at [OF p(1)] by (intro exI [of _ "Suc k"]) simp
  qed
  then obtain k0 where k0: "k0 \<le> length ls2" "name_at out' (length out + length (encode_labels ls1)) k0 ls2 (length out')" by blast
  have at: "name_at out' (length out + length (encode_labels l1)) k0 (l2 @ ls2) (length out')" if "ls1 = l1 @ l2" for l1 l2
    using name_at_encode [of "out @ encode_labels l1" l2 "case pt of None \<Rightarrow> [char_of (0 :: nat)] | Some p \<Rightarrow> pointer_bytes p" k0 ls2 "length out'"]
      k0(2) assms(4) that unfolding assms(5) by (simp add: add.assoc)
  have "p < 2 ^ 14 \<and> (\<exists>k e. k < length (labels n) \<and> name_at out' p k (labels n) e)" if m': "ptrs' = Some m'" "map_of m' n = Some p" for m' n p
  proof -
    consider m where "ptrs = Some m" "map_of m n = Some p"
      | l1 l2 where "p < 2 ^ 14" "ls1 = l1 @ l2" "l2 \<noteq> []" "p = length out + length (encode_labels l1)" "labels n = l2 @ ls2"
      using assms(3) m' unfolding new_entries_def by blast
    then show ?thesis
    proof cases
      case 1
      then show ?thesis using old unfolding ptrs_ok_def by blast
    next
      case 2
      then have "k0 < length (labels n)" using k0(1) by (cases l2) simp_all
      with 2 at show ?thesis by metis
    qed
  qed
  moreover have "k0 \<le> length (ls1 @ ls2)" using k0(1) by simp
  ultimately show ?thesis using at [of "[]" ls1] unfolding ptrs_ok_def by auto
qed

lemma name_packed:
  assumes "packDomainName room s out ptrs compress = Inr (out', ptrs')" "s \<noteq> ''''" "ptrs_ok out ptrs"
  shows "ptrs_ok out' ptrs' \<and> (\<exists>k\<le>length (name_labels s). name_at out' (length out) k (name_labels s) (length out'))"
proof (cases "s = ''.''")
  case True
  then have o: "out' = out @ [char_of (0 :: nat)]" "ptrs' = ptrs"
    using assms(1) by (cases ptrs; auto simp: packDomainName_def IsFqdn_def Let_def split: if_splits)+
  have "name_at out' (length out) 0 [] (length out + 1)" unfolding o by (intro name_at.root) simp_all
  then show ?thesis using True o ptrs_ok_append [OF assms(3)] by (auto simp: name_labels_def)
next
  case False
  obtain pt o1 where l: "packName_loop room compress s ptrs out s [] False s = Inr (pt, o1, ptrs')"
    and o1: "out' = o1 @ (case pt of None \<Rightarrow> [char_of (0 :: nat)] | Some p \<Rightarrow> pointer_bytes p)"
    using assms(1,2) False by (auto simp: packDomainName_def res_bind_Inr_iff split: if_splits option.splits)
  have "ends_dot False s" using assms(1,2) by (auto simp: packDomainName_def IsFqdn_ends_dot_iff split: if_splits)
  then have "length s > 1" using False by (cases s; cases "tl s") auto
  then obtain ls1 ls2 where ls: "labels s = ls1 @ ls2" "o1 = out @ encode_labels ls1" "ok_labels ls1" "points_to ptrs pt (length s) ls2"
    "new_entries ptrs ptrs' (length out) ls1 ls2"
    using loop_labels [OF l] by auto
  with labels_packed [OF assms(3) ls(4,5,3)] o1 False show ?thesis by (simp add: name_labels_def)
qed

text \<open>The text a packed name is read back as, and the names whose bytes and labels are not too many.\<close>

definition read_name :: "string \<Rightarrow> string" where
  "read_name s = (if name_labels s = [] then ''.'' else text_of (name_labels s))"

definition readable :: "string \<Rightarrow> bool" where
  "readable s \<longleftrightarrow> s \<noteq> '''' \<and> length (encode_labels (name_labels s)) \<le> 254 \<and> length (name_labels s) \<le> maxCompressionPointers"

lemma text_of_Nil [simp]: "text_of ls = [] \<longleftrightarrow> ls = []"
  by (cases ls) simp_all

lemma packed_read:
  assumes "packDomainName room s out ptrs compress = Inr (out', ptrs')" "ptrs_ok out ptrs" "readable s"
  shows "ptrs_ok out' ptrs' \<and> UnpackDomainName (out' @ later) (length out) = Inr (read_name s, length out')"
proof -
  obtain k where k: "k \<le> length (name_labels s)" "name_at out' (length out) k (name_labels s) (length out')" "ptrs_ok out' ptrs'"
    using name_packed [OF assms(1) _ assms(2)] assms(3) by (auto simp: readable_def)
  then show ?thesis
    using unpack_name_at [OF name_at_append [OF k(2), of later], of 0 maxDomainNameWireOctets "''''" 0] assms(3)
    by (auto simp: UnpackDomainName_def read_name_def readable_def)
qed


section \<open>Numbers\<close>

lemma be16_bytes: "be16 w = [char_of (unat w div 256), char_of (unat w)]"
proof -
  have "uint (drop_bit 8 w) = int (unat w div 256)" by (simp add: drop_bit_eq_div uint_div_distrib zdiv_int)
  moreover have "uint w = int (unat w)" by simp
  ultimately show ?thesis unfolding be16_def by (simp only: char_of_of_nat)
qed

lemma be32_bytes: "be32 w = [char_of (unat w div 2 ^ 24), char_of (unat w div 2 ^ 16), char_of (unat w div 256), char_of (unat w)]"
proof -
  have "uint (drop_bit 8 w) = int (unat w div 256)" "uint (drop_bit 16 w) = int (unat w div 2 ^ 16)" "uint (drop_bit 24 w) = int (unat w div 2 ^ 24)"
    by (simp_all add: drop_bit_eq_div uint_div_distrib zdiv_int)
  moreover have "uint w = int (unat w)" by simp
  ultimately show ?thesis unfolding be32_def by (simp only: char_of_of_nat)
qed

lemma unpackUint16_be16 [simp]: "unpackUint16 (out @ be16 w @ later) (length out) = Inr (w, length out + 2)"
proof -
  have "unat w < 2 ^ 16" using unsigned_less [of w] by simp
  then have "unat w div 256 mod 256 * 256 + unat w mod 256 = unat w" by simp
  then show ?thesis by (simp add: unpackUint16_def be16_bytes nth_append)
qed

lemma unpackUint32_be32 [simp]: "unpackUint32 (out @ be32 w @ later) (length out) = Inr (w, length out + 4)"
proof -
  have "unat w < 2 ^ 32" using unsigned_less [of w] by simp
  then have "unat w div 2 ^ 24 mod 256 = unat w div 256 div 256 div 256" "unat w div 2 ^ 16 = unat w div 256 div 256"
    by (simp_all add: div_mult2_eq [symmetric])
  then have "((unat w div 2 ^ 24 mod 256 * 256 + unat w div 2 ^ 16 mod 256) * 256 + unat w div 256 mod 256) * 256 + unat w mod 256 = unat w"
    by (simp only: div_mult_mod_eq)
  moreover have "byte_at (out @ be32 w @ later) (length out) = unat w div 2 ^ 24 mod 256"
    "byte_at (out @ be32 w @ later) (length out + 1) = unat w div 2 ^ 16 mod 256"
    "byte_at (out @ be32 w @ later) (length out + 2) = unat w div 256 mod 256"
    "byte_at (out @ be32 w @ later) (length out + 3) = unat w mod 256"
    by (simp_all add: be32_bytes nth_append)
  ultimately show ?thesis unfolding unpackUint32_def by (simp only: of_nat_unat ucast_id) simp
qed

section \<open>Packing at a position\<close>

text \<open>What is packed depends on where it is packed, not on what stands before.\<close>

lemma loop_position:
  "packName_loop room compress s ptrs out start lab wasDot rest = Inr (pt, out', ptrs') \<Longrightarrow>
   \<exists>d. out' = out @ d \<and> (\<forall>o2. length o2 = length out \<longrightarrow> packName_loop room compress s ptrs o2 start lab wasDot rest = Inr (pt, o2 @ d, ptrs'))"
proof (induction "length rest" arbitrary: ptrs out start lab wasDot rest rule: less_induct)
  case less
  note IH = less.hyps and P = less.prems
  show ?case
  proof (cases rest)
    case Nil
    then show ?thesis using P by auto
  next
    case (Cons c r)
    let ?w = "[char_of (length lab)] @ lab"
    have step: ?thesis
      if q: "packName_loop room compress s q (out @ w) start' lab' wasDot' r' = Inr (pt, out', ptrs')" "length r' < length rest"
        and run: "\<And>o2. length o2 = length out \<Longrightarrow> packName_loop room compress s ptrs o2 start lab wasDot rest = packName_loop room compress s q (o2 @ w) start' lab' wasDot' r'"
      for q w start' lab' wasDot' r'
    proof -
      obtain d where d: "out' = (out @ w) @ d"
        "\<And>o2. length o2 = length (out @ w) \<Longrightarrow> packName_loop room compress s q o2 start' lab' wasDot' r' = Inr (pt, o2 @ d, ptrs')"
        using IH [OF q(2,1)] by blast
      then show ?thesis using run by (intro exI [of _ "w @ d"]) simp
    qed
    consider (esc) "c = CHR 92" | (dot) "c = CHR ''.''" | (char) "c \<noteq> CHR 92" "c \<noteq> CHR ''.''" by blast
    then show ?thesis
    proof cases
      case esc
      then show ?thesis
        using P Cons step [of ptrs "[]" start "lab @ [dddToByte r]" False "drop 3 r"] step [of ptrs "[]" start "lab @ take 1 r" False "drop 1 r"]
        by (auto split: if_splits)
    next
      case dot
      have ok: "c # r \<noteq> s \<or> \<not> 1 < length s" "\<not> wasDot" "\<not> length lab \<ge> 64" "\<not> length out + 1 + length lab > room" using P Cons dot by (auto split: if_splits)
      show ?thesis
      proof (cases ptrs)
        case None
        then show ?thesis using P Cons dot ok step [of None ?w r "[]" True r] by (auto simp: Let_def split: if_splits)
      next
        case (Some m)
        show ?thesis
        proof (cases "lab = [] \<and> r = []")
          case True
          then show ?thesis using P Cons dot ok Some step [of ptrs ?w r "[]" True r] by (auto simp: Let_def split: if_splits)
        next
          case False
          then show ?thesis
            using P Cons dot ok Some step [of ptrs ?w r "[]" True r] step [of "Some (insert_map start (length out) m)" ?w r "[]" True r]
            by (cases "map_of m start"; cases compress) (auto simp: Let_def split: if_splits)
        qed
      qed
    next
      case char
      then show ?thesis using P Cons step [of ptrs "[]" start "lab @ [c]" False r] by (auto split: if_splits)
    qed
  qed
qed

lemma name_position:
  assumes "packDomainName room s out ptrs compress = Inr (out', ptrs')"
  shows "\<exists>d. out' = out @ d \<and> (\<forall>o2. length o2 = length out \<longrightarrow> packDomainName room s o2 ptrs compress = Inr (o2 @ d, ptrs'))"
proof (cases "s = ''''")
  case False
  then obtain pt o1 p1 where l: "packName_loop room compress s ptrs out s [] False s = Inr (pt, o1, p1)" and f: "IsFqdn s"
    using assms by (auto simp: packDomainName_def res_bind_Inr_iff split: if_splits)
  obtain d where d: "o1 = out @ d" "\<And>o2. length o2 = length out \<Longrightarrow> packName_loop room compress s ptrs o2 s [] False s = Inr (pt, o2 @ d, p1)"
    using loop_position [OF l] by blast
  show ?thesis using assms False l f d by (auto simp: packDomainName_def split: if_splits option.splits)
qed (use assms in \<open>auto simp: packDomainName_def\<close>)


definition opt_bytes :: "(16 word \<times> string) list \<Rightarrow> string" where
  "opt_bytes os = concat (map (\<lambda>(code, b). be16 code @ be16 (word_of_nat (length b)) @ b) os)"

lemma opt_bytes_simps [simp]: "opt_bytes [] = []" "opt_bytes ((code, b) # os) = be16 code @ be16 (word_of_nat (length b)) @ b @ opt_bytes os"
  by (simp_all add: opt_bytes_def)

lemma packDataOpt_bytes:
  assumes "packDataOpt room os out = Inr out'"
  shows "out' = out @ opt_bytes os \<and> (\<forall>o2. length o2 = length out \<longrightarrow> packDataOpt room os o2 = Inr (o2 @ opt_bytes os))"
  using assms
proof (induction os arbitrary: out)
  case (Cons x os)
  obtain code b where x: "x = (code, b)" by (cases x)
  let ?x = "be16 code @ be16 (word_of_nat (length b)) @ b"
  have r: "packDataOpt room os (out @ ?x) = Inr out'" "\<not> length out + 4 > room" "\<not> length out + 4 + length b > room"
    using Cons.prems x by (auto simp: Let_def split: if_splits)
  then show ?case using Cons.IH [OF r(1)] x by (simp add: Let_def)
qed simp

lemma parts_position:
  "pack_parts room compress ps out ptrs = Inr (out', ptrs') \<Longrightarrow>
   \<exists>d. out' = out @ d \<and> (\<forall>o2. length o2 = length out \<longrightarrow> pack_parts room compress ps o2 ptrs = Inr (o2 @ d, ptrs'))"
proof (induction room compress ps out ptrs rule: pack_parts.induct)
  case (2 room compress b ps out ptrs)
  then obtain d where "out' = (out @ b) @ d" "\<And>o2. length o2 = length (out @ b) \<Longrightarrow> pack_parts room compress ps o2 ptrs = Inr (o2 @ d, ptrs')"
    using 2(1) [of "out @ b"] by (force simp: pack_bytes_def split: if_splits)
  with 2(2) show ?case by (intro exI [of _ "b @ d"]) (auto simp: pack_bytes_def split: if_splits)
next
  case (3 room compress n may ps out ptrs)
  obtain o1 p1 where 1: "packDomainName room n out ptrs (compress \<and> may) = Inr (o1, p1)" "pack_parts room compress ps o1 p1 = Inr (out', ptrs')"
    using 3(2) by (auto simp: res_bind_Inr_iff)
  obtain d1 where d1: "o1 = out @ d1" "\<And>o2. length o2 = length out \<Longrightarrow> packDomainName room n o2 ptrs (compress \<and> may) = Inr (o2 @ d1, p1)"
    using name_position [OF 1(1)] by blast
  obtain d2 where d2: "out' = o1 @ d2" "\<And>o2. length o2 = length o1 \<Longrightarrow> pack_parts room compress ps o2 p1 = Inr (o2 @ d2, ptrs')"
    using 3(1) [OF 1(2)] by blast
  show ?case using d1 d2 by (intro exI [of _ "d1 @ d2"]) simp
qed auto

lemma rdata_position:
  assumes "pack_rdata room compress r out ptrs = Inr (out', ptrs')"
  shows "\<exists>d. out' = out @ d \<and> (\<forall>o2. length o2 = length out \<longrightarrow> pack_rdata room compress r o2 ptrs = Inr (o2 @ d, ptrs'))"
proof (cases r)
  case (RR_A h ip)
  then show ?thesis using assms by (auto simp: with_ptrs_def res_bind_Inr_iff packDataA_def pack_bytes_def split: option.splits if_splits)
next
  case (RR_AAAA h ip)
  then show ?thesis using assms by (auto simp: with_ptrs_def res_bind_Inr_iff packDataAAAA_def pack_bytes_def split: option.splits if_splits)
next
  case (RR_PTR h n)
  then show ?thesis using assms name_position by simp
next
  case (RR_OPT h os)
  then show ?thesis using assms packDataOpt_bytes [of room os out out'] by (auto simp: with_ptrs_def res_bind_Inr_iff)
next
  case (OtherRR h ps)
  then show ?thesis using assms parts_position by simp
qed

section \<open>Records\<close>

text \<open>
  The records that are read back, and as what: an IPv4 address as four bytes, names in their
  canonical text. Of a record of another type the library is asked to read what it packed.
\<close>

abbreviation ip_bytes :: "nat list \<Rightarrow> bool" where "ip_bytes b \<equiv> list_all (\<lambda>x. x < 256) b"

fun readable_rdata :: "rdata_library \<Rightarrow> rr \<Rightarrow> bool" where
  "readable_rdata lib (RR_A h ip) \<longleftrightarrow> hdr_Rrtype h = TypeA \<and> (case ip of None \<Rightarrow> True | Some b \<Rightarrow> To4 ip \<noteq> None \<and> ip_bytes b)"
| "readable_rdata lib (RR_AAAA h ip) \<longleftrightarrow> hdr_Rrtype h = TypeAAAA \<and> (case ip of None \<Rightarrow> True | Some b \<Rightarrow> length b = 16 \<and> ip_bytes b)"
| "readable_rdata lib (RR_PTR h n) \<longleftrightarrow> hdr_Rrtype h = TypePTR \<and> readable n"
| "readable_rdata lib (RR_OPT h os) \<longleftrightarrow> hdr_Rrtype h = TypeOPT \<and> list_all (\<lambda>(code, b). length b < 2 ^ 16 \<and> rl_option lib code b = Some b) os"
| "readable_rdata lib (OtherRR h ps) \<longleftrightarrow> False"

definition read_hdr :: "rr_header \<Rightarrow> rr_header" where
  "read_hdr h = h\<lparr>hdr_Name := read_name (hdr_Name h)\<rparr>"

fun read_rr :: "rr \<Rightarrow> rr" where
  "read_rr (RR_A h ip) = RR_A (read_hdr h) (To4 ip)"
| "read_rr (RR_AAAA h ip) = RR_AAAA (read_hdr h) ip"
| "read_rr (RR_PTR h n) = RR_PTR (read_hdr h) (read_name n)"
| "read_rr (RR_OPT h os) = RR_OPT (read_hdr h) os"
| "read_rr (OtherRR h ps) = OtherRR (read_hdr h) ps"

definition readable_rr :: "rdata_library \<Rightarrow> rr \<Rightarrow> bool" where
  "readable_rr lib r \<longleftrightarrow> readable (hdr_Name (rr_hdr r)) \<and> readable_rdata lib r"

lemma unpackDataOpt_read:
  "list_all (\<lambda>(code, b). length b < 2 ^ 16 \<and> option1 code b = Some b) os \<Longrightarrow>
   unpackDataOpt option1 (out @ opt_bytes os) (length out) =
     Inr (os, length out + length (opt_bytes os))"
proof (induction os arbitrary: out)
  case (Cons x os)
  obtain code b where x: "x = (code, b)" by (cases x)
  let ?rest = "opt_bytes os"
  let ?m = "out @ be16 code @ be16 (word_of_nat (length b)) @ b @ ?rest"
  have l: "length b < 2 ^ 16" "option1 code b = Some b" using Cons.prems x by simp_all
  then have n: "unat (word_of_nat (length b) :: 16 word) = length b" by (simp add: unsigned_of_nat take_bit_nat_eq_self)
  have c: "word_of_nat (byte_at ?m (length out) * 256 + byte_at ?m (length out + 1)) = code"
    using unpackUint16_be16 [of out code "be16 (word_of_nat (length b)) @ b @ ?rest"] by (simp add: unpackUint16_def split: if_splits)
  have o: "byte_at ?m (length out + 2) * 256 + byte_at ?m (length out + 3) = length b"
    using l(1) n by (simp add: be16_bytes nth_append)
  have e: "length (out @ be16 code @ be16 (word_of_nat (length b)) @ b) = length out + 4 + length b" by simp
  have t: "take (length b) (drop (length out + 4) ?m) = b" by (simp add: be16_bytes)
  have "unpackDataOpt option1 ((out @ be16 code @ be16 (word_of_nat (length b)) @ b) @ ?rest) (length (out @ be16 code @ be16 (word_of_nat (length b)) @ b)) =
      Inr (os, length (out @ be16 code @ be16 (word_of_nat (length b)) @ b) + length ?rest)"
    using Cons.prems by (intro Cons.IH) simp
  then have r: "unpackDataOpt option1 ?m (length out + 4 + length b) = Inr (os, length out + 4 + length b + length ?rest)"
    unfolding e by simp
  have "length out < length ?m" "\<not> length out + 4 > length ?m" "\<not> length out + 4 + length b > length ?m" by simp_all
  then have "unpackDataOpt option1 ?m (length out) = Inr ((code, b) # os, length out + 4 + length b + length ?rest)"
    unfolding unpackDataOpt.simps [of option1 ?m "length out"] Let_def c o t by (simp add: l(2) r)
  then show ?case using x by simp
qed (simp add: unpackDataOpt.simps)

lemma unpack_ip_bytes: "ip_bytes b \<Longrightarrow> length b = n \<Longrightarrow> unpack_ip n (out @ map char_of b) (length out) = Inr (b, length out + n)"
  by (simp add: unpack_ip_def list_all_iff map_idI)

text \<open>The data of a record, read at the end of the message up to them.\<close>

lemma rdata_read:
  assumes "pack_rdata room compress r out ptrs = Inr (out @ d, ptrs')" "readable_rdata lib r" "ptrs_ok out ptrs"
  shows "ptrs_ok (out @ d) ptrs' \<and> UnpackRRWithHeader lib (read_hdr (rr_hdr r)) (length d) (out @ d) (length out) = Inr (read_rr r, length (out @ d))"
proof (cases r)
  case (RR_A h ip)
  have p: "ptrs' = ptrs" using assms(1) RR_A by (auto simp: with_ptrs_def res_bind_Inr_iff)
  show ?thesis
  proof (cases "ip")
    case None
    then show ?thesis using assms RR_A p by (auto simp: with_ptrs_def packDataA_def UnpackRRWithHeader_def new_rr_def read_hdr_def To4_def)
  next
    case (Some b)
    then obtain v4 where v4: "To4 ip = Some v4" "length v4 = 4" "ip_bytes v4" "length b = 4 \<or> length b = 16"
      using assms(2) RR_A by (auto simp: To4_def list_all_iff split: if_splits dest: in_set_dropD)
    then have d: "d = map char_of v4"
      using assms(1) RR_A Some by (auto simp: with_ptrs_def res_bind_Inr_iff packDataA_def pack_bytes_def split: if_splits)
    then show ?thesis using assms RR_A v4 p ptrs_ok_append [OF assms(3)] unpack_ip_bytes [OF v4(3,2), of out]
      by (auto simp: UnpackRRWithHeader_def unpack_rdata_def read_hdr_def Let_def)
  qed
next
  case (RR_AAAA h ip)
  have p: "ptrs' = ptrs" using assms(1) RR_AAAA by (auto simp: with_ptrs_def res_bind_Inr_iff)
  show ?thesis
  proof (cases "ip")
    case None
    then show ?thesis using assms RR_AAAA p by (auto simp: with_ptrs_def packDataAAAA_def UnpackRRWithHeader_def new_rr_def read_hdr_def)
  next
    case (Some b)
    then have b: "ip_bytes b" "length b = 16" using assms(2) RR_AAAA by auto
    then have d: "d = map char_of b"
      using assms(1) RR_AAAA Some by (auto simp: with_ptrs_def res_bind_Inr_iff packDataAAAA_def pack_bytes_def split: if_splits)
    then show ?thesis using assms RR_AAAA Some b p ptrs_ok_append [OF assms(3)] unpack_ip_bytes [OF b, of out]
      by (auto simp: UnpackRRWithHeader_def unpack_rdata_def read_hdr_def Let_def)
  qed
next
  case (RR_PTR h n)
  have n: "packDomainName room n out ptrs compress = Inr (out @ d, ptrs')" "readable n" "hdr_Rrtype h = TypePTR" using assms RR_PTR by simp_all
  have "d \<noteq> []"
  proof
    assume "d = []"
    moreover obtain k where "name_at (out @ d) (length out) k (name_labels n) (length (out @ d))"
      using name_packed [OF n(1) _ assms(3)] n(2) by (auto simp: readable_def)
    ultimately have "name_at out (length out) k (name_labels n) (length out)" by simp
    then show False by (cases rule: name_at.cases) auto
  qed
  then show ?thesis using packed_read [OF n(1) assms(3) n(2), of "[]"] n(3) RR_PTR
    by (auto simp: UnpackRRWithHeader_def unpack_rdata_def read_hdr_def Let_def)
next
  case (RR_OPT h os)
  have p: "ptrs' = ptrs" "packDataOpt room os out = Inr (out @ d)" using assms(1) RR_OPT by (auto simp: with_ptrs_def res_bind_Inr_iff)
  have d: "d = opt_bytes os" using packDataOpt_bytes [OF p(2)] by simp
  show ?thesis
  proof (cases os)
    case Nil
    then show ?thesis using assms RR_OPT p d by (auto simp: UnpackRRWithHeader_def new_rr_def read_hdr_def)
  next
    case (Cons x os')
    then have "d \<noteq> []" using d by (cases x) (simp add: be16_bytes)
    then show ?thesis using assms RR_OPT p ptrs_ok_append [OF assms(3)] unpackDataOpt_read [of "rl_option lib" os out] unfolding d
      by (auto simp: UnpackRRWithHeader_def unpack_rdata_def read_hdr_def Let_def)
  qed
qed (use assms(2) in simp)


section \<open>Packing and reading back\<close>

text \<open>A packer of items, with a reader that finds at its place what was packed.\<close>

locale codec =
  fixes pack :: "nat \<Rightarrow> bool \<Rightarrow> 'a \<Rightarrow> string \<times> pointers \<Rightarrow> pack_error + string \<times> pointers"
    and unpack :: "string \<Rightarrow> nat \<Rightarrow> unpack_error + 'a \<times> nat"
    and good :: "'a \<Rightarrow> bool" and canon :: "'a \<Rightarrow> 'a"
  assumes grows: "pack room compress x (out, ptrs) = Inr (out', ptrs') \<Longrightarrow> length out \<le> length out'"
    and read_back: "pack room compress x (out, ptrs) = Inr (out', ptrs') \<Longrightarrow> good x \<Longrightarrow> ptrs_ok out ptrs \<Longrightarrow> length out' < room \<Longrightarrow>
      ptrs_ok out' ptrs' \<and> (\<exists>d. d \<noteq> [] \<and> out' = out @ d) \<and> unpack (out' @ later) (length out) = Inr (canon x, length out')"
begin

lemma all_grow: "pack_all (pack room compress) xs (out, ptrs) = Inr (out', ptrs') \<Longrightarrow> length out \<le> length out'"
proof (induction xs arbitrary: out ptrs)
  case (Cons x xs)
  then obtain o1 p1 where "pack room compress x (out, ptrs) = Inr (o1, p1)" "pack_all (pack room compress) xs (o1, p1) = Inr (out', ptrs')"
    by (auto simp: res_bind_Inr_iff)
  then show ?case using Cons.IH grows by fastforce
qed simp

lemma all_read_back:
  assumes "pack_all (pack room compress) xs (out, ptrs) = Inr (out', ptrs')" "list_all good xs" "ptrs_ok out ptrs" "length out' < room"
  shows "ptrs_ok out' ptrs' \<and> (\<exists>d. out' = out @ d \<and> (d = [] \<longrightarrow> xs = [])) \<and> unpack_slice unpack (length xs) (out' @ later) (length out) = Inr (map canon xs, length out')"
  using assms
proof (induction xs arbitrary: out ptrs)
  case (Cons x xs)
  obtain o1 p1 where p: "pack room compress x (out, ptrs) = Inr (o1, p1)" "pack_all (pack room compress) xs (o1, p1) = Inr (out', ptrs')"
    using Cons.prems(1) by (auto simp: res_bind_Inr_iff)
  have "length o1 < room" using all_grow [OF p(2)] Cons.prems(4) by simp
  with read_back [OF p(1)] Cons.prems obtain d where d: "ptrs_ok o1 p1" "d \<noteq> []" "o1 = out @ d" by fastforce
  then obtain d' where d': "ptrs_ok out' ptrs'" "out' = o1 @ d'" "unpack_slice unpack (length xs) (out' @ later) (length o1) = Inr (map canon xs, length out')"
    using Cons.IH [OF p(2)] Cons.prems by auto
  have "unpack (o1 @ d' @ later) (length out) = Inr (canon x, length o1)"
    using read_back [OF p(1)] Cons.prems \<open>length o1 < room\<close> by simp
  then show ?case using d d' by simp
qed simp

end

definition read_question :: "question \<Rightarrow> question" where
  "read_question q = q\<lparr>qn_Name := read_name (qn_Name q)\<rparr>"

interpretation question_codec: codec pack_question unpackQuestion "\<lambda>q. readable (qn_Name q)" read_question
proof
  fix room compress q out ptrs out' ptrs' later
  assume p: "pack_question room compress q (out, ptrs) = Inr (out', ptrs')"
  then obtain o1 where o1: "packDomainName room (qn_Name q) out ptrs compress = Inr (o1, ptrs')"
    "out' = (o1 @ be16 (qn_Qtype q)) @ be16 (qn_Qclass q)"
    by (auto simp: pack_question_def res_bind_Inr_iff packUint16_Inr)
  obtain d where d: "o1 = out @ d" using name_position [OF o1(1)] by blast
  show "length out \<le> length out'" using o1(2) d by simp
  assume r: "readable (qn_Name q)" and ok: "ptrs_ok out ptrs"
  note n = packed_read [OF o1(1) ok r, of "be16 (qn_Qtype q) @ be16 (qn_Qclass q) @ later"]
  have t: "unpackUint16 (o1 @ be16 (qn_Qtype q) @ be16 (qn_Qclass q) @ later) (length o1) = Inr (qn_Qtype q, length o1 + 2)" by simp
  have c: "unpackUint16 (o1 @ be16 (qn_Qtype q) @ be16 (qn_Qclass q) @ later) (length o1 + 2) = Inr (qn_Qclass q, length o1 + 4)"
    using unpackUint16_be16 [of "o1 @ be16 (qn_Qtype q)" "qn_Qclass q" later] by simp
  have "unpackQuestion (out' @ later) (length out) = Inr (read_question q, length out')"
    unfolding unpackQuestion_def o1(2) append_assoc conjunct2 [OF n] using t c by (simp add: read_question_def)
  then show "ptrs_ok out' ptrs' \<and> (\<exists>d. d \<noteq> [] \<and> out' = out @ d) \<and> unpackQuestion (out' @ later) (length out) = Inr (read_question q, length out')"
    using n o1(2) d ptrs_ok_append [of o1 ptrs'] by (auto simp: be16_bytes)
qed

lemma packRR_grows:
  assumes "packRR room compress r (out, ptrs) = Inr (out', ptrs')"
  shows "length out \<le> length out'"
proof -
  obtain o1 p1 o2 where o: "packHeader room compress (rr_hdr r) out ptrs = Inr (o1, p1)" "pack_rdata room compress r o1 p1 = Inr (o2, ptrs')"
    "out' = put16 (length o1 - 2) (word_of_nat (length o2 - length o1)) o2"
    using assms by (auto simp: packRR_def res_bind_Inr_iff Let_def split: if_splits)
  have "\<exists>d. o1 = out @ d"
  proof (cases "length out = room")
    case False
    then obtain nm where "packDomainName room (hdr_Name (rr_hdr r)) out ptrs compress = Inr (nm, p1)" "\<exists>d. o1 = nm @ d"
      using o(1) by (auto simp: packHeader_def res_bind_Inr_iff packUint16_Inr packUint32_Inr)
    then show ?thesis using name_position [of room "hdr_Name (rr_hdr r)" out ptrs compress nm p1] by auto
  qed (use o(1) in \<open>simp add: packHeader_def\<close>)
  moreover have "\<exists>d. o2 = o1 @ d" using rdata_position [OF o(2)] by blast
  moreover have "length o2 \<le> length out'" unfolding o(3) put16_def by simp
  ultimately show ?thesis by auto
qed

lemma packRR_read:
  assumes "packRR room compress r (out, ptrs) = Inr (out', ptrs')" "readable_rr lib r" "ptrs_ok out ptrs" "length out' < room"
  shows "ptrs_ok out' ptrs' \<and> (\<exists>d. d \<noteq> [] \<and> out' = out @ d) \<and> UnpackRR lib (out' @ later) (length out) = Inr (read_rr r, length out')"
proof -
  let ?h = "rr_hdr r"
  obtain o1 p1 o2 where o: "packHeader room compress ?h out ptrs = Inr (o1, p1)" "pack_rdata room compress r o1 p1 = Inr (o2, ptrs')"
    "uint (word_of_nat (length o2 - length o1) :: 16 word) = int (length o2 - length o1)"
    "out' = put16 (length o1 - 2) (word_of_nat (length o2 - length o1)) o2"
    using assms(1) by (auto simp: packRR_def res_bind_Inr_iff Let_def split: if_splits)
  have "length out \<noteq> room" using packRR_grows [OF assms(1)] assms(4) by simp
  then obtain nm where nm: "packDomainName room (hdr_Name ?h) out ptrs compress = Inr (nm, p1)"
    "o1 = nm @ be16 (hdr_Rrtype ?h) @ be16 (hdr_Class ?h) @ be32 (hdr_Ttl ?h) @ be16 0"
    using o(1) by (auto simp: packHeader_def res_bind_Inr_iff packUint16_Inr packUint32_Inr)
  obtain d where d: "o2 = o1 @ d" "\<And>o3. length o3 = length o1 \<Longrightarrow> pack_rdata room compress r o3 p1 = Inr (o3 @ d, ptrs')"
    using rdata_position [OF o(2)] by blast
  define len where "len = (word_of_nat (length d) :: 16 word)"
  have "length o2 - length o1 = length d" using d(1) by simp
  then have "int (unat len) = int (length d)" using o(3) by (simp add: len_def)
  then have len: "unat len = length d" by linarith
  define front where "front = nm @ be16 (hdr_Rrtype ?h) @ be16 (hdr_Class ?h) @ be32 (hdr_Ttl ?h) @ be16 len"
  have out': "out' = front @ d" using o(4) d(1) nm(2) by (simp add: front_def put16_def len_def)
  have ok: "readable (hdr_Name ?h)" "readable_rdata lib r" using assms(2) by (simp_all add: readable_rr_def)
  note name = packed_read [OF nm(1) assms(3) ok(1), of "be16 (hdr_Rrtype ?h) @ be16 (hdr_Class ?h) @ be32 (hdr_Ttl ?h) @ be16 len @ d @ later"]
  have front_ok: "ptrs_ok front p1" using name ptrs_ok_append unfolding front_def by blast
  have rd: "ptrs_ok (front @ d) ptrs'" "UnpackRRWithHeader lib (read_hdr ?h) (length d) (front @ d) (length front) = Inr (read_rr r, length (front @ d))"
    using rdata_read [OF d(2) ok(2) front_ok] nm(2) by (simp_all add: front_def)
  obtain d0 where d0: "nm = out @ d0" using name_position [OF nm(1)] by blast
  define m where "m = nm @ be16 (hdr_Rrtype ?h) @ be16 (hdr_Class ?h) @ be32 (hdr_Ttl ?h) @ be16 len @ d @ later"
  have u: "unpackUint16 m (length nm) = Inr (hdr_Rrtype ?h, length nm + 2)" "unpackUint16 m (length nm + 2) = Inr (hdr_Class ?h, length nm + 4)"
    "unpackUint32 m (length nm + 4) = Inr (hdr_Ttl ?h, length nm + 8)" "unpackUint16 m (length nm + 8) = Inr (len, length nm + 10)"
    using unpackUint16_be16 [of "nm @ be16 (hdr_Rrtype ?h)"] unpackUint32_be32 [of "nm @ be16 (hdr_Rrtype ?h) @ be16 (hdr_Class ?h)"]
      unpackUint16_be16 [of "nm @ be16 (hdr_Rrtype ?h) @ be16 (hdr_Class ?h) @ be32 (hdr_Ttl ?h)"] by (simp_all add: m_def)
  have m: "length out \<noteq> length m" "\<not> length nm + 10 + unat len > length m" "length front = length nm + 10" using d0 len by (simp_all add: m_def front_def)
  have "UnpackDomainName m (length out) = Inr (read_name (hdr_Name ?h), length nm)" using name by (simp add: m_def)
  then have "unpackHeader m (length out) = Inr (read_hdr ?h, length d, length front, take (length front + length d) m)"
    unfolding unpackHeader_def if_not_P [OF m(1)] using m(2) by (simp only: res_bind.simps prod.case u if_False) (simp add: len m(3) read_hdr_def)
  moreover have "m = (front @ d) @ later" by (simp add: m_def front_def)
  ultimately have "UnpackRR lib (out' @ later) (length out) = Inr (read_rr r, length out')"
    using rd(2) out' by (simp add: UnpackRR_def)
  then show ?thesis using rd(1) out' d0 by (auto simp: front_def be16_bytes)
qed

interpretation record_codec: codec packRR "UnpackRR lib" "readable_rr lib" read_rr for lib
  by unfold_locales (erule packRR_grows, erule (3) packRR_read)


section \<open>Messages\<close>

lemma unpack_words_be16:
  "unpack_words (length ws) (out @ concat (map be16 ws) @ later) (length out) = Inr (ws, length out + 2 * length ws)"
proof (induction ws arbitrary: out)
  case (Cons w ws)
  have "unpack_words (length ws) ((out @ be16 w) @ concat (map be16 ws) @ later) (length (out @ be16 w)) = Inr (ws, length (out @ be16 w) + 2 * length ws)"
    by (rule Cons.IH)
  then show ?case using unpackUint16_be16 [of out w "concat (map be16 ws) @ later"] by simp
qed simp

lemma pack16_bytes: "pack_all (packUint16 room) ws out = Inr out' \<Longrightarrow> out' = out @ concat (map be16 ws)"
  by (induction ws arbitrary: out) (fastforce simp: res_bind_Inr_iff packUint16_Inr)+

text \<open>The bits of the header.\<close>

definition header_bit :: "msg \<Rightarrow> nat \<Rightarrow> bool" where
  "header_bit m n \<longleftrightarrow>
     (if n < 4 then bit (m_Rcode m) n
      else if n < 11 then [m_CheckingDisabled m, m_AuthenticatedData m, m_Zero m, m_RecursionAvailable m, m_RecursionDesired m, m_Truncated m, m_Authoritative m] ! (n - 4)
      else if n < 15 then bit (m_Opcode m) (n - 11) else n = 15 \<and> m_Response m)"

lemma small_bits: "0 \<le> (k :: int) \<Longrightarrow> k < 2 ^ n \<Longrightarrow> bit k i \<Longrightarrow> i < n"
  by (metis bit_take_bit_iff take_bit_int_eq_self)

lemma bit_flag: "bit (if b then 2 ^ k else 0 :: 16 word) n \<longleftrightarrow> b \<and> n = k \<and> k < 16"
  by (auto simp: bit_exp_iff)

lemma bit_header_bits:
  assumes "0 \<le> m_Opcode m" "m_Opcode m < 16"
  shows "bit (header_bits m) n \<longleftrightarrow> header_bit m n"
proof -
  have m: "(0xF :: 16 word) = mask 4" by (simp add: mask_eq_exp_minus_1)
  have f: "(0x8000 :: 16 word) = 2 ^ 15" "(0x0400 :: 16 word) = 2 ^ 10" "(0x0200 :: 16 word) = 2 ^ 9" "(0x0100 :: 16 word) = 2 ^ 8"
    "(0x0080 :: 16 word) = 2 ^ 7" "(0x0040 :: 16 word) = 2 ^ 6" "(0x0020 :: 16 word) = 2 ^ 5" "(0x0010 :: 16 word) = 2 ^ 4" by simp_all
  have o: "bit (m_Opcode m) i \<Longrightarrow> i < 4" for i using small_bits [of "m_Opcode m" 4 i] assms by simp
  have e: "bit (header_bits m) n \<longleftrightarrow>
     11 \<le> n \<and> n < 16 \<and> bit (m_Opcode m) (n - 11) \<or> n < 16 \<and> bit (m_Rcode m) n \<and> n < 4 \<or> m_Response m \<and> n = 15 \<or> m_Authoritative m \<and> n = 10 \<or>
     m_Truncated m \<and> n = 9 \<or> m_RecursionDesired m \<and> n = 8 \<or> m_RecursionAvailable m \<and> n = 7 \<or> m_Zero m \<and> n = 6 \<or>
     m_AuthenticatedData m \<and> n = 5 \<or> m_CheckingDisabled m \<and> n = 4"
    unfolding header_bits_def m f bit_or_iff bit_flag
    by (simp add: bit_push_bit_iff bit_and_iff bit_mask_iff bit_word_of_int_iff less_diff_conv2 conj_ac cong: conj_cong)
  consider "n < 4" | "n \<in> {4, 5, 6, 7, 8, 9, 10}" | "11 \<le> n" "n < 15" | "n = 15" | "n > 15" by fastforce
  then show ?thesis
  proof cases
    case 2
    then show ?thesis unfolding e header_bit_def by (elim insertE; simp)
  next
    case 4
    then show ?thesis using o [of 4] unfolding e header_bit_def by auto
  qed (unfold e header_bit_def, simp_all)
qed

lemma setHdr_header_bits:
  assumes "0 \<le> m_Opcode m" "m_Opcode m < 16"
  shows "setHdr (m_Id m) (header_bits m) =
    m\<lparr>m_Rcode := m_Rcode m AND 0xF, m_Compress := False, m_Question := [], m_Answer := [], m_Ns := [], m_Extra := []\<rparr>"
proof -
  note b = bit_header_bits [OF assms]
  have and_iff: "w AND 2 ^ k \<noteq> 0 \<longleftrightarrow> bit w k" for w :: "16 word" and k by (simp add: bit_iff_and_push_bit_not_eq_0 push_bit_eq_mult)
  have f: "(0x8000 :: 16 word) = 2 ^ 15" "(0x0400 :: 16 word) = 2 ^ 10" "(0x0200 :: 16 word) = 2 ^ 9" "(0x0100 :: 16 word) = 2 ^ 8"
    "(0x0080 :: 16 word) = 2 ^ 7" "(0x0040 :: 16 word) = 2 ^ 6" "(0x0020 :: 16 word) = 2 ^ 5" "(0x0010 :: 16 word) = 2 ^ 4" by simp_all
  have m: "(0xF :: 16 word) = mask 4" "(0xF :: int) = mask 4" by (simp_all add: mask_eq_exp_minus_1)
  have "uint (drop_bit 11 (header_bits m)) AND 0xF = m_Opcode m"
  proof (rule bit_eqI)
    fix n
    show "bit (uint (drop_bit 11 (header_bits m)) AND 0xF) n = bit (m_Opcode m) n"
      using small_bits [of "m_Opcode m" 4 n] assms unfolding m
      by (auto simp: bit_and_iff bit_mask_iff bit_uint_iff bit_drop_bit_eq b header_bit_def)
  qed
  moreover have "uint (header_bits m AND 0xF) = m_Rcode m AND 0xF"
    unfolding m by (rule bit_eqI) (auto simp: bit_and_iff bit_mask_iff bit_uint_iff b header_bit_def)
  ultimately show ?thesis
    unfolding setHdr_def f and_iff b by (simp add: new_msg_def header_bit_def)
qed


lemma extended_rcode:
  assumes "0 \<le> r" "r \<le> 0xFFF"
  shows "(r AND 0xF) OR ExtendedRcode (SetExtendedRcode (word_of_int r) (RR_OPT h os)) = r"
proof (rule bit_eqI)
  fix n
  have m: "(0x00FFFFFF :: 32 word) = mask 24" "(0xFF000000 :: 32 word) = push_bit 24 (mask 8)" "(0xF :: int) = mask 4"
    by (simp_all add: mask_eq_exp_minus_1 push_bit_eq_mult)
  have n: "bit r n \<Longrightarrow> n < 12" using small_bits [of r 12 n] assms by simp
  have "bit (ExtendedRcode (SetExtendedRcode (word_of_int r) (RR_OPT h os))) n \<longleftrightarrow> 4 \<le> n \<and> n < 12 \<and> bit r n"
    unfolding ExtendedRcode_def SetExtendedRcode_def m
    by (auto simp: bit_push_bit_iff bit_and_iff bit_or_iff bit_mask_iff bit_uint_iff bit_drop_bit_eq bit_ucast_iff bit_word_of_int_iff)
  then show "bit ((r AND 0xF) OR ExtendedRcode (SetExtendedRcode (word_of_int r) (RR_OPT h os))) n = bit r n"
    using n unfolding m by (auto simp: bit_or_iff bit_and_iff bit_mask_iff)
qed

lemma find_rev_update_last:
  "(\<And>x. P (f x) = P x) \<Longrightarrow> find P (rev (update_last P f xs)) = map_option f (find P (rev xs))"
proof (induction xs)
  case (Cons x xs)
  have f: "find P (rev xs) = None \<longleftrightarrow> \<not> list_ex P xs" for xs by (auto simp: find_None_iff list_ex_iff)
  have a: "find P (ys @ [y]) = (case find P ys of None \<Rightarrow> if P y then Some y else None | Some z \<Rightarrow> Some z)" for ys y
    by (induction ys) simp_all
  have IH: "find P (rev (update_last P f xs)) = map_option f (find P (rev xs))" using Cons by blast
  show ?case
  proof (cases "find P (rev xs)")
    case None
    then show ?thesis using IH f [of xs] Cons.prems by (simp add: a)
  next
    case (Some z)
    then have "list_ex P xs" using f [of xs] by auto
    then show ?thesis using IH Some by (simp add: a)
  qed
qed simp

lemma find_rev_map: "(\<And>x. P (g x) = P x) \<Longrightarrow> find P (rev (map g xs)) = map_option g (find P (rev xs))"
proof -
  assume "\<And>x. P (g x) = P x"
  then have "find P (map g ys) = map_option g (find P ys)" for ys by (induction ys) simp_all
  then show ?thesis by (simp add: rev_map)
qed

lemma rr_type_read [simp]: "rr_type (read_rr r) = rr_type r"
  by (cases r) (simp_all add: read_hdr_def)

lemma rr_type_SetExtendedRcode [simp]: "rr_type (SetExtendedRcode v r) = rr_type r"
  by (cases r) (simp_all add: SetExtendedRcode_def)

text \<open>The messages that are read back, and as what.\<close>

definition readable_msg :: "rdata_library \<Rightarrow> msg \<Rightarrow> bool" where
  "readable_msg lib m \<longleftrightarrow> list_all (\<lambda>q. readable (qn_Name q)) (m_Question m) \<and> list_all (readable_rr lib) (all_records m) \<and>
     list_all (\<lambda>n. n < 2 ^ 16) [length (m_Question m), length (m_Answer m), length (m_Ns m), length (m_Extra m)] \<and> 0 \<le> m_Opcode m \<and> m_Opcode m < 16"

definition read_msg :: "msg \<Rightarrow> msg" where
  "read_msg m = m\<lparr>m_Compress := False, m_Question := map read_question (m_Question m), m_Answer := map read_rr (m_Answer m),
     m_Ns := map read_rr (m_Ns m), m_Extra := map read_rr (sent_extra m)\<rparr>"

lemma read_rcode:
  assumes "0 \<le> m_Rcode m" "m_Rcode m \<le> (if IsEdns0 m = None then 0xF else 0xFFF)" "list_all (readable_rr lib) (m_Extra m)"
    and "m' = (read_msg m)\<lparr>m_Rcode := m_Rcode m AND 0xF\<rparr>"
  shows "(case IsEdns0 m' of None \<Rightarrow> m' | Some opt \<Rightarrow> m'\<lparr>m_Rcode := m_Rcode m' OR ExtendedRcode opt\<rparr>) = read_msg m"
proof -
  let ?P = "\<lambda>r. rr_type r = TypeOPT"
  have e: "IsEdns0 m' = map_option (read_rr \<circ> SetExtendedRcode (word_of_int (m_Rcode m))) (IsEdns0 m)"
    using find_rev_update_last [of ?P "SetExtendedRcode (word_of_int (m_Rcode m))" "m_Extra m"] find_rev_map [of ?P read_rr]
    by (simp add: IsEdns0_def assms(4) read_msg_def sent_extra_def option.map_comp)
  show ?thesis
  proof (cases "IsEdns0 m")
    case None
    then have "m_Rcode m AND 0xF = m_Rcode m"
      using assms(1,2) take_bit_int_eq_self [of "m_Rcode m" 4] by (simp add: take_bit_eq_mask [symmetric] mask_eq_exp_minus_1 take_bit_eq_mask)
    then show ?thesis using None e assms(4) by (simp add: read_msg_def)
  next
    case (Some opt)
    then have "opt \<in> set (m_Extra m)" "?P opt" using find_SomeD [of ?P "rev (m_Extra m)" opt] by (simp_all add: IsEdns0_def)
    then obtain h os where o: "opt = RR_OPT h os" using assms(3) by (cases opt rule: rr.exhaust) (auto simp: list_all_iff readable_rr_def)
    have "ExtendedRcode (read_rr (SetExtendedRcode v opt)) = ExtendedRcode (SetExtendedRcode v opt)" for v
      by (simp add: o SetExtendedRcode_def ExtendedRcode_def read_hdr_def)
    then show ?thesis using Some e assms(1,2,4) extended_rcode [of "m_Rcode m" h os] o by (simp add: read_msg_def)
  qed
qed

lemma readable_sent_extra: "list_all (readable_rr lib) (m_Extra m) \<Longrightarrow> list_all (readable_rr lib) (sent_extra m)"
proof -
  have "readable_rr lib r \<Longrightarrow> readable_rr lib (SetExtendedRcode v r)" for v r
    by (cases r) (auto simp: readable_rr_def SetExtendedRcode_def)
  then show "list_all (readable_rr lib) (m_Extra m) \<Longrightarrow> list_all (readable_rr lib) (sent_extra m)"
    by (simp add: sent_extra_def list_all_update_last)
qed


lemma Pack_stages:
  assumes "Pack m = Inr bytes"
  obtains compress ptrs o1 p1 o2 p2 o3 p3 p4 where "0 \<le> m_Rcode m" "m_Rcode m \<le> (if IsEdns0 m = None then 0xF else 0xFFF)" "ptrs_ok [] ptrs"
    "pack_all (pack_question (msg_room m) compress) (m_Question m) (concat (map be16 (header_words m)), ptrs) = Inr (o1, p1)"
    "pack_all (packRR (msg_room m) compress) (m_Answer m) (o1, p1) = Inr (o2, p2)"
    "pack_all (packRR (msg_room m) compress) (m_Ns m) (o2, p2) = Inr (o3, p3)"
    "pack_all (packRR (msg_room m) compress) (sent_extra m) (o3, p3) = Inr (bytes, p4)"
proof -
  define c where "c = (m_Compress m \<and> isCompressible m)"
  define ps where "ps = (if c then Some [] else None :: pointers)"
  have "packBufferWithCompressionMap m ps c = Inr bytes" using assms by (auto simp: Pack_def c_def ps_def split: if_splits)
  then obtain o0 o1 p1 o2 p2 o3 p3 p4 where r: "0 \<le> m_Rcode m" "m_Rcode m \<le> (if IsEdns0 m = None then 0xF else 0xFFF)"
    and o0: "pack_all (packUint16 (msg_room m)) (header_words m) [] = Inr o0"
    and p: "pack_all (pack_question (msg_room m) c) (m_Question m) (o0, ps) = Inr (o1, p1)"
    "pack_all (packRR (msg_room m) c) (m_Answer m) (o1, p1) = Inr (o2, p2)"
    "pack_all (packRR (msg_room m) c) (m_Ns m) (o2, p2) = Inr (o3, p3)"
    "pack_all (packRR (msg_room m) c) (sent_extra m) (o3, p3) = Inr (bytes, p4)"
    unfolding packed_stages by blast
  have "o0 = concat (map be16 (header_words m))" using pack16_bytes [OF o0] by simp
  moreover have "ptrs_ok [] ps" by (simp add: ps_def)
  ultimately show thesis using that [OF r _ _ p(2-4)] p(1) by blast
qed

lemma length_sent_extra [simp]: "length (sent_extra m) = length (m_Extra m)"
proof -
  have "length (update_last P f xs) = length xs" for P :: "rr \<Rightarrow> bool" and f xs by (induction xs) simp_all
  then show ?thesis by (simp add: sent_extra_def)
qed

text \<open>The sections of a message, read after its header.\<close>

lemma sections_read:
  assumes "readable_msg lib m" "0 \<le> m_Rcode m" "m_Rcode m \<le> (if IsEdns0 m = None then 0xF else 0xFFF)"
    and "off = length bytes \<Longrightarrow> m_Question m = [] \<and> m_Answer m = [] \<and> m_Ns m = [] \<and> m_Extra m = []"
    and "unpack_slice unpackQuestion (length (m_Question m)) bytes off = Inr (map read_question (m_Question m), off1)"
    and "unpack_slice (UnpackRR lib) (length (m_Answer m)) bytes off1 = Inr (map read_rr (m_Answer m), off2)"
    and "unpack_slice (UnpackRR lib) (length (m_Ns m)) bytes off2 = Inr (map read_rr (m_Ns m), off3)"
    and "unpack_slice (UnpackRR lib) (length (m_Extra m)) bytes off3 = Inr (map read_rr (sent_extra m), off4)"
  shows "unpack_sections lib (drop 2 (header_words m)) bytes off (setHdr (header_words m ! 0) (header_words m ! 1)) = Inr (read_msg m)"
proof -
  let ?m = "(read_msg m)\<lparr>m_Rcode := m_Rcode m AND 0xF\<rparr>"
  have n: "unat (word_of_nat k :: 16 word) = k" if "k < 2 ^ 16" for k using that by (simp add: unsigned_of_nat take_bit_nat_eq_self)
  have w: "unat (drop 2 (header_words m) ! 0) = length (m_Question m)" "unat (drop 2 (header_words m) ! 1) = length (m_Answer m)"
    "unat (drop 2 (header_words m) ! 2) = length (m_Ns m)" "unat (drop 2 (header_words m) ! 3) = length (m_Extra m)"
    using assms(1) by (simp_all add: header_words_def readable_msg_def n)
  have hd: "setHdr (header_words m ! 0) (header_words m ! 1) =
      m\<lparr>m_Rcode := m_Rcode m AND 0xF, m_Compress := False, m_Question := [], m_Answer := [], m_Ns := [], m_Extra := []\<rparr>"
    using setHdr_header_bits [of m] assms(1) by (simp add: header_words_def readable_msg_def)
  have g: "list_all (readable_rr lib) (m_Extra m)" using assms(1) by (simp add: readable_msg_def all_records_def)
  note r = read_rcode [OF assms(2,3) g refl]
  show ?thesis
  proof (cases "off = length bytes")
    case True
    then have e: "m_Question m = []" "m_Answer m = []" "m_Ns m = []" "m_Extra m = []" using assms(4) by simp_all
    then have "IsEdns0 ?m = None" by (simp add: IsEdns0_def read_msg_def sent_extra_def)
    then have "read_msg m = ?m" using r by simp
    moreover have "unpack_sections lib (drop 2 (header_words m)) bytes off (setHdr (header_words m ! 0) (header_words m ! 1)) = Inr ?m"
      using True e unfolding unpack_sections_def hd by (simp add: read_msg_def sent_extra_def)
    ultimately show ?thesis by simp
  next
    case False
    have m: "(m\<lparr>m_Rcode := m_Rcode m AND 0xF, m_Compress := False, m_Question := [], m_Answer := [], m_Ns := [], m_Extra := []\<rparr>)
       \<lparr>m_Question := map read_question (m_Question m), m_Answer := map read_rr (m_Answer m), m_Ns := map read_rr (m_Ns m), m_Extra := map read_rr (sent_extra m)\<rparr> = ?m"
      by (simp add: read_msg_def)
    show ?thesis
      unfolding unpack_sections_def if_not_P [OF False] w hd assms(5-8) res_bind.simps prod.case Let_def m r ..
  qed
qed

text \<open>What was packed is read back, whatever the pointers that compress it.\<close>

lemma Unpack_Pack:
  assumes "Pack m = Inr bytes" "readable_msg lib m"
  shows "Unpack lib bytes = Inr (read_msg m)"
proof -
  obtain compress ptrs o1 p1 o2 p2 o3 p3 p4 where r: "0 \<le> m_Rcode m" "m_Rcode m \<le> (if IsEdns0 m = None then 0xF else 0xFFF)" and ok: "ptrs_ok [] ptrs"
    and p: "pack_all (pack_question (msg_room m) compress) (m_Question m) (concat (map be16 (header_words m)), ptrs) = Inr (o1, p1)"
    "pack_all (packRR (msg_room m) compress) (m_Answer m) (o1, p1) = Inr (o2, p2)"
    "pack_all (packRR (msg_room m) compress) (m_Ns m) (o2, p2) = Inr (o3, p3)"
    "pack_all (packRR (msg_room m) compress) (sent_extra m) (o3, p3) = Inr (bytes, p4)"
    using Pack_stages [OF assms(1)] by metis
  define o0 where "o0 = concat (map be16 (header_words m))"
  have g: "list_all (\<lambda>q. readable (qn_Name q)) (m_Question m)" "list_all (readable_rr lib) (m_Answer m)" "list_all (readable_rr lib) (m_Ns m)"
    "list_all (readable_rr lib) (sent_extra m)"
    using assms(2) readable_sent_extra [of lib m] by (auto simp: readable_msg_def all_records_def)
  have room: "length bytes < msg_room m" by (rule Pack_room [OF assms(1)])
  have l: "length o1 < msg_room m" "length o2 < msg_room m" "length o3 < msg_room m"
    using room record_codec.all_grow [OF p(2)] record_codec.all_grow [OF p(3)] record_codec.all_grow [OF p(4)] by simp_all
  have ok0: "ptrs_ok o0 ptrs" using ptrs_ok_append [OF ok, of o0] by simp
  obtain d1 where 1: "ptrs_ok o1 p1" "o1 = o0 @ d1" "d1 = [] \<Longrightarrow> m_Question m = []"
    "\<And>later. unpack_slice unpackQuestion (length (m_Question m)) (o1 @ later) (length o0) = Inr (map read_question (m_Question m), length o1)"
    using question_codec.all_read_back [OF p(1) [folded o0_def] g(1) ok0 l(1)] by metis
  obtain d2 where 2: "ptrs_ok o2 p2" "o2 = o1 @ d2" "d2 = [] \<Longrightarrow> m_Answer m = []"
    "\<And>later. unpack_slice (UnpackRR lib) (length (m_Answer m)) (o2 @ later) (length o1) = Inr (map read_rr (m_Answer m), length o2)"
    using record_codec.all_read_back [OF p(2) g(2) 1(1) l(2)] by metis
  obtain d3 where 3: "ptrs_ok o3 p3" "o3 = o2 @ d3" "d3 = [] \<Longrightarrow> m_Ns m = []"
    "\<And>later. unpack_slice (UnpackRR lib) (length (m_Ns m)) (o3 @ later) (length o2) = Inr (map read_rr (m_Ns m), length o3)"
    using record_codec.all_read_back [OF p(3) g(3) 2(1) l(3)] by metis
  obtain d4 where 4: "bytes = o3 @ d4" "d4 = [] \<Longrightarrow> sent_extra m = []"
    "\<And>later. unpack_slice (UnpackRR lib) (length (sent_extra m)) (bytes @ later) (length o3) = Inr (map read_rr (sent_extra m), length bytes)"
    using record_codec.all_read_back [OF p(4) g(4) 3(1) room] by metis
  have h: "length o0 = 12" "length (header_words m) = 6" by (simp_all add: o0_def header_words_def)
  have x: "sent_extra m = [] \<Longrightarrow> m_Extra m = []" by (metis length_sent_extra length_0_conv)
  have "unpack_words 6 bytes 0 = Inr (header_words m, 12)"
    using unpack_words_be16 [of "header_words m" "[]" "d1 @ d2 @ d3 @ d4"] 1(2) 2(2) 3(2) 4(1) h by (simp add: o0_def)
  moreover have "unpack_sections lib (drop 2 (header_words m)) bytes 12 (setHdr (header_words m ! 0) (header_words m ! 1)) = Inr (read_msg m)"
  proof (rule sections_read [OF assms(2) r, where ?off1.0 = "length o1" and ?off2.0 = "length o2" and ?off3.0 = "length o3" and ?off4.0 = "length bytes"])
    show "12 = length bytes \<Longrightarrow> m_Question m = [] \<and> m_Answer m = [] \<and> m_Ns m = [] \<and> m_Extra m = []"
      using 1(2,3) 2(2,3) 3(2,3) 4(1,2) h(1) x by simp
  qed (use 1(4) [of "d2 @ d3 @ d4"] 2(4) [of "d3 @ d4"] 3(4) [of d4] 4(3) [of "[]"] 1(2) 2(2) 3(2) 4(1) h(1) in simp_all)
  ultimately show ?thesis by (simp add: Unpack_def)
qed


section \<open>Replies read by the client\<close>

text \<open>
  The names without escapes that a message can hold: they are read as they were written.
  A name of 127 labels of one byte is left out, the only length at which a
  chain of pointers can exceed the number that the reader follows.
\<close>

definition plain_name :: "string \<Rightarrow> bool" where
  "plain_name s \<longleftrightarrow> s \<noteq> '''' \<and> good_name s \<and> list_all (\<lambda>c. c = CHR ''.'' \<or> \<not> isDomainNameLabelSpecial c \<and> \<not> unprintable c) s \<and>
     length s \<le> 254 \<and> length (filter (\<lambda>c. c = CHR ''.'') s) \<le> maxCompressionPointers"

lemma label_text_plain: "list_all (\<lambda>c. \<not> isDomainNameLabelSpecial c \<and> \<not> unprintable c) l \<Longrightarrow> label_text l = l"
  by (induction l) (simp_all add: label_text_def)

lemma plain_labels:
  assumes "list_all (\<lambda>c. c = CHR ''.'' \<or> \<not> isDomainNameLabelSpecial c \<and> \<not> unprintable c) s" "s \<noteq> ''''" "last s = CHR ''.''"
    and "list_all (\<lambda>c. \<not> isDomainNameLabelSpecial c \<and> \<not> unprintable c) lab"
  shows "text_of (decode_labels lab s) = lab @ s \<and> length (encode_labels (decode_labels lab s)) = length lab + length s \<and>
    length (decode_labels lab s) = length (filter (\<lambda>c. c = CHR ''.'') s)"
  using assms
proof (induction s arbitrary: lab)
  case (Cons c s)
  have 92: "c \<noteq> CHR 92" using Cons.prems(1) by (auto simp: isDomainNameLabelSpecial_def)
  show ?case
  proof (cases "c = CHR ''.''")
    case True
    then show ?thesis using Cons.IH [of "[]"] Cons.prems label_text_plain [OF Cons.prems(4)] by (cases "s = []") simp_all
  next
    case False
    then have "s \<noteq> []" using Cons.prems(3) by auto
    then show ?thesis using Cons.IH [of "lab @ [c]"] Cons.prems False 92 by simp
  qed
qed simp

lemma plain_name_read:
  assumes "plain_name s"
  shows "readable s" "read_name s = s" "good_name s" "escapedNameLen s \<le> 254"
proof -
  show "good_name s" using assms by (simp add: plain_name_def)
  have "isDomainNameLabelSpecial (CHR 92)" by (simp add: isDomainNameLabelSpecial_def)
  moreover have "\<forall>c\<in>set s. c = CHR ''.'' \<or> \<not> isDomainNameLabelSpecial c" using assms by (auto simp: plain_name_def list_all_iff)
  ultimately have "CHR 92 \<notin> set s" by force
  then show "escapedNameLen s \<le> 254" using escapedNameLen_plain [of s] assms by (simp add: plain_name_def)
  have "s = ''.'' \<or> ends_dot False s" using assms by (auto simp: plain_name_def good_name_def IsFqdn_ends_dot_iff)
  moreover have "ends_dot e t \<Longrightarrow> t \<noteq> [] \<and> last t = CHR ''.''" for e t by (induction e t rule: ends_dot.induct) auto
  ultimately have "s \<noteq> ''''" "last s = CHR ''.''" by auto
  then have p: "text_of (labels s) = s" "length (encode_labels (labels s)) = length s" "length (labels s) = length (filter (\<lambda>c. c = CHR ''.'') s)"
    using plain_labels [of s "[]"] assms by (simp_all add: plain_name_def)
  show "readable s" using p(2,3) assms by (simp add: plain_name_def readable_def name_labels_def)
  have "labels s \<noteq> []" using p(1) \<open>s \<noteq> ''''\<close> by (metis text_of_simps(1))
  then show "read_name s = s" using p(1) by (simp add: read_name_def name_labels_def)
qed

text \<open>An address is read in the length of its family.\<close>

fun wire_form :: "rr \<Rightarrow> rr" where
  "wire_form (RR_A h ip) = RR_A h (To4 ip)"
| "wire_form r = r"

lemma readable_answer:
  assumes "plain_name (qn_Name q)" "a \<in> set (ip_answer q ip)"
  shows "readable_rr lib a \<and> read_rr a = wire_form a"
  using assms(2) plain_name_read(1,2) [OF assms(1)] ParseIP_bytes [of ip] ParseIP_length [of ip]
  by (cases "ParseIP ip") (auto simp: ip_answer_def readable_rr_def header_for_def read_hdr_def Let_def split: if_splits)

lemma readable_opt: "hdr_Name h = ''.'' \<Longrightarrow> hdr_Rrtype h = TypeOPT \<Longrightarrow> readable_rr lib (RR_OPT h []) \<and> read_rr (RR_OPT h []) = wire_form (RR_OPT h [])"
  by (simp add: readable_rr_def readable_def read_hdr_def read_name_def name_labels_def)

lemma read_SetExtendedRcode: "read_rr r = wire_form r \<Longrightarrow> read_rr (SetExtendedRcode v r) = wire_form (SetExtendedRcode v r)"
proof (cases r)
  case (RR_OPT h os)
  assume "read_rr r = wire_form r"
  with RR_OPT show ?thesis by (cases h) (simp add: SetExtendedRcode_def read_hdr_def)
qed (simp_all add: SetExtendedRcode_def)

lemma some_len_count:
  assumes "\<And>x off c. 0 < fst (len x off c)"
  shows "fst lc + length xs \<le> fst (some_len len xs lc)"
proof (induction xs arbitrary: lc)
  case (Cons x xs)
  then show ?case using Cons.IH [of "(fst lc + fst (len x (fst lc) (snd lc)), snd (len x (fst lc) (snd lc)))"] assms [of x "fst lc" "snd lc"] by (cases lc) simp
qed simp

lemma Len_count: "length (all_records m) \<le> Len m"
proof -
  have r: "fst lc + length xs \<le> fst (some_len rr_len xs lc)" for lc xs by (rule some_len_count) (rule rr_len_pos)
  have "length (all_records m) \<le> msgLenWithCompressionMap m c" for c
    using r [of "len_question m c" "m_Answer m"] r [of "len_answer m c" "m_Ns m"] r [of "len_ns m c" "sent_extra m"]
    unfolding msgLen_stages len_answer_def [symmetric] len_ns_def [symmetric] by (simp add: all_records_def)
  then show ?thesis by (simp add: Len_def)
qed

lemma reply_limit_le: "reply_limit network req \<le> 65535"
proof -
  have "unat w \<le> 65535" for w :: "16 word"
  proof -
    have "unat w < 2 ^ 16" using unsigned_less [of w] by simp
    then show ?thesis by simp
  qed
  then show ?thesis by (auto simp: reply_limit_def split: option.split)
qed

text \<open>
  C7: What the client reads: the reply of the discovery handler to a question for a name without
  escapes is packed into bytes that fit its room, and unpacking these bytes gives the
  reply again, with every flag, the question, and the records in their order, although their
  names are compressed into pointers; an IPv4 address comes back as its four bytes.
\<close>

theorem discovery_reply_read:
  assumes "\<forall>xs. mset (shuffle xs) = mset xs" "m_Question req = q # qs" "plain_name (qn_Name q)" "0 \<le> m_Opcode req" "m_Opcode req < 16"
  shows "\<exists>m bytes. DiscoveryHandler_ServeDNS (LocalDomain_Resolve shuffle resolve TruncateIfNeeded) network req = [m] \<and>
    Pack m = Inr bytes \<and> length bytes \<le> reply_limit network req \<and>
    Unpack lib bytes = Inr (m\<lparr>m_Compress := False, m_Answer := map wire_form (m_Answer m), m_Ns := map wire_form (m_Ns m), m_Extra := map wire_form (sent_extra m)\<rparr>)"
proof -
  note n = plain_name_read [OF assms(3)]
  let ?P = "\<lambda>r. good_rr r \<and> readable_rr lib r \<and> read_rr r = wire_form r"
  have "?P a" if "a \<in> set (ip_answer q ip)" for a ip using that good_answer [OF n(3)] readable_answer [OF assms(3)] by blast
  moreover have "?P (RR_OPT h [])" if "hdr_Name h = ''.''" "hdr_Rrtype h = TypeOPT" for h using that good_opt readable_opt by blast
  ultimately obtain m where m: "DiscoveryHandler_ServeDNS (LocalDomain_Resolve shuffle resolve TruncateIfNeeded) network req = [m]"
    "list_all ?P (all_records m)" "is_reply req m" "0 \<le> m_Rcode m" "m_Rcode m \<le> 0xF" "Len m \<le> reply_limit network req"
    using discovery_reply_shape [OF assms(1,2) n(4), where P = ?P and resolve = resolve and network = network] by blast
  have g: "list_all good_rr (all_records m)" "list_all (readable_rr lib) (all_records m)" "\<forall>r\<in>set (all_records m). read_rr r = wire_form r"
    using m(2) by (simp_all add: list_all_iff)
  obtain bytes where b: "Pack m = Inr bytes" using reply_total [OF g(1) m(3) assms(2) n(3) m(4,5)] by blast
  have q: "m_Question m = [q]" "m_Opcode m = m_Opcode req" using m(3) assms(2) by (simp_all add: is_reply_def)
  have "length (all_records m) < 2 ^ 16" using Len_count [of m] m(6) reply_limit_le [of network req] by simp
  then have "readable_msg lib m" using g(2) q n(1) assms(4,5) by (simp add: readable_msg_def all_records_def)
  from Unpack_Pack [OF b this] have u: "Unpack lib bytes = Inr (read_msg m)" .
  have "\<forall>r\<in>set (sent_extra m). read_rr r = wire_form r"
    using list_all_update_last [of "\<lambda>r. read_rr r = wire_form r" "m_Extra m", OF _ read_SetExtendedRcode] g(3)
    by (simp add: sent_extra_def all_records_def list_all_iff)
  then have "read_msg m = m\<lparr>m_Compress := False, m_Answer := map wire_form (m_Answer m), m_Ns := map wire_form (m_Ns m), m_Extra := map wire_form (sent_extra m)\<rparr>"
    using g(3) q n(2) by (simp add: read_msg_def read_question_def all_records_def)
  with u m(1,6) b Pack_le_Len [OF b] show ?thesis by (intro exI [of _ m] exI [of _ bytes]) simp
qed


definition no_library :: rdata_library where
  "no_library = \<lparr>rl_option = (\<lambda>code b. None), rl_new = (\<lambda>h. OtherRR h []), rl_unpack = (\<lambda>h msg off. Inl BadRdlength)\<rparr>"

theorem discovery_reply_read_witness:
  "let req = new_msg\<lparr>m_Id := 9, m_Question := [\<lparr>qn_Name = ''web.bosh.'', qn_Qtype = TypeA, qn_Qclass = ClassINET\<rparr>]\<rparr> in
   \<exists>m bytes. DiscoveryHandler_ServeDNS (LocalDomain_Resolve rev (\<lambda>n. Inr (replicate 40 ''10.0.0.1'')) TruncateIfNeeded) UDP req = [m] \<and>
     Pack m = Inr bytes \<and> length bytes \<le> 512 \<and>
     Unpack no_library bytes = Inr (m\<lparr>m_Compress := False, m_Answer := map wire_form (m_Answer m), m_Ns := map wire_form (m_Ns m), m_Extra := map wire_form (sent_extra m)\<rparr>)"
proof -
  let ?req = "new_msg\<lparr>m_Id := 9, m_Question := [\<lparr>qn_Name = ''web.bosh.'', qn_Qtype = TypeA, qn_Qclass = ClassINET\<rparr>]\<rparr>"
  have "plain_name ''web.bosh.''" by code_simp
  moreover have "reply_limit UDP ?req = 512" by (simp add: reply_limit_def IsEdns0_def new_msg_def)
  ultimately show ?thesis
    using discovery_reply_read [of rev ?req _ "[]" "\<lambda>n. Inr (replicate 40 ''10.0.0.1'')" UDP no_library] unfolding Let_def by (auto simp: new_msg_def)
qed

text \<open>A message read from the bytes of \<open>Pack_example\<close>, with its pointers.\<close>

lemma UnpackDomainName_example:
  "UnpackDomainName (map char_of [1, 97, 4, 98, 111, 115, 104, 0, 1, 98, 0xC0, 2 :: nat]) 8 = Inr (''b.bosh.'', 12)"
  "UnpackDomainName (map char_of [0xC0, 0 :: nat]) 0 = Inl TooManyPointers"
  by code_simp+


end
