(* ===== verification/Url.thy ===== *)
theory Url
  imports Handlers
begin

text \<open>
  The queries of URLs, as the parts of the program exchange them over HTTP: what \<^verbatim>\<open>net/url\<close> of
  the standard library splits off a URL and reads from the query, beside \<open>QueryEscape\<close>, which
  the handler of \<^verbatim>\<open>http_json_handler.go\<close> writes it with.
\<close>

section \<open>Definitions\<close>

fun QueryUnescape :: "string \<Rightarrow> string option" where
  "QueryUnescape [] = Some []"
| "QueryUnescape (c # s) =
     (if c = CHR ''%'' then
        (case s of
           h # l # s' \<Rightarrow>
             (case (hex_val h, hex_val l) of
                (Some a, Some b) \<Rightarrow> map_option (\<lambda>t. char_of (16 * a + b) # t) (QueryUnescape s')
              | _ \<Rightarrow> None)
         | _ \<Rightarrow> None)
      else map_option (\<lambda>t. (if c = CHR ''+'' then CHR '' '' else c) # t) (QueryUnescape s))"

text \<open>The first \<open>=\<close> separates a key from its value, which is empty where there is none.\<close>

definition query_pair :: "string \<Rightarrow> (string \<times> string) option" where
  "query_pair p =
     (if p = '''' \<or> CHR '';'' \<in> set p then None
      else (case SplitN2 (CHR ''='') p of
        k # vs \<Rightarrow>
          (case (QueryUnescape k, QueryUnescape (concat vs)) of
             (Some k, Some v) \<Rightarrow> Some (k, v)
           | _ \<Rightarrow> None)
      | [] \<Rightarrow> None))"

text \<open>\<^verbatim>\<open>URL.Query\<close> drops what it cannot read; \<^verbatim>\<open>Get\<close> returns the first value of a key.\<close>

definition Query :: "string \<Rightarrow> (string \<times> string) list" where
  "Query rawQuery = List.map_filter query_pair (Split (CHR ''&'') rawQuery)"

definition Query_Get :: "string \<Rightarrow> string \<Rightarrow> string" where
  "Query_Get rawQuery key = (case map_of (Query rawQuery) key of None \<Rightarrow> '''' | Some v \<Rightarrow> v)"

text \<open>What follows the host in a URL: the path and the query, without the fragment, which is not sent.\<close>

definition request_uri :: "string \<Rightarrow> string \<times> string" where
  "request_uri s =
     (let s = takeWhile (\<lambda>c. c \<noteq> CHR ''#'') s
      in (case SplitN2 (CHR ''?'') s of p # qs \<Rightarrow> (p, concat qs) | [] \<Rightarrow> ([], [])))"

section \<open>Escaping\<close>

lemma hex_val_hex_digit: "hex_val (hex_digit n) = Some (n mod 16)"
proof -
  have "\<forall>k<16. hex_val (hex_digit k) = Some k" by code_simp
  moreover have "hex_digit n = hex_digit (n mod 16)" by (simp add: hex_digit_def)
  ultimately show ?thesis by simp
qed

lemma unreserved_plain: "unreserved c \<Longrightarrow> c \<notin> set ''%+&;=#?''"
  by (auto simp: unreserved_def is_digit_def)

lemma QueryUnescape_plain: "CHR ''%'' \<notin> set s \<Longrightarrow> CHR ''+'' \<notin> set s \<Longrightarrow> QueryUnescape s = Some s"
  by (induction s) auto

lemma QueryUnescape_QueryEscape: "QueryUnescape (QueryEscape s) = Some s"
proof (induction s)
  case (Cons c s)
  have "of_char c div 16 mod 16 * 16 + of_char c mod 16 = (of_char c :: nat)"
  proof -
    have "(of_char c :: nat) < 16 * 16" by simp
    then have "of_char c div 16 < (16 :: nat)" by (rule less_mult_imp_div_less)
    then show ?thesis by simp
  qed
  then have "char_of (16 * (of_char c div 16 mod 16) + of_char c mod 16 :: nat) = c" by (simp add: mult.commute)
  moreover have "c \<noteq> CHR ''%''" "c \<noteq> CHR ''+''" if "unreserved c" using unreserved_plain [OF that] by auto
  ultimately show ?case using Cons.IH by (simp add: QueryEscape_def Let_def hex_val_hex_digit)
qed (simp add: QueryEscape_def)

lemma QueryEscape_chars: "c \<in> set (QueryEscape s) \<Longrightarrow> unreserved c \<or> c = CHR ''+'' \<or> c = CHR ''%''"
proof -
  have "list_all unreserved ''0123456789ABCDEF''" by code_simp
  moreover have "hex_digit n \<in> set ''0123456789ABCDEF''" for n unfolding hex_digit_def by (rule nth_mem) simp
  ultimately have "unreserved (hex_digit n)" for n unfolding list_all_iff by blast
  then show "c \<in> set (QueryEscape s) \<Longrightarrow> unreserved c \<or> c = CHR ''+'' \<or> c = CHR ''%''"
    by (auto simp: QueryEscape_def Let_def split: if_splits)
qed

lemma QueryEscape_safe: "c \<in> set ''&;=#?'' \<Longrightarrow> c \<notin> set (QueryEscape s)"
  using QueryEscape_chars [of c s] unreserved_plain [of c] by auto


section \<open>Reading a query\<close>

lemma Query_one:
  "Query p = (case query_pair p of None \<Rightarrow> [] | Some kv \<Rightarrow> [kv])" if "CHR ''&'' \<notin> set p"
  using that by (simp add: Query_def map_filter_simps split: option.split)

lemma Query_Cons: "CHR ''&'' \<notin> set p \<Longrightarrow> Query (p @ CHR ''&'' # s) = (case query_pair p of None \<Rightarrow> Query s | Some kv \<Rightarrow> kv # Query s)"
  by (simp add: Query_def Split_append_sep map_filter_simps split: option.split)

lemma query_pair_eq:
  assumes "CHR ''='' \<notin> set k" "CHR '';'' \<notin> set k" "CHR '';'' \<notin> set v" "QueryUnescape k = Some k'" "QueryUnescape v = Some v'"
  shows "query_pair (k @ CHR ''='' # v) = Some (k', v')"
  using assms by (simp add: query_pair_def SplitN2_sep)

lemma no_fragment: "CHR ''#'' \<notin> set s \<Longrightarrow> takeWhile (\<lambda>c. c \<noteq> CHR ''#'') s = s"
  by (auto simp: takeWhile_eq_all_conv)

lemma request_uri_query:
  "CHR ''#'' \<notin> set p \<Longrightarrow> CHR ''?'' \<notin> set p \<Longrightarrow> CHR ''#'' \<notin> set q \<Longrightarrow> request_uri (p @ CHR ''?'' # q) = (p, q)"
  by (simp add: request_uri_def no_fragment SplitN2_sep del: takeWhile_append)

lemma request_uri_path: "CHR ''#'' \<notin> set p \<Longrightarrow> CHR ''?'' \<notin> set p \<Longrightarrow> request_uri p = (p, '''')"
  by (simp add: request_uri_def no_fragment SplitN2_no_sep)

text \<open>A server reads the name and the type that the handler asks for from its URL, whatever characters they have.\<close>

lemma query_url_written:
  fixes address q
  defines "n \<equiv> ''name'' @ CHR ''='' # QueryEscape (qn_Name q)" and "t \<equiv> ''type'' @ CHR ''='' # QueryEscape (itoa (unat (qn_Qtype q)))"
  shows "snd (request_uri (drop (length address) (query_url address q))) = n @ CHR ''&'' # t"
    "query_pair n = Some (''name'', qn_Name q)" "query_pair t = Some (''type'', itoa (unat (qn_Qtype q)))"
    "CHR ''&'' \<notin> set n" "CHR ''&'' \<notin> set t" "Query (n @ CHR ''&'' # t) = [(''name'', qn_Name q), (''type'', itoa (unat (qn_Qtype q)))]"
proof -
  have safe: "c \<notin> set (QueryEscape s)" if "c \<in> set ''&;=#?''" for c s using QueryEscape_safe [OF that] .
  show "snd (request_uri (drop (length address) (query_url address q))) = n @ CHR ''&'' # t"
    unfolding query_url_def n_def t_def
    using request_uri_query [of "''/''" "(''name'' @ CHR ''='' # QueryEscape (qn_Name q)) @ CHR ''&'' # (''type'' @ CHR ''='' # QueryEscape (itoa (unat (qn_Qtype q))))"] safe by simp
  show pairs: "query_pair n = Some (''name'', qn_Name q)" "query_pair t = Some (''type'', itoa (unat (qn_Qtype q)))"
    unfolding n_def t_def using safe by (intro query_pair_eq; simp add: QueryUnescape_QueryEscape)+
  show amp: "CHR ''&'' \<notin> set n" "CHR ''&'' \<notin> set t" unfolding n_def t_def using safe by simp_all
  show "Query (n @ CHR ''&'' # t) = [(''name'', qn_Name q), (''type'', itoa (unat (qn_Qtype q)))]"
    using Query_Cons [OF amp(1), of t] Query_one [OF amp(2)] pairs by simp
qed

lemma query_url_read:
  "Query_Get (snd (request_uri (drop (length address) (query_url address q)))) ''name'' = qn_Name q"
  "Query_Get (snd (request_uri (drop (length address) (query_url address q)))) ''type'' = itoa (unat (qn_Qtype q))"
  unfolding query_url_written(1) by (simp_all only: Query_Get_def query_url_written(6)) simp_all

end
