(* ===== verification/Debug_Cli.thy ===== *)
theory Debug_Cli
  imports Main_Setup Url
begin

text \<open>
  The debugging program (\<^verbatim>\<open>src/debug/cli\<close>): its two commands ask the HTTP API of the server, over
  TLS, for the known instances and for the link groups of the machine, and print a table.
  Here too is the side of the server: which handler a request reaches, and what it replies.
\<close>

section \<open>Definitions\<close>

record cli_opts =
  co_API :: string
  co_TLSCACertPath :: string
  co_TLSCertificatePath :: string
  co_TLSPrivateKeyPath :: string

text \<open>
  A response: the body is the stream of JSON values the decoder reads from it, \<open>None\<close> for
  one that it cannot decode into a row.
\<close>

record 'r api_response =
  ar_StatusCode :: int
  ar_Status :: string
  ar_Body :: "'r option list"

datatype cli_error = ClientError tls_error | GetError string | StatusError string | DecodeError

record cli_table =
  tb_Title :: string
  tb_FillFirstColumn :: bool
  tb_Header :: "string list"
  tb_Rows :: "string list list"

fun decode_rows :: "('r \<Rightarrow> string list) \<Rightarrow> 'r option list \<Rightarrow> cli_error + string list list" where
  "decode_rows row [] = Inr []"
| "decode_rows row (None # rest) = Inl DecodeError"
| "decode_rows row (Some jsonRow # rest) = res_bind (decode_rows row rest) (\<lambda>rows. Inr (row jsonRow # rows))"

definition instance_row :: "instance_record \<Rightarrow> string list" where
  "instance_row i = [ir_ID i, ir_Group i, ir_Network i, ir_Deployment i, ir_IP i, ir_Domain i, ir_AZ i, ir_Index i, ir_HealthState i]"

definition group_row :: "group_record \<Rightarrow> string list" where
  "group_row g = [gr_JobName g, gr_LinkName g, gr_LinkType g, gr_GroupID g, gr_HealthState g]"

text \<open>The commands return the table that they print, or the error; \<open>get\<close> is the request of the HTTP client.\<close>

definition InstancesCmd_Execute ::
  "(http_client \<Rightarrow> string \<Rightarrow> string + instance_record api_response) \<Rightarrow> tls_world \<Rightarrow> cli_opts \<Rightarrow> string \<Rightarrow> cli_error + cli_table" where
  "InstancesCmd_Execute get w o1 query =
     (case NewFromFiles w ''api.bosh-dns'' (co_TLSCACertPath o1) (co_TLSCertificatePath o1) (co_TLSPrivateKeyPath o1) 5000000000 of
        Inl err \<Rightarrow> Inl (ClientError err)
      | Inr client \<Rightarrow>
          let requestURL = co_API o1 @ ''/instances'';
              requestURL = (if query \<noteq> '''' then requestURL @ ''?address='' @ query else requestURL)
          in (case get client requestURL of
                Inl err \<Rightarrow> Inl (GetError err)
              | Inr response \<Rightarrow>
                  if ar_StatusCode response \<noteq> 200 then Inl (StatusError (''unable to retrieve instances: Got '' @ ar_Status response))
                  else
                    res_bind (decode_rows instance_row (ar_Body response)) (\<lambda>rows.
                    Inr \<lparr>tb_Title = ''Known DNS instances'', tb_FillFirstColumn = False,
                         tb_Header = [''ID'', ''Group'', ''Network'', ''Deployment'', ''IP'', ''Domain'', ''AZ'', ''Index'', ''HealthState''],
                         tb_Rows = rows\<rparr>)))"

definition LocalGroupsCmd_Execute ::
  "(http_client \<Rightarrow> string \<Rightarrow> string + group_record api_response) \<Rightarrow> tls_world \<Rightarrow> cli_opts \<Rightarrow> cli_error + cli_table" where
  "LocalGroupsCmd_Execute get w o1 =
     (case NewFromFiles w ''api.bosh-dns'' (co_TLSCACertPath o1) (co_TLSCertificatePath o1) (co_TLSPrivateKeyPath o1) 5000000000 of
        Inl err \<Rightarrow> Inl (ClientError err)
      | Inr client \<Rightarrow>
          let requestURL = co_API o1 @ ''/local-groups''
          in (case get client requestURL of
                Inl err \<Rightarrow> Inl (GetError err)
              | Inr response \<Rightarrow>
                  if ar_StatusCode response \<noteq> 200 then Inl (StatusError (''unable to retrieve groups: Got '' @ ar_Status response))
                  else
                    res_bind (decode_rows group_row (ar_Body response)) (\<lambda>rows.
                    Inr \<lparr>tb_Title = '''', tb_FillFirstColumn = True,
                         tb_Header = [''JobName'', ''LinkName'', ''LinkType'', ''GroupID'', ''HealthState''],
                         tb_Rows = rows\<rparr>)))"

text \<open>
  The command that the arguments select, as \<^verbatim>\<open>go-flags\<close> returns it, or none: an error of the
  parser or of the command ends the program with 1.
\<close>

datatype cli_command = Instances cli_opts string | LocalGroups cli_opts

definition cli_main where
  "cli_main getInstances getGroups w parsed =
     (let err = (case parsed of
            None \<Rightarrow> True
          | Some (Instances o1 query) \<Rightarrow> isl (InstancesCmd_Execute getInstances w o1 query)
          | Some (LocalGroups o1) \<Rightarrow> isl (LocalGroupsCmd_Execute getGroups w o1))
      in if err then 1 else 0 :: int)"

subsection \<open>The server's side\<close>

text \<open>\<open>json\<close> is what the decoder makes of a row that the encoder wrote.\<close>

definition instances_reply :: "(instance_record \<Rightarrow> instance_record option) \<Rightarrow> record_error + instance_record list \<Rightarrow> instance_record api_response" where
  "instances_reply json res =
     (case res of
        Inl err \<Rightarrow> \<lparr>ar_StatusCode = 422, ar_Status = ''422 Unprocessable Entity'', ar_Body = [None]\<rparr>
      | Inr irs \<Rightarrow> \<lparr>ar_StatusCode = 200, ar_Status = ''200 OK'', ar_Body = map json irs\<rparr>)"

definition groups_reply :: "(group_record \<Rightarrow> group_record option) \<Rightarrow> group_record list \<Rightarrow> group_record api_response" where
  "groups_reply json gs = \<lparr>ar_StatusCode = 200, ar_Status = ''200 OK'', ar_Body = map json gs\<rparr>"

text \<open>
  A request to the listener of the API: an error without a connection; over one, the handler
  registered for the path gets the query.
\<close>

definition api_Get ::
  "(cert_pool option \<Rightarrow> string \<Rightarrow> key_pair \<Rightarrow> bool) \<Rightarrow> (api_handler \<Rightarrow> string \<Rightarrow> 'r api_response) \<Rightarrow> api_listener \<Rightarrow> http_client \<Rightarrow> string \<Rightarrow>
   string + 'r api_response" where
  "api_Get verify serve listener client url =
     (case tls_connect verify (ht_TLSClientConfig client) (al_TLSConfig listener) of
        None \<Rightarrow> Inl ''no connection''
      | Some c \<Rightarrow>
          let (path, rawQuery) = request_uri (drop (length (''https://'' @ al_Addr listener)) url)
          in (case map_of api_handlers path of
                None \<Rightarrow> Inr \<lparr>ar_StatusCode = 404, ar_Status = ''404 Not Found'', ar_Body = [None]\<rparr>
              | Some h \<Rightarrow> Inr (serve h rawQuery)))"

section \<open>Tables\<close>

lemma decode_rows_all: "(\<And>r. r \<in> set rs \<Longrightarrow> json r = Some r) \<Longrightarrow> decode_rows row (map json rs) = Inr (map row rs)"
  by (induction rs) simp_all

lemma decode_rows_Inr: "decode_rows row body = Inr rows \<longleftrightarrow> (\<exists>rs. body = map Some rs \<and> rows = map row rs)"
proof (induction row body arbitrary: rows rule: decode_rows.induct)
  case (3 row r rest)
  then show ?case by (auto simp: res_bind_Inr_iff Cons_eq_map_conv)
qed auto

text \<open>Characters that a query keeps on its way to the handler, although the command does not escape them.\<close>

definition plain_query :: "string \<Rightarrow> bool" where
  "plain_query q \<longleftrightarrow> list_all (\<lambda>c. c \<notin> set ''%+&;#'' \<and> CHR '' '' < c \<and> c \<noteq> CHR 0x7F) q"

lemma plain_address: "plain_query q \<Longrightarrow> Query_Get (''address='' @ q) ''address'' = q"
proof -
  assume *: "plain_query q"
  then have "query_pair (''address'' @ CHR ''='' # q) = Some (''address'', q)"
    by (intro query_pair_eq QueryUnescape_plain) (auto simp: plain_query_def list_all_iff)
  moreover have "CHR ''&'' \<notin> set (''address='' @ q)" using * by (auto simp: plain_query_def list_all_iff)
  ultimately show ?thesis using Query_one [of "''address='' @ q"] by (simp add: Query_Get_def)
qed

text \<open>The client takes the listener for the API, and the listener takes the certificate of the client.\<close>

definition mutual_trust :: "(cert_pool option \<Rightarrow> string \<Rightarrow> key_pair \<Rightarrow> bool) \<Rightarrow> tls_world \<Rightarrow> cli_opts \<Rightarrow> tls_world \<Rightarrow> api_config \<Rightarrow> bool" where
  "mutual_trust verify w o1 w' c \<longleftrightarrow>
     (case (LoadX509KeyPair w (co_TLSCertificatePath o1) (co_TLSPrivateKeyPath o1), LoadX509KeyPair w' (api_CertificateFile c) (api_PrivateKeyFile c)) of
        (Some ck, Some sk) \<Rightarrow> verify (Some (trusted w (co_TLSCACertPath o1))) ''api.bosh-dns'' sk \<and> verify (Some (trusted w' (api_CAFile c))) '''' ck
      | _ \<Rightarrow> False)"

lemma api_Get_trusted:
  assumes "NewFromFiles w ''api.bosh-dns'' (co_TLSCACertPath o1) (co_TLSCertificatePath o1) (co_TLSPrivateKeyPath o1) t = Inr client"
    and "api_listen w' c = Inr listener" "co_API o1 = ''https://'' @ al_Addr listener" "request_uri uri = (path, raw)" "map_of api_handlers path = Some h"
  shows "api_Get verify serve listener client (co_API o1 @ uri) = (if mutual_trust verify w o1 w' c then Inr (serve h raw) else Inl ''no connection'')"
proof -
  have l: "listener_tls w' (api_CertificateFile c) (api_PrivateKeyFile c) (api_CAFile c) = Inr (al_TLSConfig listener)"
    using assms(2) by (auto simp: api_listen_def res_bind_Inr_iff)
  obtain ck sk where k: "LoadX509KeyPair w (co_TLSCertificatePath o1) (co_TLSPrivateKeyPath o1) = Some ck"
    "LoadX509KeyPair w' (api_CertificateFile c) (api_PrivateKeyFile c) = Some sk"
    "tls_connect verify (ht_TLSClientConfig client) (al_TLSConfig listener) =
       (if verify (Some (trusted w (co_TLSCACertPath o1))) ''api.bosh-dns'' sk \<and> verify (Some (trusted w' (api_CAFile c))) '''' ck
        then Some (VersionTLS13, sk, Some ck) else None)"
    using tls_connect_built [OF assms(1) l, of verify] by metis
  have "drop (length (co_API o1)) (co_API o1 @ uri) = uri" by simp
  then show ?thesis using k assms(4,5) unfolding api_Get_def assms(3) [symmetric] mutual_trust_def by simp
qed

lemma instances_Get:
  assumes "NewFromFiles w ''api.bosh-dns'' (co_TLSCACertPath o1) (co_TLSCertificatePath o1) (co_TLSPrivateKeyPath o1) t = Inr client"
    and "api_listen w' c = Inr listener" "co_API o1 = ''https://'' @ al_Addr listener" "plain_query query"
  shows "\<exists>raw. Query_Get raw ''address'' = query \<and>
    api_Get verify serve listener client (if query \<noteq> '''' then (co_API o1 @ ''/instances'') @ ''?address='' @ query else co_API o1 @ ''/instances'') =
      (if mutual_trust verify w o1 w' c then Inr (serve InstancesRoute raw) else Inl ''no connection'')"
proof (cases "query = ''''")
  case True
  have "Query_Get '''' ''address'' = ''''" by (simp add: Query_Get_def Query_def map_filter_simps query_pair_def)
  with True show ?thesis
    using api_Get_trusted [OF assms(1-3) request_uri_path [of "''/instances''"], of InstancesRoute verify serve]
    by (intro exI [of _ "''''"]) (simp add: api_handlers_def)
next
  case False
  have "CHR ''#'' \<notin> set query" using assms(4) by (auto simp: plain_query_def list_all_iff)
  then have "request_uri (''/instances'' @ CHR ''?'' # ''address='' @ query) = (''/instances'', ''address='' @ query)" by (intro request_uri_query) simp_all
  then have "api_Get verify serve listener client (co_API o1 @ ''/instances'' @ CHR ''?'' # ''address='' @ query) =
      (if mutual_trust verify w o1 w' c then Inr (serve InstancesRoute (''address='' @ query)) else Inl ''no connection'')"
    by (rule api_Get_trusted [OF assms(1-3)]) (simp add: api_handlers_def)
  with False show ?thesis using plain_address [OF assms(4)] by (intro exI [of _ "''address='' @ query"]) simp
qed

text \<open>
  C24: The table of instances over TLS, for a query without the characters that a URL would need
  escaped (\<open>%\<close>, \<open>+\<close>, \<open>&\<close>, \<open>;\<close>, \<open>#\<close>, spaces and control characters, which the command does not
  escape): with a client that trusts the server under its name and a server that trusts the
  client, the command prints one row for every instance that the handler of the server finds for
  the query, all records without one, and reports the status of a lookup that failed; without
  that trust it prints nothing. For a name in lower case, a DNS question for the name is answered
  with the addresses of the fifth column followed by the literal addresses of its aliases, which
  the table does not show. The decoder reads back the instances that were found.
\<close>

theorem instances_table:
  assumes "NewFromFiles w ''api.bosh-dns'' (co_TLSCACertPath o1) (co_TLSCertificatePath o1) (co_TLSPrivateKeyPath o1) 5000000000 = Inr client"
    and "api_listen w' c = Inr listener" "co_API o1 = ''https://'' @ al_Addr listener" "plain_query query"
    and "\<forall>raw. serve InstancesRoute raw = instances_reply json (found (Query_Get raw ''address''))"
    and "found = (\<lambda>address. snd (InstancesHandler_ServeHTTP NewQueryFilterer (NewHealthFilterer before after) hs r address))"
    and "\<forall>irs. found query = Inr irs \<longrightarrow> (\<forall>i\<in>set irs. json i = Some i)"
  shows "case InstancesCmd_Execute (api_Get verify serve listener) w o1 query of
       Inr table \<Rightarrow>
         mutual_trust verify w o1 w' c \<and>
         (\<exists>irs. found query = Inr irs \<and> tb_Rows table = map instance_row irs) \<and>
         (query = '''' \<longrightarrow> tb_Rows table = map (instance_row \<circ> instance_of hs) (rs_records r)) \<and>
         (query \<noteq> '''' \<longrightarrow> is_lower (Fqdn query) \<longrightarrow>
            snd (Resolve NewQueryFilterer (NewHealthFilterer before after) r (Fqdn query)) =
              Inr (map (\<lambda>row. row ! 4) (tb_Rows table) @ literal_ips (unsafeExpandAliases r (Fqdn query))))
     | Inl err \<Rightarrow>
         err = (if mutual_trust verify w o1 w' c then StatusError ''unable to retrieve instances: Got 422 Unprocessable Entity''
                else GetError ''no connection'') \<and>
         (mutual_trust verify w o1 w' c \<longrightarrow> query \<noteq> '''' \<and> isl (found query))"
proof -
  obtain raw where raw: "Query_Get raw ''address'' = query"
    "api_Get verify serve listener client (if query \<noteq> '''' then (co_API o1 @ ''/instances'') @ ''?address='' @ query else co_API o1 @ ''/instances'') =
      (if mutual_trust verify w o1 w' c then Inr (serve InstancesRoute raw) else Inl ''no connection'')"
    using instances_Get [OF assms(1-4), of verify serve] by metis
  have empty: "query = '''' \<Longrightarrow> found query = Inr (map (instance_of hs) (rs_records r))" by (simp add: assms(6) InstancesHandler_ServeHTTP_def)
  show ?thesis
  proof (cases "mutual_trust verify w o1 w' c")
    case False
    then have "InstancesCmd_Execute (api_Get verify serve listener) w o1 query = Inl (GetError ''no connection'')"
      unfolding InstancesCmd_Execute_def Let_def assms(1) sum.case raw(2) by simp
    with False show ?thesis by simp
  next
    case True
    show ?thesis
    proof (cases "found query")
      case (Inl e)
      then have "InstancesCmd_Execute (api_Get verify serve listener) w o1 query = Inl (StatusError (''unable to retrieve instances: Got 422 Unprocessable Entity''))"
        using True unfolding InstancesCmd_Execute_def Let_def assms(1) sum.case raw(2) by (simp add: assms(5) raw(1) instances_reply_def)
      with True Inl empty show ?thesis by auto
    next
      case (Inr irs)
      then have rows: "decode_rows instance_row (map json irs) = Inr (map instance_row irs)" using assms(7) by (intro decode_rows_all) auto
      obtain table where "InstancesCmd_Execute (api_Get verify serve listener) w o1 query = Inr table" "tb_Rows table = map instance_row irs"
        using True Inr rows unfolding InstancesCmd_Execute_def Let_def assms(1) sum.case raw(2) by (simp add: assms(5) raw(1) instances_reply_def)
      moreover have "map (\<lambda>row. row ! 4) (map instance_row irs) = map ir_IP irs" by (simp add: instance_row_def)
      ultimately show ?thesis
        using True Inr empty instances_agree_with_resolve [of query before after r hs] unfolding assms(6) by (auto simp: Let_def)
    qed
  qed
qed

theorem instances_table_witness:
  "let c = \<lparr>api_Port = 80, api_CertificateFile = ''cert'', api_PrivateKeyFile = ''key'', api_CAFile = ''ca''\<rparr>;
       o1 = \<lparr>co_API = ''https://127.0.0.1:80'', co_TLSCACertPath = ''ca'', co_TLSCertificatePath = ''cert'', co_TLSPrivateKeyPath = ''key''\<rparr>;
       serve = (\<lambda>h raw. instances_reply Some (snd (InstancesHandler_ServeHTTP NewQueryFilterer (NewHealthFilterer all_unchecked all_unchecked)
         (\<lambda>ip. '''') (example_set NewConfig) (Query_Get raw ''address''))))
   in \<exists>listener table. api_listen example_tls c = Inr listener \<and>
     InstancesCmd_Execute (api_Get example_verify serve listener) example_tls o1 ''i.g.n.d.bosh'' = Inr table \<and>
     map (\<lambda>row. row ! 4) (tb_Rows table) = [''ip'']"
proof -
  let ?c = "\<lparr>api_Port = 80, api_CertificateFile = ''cert'', api_PrivateKeyFile = ''key'', api_CAFile = ''ca''\<rparr>"
  let ?o1 = "\<lparr>co_API = ''https://127.0.0.1:80'', co_TLSCACertPath = ''ca'', co_TLSCertificatePath = ''cert'', co_TLSPrivateKeyPath = ''key''\<rparr>"
  let ?found = "\<lambda>address. snd (InstancesHandler_ServeHTTP NewQueryFilterer (NewHealthFilterer all_unchecked all_unchecked) (\<lambda>ip. '''') (example_set NewConfig) address)"
  let ?serve = "\<lambda>h raw. instances_reply Some (?found (Query_Get raw ''address''))"
  have "case (NewFromFiles example_tls ''api.bosh-dns'' ''ca'' ''cert'' ''key'' 5000000000, api_listen example_tls ?c) of
      (Inr client, Inr listener) \<Rightarrow> ''https://'' @ al_Addr listener = ''https://127.0.0.1:80'' | _ \<Rightarrow> False"
    by code_simp
  then obtain client listener where b: "NewFromFiles example_tls ''api.bosh-dns'' (co_TLSCACertPath ?o1) (co_TLSCertificatePath ?o1) (co_TLSPrivateKeyPath ?o1) 5000000000 = Inr client"
    "api_listen example_tls ?c = Inr listener" "co_API ?o1 = ''https://'' @ al_Addr listener"
    by (auto split: sum.splits)
  have p: "plain_query ''i.g.n.d.bosh''" "mutual_trust example_verify example_tls ?o1 example_tls ?c" "\<not> isl (?found ''i.g.n.d.bosh'')"
    "map ir_IP (projr (?found ''i.g.n.d.bosh'')) = [''ip'']" by code_simp+
  have ip: "map (\<lambda>row. row ! 4) (map instance_row irs) = map ir_IP irs" for irs by (simp add: instance_row_def)
  note T = instances_table [OF b p(1), where serve = ?serve and json = Some and before = all_unchecked and after = all_unchecked and
      hs = "\<lambda>ip. ''''" and r = "example_set NewConfig" and verify = example_verify, OF _ refl]
  obtain irs where f: "?found ''i.g.n.d.bosh'' = Inr irs" using p(3) by (cases "?found ''i.g.n.d.bosh''") auto
  obtain table where t: "InstancesCmd_Execute (api_Get example_verify ?serve listener) example_tls ?o1 ''i.g.n.d.bosh'' = Inr table" "tb_Rows table = map instance_row irs"
    using T p(2) f by (simp split: sum.splits)
  then show ?thesis using b(2) p(4) f ip [of irs] unfolding Let_def by auto
qed

text \<open>The table of groups: first the state of the machine, then every link group of the jobs.\<close>

lemma local_groups_table:
  assumes "NewFromFiles w ''api.bosh-dns'' (co_TLSCACertPath o1) (co_TLSCertificatePath o1) (co_TLSPrivateKeyPath o1) 5000000000 = Inr client"
    and "api_listen w' c = Inr listener" "co_API o1 = ''https://'' @ al_Addr listener"
    and "\<forall>raw. serve LocalGroupsRoute raw = groups_reply json (LocalGroupsHandler_ServeHTTP jobs getStatus)" "mutual_trust verify w o1 w' c" "\<forall>g. json g = Some g"
  shows "\<exists>table. LocalGroupsCmd_Execute (api_Get verify serve listener) w o1 = Inr table \<and>
    tb_Rows table = ['''', '''', '''', '''', hr_State (getStatus ''localhost'')] #
      concat (map (\<lambda>job. map (\<lambda>g. group_row (group_of (getStatus ''localhost'') g)) (jb_Groups job)) jobs)"
proof -
  have "decode_rows group_row (map json gs) = Inr (map group_row gs)" for gs using assms(6) by (intro decode_rows_all) auto
  moreover have "api_Get verify serve listener client (co_API o1 @ ''/local-groups'') = Inr (serve LocalGroupsRoute '''')"
    using api_Get_trusted [OF assms(1-3) request_uri_path [of "''/local-groups''"], of LocalGroupsRoute verify serve] assms(5) by (simp add: api_handlers_def)
  ultimately obtain table where "LocalGroupsCmd_Execute (api_Get verify serve listener) w o1 = Inr table"
    "tb_Rows table = map group_row (LocalGroupsHandler_ServeHTTP jobs getStatus)"
    using assms(1,4) unfolding LocalGroupsCmd_Execute_def Let_def by (simp add: groups_reply_def)
  moreover have "map group_row (concat (map (\<lambda>job. map f (jb_Groups job)) jobs)) = concat (map (\<lambda>job. map (\<lambda>g. group_row (f g)) (jb_Groups job)) jobs)" for f
    by (simp add: map_concat comp_def)
  ultimately show ?thesis unfolding LocalGroupsHandler_ServeHTTP_def Let_def by (simp add: group_row_def)
qed

text \<open>A query with other characters reaches the handler changed, or not at all.\<close>

lemma unescaped_address:
  "Query_Get (''address='' @ ''a+b'') ''address'' = ''a b''" "Query_Get (''address='' @ ''a&b'') ''address'' = ''a''"
  "Query_Get (''address='' @ ''100%'') ''address'' = ''''"
  by code_simp+

end
