(* ===== verification/Windows_Adapters.thy ===== *)
theory Windows_Adapters
  imports Resolv_Conf Ip_Text
begin

text \<open>
  The adapters of a Windows machine (\<^verbatim>\<open>src/bosh-dns/dns/manager/syscall_windows.go\<close>): the call of
  the system with a buffer that grows until it is large enough, and the linked lists it
  fills. The system is a parameter: a state, and a call that takes a size and returns its
  outcome, the size it asks for, and the next state.
\<close>

section \<open>Definitions\<close>

type_synonym errno = nat

abbreviation (input) ERROR_BUFFER_OVERFLOW :: errno where "ERROR_BUFFER_OVERFLOW \<equiv> 111"

text \<open>A socket address, as \<^verbatim>\<open>RawSockaddrAny.Sockaddr\<close> decodes it, or the error it returns.\<close>

datatype sockaddr = SockaddrInet4 "nat list" | SockaddrInet6 "nat list" | SockaddrUnix string

type_synonym socket_address = "errno + sockaddr"

datatype unicast_address = IpAdapterUnicastAddress socket_address "unicast_address option"

datatype dns_server_address = IpAdapterDnsServerAdapter socket_address "dns_server_address option"

datatype ip_adapter =
  IpAdapterAddresses (aa_IfType: "32 word") (aa_OperStatus: "32 word") (aa_FirstUnicastAddress: "unicast_address option")
    (aa_FirstDnsServerAddress: "dns_server_address option") (aa_FriendlyName: "16 word list") (aa_Next: "ip_adapter option")

datatype outcome = Filled ip_adapter | CallFailed errno

fun socketAddressesFromIpAdapterUnicastAddress :: "unicast_address option \<Rightarrow> socket_address list" where
  "socketAddressesFromIpAdapterUnicastAddress None = []"
| "socketAddressesFromIpAdapterUnicastAddress (Some (IpAdapterUnicastAddress address nxt)) =
     address # socketAddressesFromIpAdapterUnicastAddress nxt"

fun socketAddressesFromIpAdapterDnsServerAdapter :: "dns_server_address option \<Rightarrow> socket_address list" where
  "socketAddressesFromIpAdapterDnsServerAdapter None = []"
| "socketAddressesFromIpAdapterDnsServerAdapter (Some (IpAdapterDnsServerAdapter address nxt)) =
     address # socketAddressesFromIpAdapterDnsServerAdapter nxt"

text \<open>\<^verbatim>\<open>net.IPv4\<close> makes the mapped form of an address; another family has an empty text.\<close>

definition sockaddrToIP :: "socket_address \<Rightarrow> errno + string" where
  "sockaddrToIP sockaddr =
     (case sockaddr of
        Inl err \<Rightarrow> Inl err
      | Inr (SockaddrInet4 a) \<Rightarrow> Inr (IP_String (v4_prefix @ a))
      | Inr (SockaddrInet6 a) \<Rightarrow> Inr (IP_String a)
      | Inr (SockaddrUnix p) \<Rightarrow> Inr '''')"

definition ipsFromSocketAddresses :: "socket_address list \<Rightarrow> string list" where
  "ipsFromSocketAddresses addresses =
     List.map_filter (\<lambda>address. case sockaddrToIP address of Inl err \<Rightarrow> None | Inr ipAddr \<Rightarrow> Some ipAddr) addresses"

text \<open>The loop that follows \<^verbatim>\<open>Next\<close>; \<open>utf16\<close> is \<^verbatim>\<open>windows.UTF16PtrToString\<close>.\<close>

fun adapter_list :: "(16 word list \<Rightarrow> string) \<Rightarrow> ip_adapter option \<Rightarrow> adapter list" where
  "adapter_list utf16 None = []"
| "adapter_list utf16 (Some (IpAdapterAddresses ifType operStatus unicast dnsServers friendlyName nxt)) =
     \<lparr>ad_IfType = ifType, ad_OperStatus = operStatus,
      ad_UnicastAddresses = ipsFromSocketAddresses (socketAddressesFromIpAdapterUnicastAddress unicast),
      ad_DNSServerAddresses = ipsFromSocketAddresses (socketAddressesFromIpAdapterDnsServerAdapter dnsServers),
      ad_FriendlyName = utf16 friendlyName\<rparr> # adapter_list utf16 nxt"

text \<open>The loop of the call, from a size on: the first adapter, none where the system has none, or the error.\<close>

function adapters_call :: "('w \<Rightarrow> 32 word \<Rightarrow> outcome \<times> 32 word \<times> 'w) \<Rightarrow> 32 word \<Rightarrow> 'w \<Rightarrow> (errno + ip_adapter option) \<times> 'w" where
  "adapters_call GetAdaptersAddresses l w =
     (case GetAdaptersAddresses w l of
        (Filled b, l', w') \<Rightarrow> (Inr (if l' = 0 then None else Some b), w')
      | (CallFailed err, l', w') \<Rightarrow>
          if err \<noteq> ERROR_BUFFER_OVERFLOW then (Inl err, w')
          else if l' \<le> l then (Inl err, w')
          else adapters_call GetAdaptersAddresses l' w')"
  by pat_completeness auto

termination
proof (relation "measure (\<lambda>(call, l, w). 2 ^ 32 - unat l)")
  fix call :: "'w \<Rightarrow> 32 word \<Rightarrow> outcome \<times> 32 word \<times> 'w" and l l' :: "32 word" and w w' :: 'w and x r err
  assume "\<not> l' \<le> l"
  then have "unat l < unat l'" by (simp add: not_le word_less_nat_alt)
  moreover have "unat l' < 2 ^ 32" using unsigned_less [of l'] by simp
  ultimately show "((call, l', w'), (call, l, w)) \<in> measure (\<lambda>(call, l, w). 2 ^ 32 - unat l)" by simp
qed simp

declare adapters_call.simps [simp del]

definition WindowsAdapterFetcher_Adapters ::
  "(16 word list \<Rightarrow> string) \<Rightarrow> ('w \<Rightarrow> 32 word \<Rightarrow> outcome \<times> 32 word \<times> 'w) \<Rightarrow> 'w \<Rightarrow> (errno + adapter list) \<times> 'w" where
  "WindowsAdapterFetcher_Adapters utf16 GetAdaptersAddresses w =
     (case adapters_call GetAdaptersAddresses 15000 w of
        (Inl err, w) \<Rightarrow> (Inl err, w)
      | (Inr first, w) \<Rightarrow> (Inr (adapter_list utf16 first), w))"

section \<open>The calls\<close>

text \<open>The calls that found the buffer too small, each with a larger one, up to the call that decides.\<close>

inductive retries :: "('w \<Rightarrow> 32 word \<Rightarrow> outcome \<times> 32 word \<times> 'w) \<Rightarrow> 32 word \<Rightarrow> 'w \<Rightarrow> nat \<Rightarrow> 32 word \<Rightarrow> 'w \<Rightarrow> bool"
  for call where
  stop: "retries call l w 0 l w"
| retry: "call w l = (CallFailed ERROR_BUFFER_OVERFLOW, l', w') \<Longrightarrow> l < l' \<Longrightarrow> retries call l' w' n l'' w'' \<Longrightarrow> retries call l w (Suc n) l'' w''"

inductive_cases retries_Suc: "retries call l w (Suc n) l'' w''"

lemma retries_grow: "retries call l w n l' w' \<Longrightarrow> unat l + n \<le> unat l'"
proof (induction rule: retries.induct)
  case (retry w l l' w' n l'' w'')
  then show ?case using word_less_nat_alt [of l l'] by simp
qed simp

definition decides :: "outcome \<times> 32 word \<times> 'w \<Rightarrow> 32 word \<Rightarrow> bool" where
  "decides r l \<longleftrightarrow> (case r of (CallFailed err, l', w') \<Rightarrow> err \<noteq> ERROR_BUFFER_OVERFLOW \<or> l' \<le> l | _ \<Rightarrow> True)"

definition settled :: "outcome \<times> 32 word \<times> 'w \<Rightarrow> (errno + ip_adapter option) \<times> 'w" where
  "settled r = (case r of (Filled b, l, w) \<Rightarrow> (Inr (if l = 0 then None else Some b), w) | (CallFailed err, l, w) \<Rightarrow> (Inl err, w))"

lemma adapters_call_decided: "\<exists>n l' w'. retries call l w n l' w' \<and> decides (call w' l') l' \<and> adapters_call call l w = settled (call w' l')"
proof (induction call l w rule: adapters_call.induct)
  case (1 call l w)
  obtain r l1 w1 where c: "call w l = (r, l1, w1)" by (metis prod_cases3)
  show ?case
  proof (cases "decides (call w l) l")
    case True
    then have "adapters_call call l w = settled (call w l)"
      using c by (auto simp: decides_def settled_def adapters_call.simps [of call l] split: outcome.splits)
    with True show ?thesis using retries.stop [of call l w] by blast
  next
    case False
    then have r: "r = CallFailed ERROR_BUFFER_OVERFLOW" "l < l1" "\<not> l1 \<le> l" using c by (auto simp: decides_def split: outcome.splits)
    then have e: "adapters_call call l w = adapters_call call l1 w1" using c by (simp add: adapters_call.simps [of call l])
    obtain n l2 w2 where n: "retries call l1 w1 n l2 w2" "decides (call w2 l2) l2" "adapters_call call l1 w1 = settled (call w2 l2)"
      using 1 [OF c [symmetric] r(1) refl] r(3) by auto
    have "retries call l w (Suc n) l2 w2" by (rule retries.retry [OF _ r(2) n(1)]) (simp add: c r(1))
    with n e show ?thesis by metis
  qed
qed

text \<open>
  C39: Whatever the system answers, the fetcher of the adapters returns: each retry has a
  larger buffer than the last, so there are fewer than \<open>2 ^ 32\<close> of them, and the call after
  them decides. An error is reported exactly when that call failed for another
  reason than the size of its buffer, or asked for no larger one; otherwise the adapters are those of
  the buffer, in order, and none where the system used none of it.
\<close>

theorem Adapters_return:
  "\<exists>n l w'. retries GetAdaptersAddresses 15000 w n l w' \<and> 15000 + n \<le> unat l \<and> n < 2 ^ 32 \<and>
     (case GetAdaptersAddresses w' l of
        (Filled b, l', w'') \<Rightarrow> WindowsAdapterFetcher_Adapters utf16 GetAdaptersAddresses w = (Inr (if l' = 0 then [] else adapter_list utf16 (Some b)), w'')
      | (CallFailed err, l', w'') \<Rightarrow> (err \<noteq> ERROR_BUFFER_OVERFLOW \<or> l' \<le> l) \<and> WindowsAdapterFetcher_Adapters utf16 GetAdaptersAddresses w = (Inl err, w''))"
proof -
  obtain n l w' where n: "retries GetAdaptersAddresses 15000 w n l w'" "decides (GetAdaptersAddresses w' l) l"
    "adapters_call GetAdaptersAddresses 15000 w = settled (GetAdaptersAddresses w' l)"
    using adapters_call_decided [of GetAdaptersAddresses 15000 w] by blast
  have g: "15000 + n \<le> unat l" using retries_grow [OF n(1)] by simp
  moreover have "unat l < 2 ^ 32" using unsigned_less [of l] by simp
  ultimately have "n < 2 ^ 32" by linarith
  with n g show ?thesis
    by (intro exI [of _ n] exI [of _ l] exI [of _ w'])
       (auto simp: WindowsAdapterFetcher_Adapters_def decides_def settled_def split: outcome.splits prod.splits if_splits)
qed

text \<open>A system that wants a larger buffer first.\<close>

definition one_adapter :: ip_adapter where
  "one_adapter = IpAdapterAddresses 6 1 (Some (IpAdapterUnicastAddress (Inr (SockaddrInet4 [10, 0, 0, 5])) None))
     (Some (IpAdapterDnsServerAdapter (Inr (SockaddrInet4 [169, 254, 0, 2])) None)) [] None"

definition growing_system :: "nat \<Rightarrow> 32 word \<Rightarrow> outcome \<times> 32 word \<times> nat" where
  "growing_system w l = (if l < 20000 then (CallFailed ERROR_BUFFER_OVERFLOW, 20000, w + 1) else (Filled one_adapter, 448, w + 1))"

theorem Adapters_return_witness:
  "\<exists>w. WindowsAdapterFetcher_Adapters (\<lambda>t. ''eth'') growing_system 0 =
     (Inr [\<lparr>ad_IfType = 6, ad_OperStatus = 1, ad_UnicastAddresses = [''10.0.0.5''], ad_DNSServerAddresses = [''169.254.0.2''], ad_FriendlyName = ''eth''\<rparr>], w)"
proof -
  have a: "adapter_list (\<lambda>t. ''eth'') (Some one_adapter) =
      [\<lparr>ad_IfType = 6, ad_OperStatus = 1, ad_UnicastAddresses = [''10.0.0.5''], ad_DNSServerAddresses = [''169.254.0.2''], ad_FriendlyName = ''eth''\<rparr>]"
    by code_simp
  obtain l w' where "case growing_system w' l of
        (Filled b, l', w'') \<Rightarrow> WindowsAdapterFetcher_Adapters (\<lambda>t. ''eth'') growing_system 0 =
           (Inr (if l' = 0 then [] else adapter_list (\<lambda>t. ''eth'') (Some b)), w'')
      | (CallFailed err, l', w'') \<Rightarrow> (err \<noteq> ERROR_BUFFER_OVERFLOW \<or> l' \<le> l) \<and> WindowsAdapterFetcher_Adapters (\<lambda>t. ''eth'') growing_system 0 = (Inl err, w'')"
    using Adapters_return [of growing_system 0 "\<lambda>t. ''eth''"] by (elim exE conjE) (rule that)
  then show ?thesis using a by (auto simp: growing_system_def not_less split: if_splits)
qed

section \<open>Addresses\<close>

text \<open>The text of an address of the internet families is read as its bytes; the others are empty texts, which name no server.\<close>

lemma sockaddrToIP_parsed:
  "list_all (\<lambda>x. x < 256) b \<Longrightarrow> length b = 4 \<Longrightarrow> \<exists>t. sockaddrToIP (Inr (SockaddrInet4 b)) = Inr t \<and> ParseIP t = Some (v4_prefix @ b)"
  "list_all (\<lambda>x. x < 256) b \<Longrightarrow> length b = 16 \<Longrightarrow> \<exists>t. sockaddrToIP (Inr (SockaddrInet6 b)) = Inr t \<and> ParseIP t = Some b"
  using ParseIP_IP_String [of "v4_prefix @ b"] ParseIP_IP_String [of b] by (simp_all add: sockaddrToIP_def v4_prefix_def list_all_iff)

lemma other_family_empty: "sockaddrToIP (Inr (SockaddrUnix p)) = Inr ''''" "ParseIP '''' = None"
  by (simp_all add: sockaddrToIP_def ParseIP_def)

text \<open>A system that says truly how much room it needs is called at most twice.\<close>

lemma honest_system:
  assumes "\<And>w l. call w l = (if l < need then (CallFailed ERROR_BUFFER_OVERFLOW, need, w) else (Filled b, need, w))" "need \<noteq> 0"
  shows "WindowsAdapterFetcher_Adapters utf16 call w = (Inr (adapter_list utf16 (Some b)), w)"
proof -
  have "adapters_call call need w = (Inr (Some b), w)" using assms by (simp add: adapters_call.simps [of call need])
  then have "adapters_call call 15000 w = (Inr (Some b), w)" using assms by (auto simp: adapters_call.simps [of call 15000] not_le)
  then show ?thesis by (simp add: WindowsAdapterFetcher_Adapters_def)
qed

text \<open>The first nameserver that the manager reads is the first DNS server of the adapter it took.\<close>

lemma windows_reads_adapter:
  assumes "WindowsAdapterFetcher_Adapters utf16 call w = (Inr as, w')" "windows_Read address (Some as) = Inr servers"
  shows "\<exists>a\<in>set as. candidate a \<and> servers = ad_DNSServerAddresses a"
  using assms(2) getPrimaryAdapter_candidate [of address as] by (auto simp: windows_Read_def res_bind_Inr_iff)

end
