(* ===== verification/Test_Recursor.thy ===== *)
theory Test_Recursor
  imports Serve_Mux Dns_Pack Ip_Text
begin

text \<open>
  The recursor that the acceptance and integration tests put behind the server
  (\<^verbatim>\<open>src/bosh-dns/acceptance_tests/dns-acceptance-release/src/test-recursor\<close>): one handler for
  each name of the tests, and the multiplexer they are registered with. A handler
  returns how long it sleeps, in nanoseconds, the message it writes, and the next value of the
  counter the handlers share; \<open>None\<close> stands for a loop that does not end.
\<close>

section \<open>Definitions\<close>

record recursor_config =
  rc_Address :: string
  rc_Port :: int
  rc_ConfigurableResponse :: string

definition recursor_NewConfig :: recursor_config where
  "recursor_NewConfig = \<lparr>rc_Address = '''', rc_Port = 0, rc_ConfigurableResponse = ''''\<rparr>"

text \<open>\<open>unmarshal\<close> sets the fields that the YAML document has.\<close>

definition recursor_LoadFromFile ::
  "(string \<Rightarrow> string option) \<Rightarrow> (string \<Rightarrow> recursor_config \<Rightarrow> recursor_config option) \<Rightarrow> string \<Rightarrow> recursor_config \<Rightarrow> recursor_config option" where
  "recursor_LoadFromFile readFile unmarshal filename c = Option.bind (readFile filename) (\<lambda>yamlFile. unmarshal yamlFile c)"

type_synonym test_handler = "network \<Rightarrow> msg \<Rightarrow> nat \<Rightarrow> (int \<times> msg \<times> nat) option"

text \<open>The record that the handlers answer with, and its address in a loop.\<close>

definition a_record :: "msg \<Rightarrow> 32 word \<Rightarrow> go_ip \<Rightarrow> rr" where
  "a_record req ttl ip = RR_A (header_for (qn_Name (hd (m_Question req))) TypeA ttl) ip"

definition loop_ip :: "nat \<Rightarrow> go_ip" where
  "loop_ip i = To4 (ParseIP (''127.0.0.'' @ itoa (i + 1)))"

text \<open>The handlers with one answer: the reply, whose answer and flags are set first.\<close>

definition answer_one :: "rr \<Rightarrow> bool \<Rightarrow> msg \<Rightarrow> msg" where
  "answer_one r truncated req =
     SetReply req (new_msg\<lparr>m_Answer := [r], m_Authoritative := True, m_RecursionAvailable := True, m_Truncated := truncated\<rparr>)"

definition truncated_recursor :: test_handler where
  "truncated_recursor network req n = Some (0, answer_one (a_record req 0 (ParseIP ''9.9.9.9'')) True req, n)"

function trim_answers :: "nat \<Rightarrow> msg \<Rightarrow> msg" where
  "trim_answers maxUdpSize m =
     (if length (m_Answer m) > 0 \<and> Len m > maxUdpSize then trim_answers maxUdpSize (m\<lparr>m_Answer := butlast (m_Answer m)\<rparr>) else m)"
  by pat_completeness auto
termination by (relation "measure (\<lambda>(l, m). length (m_Answer m))") auto

declare trim_answers.simps [simp del]

text \<open>The replies that are filled in a loop.\<close>

definition open_reply :: "msg \<Rightarrow> int \<Rightarrow> msg" where
  "open_reply req rcode = (SetRcode req rcode (SetReply req new_msg))\<lparr>m_Authoritative := True, m_RecursionAvailable := True\<rparr>"

definition loop_records :: "msg \<Rightarrow> nat \<Rightarrow> rr list" where
  "loop_records req m1 = map (\<lambda>i. a_record req 0 (loop_ip i)) [0..<m1]"

definition udp_9k_message :: test_handler where
  "udp_9k_message network req n =
     (let msg = open_reply req (if network = TCP then RcodeServerFailure else RcodeSuccess);
          msg = msg\<lparr>m_Compress := False, m_Answer := loop_records req 2048\<rparr>
      in Some (0, trim_answers 9184 msg, n))"

definition ip_truncated_recursor_large :: test_handler where
  "ip_truncated_recursor_large network req n =
     (let msg = (open_reply req RcodeSuccess)\<lparr>m_Answer := loop_records req 512\<rparr>
      in Some (0, (trim_answers 1024 msg)\<lparr>m_Truncated := True\<rparr>, n))"

definition recursor_small :: test_handler where
  "recursor_small network req n = Some (0, (open_reply req RcodeSuccess)\<lparr>m_Answer := loop_records req 2, m_Truncated := False\<rparr>, n)"

definition slow_recursor :: test_handler where
  "slow_recursor network req n =
     Some (3000000000, (open_reply req RcodeSuccess)\<lparr>m_Answer := [a_record req 0 (To4 (ParseIP ''127.0.0.1''))]\<rparr>, n)"

definition alternating_slow_recursor :: test_handler where
  "alternating_slow_recursor network req n =
     (let msg = (open_reply req RcodeSuccess)\<lparr>m_Answer := [a_record req 5 (To4 (ParseIP ''127.0.0.1''))]\<rparr>
      in Some (if odd (uint (m_Id msg)) then 2000000000 else 0, msg, n))"

definition alternating_nameerror_recursor :: test_handler where
  "alternating_nameerror_recursor network req n =
     (let q = hd (m_Question req) in
      Some (0,
        if odd (uint (m_Id req)) then open_reply req RcodeNameError
        else (open_reply req RcodeSuccess)\<lparr>m_Answer := [RR_A (header_for (qn_Name q) (qn_Qtype q) 5) (To4 (ParseIP ''127.0.0.1''))]\<rparr>, n))"

text \<open>The numbers of an SOA record follow its two names, four bytes each.\<close>

definition soa_record :: "rr_header \<Rightarrow> string \<Rightarrow> string \<Rightarrow> 32 word list \<Rightarrow> rr" where
  "soa_record h ns mbox numbers = OtherRR h [DName ns True, DName mbox True, Octets (concat (map be32 numbers))]"

definition alternating_soa_nameerror_recursor :: test_handler where
  "alternating_soa_nameerror_recursor network req n =
     (let q = hd (m_Question req) in
      Some (0,
        if odd (uint (m_Id req)) then open_reply req RcodeNameError
        else (open_reply req RcodeSuccess)\<lparr>m_Answer := [soa_record (header_for (qn_Name q) (qn_Qtype q) 5) ''ns1.pivotal.io''
               ''postmaster.pivotal.io'' [1987, 3600, 600, 604800, 3600]]\<rparr>, n))"

partial_function (option) grow_answers :: "msg \<Rightarrow> nat \<Rightarrow> msg \<Rightarrow> msg option" where
  "grow_answers req i m =
     (if Len m < 512 then grow_answers req (i + 1) (m\<lparr>m_Answer := m_Answer m @ [a_record req 0 (loop_ip i)]\<rparr>) else Some m)"

definition compressed_ip_truncated_recursor_large :: test_handler where
  "compressed_ip_truncated_recursor_large network req n =
     map_option (\<lambda>msg. (0, msg\<lparr>m_Compress := True\<rparr>, n)) (grow_answers req 0 (open_reply req RcodeSuccess))"

definition example_com :: test_handler where
  "example_com network req n = Some (0, answer_one (a_record req 0 (ParseIP ''10.10.10.10'')) False req, n)"

definition always_different :: test_handler where
  "always_different network req n = Some (0, answer_one (a_record req 5 (loop_ip n)) False req, n + 1)"

definition handler_internal_local :: test_handler where
  "handler_internal_local network req n = Some (0, answer_one (a_record req 0 (ParseIP ''10.168.0.1'')) False req, n)"

definition ptr_answer :: "string \<Rightarrow> test_handler" where
  "ptr_answer ptr network req n =
     Some (0, answer_one (RR_PTR (header_for (qn_Name (hd (m_Question req))) TypePTR 0) ptr) False req, n)"

definition configurable_response :: "recursor_config \<Rightarrow> test_handler" where
  "configurable_response cfg network req n = Some (0, answer_one (a_record req 0 (ParseIP (rc_ConfigurableResponse cfg))) False req, n)"

definition recursor_patterns :: "recursor_config \<Rightarrow> (string \<times> test_handler) list" where
  "recursor_patterns cfg =
     [(''truncated-recursor.com.'', truncated_recursor), (''udp-9k-message.com.'', udp_9k_message),
      (''ip-truncated-recursor-large.com.'', ip_truncated_recursor_large), (''recursor-small.com.'', recursor_small),
      (''slow-recursor.com.'', slow_recursor), (''alternating-slow-recursor.com.'', alternating_slow_recursor),
      (''alternating-nameerror-recursor.com.'', alternating_nameerror_recursor),
      (''alternating-soa-nameerror-recursor.com.'', alternating_soa_nameerror_recursor),
      (''compressed-ip-truncated-recursor-large.com.'', compressed_ip_truncated_recursor_large),
      (''example.com.'', example_com), (''always-different-with-timeout-example.com.'', always_different),
      (''handler.internal.local.'', handler_internal_local),
      (''4.4.8.8.in-addr.arpa.'', ptr_answer ''google-public-dns-b.google.com.''),
      (''8.8.8.8.0.0.0.0.0.0.0.0.0.0.0.0.0.0.0.0.0.6.8.4.0.6.8.4.1.0.0.2.ip6.arpa.'', ptr_answer ''google-public-dns-a.google.com.''),
      (''question_with_configurable_response.'', configurable_response cfg)]"

text \<open>The listener and the handlers; the arguments are those of the command line.\<close>

definition recursor_main ::
  "(string \<Rightarrow> string option) \<Rightarrow> (string \<Rightarrow> recursor_config \<Rightarrow> recursor_config option) \<Rightarrow> string list \<Rightarrow> (int + string \<times> (test_handler mux option))" where
  "recursor_main readFile unmarshal args =
     (if length args \<noteq> 2 then Inl 1
      else case recursor_LoadFromFile readFile unmarshal (args ! 1) recursor_NewConfig of
        None \<Rightarrow> Inl 1
      | Some cfg \<Rightarrow>
          let cfg = (if rc_Address cfg = '''' then cfg\<lparr>rc_Address := ''0.0.0.0''\<rparr> else cfg)
          in Inr (rc_Address cfg @ '':'' @ itoa_int (rc_Port cfg), register_all (recursor_patterns cfg) []))"

definition recursor_ServeDNS :: "test_handler mux \<Rightarrow> test_handler" where
  "recursor_ServeDNS z network req n =
     (case (if length (m_Question req) \<ge> 1
            then mux_match z (qn_Name (hd (m_Question req))) (qn_Qtype (hd (m_Question req))) else None) of
        Some h \<Rightarrow> h network req n
      | None \<Rightarrow> Some (0, SetRcode req RcodeRefused new_msg, n))"


section \<open>The loops end\<close>

lemma trim_answers_keeps:
  "is_reply r (trim_answers n m) = is_reply r m \<and> (\<exists>k. m_Answer (trim_answers n m) = take k (m_Answer m)) \<and>
   (Len (trim_answers n m) \<le> n \<or> m_Answer (trim_answers n m) = [])"
proof (induction n m rule: trim_answers.induct)
  case (1 n m)
  show ?case
  proof (cases "length (m_Answer m) > 0 \<and> Len m > n")
    case True
    let ?m = "m\<lparr>m_Answer := butlast (m_Answer m)\<rparr>"
    have t: "trim_answers n m = trim_answers n ?m" using True by (subst trim_answers.simps) simp
    obtain k where "m_Answer (trim_answers n ?m) = take k (butlast (m_Answer m))" using 1 True by auto
    then have "m_Answer (trim_answers n ?m) = take (min k (length (m_Answer m) - 1)) (m_Answer m)" by (simp add: butlast_conv_take)
    then show ?thesis using 1 True unfolding t by auto
  next
    case False
    then have "trim_answers n m = m" by (subst trim_answers.simps) auto
    with False show ?thesis by (auto intro: exI [of _ "length (m_Answer m)"])
  qed
qed

lemma Len_more_answers: "\<not> m_Compress m \<Longrightarrow> m_Ns m = [] \<Longrightarrow> m_Extra m = [] \<Longrightarrow> Len m < Len (m\<lparr>m_Answer := m_Answer m @ [r]\<rparr>)"
proof -
  assume m: "\<not> m_Compress m" "m_Ns m = []" "m_Extra m = []"
  have "fst (header_len h off c) \<ge> 10" for h off c by (simp add: header_len_def case_prod_beta Let_def)
  moreover have "fst (rr_len r off None) = fst (header_len (rr_hdr r) off None) + fst (rdata_len r 0 0 None)" for off
    using rdata_len_off [of r off "fst (header_len (rr_hdr r) off None)"] by (simp add: rr_len_split case_prod_beta Let_def)
  ultimately have pos: "fst (rr_len r off None) > 0" for off by (metis add_gr_0 less_le_trans zero_less_numeral)
  let ?l = "rrs_len (m_Answer m) (questions_len (m_Question m) (12, None))"
  have "snd ?l = None" using questions.some_len_None records.some_len_None by (metis prod.collapse some_len_eq)
  then have "rrs_len (m_Answer m @ [r]) (questions_len (m_Question m) (12, None)) = (fst ?l + fst (rr_len r (fst ?l) None), snd (rr_len r (fst ?l) None))"
    by (cases ?l) (simp add: rrs_len_def case_prod_beta Let_def)
  then show ?thesis using m pos [of "fst ?l"] by (simp add: Len_def msgLenWithCompressionMap_def case_prod_beta Let_def)
qed

lemma grow_answers_returns:
  assumes "\<not> m_Compress m" "m_Ns m = []" "m_Extra m = []"
  shows "\<exists>m' as. grow_answers req i m = Some m' \<and> m' = m\<lparr>m_Answer := m_Answer m @ as\<rparr> \<and> Len m' \<ge> 512"
  using assms
proof (induction "512 - Len m" arbitrary: m i rule: less_induct)
  case less
  show ?case
  proof (cases "Len m < 512")
    case True
    let ?m = "m\<lparr>m_Answer := m_Answer m @ [a_record req 0 (loop_ip i)]\<rparr>"
    have "512 - Len ?m < 512 - Len m" using True Len_more_answers [OF less.prems] by (meson diff_less_mono2)
    then obtain m' as where "grow_answers req (i + 1) ?m = Some m'" "m' = ?m\<lparr>m_Answer := m_Answer ?m @ as\<rparr>" "Len m' \<ge> 512"
      using less.hyps [of ?m "i + 1"] less.prems by auto
    moreover have "grow_answers req i m = grow_answers req (i + 1) ?m" using True by (simp add: grow_answers.simps [of req i])
    ultimately show ?thesis by (intro exI [of _ m'] exI [of _ "a_record req 0 (loop_ip i) # as"]) simp
  next
    case False
    then show ?thesis by (intro exI [of _ m] exI [of _ "[]"]) (simp add: grow_answers.simps [of req i])
  qed
qed

section \<open>Every question is answered\<close>

definition answers :: "test_handler \<Rightarrow> bool" where
  "answers h \<longleftrightarrow> (\<forall>network req n. \<exists>d m n'. h network req n = Some (d, m, n') \<and> is_reply req m \<and> 0 \<le> d \<and> d \<le> 3000000000 \<and> n \<le> n' \<and> n' \<le> n + 1)"

lemma open_reply_reply [simp]: "is_reply req (open_reply req c)"
  by (simp add: open_reply_def)

lemma answer_one_reply [simp]: "is_reply req (answer_one r t req)"
  by (simp add: answer_one_def)

lemma open_reply_plain: "\<not> m_Compress (open_reply req c)" "m_Ns (open_reply req c) = []" "m_Extra (open_reply req c) = []"
  by (simp_all add: open_reply_def SetRcode_def SetReply_def new_msg_def Let_def)

lemma is_reply_Compress [simp]: "is_reply r (m\<lparr>m_Compress := b\<rparr>) = is_reply r m"
  by (simp add: is_reply_def)

lemmas handler_defs = truncated_recursor_def udp_9k_message_def ip_truncated_recursor_large_def recursor_small_def slow_recursor_def
  alternating_slow_recursor_def alternating_nameerror_recursor_def alternating_soa_nameerror_recursor_def example_com_def always_different_def
  handler_internal_local_def ptr_answer_def configurable_response_def

lemma patterns_answer: "\<forall>h\<in>snd ` set (recursor_patterns cfg). answers h"
proof -
  have "answers compressed_ip_truncated_recursor_large"
    unfolding answers_def compressed_ip_truncated_recursor_large_def
    using grow_answers_returns [OF open_reply_plain] by fastforce
  moreover have "\<forall>h\<in>{truncated_recursor, udp_9k_message, ip_truncated_recursor_large, recursor_small, slow_recursor, alternating_slow_recursor,
      alternating_nameerror_recursor, alternating_soa_nameerror_recursor, example_com, always_different, handler_internal_local, ptr_answer p, ptr_answer p',
      configurable_response cfg}. answers h" for p p'
    by (simp add: answers_def handler_defs Let_def trim_answers_keeps)
  ultimately show ?thesis by (simp add: recursor_patterns_def)
qed

lemma register_all_handlers: "register_all cs z = Some z' \<Longrightarrow> map_of z' k = Some h \<Longrightarrow> h \<in> snd ` set cs \<or> map_of z k = Some h"
proof (induction cs z rule: register_all.induct)
  case (2 p h' cs z)
  then show ?case by (auto simp: mux_Handle_def bind_eq_Some_conv map_of_insert_map_apply split: if_splits)
qed simp

lemma match_suffixes_handler: "match_suffixes z t ps h0 = Some h \<Longrightarrow> h0 = Some h \<or> (\<exists>k. map_of z k = Some h)"
  by (induction z t ps h0 rule: match_suffixes.induct) (auto split: option.splits if_splits)

theorem test_recursor_answers:
  assumes "recursor_main readFile unmarshal args = Inr (addr, Some z)"
  shows "answers (recursor_ServeDNS z)"
proof -
  obtain cfg where z: "register_all (recursor_patterns cfg) [] = Some z"
    using assms by (auto simp: recursor_main_def Let_def split: if_splits option.splits)
  have "answers h" if found: "mux_match z q t = Some h" for q t h
  proof -
    obtain k where "map_of z k = Some h" using match_suffixes_handler [of z t _ None h] found by (auto simp: mux_match_def)
    then have "h \<in> snd ` set (recursor_patterns cfg)" using register_all_handlers [OF z] by fastforce
    then show ?thesis using patterns_answer by blast
  qed
  then show ?thesis by (auto simp: answers_def recursor_ServeDNS_def split: option.split)
qed


section \<open>What the tests see\<close>

text \<open>
  A name error without an SOA record in the authority section is not stored, whatever
  type was asked.
\<close>

lemma nameerror_not_stored:
  assumes "m_Opcode req = 0"
  shows "\<exists>m. cache_WriteMsg choice typed stored r (open_reply req RcodeNameError) c = Some (c, m)"
proof -
  let ?m = "open_reply req RcodeNameError"
  have "Typify ?m typed = Meta \<or> Typify ?m typed = OtherError \<or> Typify ?m typed = NameError"
    using assms by (auto simp: Typify_def open_reply_def SetRcode_def SetReply_def new_msg_def Let_def)
  moreover have "\<not> hasSOA ?m" by (simp add: hasSOA_def open_reply_plain)
  ultimately have "cache_key n ?m (Typify ?m typed) d cd = Some None" for n d cd by (auto simp: cache_key_def)
  then show ?thesis by (simp add: cache_WriteMsg_def Let_def)
qed

text \<open>The names in its SOA record are not fully qualified, so the other answer cannot be sent.\<close>

definition soa_request :: msg where
  "soa_request = new_msg\<lparr>m_Id := 2, m_RecursionDesired := True,
     m_Question := [\<lparr>qn_Name = ''alternating-soa-nameerror-recursor.com.'', qn_Qtype = 6, qn_Qclass = ClassINET\<rparr>]\<rparr>"

lemma soa_answer_unsendable:
  "map_option (\<lambda>(d, m, n). Pack m) (alternating_soa_nameerror_recursor UDP soa_request 0) = Some (Inl ErrFqdn)"
  by code_simp

text \<open>Beyond its 255th record the large answer has no addresses left.\<close>

lemma loop_ip_none: "254 < i \<Longrightarrow> loop_ip i = None"
proof -
  assume i: "254 < i"
  have s: "Split CHR ''.'' (''127.0.0.'' @ itoa (i + 1)) = [''127'', ''0'', ''0'', itoa (i + 1)]"
    using all_digits_no_dot [OF all_digits_itoa, of "i + 1"] by (simp add: Split_no_sep)
  have "octet (itoa (i + 1)) = None" using i decimal_itoa [of "i + 1"] by (simp add: octet_def)
  then have "parseIPv4Fields (''127.0.0.'' @ itoa (i + 1)) = None" unfolding parseIPv4Fields_def s by (simp split: option.split)
  then have "ParseIP (''127.0.0.'' @ itoa (i + 1)) = None" by (simp add: ParseIP_def)
  then show ?thesis by (simp add: loop_ip_def To4_def)
qed

end
