(* ===== verification/Test_Http.thy ===== *)
theory Test_Http
  imports Url Dns_Pack
begin

text \<open>
  The HTTP server that the tests put behind the handler of \<^verbatim>\<open>http_json_handler.go\<close>
  (\<^verbatim>\<open>src/bosh-dns/acceptance_tests/dns-acceptance-release/src/test-http-dns-server\<close>), and what the
  handler makes of what a server answers.
\<close>

section \<open>Definitions\<close>

text \<open>\<^verbatim>\<open>url.ParseQuery\<close> fails on a pair that \<^verbatim>\<open>URL.Query\<close> drops.\<close>

definition url_ParseQuery :: "string \<Rightarrow> (string \<times> string) list option" where
  "url_ParseQuery rawQuery =
     (if list_ex (\<lambda>p. p \<noteq> '''' \<and> query_pair p = None) (Split (CHR ''&'') rawQuery) then None else Some (Query rawQuery))"

definition Values_Get :: "(string \<times> string) list \<Rightarrow> string \<Rightarrow> string" where
  "Values_Get values key = (case map_of values key of None \<Rightarrow> '''' | Some v \<Rightarrow> v)"

definition json_answer :: "string \<Rightarrow> 32 word \<Rightarrow> string \<Rightarrow> http_answer" where
  "json_answer name ttl ip = \<lparr>ha_Name = name, ha_RRType = TypeA, ha_TTL = ttl, ha_Data = ip\<rparr>"

text \<open>The two documents, as the fields that the handler reads.\<close>

definition app_id_json :: http_message where
  "app_id_json = \<lparr>hm_Truncated = False, hm_Answer = [json_answer ''app-id.internal.local.'' 0 ''192.168.0.1'']\<rparr>"

definition large_id_json :: http_message where
  "large_id_json = \<lparr>hm_Truncated = False, hm_Answer =
     map (\<lambda>i. json_answer ''large-id.internal-domain.'' (if i \<le> 3 then 1526 else 224) (''192.168.0.'' @ itoa i)) [1..<14]\<rparr>"

text \<open>The handler of the server; \<open>None\<close> is its panic, which ends the request without a response.\<close>

definition test_http_handler :: "string \<Rightarrow> http_message option" where
  "test_http_handler rawQuery =
     (case url_ParseQuery rawQuery of
        None \<Rightarrow> None
      | Some queryValues \<Rightarrow>
          if Values_Get queryValues ''type'' = ''1'' \<and> Values_Get queryValues ''name'' = ''app-id.internal.local.'' then Some app_id_json
          else if Values_Get queryValues ''type'' = ''1'' \<and> Values_Get queryValues ''name'' = ''large-id.internal.local.'' then Some large_id_json
          else None)"

definition test_http_get :: "(http_message \<Rightarrow> string) \<Rightarrow> string \<Rightarrow> string \<Rightarrow> (int \<times> string option) option" where
  "test_http_get document address url =
     map_option (\<lambda>h. (200, Some (document h))) (test_http_handler (snd (request_uri (drop (length address) url))))"

section \<open>From question to answer\<close>

lemma query_url_parsed:
  "url_ParseQuery (snd (request_uri (drop (length address) (query_url address q)))) = Some [(''name'', qn_Name q), (''type'', itoa (unat (qn_Qtype q)))]"
proof -
  let ?p = "''name'' @ CHR ''='' # QueryEscape (qn_Name q)" and ?t = "''type'' @ CHR ''='' # QueryEscape (itoa (unat (qn_Qtype q)))"
  note w = query_url_written(1) [of address q] query_url_written(2-6) [of q]
  have s: "Split (CHR ''&'') (?p @ CHR ''&'' # ?t) = [?p, ?t]" using Split_append_sep [OF w(4), of ?t] Split_no_sep [OF w(5)] by simp
  show ?thesis unfolding url_ParseQuery_def w(1) s w(6) using w(2,3) by simp
qed

text \<open>
  C40: The handler for answers over HTTP asks what it was asked: a server that reads the name
  and the type from the query gets the name of the question, whatever characters it has, and
  its type. The reply holds the records of what the server answers to that, under the
  name as it was asked, or is a server failure when there is none.
\<close>

theorem http_question_answered:
  assumes "m_Question req = q # qs" "raw = snd (request_uri (drop (length address) (query_url address q)))"
    and "get (query_url address q) = map_option (\<lambda>h. (200, Some (document h))) (serve (Query_Get raw ''name'') (Query_Get raw ''type''))"
    and "\<forall>name t h. serve name t = Some h \<longrightarrow> unmarshal (document h) = Some h"
    and "m = buildResponse get unmarshal address req"
  shows "is_reply req m \<and> m_Authoritative m \<and>
    (case serve (qn_Name q) (itoa (unat (qn_Qtype q))) of
       None \<Rightarrow> m_Rcode m = RcodeServerFailure \<and> m_Answer m = []
     | Some h \<Rightarrow> m_Rcode m = RcodeSuccess \<and> m_Truncated m = hm_Truncated h \<and>
         m_Answer m = map (\<lambda>a. RR_A (header_for (qn_Name q) (ha_RRType a) (ha_TTL a)) (ParseIP (ha_Data a))) (hm_Answer h))"
proof -
  have g: "get (query_url address q) = map_option (\<lambda>h. (200, Some (document h))) (serve (qn_Name q) (itoa (unat (qn_Qtype q))))"
    using assms(3) unfolding assms(2) query_url_read .
  show ?thesis
    using g assms(1,4) unfolding assms(5) buildResponse_def
    by (cases "serve (qn_Name q) (itoa (unat (qn_Qtype q)))") (simp_all add: Let_def new_msg_def)
qed

text \<open>The server of the tests reads its queries like that.\<close>

definition test_serve :: "string \<Rightarrow> string \<Rightarrow> http_message option" where
  "test_serve name t =
     (if t = ''1'' \<and> name = ''app-id.internal.local.'' then Some app_id_json
      else if t = ''1'' \<and> name = ''large-id.internal.local.'' then Some large_id_json else None)"

lemma test_http_get_serves:
  fixes address q
  defines "raw \<equiv> snd (request_uri (drop (length address) (query_url address q)))"
  shows "test_http_get document address (query_url address q) =
    map_option (\<lambda>h. (200, Some (document h))) (test_serve (Query_Get raw ''name'') (Query_Get raw ''type''))"
proof -
  have "url_ParseQuery raw = Some [(''name'', qn_Name q), (''type'', itoa (unat (qn_Qtype q)))]" unfolding raw_def by (rule query_url_parsed)
  then show ?thesis
    unfolding test_http_get_def raw_def [symmetric] test_http_handler_def
    using query_url_read [of address q] by (simp add: raw_def [symmetric] Values_Get_def test_serve_def)
qed

theorem http_question_answered_witness:
  "let req = new_msg\<lparr>m_Id := 3, m_Question := [\<lparr>qn_Name = ''app-id.internal.local.'', qn_Qtype = TypeA, qn_Qclass = ClassINET\<rparr>]\<rparr>
   in m_Answer (buildResponse (test_http_get (\<lambda>h. if h = app_id_json then ''app'' else ''large'') ''http://10.0.0.9:8081'')
        (\<lambda>b. Some (if b = ''app'' then app_id_json else large_id_json)) ''http://10.0.0.9:8081'' req) =
      [RR_A (header_for ''app-id.internal.local.'' TypeA 0) (ParseIP ''192.168.0.1'')]"
proof -
  let ?q = "\<lparr>qn_Name = ''app-id.internal.local.'', qn_Qtype = TypeA, qn_Qclass = ClassINET\<rparr>"
  let ?document = "\<lambda>h. if h = app_id_json then ''app'' else ''large''" and ?unmarshal = "\<lambda>b. Some (if b = ''app'' then app_id_json else large_id_json)"
  have "length (hm_Answer app_id_json) = 1" "length (hm_Answer large_id_json) = 13" by (simp_all add: app_id_json_def large_id_json_def)
  then have u: "\<forall>name t h. test_serve name t = Some h \<longrightarrow> ?unmarshal (?document h) = Some h" by (auto simp: test_serve_def)
  have "itoa (unat (TypeA :: 16 word)) = ''1''" by code_simp
  then have "test_serve (qn_Name ?q) (itoa (unat (qn_Qtype ?q))) = Some app_id_json" by (simp add: test_serve_def)
  with http_question_answered [where get = "test_http_get ?document ''http://10.0.0.9:8081''" and document = ?document and unmarshal = ?unmarshal and
      address = "''http://10.0.0.9:8081''" and serve = test_serve and q = ?q and qs = "[]" and req = "new_msg\<lparr>m_Id := 3, m_Question := [?q]\<rparr>",
      OF _ refl test_http_get_serves u refl]
  show ?thesis by (simp add: app_id_json_def json_answer_def)
qed

text \<open>
  Every answer becomes a record of the type \<^verbatim>\<open>dns.A\<close>: an IPv6 address that the server reports under
  its own type is sent as four bytes of zeros.
\<close>

lemma http_AAAA_answer_garbled:
  "map_sum id (map of_char \<circ> drop 30) (Pack (buildResponse (\<lambda>u. Some (200, Some ''j''))
     (\<lambda>b. Some \<lparr>hm_Truncated = False, hm_Answer = [\<lparr>ha_Name = ''a.'', ha_RRType = TypeAAAA, ha_TTL = 0, ha_Data = ''2001:db8::1''\<rparr>]\<rparr>) ''h''
     (new_msg\<lparr>m_Question := [\<lparr>qn_Name = ''a.'', qn_Qtype = TypeAAAA, qn_Qclass = ClassINET\<rparr>]\<rparr>))) =
   (Inr [0, 4, 0, 0, 0, 0] :: pack_error + nat list)"
  by code_simp

end
