(* ===== verification/Test_Tools.thy ===== *)
theory Test_Tools
  imports Handlers Record_Set Ip_Text
begin

text \<open>
  Helpers of the test suites and performance tests: names in mixed case and the questions of
  \<^verbatim>\<open>dig\<close> (\<^verbatim>\<open>dns/internal/testhelpers\<close>, \<^verbatim>\<open>acceptance_tests/helpers/dns.go\<close>), the matchers of messages
  (\<^verbatim>\<open>gomegadns\<close>), the pickers of zones (\<^verbatim>\<open>performance_tests/zone_pickers\<close>) and the program that
  replaces the names and addresses of recorded test data (\<^verbatim>\<open>dns/internal/datatests/sanitize.go\<close>).
\<close>

section \<open>Definitions\<close>

subsection \<open>Questions\<close>

text \<open>\<^verbatim>\<open>unicode.ToUpper\<close> of an ASCII character.\<close>

definition to_upper_char :: "char \<Rightarrow> char" where
  "to_upper_char c = (if CHR ''a'' \<le> c \<and> c \<le> CHR ''z'' then char_of (of_char c - 32 :: nat) else c)"

definition MixCase :: "string \<Rightarrow> string" where
  "MixCase str = map (\<lambda>(i, c). if i mod 2 = 0 then lower_char c else to_upper_char c) (enumerate 0 str)"

text \<open>\<open>id1\<close> is the random identifier; the name asked is handed out as well.\<close>

definition dns_SetQuestion :: "16 word \<Rightarrow> string \<Rightarrow> 16 word \<Rightarrow> msg \<Rightarrow> msg" where
  "dns_SetQuestion id1 z t m = m\<lparr>m_Id := id1, m_RecursionDesired := True, m_Question := [\<lparr>qn_Name = z, qn_Qtype = t, qn_Qclass = ClassINET\<rparr>]\<rparr>"

definition SetQuestion :: "16 word \<Rightarrow> msg \<Rightarrow> string \<Rightarrow> 16 word \<Rightarrow> msg \<times> string" where
  "SetQuestion id1 m z t = (let casedZ = MixCase z in (dns_SetQuestion id1 casedZ t m, casedZ))"

record dig_opts =
  dg_BufferSize :: "16 word"
  dg_Port :: int
  dg_Type :: "16 word"
  dg_Id :: "16 word"

text \<open>The request and the address of \<^verbatim>\<open>DigWithOptions\<close>.\<close>

definition dig_request :: "16 word \<Rightarrow> string \<Rightarrow> string \<Rightarrow> dig_opts \<Rightarrow> msg \<times> string" where
  "dig_request id1 domain server opts =
     (let m = (if unat (dg_BufferSize opts) > MinMsgSize then SetEdns0 (dg_BufferSize opts) new_msg else new_msg);
          t = (if dg_Type opts = 0 then TypeA else dg_Type opts);
          m = dns_SetQuestion id1 domain t m;
          m = (if dg_Id opts \<noteq> 0 then m\<lparr>m_Id := dg_Id opts\<rparr> else m);
          port = (if dg_Port opts \<noteq> 0 then dg_Port opts else 53)
      in (m, server @ '':'' @ itoa_int port))"

definition ReverseDig_name :: "string \<Rightarrow> string" where
  "ReverseDig_name domain = Join (rev (Split (CHR ''.'') domain)) ''.'' @ ''.in-addr.arpa.''"

definition hex2 :: "nat \<Rightarrow> string" where
  "hex2 v = [''0123456789abcdef'' ! (v div 16 mod 16), ''0123456789abcdef'' ! (v mod 16)]"

definition IPv6ReverseDig_name :: "nat list \<Rightarrow> string" where
  "IPv6ReverseDig_name address = Join (rev (map (\<lambda>c. [c]) (concat (map hex2 address)))) ''.'' @ ''.ip6.arpa.''"

subsection \<open>Matchers\<close>

definition flagsNames :: "string list" where
  "flagsNames = [''qr'', ''aa'', ''tc'', ''rd'', ''ra'', ''z'', ''ad'', ''cd'']"

definition fetchFlag :: "msg \<Rightarrow> string \<Rightarrow> bool option" where
  "fetchFlag m flag =
     map_of [(''qr'', m_Response m), (''aa'', m_Authoritative m), (''tc'', m_Truncated m), (''rd'', m_RecursionDesired m),
       (''ra'', m_RecursionAvailable m), (''z'', m_Zero m), (''ad'', m_AuthenticatedData m), (''cd'', m_CheckingDisabled m)] flag"

definition flags_of :: "msg \<Rightarrow> string list" where
  "flags_of m = filter (\<lambda>f. fetchFlag m f = Some True) flagsNames"

text \<open>\<^verbatim>\<open>ContainElements\<close> wants every expected element, as often as it is expected.\<close>

definition HaveFlags_Match :: "string list \<Rightarrow> msg \<Rightarrow> bool" where
  "HaveFlags_Match expected m = (mset expected \<subseteq># mset (flags_of m))"

datatype field = TextField string | NumberField int

text \<open>A record that is neither an A nor a PTR record fails the type assertion: a panic.\<close>

definition FetchIP :: "(rr \<Rightarrow> string) \<Rightarrow> rr \<Rightarrow> string option" where
  "FetchIP rrString r =
     (case r of
        RR_A h (Some ip) \<Rightarrow> Some (IP_String ip)
      | RR_A h None \<Rightarrow> Some ''<nil>''
      | RR_PTR h p \<Rightarrow> Some (rrString r)
      | _ \<Rightarrow> None)"

definition encoded_record :: "(rr \<Rightarrow> string) \<Rightarrow> rr \<Rightarrow> (string \<times> field) list option" where
  "encoded_record rrString r =
     map_option (\<lambda>ip. [(''name'', TextField (hdr_Name (rr_hdr r))), (''ip'', TextField ip),
       (''rrtype'', NumberField (uint (hdr_Rrtype (rr_hdr r)))), (''class'', NumberField (uint (hdr_Class (rr_hdr r)))),
       (''ttl'', NumberField (uint (hdr_Ttl (rr_hdr r))))]) (FetchIP rrString r)"

definition MatchResponse_Match :: "(rr \<Rightarrow> string) \<Rightarrow> (string, field) gomap \<Rightarrow> rr \<Rightarrow> bool option" where
  "MatchResponse_Match rrString expected r =
     map_option (\<lambda>actual. list_all (\<lambda>k. case map_of expected k of None \<Rightarrow> True | Some v \<Rightarrow> map_of actual k = Some v)
       [''name'', ''ip'', ''rrtype'', ''class'', ''ttl'']) (encoded_record rrString r)"

subsection \<open>Zones\<close>

definition StaticZonePicker_NextZone :: "string \<Rightarrow> string" where
  "StaticZonePicker_NextZone zone = zone"

record zone_picker =
  zp_Domains :: "string list"
  zp_head :: "32 word"

definition NewZoneFilePickerFromFile :: "(string \<Rightarrow> string option) \<Rightarrow> (string \<Rightarrow> string list option) \<Rightarrow> string \<Rightarrow> zone_picker option" where
  "NewZoneFilePickerFromFile readFile unmarshal source =
     Option.bind (readFile source) (\<lambda>jsonBytes. map_option (\<lambda>zones. \<lparr>zp_Domains = zones, zp_head = 0\<rparr>) (unmarshal jsonBytes))"

text \<open>\<open>None\<close>: the remainder by zero of a picker without zones panics.\<close>

definition ZoneFilePicker_NextZone :: "zone_picker \<Rightarrow> (string \<times> zone_picker) option" where
  "ZoneFilePicker_NextZone j =
     (if zp_Domains j = [] then None
      else Some (zp_Domains j ! (unat (zp_head j) mod length (zp_Domains j)), j\<lparr>zp_head := zp_head j + 1\<rparr>))"

subsection \<open>Test data\<close>

text \<open>\<open>uuid n\<close> is the text of the n-th random identifier; its first eight characters are used.\<close>

definition value_sanitize :: "(nat \<Rightarrow> string) \<Rightarrow> string \<Rightarrow> string \<Rightarrow> (string, string) gomap \<Rightarrow> string \<times> (string, string) gomap" where
  "value_sanitize uuid name prefix1 s =
     (let key = prefix1 @ ''-'' @ name in
      case map_of s key of
        Some v \<Rightarrow> (v, s)
      | None \<Rightarrow> (let v = prefix1 @ ''-'' @ take 8 (uuid (length s)) in (v, insert_map key v s)))"

text \<open>\<open>None\<close> is the panic on an address of fewer than four segments.\<close>

definition ip_sanitize :: "string \<Rightarrow> (string, string) gomap \<Rightarrow> (string \<times> (string, string) gomap) option" where
  "ip_sanitize ip s =
     (let ipSegments = Split (CHR ''.'') ip in
      if length ipSegments < 4 then None
      else
        let ipPrefix = Join (take 3 ipSegments) ''.'';
            s = (if map_of s ipPrefix = None then insert_map ipPrefix (itoa (length s)) s else s)
        in Some (''10.0.'' @ the (map_of s ipPrefix) @ ''.'' @ ipSegments ! 3, s))"

datatype data_cell = StringCell string | OtherCell string

fun string_cell :: "data_cell \<Rightarrow> string option" where
  "string_cell (StringCell s) = Some s"
| "string_cell (OtherCell s) = None"

record sanitizers =
  sn_values :: "(string, string) gomap"
  sn_ips :: "(string, string) gomap"

text \<open>One row: the group, network, deployment and address, by their columns.\<close>

definition sanitize_value_cell :: "(nat \<Rightarrow> string) \<Rightarrow> nat \<Rightarrow> string \<Rightarrow> data_cell list \<times> sanitizers \<Rightarrow> (data_cell list \<times> sanitizers) option" where
  "sanitize_value_cell uuid k prefix1 = (\<lambda>(row, s).
     if k < length row then
       map_option (\<lambda>name. let (v, m) = value_sanitize uuid name prefix1 (sn_values s) in (row[k := StringCell v], s\<lparr>sn_values := m\<rparr>)) (string_cell (row ! k))
     else None)"

definition sanitize_ip_cell :: "nat \<Rightarrow> data_cell list \<times> sanitizers \<Rightarrow> (data_cell list \<times> sanitizers) option" where
  "sanitize_ip_cell k = (\<lambda>(row, s).
     if k < length row then
       Option.bind (string_cell (row ! k)) (\<lambda>ip. map_option (\<lambda>(v, m). (row[k := StringCell v], s\<lparr>sn_ips := m\<rparr>)) (ip_sanitize ip (sn_ips s)))
     else None)"

fun recordsJson :: "(nat \<Rightarrow> string) \<Rightarrow> data_cell list list \<Rightarrow> sanitizers \<Rightarrow> (data_cell list list \<times> sanitizers) option" where
  "recordsJson uuid [] s = Some ([], s)"
| "recordsJson uuid (row # rows) s =
     Option.bind (sanitize_value_cell uuid 2 ''ig'' (row, s)) (\<lambda>st.
     Option.bind (sanitize_value_cell uuid 6 ''net'' st) (\<lambda>st.
     Option.bind (sanitize_value_cell uuid 8 ''dep'' st) (\<lambda>st.
     Option.bind (sanitize_ip_cell 9 st) (\<lambda>(row, s).
     map_option (\<lambda>(rows, s). (row # rows, s)) (recordsJson uuid rows s)))))"

definition alias_target_sanitize :: "(nat \<Rightarrow> string) \<Rightarrow> string \<Rightarrow> (string, string) gomap \<Rightarrow> (string \<times> (string, string) gomap) option" where
  "alias_target_sanitize uuid target s =
     (let segs = Split (CHR ''.'') target in
      if length segs < 4 then None
      else
        let (ig, s) = value_sanitize uuid (segs ! 1) ''ig'' s;
            (net, s) = value_sanitize uuid (segs ! 2) ''net'' s;
            (dep, s) = value_sanitize uuid (segs ! 3) ''dep'' s
        in Some (Join (segs[1 := ig, 2 := net, 3 := dep]) ''.'', s))"

fun aliasesJson :: "(nat \<Rightarrow> string) \<Rightarrow> (string \<times> string list) list \<Rightarrow> (string, string) gomap \<Rightarrow> ((string \<times> string list) list \<times> (string, string) gomap) option" where
  "aliasesJson uuid [] s = Some ([], s)"
| "aliasesJson uuid ((k, []) # rest) s = map_option (\<lambda>(rest, s). ((k, []) # rest, s)) (aliasesJson uuid rest s)"
| "aliasesJson uuid ((k, t # ts) # rest) s =
     Option.bind (alias_target_sanitize uuid t s) (\<lambda>(t', s).
     Option.bind (aliasesJson uuid ((k, ts) # rest) s) (\<lambda>(out, s).
     case out of (k', ts') # rest' \<Rightarrow> Some ((k, t' # ts') # rest', s) | [] \<Rightarrow> None))"


section \<open>Mixed case\<close>

lemma lower_upper: "lower_char (to_upper_char c) = lower_char c" "lower_char (lower_char c) = lower_char c"
  by (auto simp: to_upper_char_def lower_char_def less_eq_char_def)

lemma MixCase_same: "ToLower (MixCase s) = ToLower s"
proof -
  have "map (lower_char \<circ> (\<lambda>(i, c). if i mod 2 = 0 then lower_char c else to_upper_char c)) (enumerate n s) = map lower_char s" for n
    by (induction s arbitrary: n) (auto simp: lower_upper)
  then show ?thesis by (simp add: ToLower_def MixCase_def)
qed

text \<open>A question in mixed case is resolved like the name in lower case, and answered as it was asked.\<close>

lemma mixed_case_resolved:
  assumes "SetQuestion id1 m z t = (req, cased)" "LocalDomain_resolve shuffle resolve (hd (m_Question req)) = (answers, rcode)"
    and "\<And>xs. set (shuffle xs) \<subseteq> set xs"
  shows "rcode = snd (LocalDomain_resolve shuffle resolve \<lparr>qn_Name = z, qn_Qtype = t, qn_Qclass = ClassINET\<rparr>)"
    "a \<in> set answers \<Longrightarrow> hdr_Name (rr_hdr a) = cased"
proof -
  have q: "hd (m_Question req) = \<lparr>qn_Name = MixCase z, qn_Qtype = t, qn_Qclass = ClassINET\<rparr>" "cased = MixCase z"
    using assms(1) by (auto simp: SetQuestion_def dns_SetQuestion_def Let_def)
  show "rcode = snd (LocalDomain_resolve shuffle resolve \<lparr>qn_Name = z, qn_Qtype = t, qn_Qclass = ClassINET\<rparr>)"
    using assms(2) unfolding q(1) LocalDomain_resolve_cases by (auto simp: MixCase_same split: sum.splits)
  assume a: "a \<in> set answers"
  then obtain ip where "a \<in> set (ip_answer (hd (m_Question req)) ip)"
    using assms(2,3) unfolding LocalDomain_resolve_cases by (fastforce split: sum.splits)
  then show "hdr_Name (rr_hdr a) = cased" using ip_answer_header q by fastforce
qed

section \<open>Reverse names\<close>

lemma ReverseDig_roundtrip:
  assumes "\<forall>s\<in>set (Split (CHR ''.'') ip). all_digits s"
  shows "convertToRecordIP (ReverseDig_name ip) = Some ip"
  using v4_reverse_name [OF _ assms] Join_Split [of "CHR ''.''" ip] by (simp add: ReverseDig_name_def)

section \<open>Zones in turn\<close>

fun next_zones :: "nat \<Rightarrow> zone_picker \<Rightarrow> string list option" where
  "next_zones 0 j = Some []"
| "next_zones (Suc n) j = Option.bind (ZoneFilePicker_NextZone j) (\<lambda>(z, j). map_option (Cons z) (next_zones n j))"

lemma next_zones_run:
  "zp_Domains j \<noteq> [] \<Longrightarrow> unat (zp_head j) + n < 2 ^ 32 \<Longrightarrow>
   next_zones n j = Some (map (\<lambda>i. zp_Domains j ! ((unat (zp_head j) + i) mod length (zp_Domains j))) [0..<n])"
proof (induction n arbitrary: j)
  case (Suc n)
  let ?j = "j\<lparr>zp_head := zp_head j + 1\<rparr>"
  have u: "unat (zp_head j + 1) = unat (zp_head j) + 1" using Suc.prems(2) by (simp add: unat_word_ariths(1))
  have "next_zones n ?j = Some (map (\<lambda>i. zp_Domains j ! ((unat (zp_head j) + 1 + i) mod length (zp_Domains j))) [0..<n])"
    using Suc.IH [of ?j] Suc.prems u by simp
  then show ?case using Suc.prems(1) by (simp add: ZoneFilePicker_NextZone_def upt_conv_Cons map_Suc_upt [symmetric] del: upt_Suc)
qed simp

text \<open>A picker with at least one zone hands its zones out in turn, until its counter of 32 bits wraps around.\<close>

lemma zones_in_turn:
  "NewZoneFilePickerFromFile readFile unmarshal source = Some j \<Longrightarrow> zp_Domains j \<noteq> [] \<Longrightarrow> n < 2 ^ 32 \<Longrightarrow>
   next_zones n j = Some (map (\<lambda>i. zp_Domains j ! (i mod length (zp_Domains j))) [0..<n])"
  using next_zones_run [of j n] by (auto simp: NewZoneFilePickerFromFile_def bind_eq_Some_conv)

lemma wrap_repeats_zone: "map_option fst (ZoneFilePicker_NextZone \<lparr>zp_Domains = [''a'', ''b'', ''c''], zp_head = - 1\<rparr>) = Some ''a''"
  "map_option (zp_head \<circ> snd) (ZoneFilePicker_NextZone \<lparr>zp_Domains = [''a'', ''b'', ''c''], zp_head = - 1\<rparr>) = Some 0"
  by (simp_all add: ZoneFilePicker_NextZone_def unsigned_minus_1_eq_mask mask_eq_exp_minus_1)

section \<open>Sanitized data\<close>

text \<open>The prefixes of the addresses are numbered in the order in which they come.\<close>

definition ips_ok :: "(string, string) gomap \<Rightarrow> bool" where
  "ips_ok s \<longleftrightarrow> wf_map s \<and> map snd s = map itoa [0..<length s]"

lemma itoa_inject: "itoa m = itoa n \<longleftrightarrow> m = n"
  using decimal_itoa by metis

lemma ips_ok_fresh: "ips_ok s \<Longrightarrow> map_of s k = None \<Longrightarrow> ips_ok (insert_map k (itoa (length s)) s)"
  by (auto simp: ips_ok_def insert_map_fresh map_of_eq_None_iff)

lemma ips_ok_inject:
  assumes "ips_ok s" "map_of s k = Some v" "map_of s k' = Some v"
  shows "k = k'"
proof -
  have "distinct (map snd s)" using assms(1) by (simp add: ips_ok_def distinct_map inj_on_def itoa_inject)
  moreover have "(k, v) \<in> set s" "(k', v) \<in> set s" using assms(2,3) by (simp_all add: map_of_SomeD)
  ultimately show ?thesis by (metis distinct_map inj_on_def prod.inject snd_conv)
qed

lemma ip_sanitize_ok:
  assumes "ip_sanitize ip s = Some (v, s')" "ips_ok s"
  shows "ips_ok s'" "\<And>k x. map_of s k = Some x \<Longrightarrow> map_of s' k = Some x"
    "\<exists>x. map_of s' (Join (take 3 (Split (CHR ''.'') ip)) ''.'') = Some x \<and> v = ''10.0.'' @ x @ ''.'' @ Split (CHR ''.'') ip ! 3 \<and> all_digits x"
proof -
  let ?p = "Join (take 3 (Split (CHR ''.'') ip)) ''.''"
  have s: "s' = (if map_of s ?p = None then insert_map ?p (itoa (length s)) s else s)"
    "v = ''10.0.'' @ the (map_of s' ?p) @ ''.'' @ Split (CHR ''.'') ip ! 3"
    using assms(1) by (auto simp: ip_sanitize_def Let_def split: if_splits)
  show ok: "ips_ok s'" using s(1) ips_ok_fresh [OF assms(2)] assms(2) by auto
  show "map_of s k = Some x \<Longrightarrow> map_of s' k = Some x" for k x using s(1) by (auto simp: map_of_insert_map_apply)
  obtain x where x: "map_of s' ?p = Some x" using s(1) by (cases "map_of s ?p") (auto simp: map_of_insert_map_apply)
  then have "x \<in> set (map snd s')" by (force dest: map_of_SomeD)
  then have "x \<in> set (map itoa [0..<length s'])" using ok unfolding ips_ok_def by metis
  then have "all_digits x" using all_digits_itoa by auto
  with x s(2) show "\<exists>x. map_of s' ?p = Some x \<and> v = ''10.0.'' @ x @ ''.'' @ Split (CHR ''.'') ip ! 3 \<and> all_digits x" by auto
qed

fun ip_sanitize_all :: "string list \<Rightarrow> (string, string) gomap \<Rightarrow> (string list \<times> (string, string) gomap) option" where
  "ip_sanitize_all [] s = Some ([], s)"
| "ip_sanitize_all (ip # ips) s =
     Option.bind (ip_sanitize ip s) (\<lambda>(v, s). map_option (\<lambda>(vs, s). (v # vs, s)) (ip_sanitize_all ips s))"

text \<open>What the text of a sanitized address stands for in the map at the end.\<close>

definition stands_for :: "(string, string) gomap \<Rightarrow> string \<Rightarrow> string \<Rightarrow> bool" where
  "stands_for s ip v \<longleftrightarrow>
     (\<exists>x. map_of s (Join (take 3 (Split (CHR ''.'') ip)) ''.'') = Some x \<and> v = ''10.0.'' @ x @ ''.'' @ Split (CHR ''.'') ip ! 3 \<and> all_digits x)"

lemma ip_sanitize_all_stands:
  "ip_sanitize_all ips s = Some (vs, s') \<Longrightarrow> ips_ok s \<Longrightarrow>
   ips_ok s' \<and> list_all2 (stands_for s') ips vs \<and> (\<forall>k x. map_of s k = Some x \<longrightarrow> map_of s' k = Some x)"
proof (induction ips arbitrary: s vs)
  case (Cons ip ips)
  obtain v s1 vs1 where c: "ip_sanitize ip s = Some (v, s1)" "ip_sanitize_all ips s1 = Some (vs1, s')" "vs = v # vs1"
    using Cons.prems(1) by (auto simp: bind_eq_Some_conv)
  note o1 = ip_sanitize_ok [OF c(1) Cons.prems(2)]
  have rest: "ips_ok s'" "list_all2 (stands_for s') ips vs1" "\<And>k x. map_of s1 k = Some x \<Longrightarrow> map_of s' k = Some x"
    using Cons.IH [OF c(2) o1(1)] by auto
  moreover have "stands_for s' ip v" using o1(3) rest(3) by (auto simp: stands_for_def)
  ultimately show ?case using c(3) o1(2) by simp
qed simp

text \<open>The addresses of a file are replaced one to one.\<close>

lemma stands_for_inject:
  assumes "ips_ok s" "stands_for s ip v" "stands_for s ip' v" "length (Split (CHR ''.'') ip) = 4" "length (Split (CHR ''.'') ip') = 4"
  shows "ip = ip'"
proof -
  let ?a = "Split (CHR ''.'') ip" and ?b = "Split (CHR ''.'') ip'"
  obtain x y where x: "map_of s (Join (take 3 ?a) ''.'') = Some x" "all_digits x" "map_of s (Join (take 3 ?b) ''.'') = Some y" "all_digits y"
    "x @ CHR ''.'' # ?a ! 3 = y @ CHR ''.'' # ?b ! 3" using assms(2,3) by (auto simp: stands_for_def)
  have "x = y \<and> ?a ! 3 = ?b ! 3"
    using x(5) all_digits_no_dot [OF x(2)] all_digits_no_dot [OF x(4)] by (metis SplitN2_sep list.inject)
  moreover from this have "Join (take 3 ?a) ''.'' = Join (take 3 ?b) ''.''" using ips_ok_inject [OF assms(1)] x(1,3) by simp
  then have "take 3 ?a = take 3 ?b"
    using Split_Join [of "take 3 ?a" "CHR ''.''"] Split_Join [of "take 3 ?b" "CHR ''.''"] Split_parts_no_sep
    by (metis in_set_takeD take_eq_Nil Split_not_Nil zero_neq_numeral)
  moreover have "xs = take 3 xs @ [xs ! 3]" if "length xs = 4" for xs :: "string list" using take_Suc_conv_app_nth [of 3 xs] that by simp
  ultimately have "?a = ?b" using assms(4,5) by metis
  then show ?thesis by (metis Join_Split)
qed

lemma ips_sanitized_one_to_one:
  assumes "ip_sanitize_all ips [] = Some (vs, s)" "\<forall>ip\<in>set ips. length (Split (CHR ''.'') ip) = 4" "i < length ips" "j < length ips"
  shows "length vs = length ips \<and> (vs ! i = vs ! j \<longleftrightarrow> ips ! i = ips ! j)"
proof -
  have s: "ips_ok s" "list_all2 (stands_for s) ips vs" using ip_sanitize_all_stands [OF assms(1)] by (auto simp: ips_ok_def)
  then have "stands_for s (ips ! i) (vs ! i)" "stands_for s (ips ! j) (vs ! j)" using assms(3,4) by (simp_all add: list_all2_conv_all_nth)
  moreover have "vs ! i = vs ! j" if "ips ! i = ips ! j" using calculation that by (auto simp: stands_for_def)
  ultimately show ?thesis using stands_for_inject [OF s(1)] assms(2-4) list_all2_lengthD [OF s(2)] by (metis nth_mem)
qed

lemma value_cell_keeps:
  "sanitize_value_cell uuid k p (row, s) = Some (row', s') \<Longrightarrow> j \<noteq> k \<Longrightarrow> length row' = length row \<and> row' ! j = row ! j \<and> sn_ips s' = sn_ips s"
  by (auto simp: sanitize_value_cell_def case_prod_beta Let_def split: if_splits)

lemma recordsJson_ips:
  "recordsJson uuid rows s = Some (rows', s') \<Longrightarrow>
   ip_sanitize_all (map (\<lambda>row. the (string_cell (row ! 9))) rows) (sn_ips s) = Some (map (\<lambda>row. the (string_cell (row ! 9))) rows', sn_ips s')"
proof (induction rows arbitrary: s rows')
  case (Cons row rows)
  obtain r1 s1 r2 s2 r3 s3 r4 s4 rs where c: "sanitize_value_cell uuid 2 ''ig'' (row, s) = Some (r1, s1)"
    "sanitize_value_cell uuid 6 ''net'' (r1, s1) = Some (r2, s2)" "sanitize_value_cell uuid 8 ''dep'' (r2, s2) = Some (r3, s3)"
    "sanitize_ip_cell 9 (r3, s3) = Some (r4, s4)" "recordsJson uuid rows s4 = Some (rs, s')" "rows' = r4 # rs"
    using Cons.prems by (auto simp: bind_eq_Some_conv)
  have k: "r3 ! 9 = row ! 9" "sn_ips s3 = sn_ips s"
    using value_cell_keeps [OF c(1), of 9] value_cell_keeps [OF c(2), of 9] value_cell_keeps [OF c(3), of 9] by simp_all
  obtain ip v m where i: "string_cell (row ! 9) = Some ip" "ip_sanitize ip (sn_ips s) = Some (v, m)" "string_cell (r4 ! 9) = Some v" "sn_ips s4 = m"
    using c(4) k by (auto simp: sanitize_ip_cell_def bind_eq_Some_conv split: if_splits)
  show ?case using Cons.IH [OF c(5)] c(6) i by simp
qed simp

text \<open>
  The addresses of sanitized records differ exactly where the recorded ones do: the data
  answers queries as before.
\<close>

theorem sanitized_records:
  assumes "recordsJson uuid rows \<lparr>sn_values = [], sn_ips = []\<rparr> = Some (rows', s')"
    and "\<forall>row\<in>set rows. length (Split (CHR ''.'') (the (string_cell (row ! 9)))) = 4" "i < length rows" "j < length rows"
  shows "length rows' = length rows \<and>
    (the (string_cell (rows' ! i ! 9)) = the (string_cell (rows' ! j ! 9)) \<longleftrightarrow> the (string_cell (rows ! i ! 9)) = the (string_cell (rows ! j ! 9)))"
proof -
  let ?ip = "\<lambda>row. the (string_cell (row ! 9))"
  have "ip_sanitize_all (map ?ip rows) [] = Some (map ?ip rows', sn_ips s')" using recordsJson_ips [OF assms(1)] by simp
  from ips_sanitized_one_to_one [OF this, of i j] show ?thesis using assms(2-4) by auto
qed

end
