(* ===== verification/Spec2Isabelle.thy ===== *)
theory Spec2Isabelle
  imports Programs Writers Dns_Unpack Debug_Cli Windows_Adapters Test_Recursor Test_Http Test_Tools
begin

text \<open>
  The DNS server of BOSH and the programs beside it (\<^verbatim>\<open>src/src/bosh-dns\<close>), modelled by shallow
  embedding: pure code as functions, stateful code as functions from state to state or as
  step relations, errors and panics as values, Go maps as association lists, machine
  integers as words where they can wrap.

  \<^bold>\<open>The program.\<close> A request reaches the multiplexer, which picks the handler of the longest
  registered suffix of the name. Names of the served domains go to the discovery handler,
  which asks the record set; names under \<^verbatim>\<open>arpa.\<close> to the reverse handler; names of configured
  domains to forwarding or HTTP handlers; everything else to the recursors. The record set
  reads the records file through a polling reader, expands aliases, parses query names into
  criteria, filters its records by them and by health, and tells a tracker which hosts were
  asked for; the tracker keeps a bounded transcript of queried domains and tells the health
  watcher which addresses to check; the checker asks the health server of each machine,
  whose monitor runs the executables of its jobs. Beside the server, a monitor keeps it the
  primary nameserver of its machine.

  \<^bold>\<open>The theories\<close>, each with the code it models:
  \<^item> \<open>Prelude\<close>: Go's string functions, maps and results, shared lemmas.
  \<^item> \<open>Dns_Names\<close>, \<open>Dns_Wire\<close>: the parts of the vendored DNS library the program relies on: labels and
    subdomains; messages, their length on the wire with name compression, and the cut of a
    message to a size. \<open>Dns_Pack\<close>, \<open>Dns_Unpack\<close>: the bytes of a message, written and read, with the
    pointers that stand for names.
  \<^item> \<open>Criteria\<close> (\<^verbatim>\<open>dns/server/{record,criteria}\<close>): query names to criteria to record matchers.
  \<^item> \<open>Alias_Encoder\<close>, \<open>Aliases\<close> (\<^verbatim>\<open>dns_encoder.go\<close>, \<^verbatim>\<open>dns/server/aliases\<close>), with \<open>Net_IP\<close> for \<^verbatim>\<open>net.ParseIP\<close>:
    aliases, their merge and reduction.
  \<^item> \<open>Transcript\<close>, \<open>Tracker\<close> (\<^verbatim>\<open>dns/server/tracker\<close>): a doubly linked list in a store, and the
    domains and addresses in use.
  \<^item> \<open>Health_Watcher\<close> (\<^verbatim>\<open>dns/server/healthiness\<close>): goroutines that share checks, as a machine of threads.
  \<^item> \<open>Health_Filter\<close>, \<open>Record_Set\<close>, \<open>File_Reader\<close> (\<^verbatim>\<open>dns/server/records\<close>): filters, resolution, the
    file reader and the subscription that joins them.
  \<^item> \<open>Dns_Msg\<close>, \<open>Recursor_Pool\<close>, \<open>Forward_Handler\<close>, \<open>Handlers\<close> (\<^verbatim>\<open>dns/server/handlers\<close>,
    \<^verbatim>\<open>records/dnsresolver\<close>): the handlers as functions from requests to the messages they write,
    the failover pools with their counters, the registrar.
  \<^item> \<open>Dns_Cache\<close>, \<open>Metrics\<close> (the vendored coredns plugins, \<^verbatim>\<open>handlers/cache_handler.go\<close>,
    \<^verbatim>\<open>handlers/metrics_handler.go\<close>, \<^verbatim>\<open>dns/server/monitoring\<close>): the cache in front of the recursors, with
    its keys, lifetimes and sharded stores, and the metrics around the handlers. \<open>Writers\<close>
    (\<^verbatim>\<open>handlers/internal/wrap_response_writer.go\<close>, \<^verbatim>\<open>handlers/{cache,request_logger}_handler.go\<close>): these
    handlers as programs that write through wrapped writers.
  \<^item> \<open>Dns_Config\<close> (\<^verbatim>\<open>dns/config\<close>), \<open>Factory\<close> (\<^verbatim>\<open>handlers/factory.go\<close>): the configuration, its defaults,
    the recursors, and the handlers built from it, with their state. \<open>Ip_Text\<close>: the texts of addresses
    are read back.
  \<^item> \<open>Serve_Mux\<close>, \<open>Server\<close> (the vendored multiplexer, \<^verbatim>\<open>dns/main.go\<close>,
    \<^verbatim>\<open>dns/server/{server,upcheck}.go\<close>): what is registered, at the start and at every tick of the registrar,
    the upchecks and the shutdown.
  \<^item> \<open>Tls\<close> (\<^verbatim>\<open>tlsclient\<close>, the vendored \<^verbatim>\<open>tlsconfig\<close>): the settings of the HTTP client and of the two HTTPS
    listeners, the files they are made of, and what a connection under them guarantees.
  \<^item> \<open>Main_Setup\<close> (\<^verbatim>\<open>dns/main.go\<close>): the steps from the command line to the listeners, the errors
    that end them and the exit code.
  \<^item> \<open>Durations\<close> (\<^verbatim>\<open>dns/config/config.go\<close>, \<^verbatim>\<open>DurationJSON\<close>): the text and JSON forms of durations.
  \<^item> \<open>Programs\<close> (\<^verbatim>\<open>healthcheck/main.go\<close>, \<^verbatim>\<open>wait/main.go\<close>, \<^verbatim>\<open>dns/nameserverconfig/main.go\<close>,
    \<^verbatim>\<open>dns/systemdresolvedupdater/main.go\<close>): the programs beside the server.
  \<^item> \<open>Url\<close>, \<open>Debug_Cli\<close> (\<^verbatim>\<open>src/debug/cli\<close>): the parts of URLs, and the debugging program with its two commands, from
    their options through the HTTP API of the server to the table.
  \<^item> \<open>Resolv_Conf\<close> (\<^verbatim>\<open>dns/manager\<close>, \<^verbatim>\<open>dns/nameserverconfig\<close>): the nameserver managers over an abstract
    machine and the monitor. \<open>Windows_Adapters\<close> (\<^verbatim>\<open>dns/manager/syscall_windows.go\<close>): the list of the adapters,
    from the system call on.
  \<^item> \<open>Health_Monitor\<close> (\<^verbatim>\<open>healthconfig\<close>, \<^verbatim>\<open>healthcheck\<close>, \<^verbatim>\<open>dns/api\<close>): jobs, rounds of checks, the health
    server and the HTTP API.
  \<^item> \<open>Test_Recursor\<close>, \<open>Test_Http\<close> (\<^verbatim>\<open>acceptance_tests/dns-acceptance-release/src\<close>): the servers the tests put
    behind the program; \<open>Test_Tools\<close> (\<^verbatim>\<open>gomegadns\<close>, \<^verbatim>\<open>performance_tests/zone_pickers\<close>, \<^verbatim>\<open>dns/internal\<close>,
    \<^verbatim>\<open>acceptance_tests/helpers/dns.go\<close>): their questions, matchers and data.
  \<^item> This theory composes them: from a request through the multiplexer and the record set to
    the reply.

  \<^bold>\<open>What is shown.\<close> A name of a served domain is answered with the addresses of exactly the
  selected records (\<open>served_name_answered\<close>, \<open>Resolve_spec\<close>, \<open>long_name_selects\<close>), in a reply
  that fits (\<open>TruncateIfNeeded_fits\<close>) and that the client reads from its bytes as it was meant,
  compressed names included (\<open>discovery_reply_read\<close>), by the handler of its longest suffix, or for DS questions of its parent (\<open>main_routes\<close>),
  also while domains come and go (\<open>registrar_keeps_routes\<close>). Once the program has started,
  every question is answered with one message (\<open>every_question_answered_once\<close>). What is left to
  the recursors is answered with what one of them said, now or before (\<open>external_name_answered\<close>,
  \<open>recursor_answers_only\<close>), and the cache serves no answer longer than its records live
  (\<open>cached_answers_genuine\<close>) and finds what was written for five seconds, unless its shard is full
  (\<open>written_answer_found\<close>); the caching handler does so through the writers it wraps
  (\<open>caching_program\<close>). Queries for healthy instances get addresses whose last check found
  them running (\<open>healthy_answers_checked\<close>), and what a check finds is what the monitor of the other
  machine computed, asked for over a connection on which both sides are authenticated
  (\<open>status_over_tls\<close>, \<open>peers_authenticated\<close>).
  The linked transcript refines a list of at most its capacity in order of use
  (\<open>Touch_is_lru\<close>); the tracker keeps the watcher to addresses in use, and the addresses it is told to
  track have been checked once its goroutines have returned (\<open>tracker_drives_watcher\<close>); the watcher never runs
  two checks of an address at once and every goroutine returns. The smart pool's buffers
  are the last results of its recursors (\<open>smart_history\<close>) and it finds a recursor that works; forwarding writes one reply. The
  record set follows the file, resolv.conf keeps the server first, the monitor reports what
  the executables said, the server goes on only after every upcheck has passed
  (\<open>ready_after_upchecks\<close>), and only five failures in a row shut it down. Encoders and
  parsers are inverse where the code needs it: of durations, queries, addresses
  (\<open>default_port_same_machine\<close>) and the questions of the HTTP handler (\<open>http_question_answered\<close>). The
  debugging program shows the addresses that the names resolve to, but for the literal ones of aliases (\<open>instances_table\<close>), and the list of
  Windows adapters is complete whatever the system answers first (\<open>Adapters_return\<close>). Each interface between components is a
  locale (\<open>limited_transcript\<close>, \<open>filterer\<close>, \<open>recursor_pool\<close>, \<open>forwarding\<close>, \<open>answering\<close>,
  \<open>writing_once\<close>, \<open>echoing\<close>, \<open>evicting_store\<close>, \<open>dns_manager\<close>, \<open>message_writer\<close>, \<open>packer\<close>, \<open>codec\<close>), interpreted on the model of the component that provides it. Several lemmas
  show where the code departs from what it means to do.

  \<^bold>\<open>Arguments and hypotheses.\<close> Code outside the repository is an argument: the JSON decoders, but for the
  one of strings that durations are read with, the HTTP client, the command-line parser, the exchange with a recursor, the file system, the clock, the cryptographic
  packages and the machine. The
  orders of Go's maps and of its shuffles are arguments that permute, and the element a full
  shard of the cache gives up is an argument. Of a recursor it is assumed, where the cache
  is on, that its answers repeat the question (\<open>repeats_question\<close>). The reader of messages has
  one argument for code of the library that is not modelled, the data of the record types that
  the program only passes on (\<open>rdata_library\<close>).

  \<^bold>\<open>Bounds.\<close> One definition uses fuel: the loop over the blocks of a PEM file takes at most as many
  steps as the file has bytes, which is enough because \<^verbatim>\<open>pem.Decode\<close> leaves less than it was
  given (\<open>pem_blocks_enough\<close>). Every other loop of the code that is modelled by recursion is
  shown to end, and loops that run until the process ends are step relations or functions
  of a sequence of events. The numbers are those of the code: 25 results of history and
  5 failures to move on, 8 attempts to confirm resolv.conf, 5 failed upchecks, replies of 512 to 65535
  bytes, 14 bits for a compression pointer and at most 126 of them in a name, which excludes only names of
  127 labels from what is shown to be read back, 256 shards of 39 answers, lifetimes from 5
  seconds to an hour.

  \<^bold>\<open>Not modelled.\<close> The cryptography and the wire format of TLS; the data of the record types that are only passed on
  and the text form of records; the delivery of signals, and logging beyond what the request
  log says; the HTTP listener of the metrics and its Prometheus registry; stale answers and
  prefetching of the cache, which the program does not turn on; the PowerShell script of the
  Windows manager, which another program runs. Of the tests: the helpers that start
  processes, write configuration files and call the BOSH command line, whose effects are those
  of the operating system, and the fakes that a generator writes for the interfaces.
\<close>

section \<open>From a question to the records\<close>

text \<open>The lookup the local domain makes in the record set.\<close>

definition record_lookup :: "(string \<Rightarrow> health_result) \<Rightarrow> (string \<Rightarrow> health_result) \<Rightarrow> record_set \<Rightarrow> string \<Rightarrow> lookup_error + string list" where
  "record_lookup before after r name =
     (case snd (Resolve NewQueryFilterer (NewHealthFilterer before after) r name) of
        Inl e \<Rightarrow> Inl (RecordError e) | Inr ips \<Rightarrow> Inr ips)"

text \<open>
  The handlers \<^verbatim>\<open>main\<close> builds for the routes of the multiplexer. The forward handler may be
  wrapped in the cache; with metrics, it and the discovery handler are reached through the
  metrics server. All but the handler of the recursors stand behind a request logger; what
  it prints of types, codes and handlers, and the time it measures, are given, and so are
  the handlers of the configured domains.
\<close>

record request_log =
  rl_typeString :: "16 word \<Rightarrow> string"
  rl_rcodeString :: "int \<Rightarrow> string"
  rl_handlerType :: "route \<Rightarrow> string"
  rl_duration :: "msg \<Rightarrow> int"

definition main_handler ::
  "request_log \<Rightarrow> config \<Rightarrow> (handler \<Rightarrow> handler) \<Rightarrow> (network \<Rightarrow> msg \<Rightarrow> msg \<Rightarrow> msg) \<Rightarrow> metrics_state \<Rightarrow> handler \<Rightarrow> handler \<Rightarrow> (string \<Rightarrow> string list) \<Rightarrow> (string \<Rightarrow> handler) \<Rightarrow> route \<Rightarrow> handler" where
  "main_handler lg c cache truncateIfNeeded ms discovery forward getFQDNs delegate r =
     (let nextExternal = (if ca_Enabled (c_Cache c) then CachingDNSHandler_ServeDNS cache truncateIfNeeded forward else forward);
          logged = (\<lambda>h network req. fst (RequestLoggerHandler_ServeDNS (rl_typeString lg) (rl_rcodeString lg) (rl_handlerType lg r) h (rl_duration lg req) network req));
          metrics = (\<lambda>t network req. fst (MetricsDNSHandler_ServeDNS (MetricsServer (Some discovery) (Some nextExternal)) t network req ms))
      in case r of
           DelegateTo d \<Rightarrow> logged (delegate d)
         | ArpaRoute \<Rightarrow> logged (ArpaHandler_ServeDNS getFQDNs forward)
         | ExternalRoute \<Rightarrow> if mc_Enabled (c_Metrics c) then metrics External else nextExternal
         | UpcheckRoute \<Rightarrow> logged (\<lambda>network. UpcheckHandler_ServeDNS)
         | InternalRoute \<Rightarrow> logged (if \<not> c_DisableRecursors c \<and> mc_Enabled (c_Metrics c) then metrics Internal else discovery))"

lemma main_handler_internal:
  "main_handler lg c cache tr ms discovery forward fq delegate InternalRoute network req = discovery network req"
  by (simp add: main_handler_def metrics_transparent Let_def)

definition main_ServeDNS :: "(route \<Rightarrow> handler) \<Rightarrow> route mux \<Rightarrow> handler" where
  "main_ServeDNS handlers z = ServeMux_ServeDNS (map (\<lambda>(n, r). (n, handlers r)) z)"

lemma match_suffixes_map:
  "match_suffixes (map (\<lambda>(n, r). (n, f r)) z) t ps (map_option f h) = map_option f (match_suffixes z t ps h)"
proof (induction z t ps h rule: match_suffixes.induct)
  case (2 z t p ps h)
  then show ?case by (cases "map_of z (concat (p # ps))") (auto simp: map_of_map simp del: concat.simps)
qed (simp add: map_of_map split: option.split)

lemma main_ServeDNS_route:
  assumes "m_Question req = q # qs" "mux_match z (qn_Name q) (qn_Qtype q) = Some r"
  shows "main_ServeDNS handlers z network req = handlers r network req"
  using match_suffixes_map [of handlers z "qn_Qtype q" "label_pieces (CanonicalName (qn_Name q))" None] assms
  by (simp add: main_ServeDNS_def ServeMux_ServeDNS_def mux_match_def)

lemma record_lookup_ToLower [simp]: "record_lookup before after r (ToLower n) = record_lookup before after r n"
  by (simp add: record_lookup_def Resolve_def)

text \<open>
  C1: A name of a served domain, from the request to the answer: when the longest registered
  suffix of the name is a domain of the record set, an address question is answered with
  exactly one authoritative reply. A malformed name is a format error, an unknown one does
  not exist, and otherwise the answers are, up to their order, address records of the
  queried type for exactly the addresses the record set resolves the name to, unless the
  reply was cut to fit, which it then says. A name of at most 255 bytes gets a reply that
  fits the room the client announced.
\<close>

theorem served_name_answered:
  assumes "main_mux c delegated (Domains r) = Some z"
    and "m_Question req = q # qs" "address_question q"
    and "find (\<lambda>n. route_of c delegated (Domains r) n \<noteq> None) (suffix_names (qn_Name q)) = Some n"
    and "n \<in> CanonicalName ` set (Domains r)"
    and "\<forall>xs. mset (shuffle xs) = mset xs"
    and "handlers = main_handler lg c cache TruncateIfNeeded ms (DiscoveryHandler_ServeDNS
           (LocalDomain_Resolve shuffle (record_lookup before after r) TruncateIfNeeded)) forward (GetFQDNs r) delegate"
  shows "\<exists>m. main_ServeDNS handlers z network req = [m] \<and> is_reply req m \<and> m_Authoritative m \<and>
    (fst (domainNameLen (qn_Name q) headerSize None True) \<le> 255 \<longrightarrow> Len m \<le> reply_limit network req) \<and>
    (case snd (Resolve NewQueryFilterer (NewHealthFilterer before after) r (qn_Name q)) of
       Inl CriteriaError \<Rightarrow> m_Answer m = [] \<and> m_Rcode m = RcodeFormatError
     | Inl DomainError \<Rightarrow> m_Answer m = [] \<and> m_Rcode m = RcodeNameError
     | Inr ips \<Rightarrow> m_Rcode m = RcodeSuccess \<and> set (m_Answer m) \<subseteq> (\<Union>ip\<in>set ips. set (ip_answer q ip)) \<and>
         (m_Truncated m \<or> mset (m_Answer m) = mset (concat (map (ip_answer q) ips))))"
proof -
  have t: "qn_Qtype q \<noteq> TypeDS" using assms(3) by (auto simp: address_question_def)
  have lookup: "map_of z = route_of c delegated (Domains r)" using main_mux_lookup [OF assms(1)] by blast
  have "mux_match z (qn_Name q) (qn_Qtype q) = Some InternalRoute"
    using mux_match_find [OF t, of z "qn_Name q"] assms(4,5) unfolding lookup by (simp add: route_of_def)
  then have "main_ServeDNS handlers z network req = DiscoveryHandler_ServeDNS
      (LocalDomain_Resolve shuffle (record_lookup before after r) TruncateIfNeeded) network req"
    using assms(7) by (simp add: main_ServeDNS_route [OF assms(2)] main_handler_internal)
  then show ?thesis
    using discovery_reply [OF assms(6,2), of "record_lookup before after r" network] assms(3)
      discovery_fits [OF assms(2,3), of _ shuffle "record_lookup before after r" network]
    by (auto simp: record_lookup_def Resolve_def split: sum.splits record_error.splits)
qed


definition no_log :: request_log where
  "no_log = \<lparr>rl_typeString = (\<lambda>t. ''''), rl_rcodeString = (\<lambda>c. ''''), rl_handlerType = (\<lambda>r. ''''), rl_duration = (\<lambda>req. 0)\<rparr>"

definition no_metrics :: metrics_state where
  "no_metrics = \<lparr>ms_counters = NewRequestManager, ms_reports = []\<rparr>"

definition answered_set :: record_set where
  "answered_set = (example_set NewConfig)\<lparr>rs_records := map (\<lambda>x. x\<lparr>r_IP := ''10.0.0.1''\<rparr>) (rs_records (example_set NewConfig))\<rparr>"

theorem served_name_answered_witness:
  "\<exists>z m. main_mux example_config [] (Domains answered_set) = Some z \<and>
     main_ServeDNS (main_handler no_log example_config id TruncateIfNeeded no_metrics
         (DiscoveryHandler_ServeDNS (LocalDomain_Resolve rev (record_lookup all_unchecked all_unchecked answered_set) TruncateIfNeeded))
         (\<lambda>n q. []) (GetFQDNs answered_set) (\<lambda>d n q. [])) z UDP
       (new_msg\<lparr>m_Id := 9, m_Question := [\<lparr>qn_Name = ''I.g.n.d.Bosh.'', qn_Qtype = TypeA, qn_Qclass = ClassINET\<rparr>]\<rparr>) = [m] \<and>
     m_Rcode m = RcodeSuccess \<and> Len m \<le> 512 \<and>
     (m_Truncated m \<or> m_Answer m = [RR_A (header_for ''I.g.n.d.Bosh.'' TypeA 0) (ParseIP ''10.0.0.1'')])"
proof -
  let ?q = "\<lparr>qn_Name = ''I.g.n.d.Bosh.'', qn_Qtype = TypeA, qn_Qclass = ClassINET\<rparr>"
  let ?req = "new_msg\<lparr>m_Id := 9, m_Question := [?q]\<rparr>"
  have d: "Domains answered_set = [''bosh.'']" by code_simp
  obtain z where z: "main_mux example_config [] (Domains answered_set) = Some z"
    by (auto simp: d main_mux_def main_patterns_def UpdateDomainRegistrations_def RegisterAgentTLD_def BoshAgentTLD_def mux_Handle_def
        example_config_def NewDefaultConfig_def)
  have c: "CanonicalName ''bosh.'' = ''bosh.''" "CanonicalName BoshAgentTLD = ''bosh-agent-id.''" by code_simp+
  have s: "suffix_names ''I.g.n.d.Bosh.'' = [''i.g.n.d.bosh.'', ''g.n.d.bosh.'', ''n.d.bosh.'', ''d.bosh.'', ''bosh.'']" by code_simp
  have f: "find (\<lambda>n. route_of example_config [] (Domains answered_set) n \<noteq> None) (suffix_names (qn_Name ?q)) = Some ''bosh.''"
    by (simp add: s d route_of_def c example_config_def NewDefaultConfig_def)
  have r: "snd (Resolve NewQueryFilterer (NewHealthFilterer all_unchecked all_unchecked) answered_set ''I.g.n.d.Bosh.'') = Inr [''10.0.0.1'']"
    by code_simp
  have a: "ip_answer ?q ''10.0.0.1'' = [RR_A (header_for ''I.g.n.d.Bosh.'' TypeA 0) (ParseIP ''10.0.0.1'')]"
  proof -
    have "To4 (ParseIP ''10.0.0.1'') \<noteq> None" by code_simp
    then show ?thesis by (simp add: ip_answer_def Let_def)
  qed
  have q: "m_Question ?req = ?q # []" by simp
  have "address_question ?q" "''bosh.'' \<in> CanonicalName ` set (Domains answered_set)" "\<forall>xs :: rr list. mset (rev xs) = mset xs"
    by (simp_all add: address_question_def d c)
  then have "\<exists>m. main_ServeDNS (main_handler no_log example_config id TruncateIfNeeded no_metrics
         (DiscoveryHandler_ServeDNS (LocalDomain_Resolve rev (record_lookup all_unchecked all_unchecked answered_set) TruncateIfNeeded))
         (\<lambda>n q. []) (GetFQDNs answered_set) (\<lambda>d n q. [])) z UDP ?req = [m] \<and> is_reply ?req m \<and> m_Authoritative m \<and>
    (fst (domainNameLen (qn_Name ?q) headerSize None True) \<le> 255 \<longrightarrow> Len m \<le> reply_limit UDP ?req) \<and>
    (case snd (Resolve NewQueryFilterer (NewHealthFilterer all_unchecked all_unchecked) answered_set (qn_Name ?q)) of
       Inl CriteriaError \<Rightarrow> m_Answer m = [] \<and> m_Rcode m = RcodeFormatError
     | Inl DomainError \<Rightarrow> m_Answer m = [] \<and> m_Rcode m = RcodeNameError
     | Inr ips \<Rightarrow> m_Rcode m = RcodeSuccess \<and> set (m_Answer m) \<subseteq> (\<Union>ip\<in>set ips. set (ip_answer ?q ip)) \<and>
         (m_Truncated m \<or> mset (m_Answer m) = mset (concat (map (ip_answer ?q) ips))))"
    by (intro served_name_answered [OF z q _ f _ _ refl])
  moreover have "fst (domainNameLen (qn_Name ?q) headerSize None True) \<le> 255" by code_simp
  moreover have "reply_limit UDP ?req = 512" by (simp add: reply_limit_def IsEdns0_def new_msg_def)
  ultimately show ?thesis using z unfolding question.select_convs r sum.case by (auto simp: a)
qed

section \<open>Every question is answered once\<close>

text \<open>
  The forward handler of \<^verbatim>\<open>main\<close>, over the pool of the configured recursors, and the handlers
  of the configured domains; \<open>past\<close> is what each forwarded before.
\<close>

definition main_forward where
  "main_forward c exchange past env =
     forward_after exchange past (NewFailoverRecursorPool (c_Recursors c) (c_RecursorSelection c) (c_RecursorMaxRetries c), env)"

definition main_delegates where
  "main_delegates exchange get unmarshal caches past env hs d =
     (case map_of hs d of None \<Rightarrow> (\<lambda>network req. []) | Some h \<Rightarrow> built_ServeDNS exchange get unmarshal (caches d) (past d) (env d) h)"

lemma main_mux_some:
  assumes "main_mux c delegated provided = Some z" "\<not> c_DisableRecursors c"
  shows "mux_match z q t \<noteq> None"
proof -
  have "map_of z ''.'' \<noteq> None"
    using assms(2) main_mux_lookup [OF assms(1), of "''.''"] by (simp add: route_of_def split: if_splits)
  then show ?thesis using match_suffixes_root [of z] by (simp add: mux_match_def)
qed

lemma match_suffixes_registered:
  "match_suffixes z t ps h = Some r \<Longrightarrow> h = Some r \<or> (\<exists>n. map_of z n = Some r)"
  by (induction z t ps h rule: match_suffixes.induct) (auto split: option.splits if_splits)

lemma route_delegate:
  assumes "main_mux c delegated provided = Some z" "mux_match z q t = Some (DelegateTo d)"
  shows "d \<in> set delegated"
proof -
  obtain n where "map_of z n = Some (DelegateTo d)"
    using match_suffixes_registered [of z t "label_pieces (CanonicalName q)" None] assms(2) by (auto simp: mux_match_def)
  then show ?thesis
    using main_mux_lookup [OF assms(1), of n] find_SomeD [of _ "rev delegated"] by (auto simp: route_of_def split: if_splits)
qed

lemma main_handler_once:
  assumes "writing_once discovery" "echoing forward" "\<And>d. r = DelegateTo d \<Longrightarrow> writing_once (delegate d)"
  shows "writing_once (main_handler lg c (coredns_cache k dc) tr ms discovery forward fq delegate r)"
proof -
  have f: "writing_once forward" using assms(2) by (rule echoing.axioms)
  let ?next = "if ca_Enabled (c_Cache c) then CachingDNSHandler_ServeDNS (coredns_cache k dc) tr forward else forward"
  have n: "writing_once ?next" using f echoing.behind_cache [OF assms(2)] by simp
  show ?thesis
  proof (cases r)
    case (DelegateTo d)
    then show ?thesis using assms(3) by (simp add: main_handler_def Let_def)
  next
    case ArpaRoute
    then show ?thesis using writing_once.reversing [OF f] by (simp add: main_handler_def Let_def)
  next
    case ExternalRoute
    then show ?thesis using n by (simp add: main_handler_def metrics_transparent Let_def)
  next
    case UpcheckRoute
    then show ?thesis using up.writing_once_axioms by (simp add: main_handler_def Let_def)
  next
    case InternalRoute
    then show ?thesis using assms(1) by (simp add: main_handler_def metrics_transparent Let_def)
  qed
qed

text \<open>
  C2: Once the program has started with recursors, every question is answered with exactly one
  message, whichever handler is registered for its name, whatever its type, whatever was
  forwarded before and whatever the caches hold, provided that the number of retries is not
  negative and that the answers of recursors repeat the question.
\<close>

theorem every_question_answered_once:
  assumes "main_setup environment shuffle = Inr su" "c = su_config su" "\<not> c_DisableRecursors c"
    and "main_mux c (keys (su_handlers su)) (Domains r) = Some z" "m_Question req \<noteq> []"
    and "c_RecursorMaxRetries c \<ge> 0" "length (c_Recursors c) < 2 ^ 64"
    and "\<forall>h\<in>set (su_handlerConfigs su). length (shuffle (src_Recursors (hg_Source h))) < 2 ^ 64"
    and "repeats_question exchange"
    and "handlers = main_handler lg c (coredns_cache k dc) TruncateIfNeeded ms (DiscoveryHandler_ServeDNS
           (LocalDomain_Resolve shuffle' (record_lookup before after r) TruncateIfNeeded)) (main_forward c exchange past env) (GetFQDNs r)
           (main_delegates exchange get unmarshal (\<lambda>d. coredns_cache (ks d) (dcs d)) pasts envs (su_handlers su))"
  shows "\<exists>m. main_ServeDNS handlers z network req = [m]"
proof -
  have gen: "GenerateHandlers (NewFactory shuffle (c_RecursorMaxRetries c)) (su_handlerConfigs su) = Inr (su_handlers su)"
    using main_setup_steps [OF assms(1)] assms(2) by blast
  obtain q qs where q: "m_Question req = q # qs" using assms(5) by (cases "m_Question req") auto
  obtain route where route: "mux_match z (qn_Name q) (qn_Qtype q) = Some route"
    using main_mux_some [OF assms(4,3)] by blast
  have "writing_once (main_delegates exchange get unmarshal (\<lambda>d. coredns_cache (ks d) (dcs d)) pasts envs (su_handlers su) d)" if "route = DelegateTo d" for d
  proof -
    have "d \<in> set (keys (su_handlers su))" using route_delegate [OF assms(4)] route that by blast
    then obtain h where h: "map_of (su_handlers su) d = Some h" by (auto dest: weak_map_of_SomeI)
    then show ?thesis
      using writing_once_built [OF generated_ready [OF gen h assms(6,8)] assms(9)] by (simp add: main_delegates_def)
  qed
  moreover have "echoing (main_forward c exchange past env)"
    unfolding main_forward_def using assms(6,7,9) by (intro echoing_forward) simp_all
  ultimately have "writing_once (handlers route)"
    unfolding assms(10) by (intro main_handler_once discovery.writing_once_axioms)
  then show ?thesis using writing_once.writes_one [OF _ assms(5)] main_ServeDNS_route [OF q route] by metis
qed

definition example_clock :: cache_clock where
  "example_clock = \<lparr>cl_now = 0, cl_typed = 0, cl_stored = 0, cl_choice = 0\<rparr>"

theorem every_question_answered_once_witness:
  "\<exists>su z m. main_setup example_environment rev = Inr su \<and> main_mux (su_config su) (keys (su_handlers su)) (Domains answered_set) = Some z \<and>
     main_ServeDNS (main_handler no_log (su_config su) (coredns_cache example_clock NewCache) TruncateIfNeeded no_metrics
        (DiscoveryHandler_ServeDNS (LocalDomain_Resolve rev (record_lookup all_unchecked all_unchecked answered_set) TruncateIfNeeded))
        (main_forward (su_config su) (\<lambda>req n e r. (exchange_result.Failed NetError None, e)) [] ()) (GetFQDNs answered_set)
        (main_delegates (\<lambda>req n e r. (exchange_result.Failed NetError None, e)) (\<lambda>url. None) (\<lambda>body. None) (\<lambda>d. coredns_cache example_clock NewCache) (\<lambda>d. []) (\<lambda>d. ()) (su_handlers su))) z TCP
       (new_msg\<lparr>m_Question := [\<lparr>qn_Name = ''www.corp.'', qn_Qtype = TypeDS, qn_Qclass = ClassINET\<rparr>]\<rparr>) = [m]"
proof -
  have "case main_setup example_environment rev of Inl e \<Rightarrow> False
     | Inr su \<Rightarrow> c_Recursors (su_config su) = [''10.0.0.3:53''] \<and> \<not> c_DisableRecursors (su_config su) \<and> c_RecursorMaxRetries (su_config su) = 0 \<and>
         map (\<lambda>h. src_Recursors (hg_Source h)) (su_handlerConfigs su) = [[''10.0.0.6:53'']] \<and>
         main_mux (su_config su) (keys (su_handlers su)) (Domains answered_set) \<noteq> None" by code_simp
  then obtain su z where su: "main_setup example_environment rev = Inr su" "c_Recursors (su_config su) = [''10.0.0.3:53'']"
    "\<not> c_DisableRecursors (su_config su)" "c_RecursorMaxRetries (su_config su) = 0"
    "map (\<lambda>h. src_Recursors (hg_Source h)) (su_handlerConfigs su) = [[''10.0.0.6:53'']]"
    and z: "main_mux (su_config su) (keys (su_handlers su)) (Domains answered_set) = Some z" by (auto split: sum.splits)
  have "\<exists>m. main_ServeDNS (main_handler no_log (su_config su) (coredns_cache example_clock NewCache) TruncateIfNeeded no_metrics
        (DiscoveryHandler_ServeDNS (LocalDomain_Resolve rev (record_lookup all_unchecked all_unchecked answered_set) TruncateIfNeeded))
        (main_forward (su_config su) (\<lambda>req n e r. (exchange_result.Failed NetError None, e)) [] ()) (GetFQDNs answered_set)
        (main_delegates (\<lambda>req n e r. (exchange_result.Failed NetError None, e)) (\<lambda>url. None) (\<lambda>body. None) (\<lambda>d. coredns_cache example_clock NewCache) (\<lambda>d. []) (\<lambda>d. ()) (su_handlers su))) z TCP
       (new_msg\<lparr>m_Question := [\<lparr>qn_Name = ''www.corp.'', qn_Qtype = TypeDS, qn_Qclass = ClassINET\<rparr>]\<rparr>) = [m]"
    by (rule every_question_answered_once [OF su(1) refl su(3) z _ _ _ _ _ refl])
       (use su(2,4,5) in \<open>auto simp: repeats_question_def\<close>)
  then show ?thesis using su(1) z by auto
qed

text \<open>
  C8: A name left to the recursors is answered, without a cache, with what one of the configured
  recursors answered, cut to the room of the client, or with a reply that it does not
  exist. The number of retries is not negative.
\<close>

theorem external_name_answered:
  assumes "m_Question req = q # qs" "mux_match z (qn_Name q) (qn_Qtype q) = Some ExternalRoute"
    and "c_RecursorMaxRetries c \<ge> 0" "length (c_Recursors c) < 2 ^ 64" "\<not> ca_Enabled (c_Cache c)"
    and "handlers = main_handler lg c cache tr ms discovery (main_forward c exchange past env) fq delegate"
  shows "\<exists>m. main_ServeDNS handlers z network req = [m] \<and>
    ((\<exists>e1 e2. \<exists>s\<in>set (c_Recursors c). \<exists>a. exchange req (forward_network network) e1 s = (Answered a, e2) \<and>
        m_Rcode a = RcodeSuccess \<and> m = TruncateIfNeeded network req a) \<or>
     is_reply req m \<and> m_Rcode m = RcodeNameError \<and> m_Answer m = [])"
proof -
  let ?p = "NewFailoverRecursorPool (c_Recursors c) (c_RecursorSelection c) (c_RecursorMaxRetries c)"
  have p: "pool_ready ?p" "pool_members ?p = set (c_Recursors c)" using assms(3,4) by simp_all
  have "m_Question req \<noteq> []" using assms(1) by simp
  from forward_after_reply [OF p(1) this, of exchange past env network]
  obtain m where m: "main_forward c exchange past env network req = [m]"
    "(\<exists>e1 e2. \<exists>s\<in>set (c_Recursors c). \<exists>a. exchange req (forward_network network) e1 s = (Answered a, e2) \<and>
        m_Rcode a = RcodeSuccess \<and> m = TruncateIfNeeded network req a) \<or> m = createResponseFromError req ErrNoRecursorResponse"
    unfolding main_forward_def p(2) by blast
  have "main_ServeDNS handlers z network req = handlers ExternalRoute network req" by (rule main_ServeDNS_route [OF assms(1,2)])
  also have "\<dots> = main_forward c exchange past env network req"
    using assms(5) unfolding assms(6) by (simp add: main_handler_def metrics_transparent Let_def)
  finally show ?thesis
    using m by (auto simp: createResponseFromError_def ErrNoRecursorResponse_def new_msg_def)
qed

theorem external_name_answered_witness:
  "\<exists>z m. main_mux (example_config\<lparr>c_Recursors := [''8.8.8.8:53'', ''1.1.1.1:53'']\<rparr>) [] [''bosh.''] = Some z \<and>
     main_ServeDNS (main_handler no_log (example_config\<lparr>c_Recursors := [''8.8.8.8:53'', ''1.1.1.1:53'']\<rparr>) id TruncateIfNeeded no_metrics
          (\<lambda>n q. [])
        (main_forward (example_config\<lparr>c_Recursors := [''8.8.8.8:53'', ''1.1.1.1:53'']\<rparr>)
           (\<lambda>req n e r. (exchange_result.Failed NetError None, e)) [(UDP, new_msg\<lparr>m_Question := [example_question]\<rparr>)] ()) (\<lambda>ip. []) (\<lambda>d n q. [])) z UDP
       (new_msg\<lparr>m_Question := [example_question]\<rparr>) = [m] \<and> m_Rcode m = RcodeNameError"
proof -
  let ?c = "example_config\<lparr>c_Recursors := [''8.8.8.8:53'', ''1.1.1.1:53'']\<rparr>"
  obtain z where z: "main_mux ?c [] [''bosh.''] = Some z"
    by (auto simp: main_mux_def main_patterns_def UpdateDomainRegistrations_def RegisterAgentTLD_def BoshAgentTLD_def mux_Handle_def
        example_config_def NewDefaultConfig_def)
  have c: "CanonicalName ''bosh.'' = ''bosh.''" "CanonicalName BoshAgentTLD = ''bosh-agent-id.''"
    "suffix_names ''example.com.'' = [''example.com.'', ''com.'']" by code_simp+
  have lookup: "map_of z = route_of ?c [] [''bosh.'']" using main_mux_lookup [OF z] by blast
  have ds: "TypeA \<noteq> TypeDS" by simp
  have "mux_match z ''example.com.'' TypeA = Some ExternalRoute"
    using mux_match_find [OF ds, of z "''example.com.''"] unfolding lookup
    by (simp add: c route_of_def example_config_def NewDefaultConfig_def)
  then have route: "mux_match z (qn_Name example_question) (qn_Qtype example_question) = Some ExternalRoute" by simp
  have q: "m_Question (new_msg\<lparr>m_Question := [example_question]\<rparr>) = example_question # []" by simp
  have cfg: "c_RecursorMaxRetries ?c \<ge> 0" "length (c_Recursors ?c) < 2 ^ 64" "\<not> ca_Enabled (c_Cache ?c)"
    by (simp_all add: example_config_def NewDefaultConfig_def)
  let ?ex = "\<lambda>(req :: msg) (n :: string) (e :: unit) (r :: string). (exchange_result.Failed NetError None, e)"
  let ?h = "main_handler no_log ?c id TruncateIfNeeded no_metrics (\<lambda>n q. [])
      (main_forward ?c ?ex [(UDP, new_msg\<lparr>m_Question := [example_question]\<rparr>)] ()) (\<lambda>ip. []) (\<lambda>d n q. [])"
  have "\<exists>m. main_ServeDNS ?h z UDP (new_msg\<lparr>m_Question := [example_question]\<rparr>) = [m] \<and>
    ((\<exists>e1 e2. \<exists>s\<in>set (c_Recursors ?c). \<exists>a. ?ex (new_msg\<lparr>m_Question := [example_question]\<rparr>) (forward_network UDP) e1 s = (Answered a, e2) \<and>
        m_Rcode a = RcodeSuccess \<and> m = TruncateIfNeeded UDP (new_msg\<lparr>m_Question := [example_question]\<rparr>) a) \<or>
     is_reply (new_msg\<lparr>m_Question := [example_question]\<rparr>) m \<and> m_Rcode m = RcodeNameError \<and> m_Answer m = [])"
    by (rule external_name_answered [OF q route cfg refl])
  then show ?thesis using z by auto
qed

section \<open>Who is answered as healthy\<close>

text \<open>What a result of a check says of an address for the groups of a query.\<close>

definition reported_state :: "health_result \<Rightarrow> string list \<Rightarrow> health_status" where
  "reported_state res queried =
     (let gs = reported_groups (hr_GroupState res) queried in if StatusFailing \<in> set gs then StatusFailing else last (hr_State res # gs))"

lemma interpret_reported: "interpretHealthState w ip queried = reported_state (w ip) queried"
  by (simp add: interpretHealthState_def group_states_spec reported_state_def Let_def)

lemma reported_groups_none: "reported_groups [] queried = []"
  by (induction queried) (simp_all add: reported_groups_def map_filter_simps)

lemma reported_unchecked: "reported_state (result_of s) queried = s"
  by (simp add: reported_state_def reported_groups_none result_of_def Let_def)

text \<open>
  C12: A query for healthy instances is answered only with addresses that the health watcher
  found running: whatever the watcher did before, the latest check of the address that
  ended since it was last untracked reported that the address, or its queried groups, run.
\<close>

theorem healthy_answers_checked:
  assumes "watcher_run NewHealthWatcher actions = Some (w, l)" "es = unsafeExpandAliases r (ToLower q)" "literal_ips es = []"
    and "\<And>e c. e \<in> set es \<Longrightarrow> NewCriteria e (rs_domains r) = Inr c \<Longrightarrow> healthStrategy c = ''3''"
    and "snd (Resolve NewQueryFilterer (NewHealthFilterer before (HealthState w)) r q) = Inr ips" "ip \<in> set ips"
  shows "\<exists>e\<in>set es. \<exists>c. \<exists>rec\<in>set (rs_records r). \<exists>res. NewCriteria e (rs_domains r) = Inr c \<and> Matcher c rec \<and> r_IP rec = ip \<and>
    last_result l ip = Some res \<and> reported_state res (crit_values c ''g'') = StatusRunning"
proof -
  obtain cs where cs: "parse_all (rs_domains r) es = Inr cs"
    using assms(5) Resolve_unparsed [OF assms(2)] by (cases "parse_all (rs_domains r) es") auto
  obtain c rec where c: "c \<in> set cs" "rec \<in> set (choose_records (HealthState w) c (matching r c))" "r_IP rec = ip"
    using Resolve_parsed [OF assms(2) cs, of before "HealthState w"] assms(3,5,6) by auto
  obtain e where e: "e \<in> set es" "NewCriteria e (rs_domains r) = Inr c"
    using cs c(1) unfolding parse_all_Inr_iff list_all2_conv_all_nth in_set_conv_nth by metis
  have rec: "rec \<in> set (matching r c)" "reported_state (HealthState w ip) (crit_values c ''g'') = StatusRunning"
    using c(2,3) assms(4) [OF e] by (auto simp: choose_records_def sortRecords_filters interpret_reported)
  have "last_result l ip \<noteq> None"
    using rec(2) reported_unchecked [of StateUnchecked "crit_values c ''g''"] HealthState_latest [OF assms(1), of ip] by (cases "last_result l ip") auto
  then obtain res where "last_result l ip = Some res" by blast
  then show ?thesis using e c(3) rec HealthState_latest [OF assms(1), of ip] by (auto simp: matching_def)
qed


theorem healthy_answers_checked_witness:
  "\<exists>w l c. watcher_run NewHealthWatcher [CallTrack ''10.0.0.1'', Step 0 (result_of ''''), Step 0 (result_of ''''),
     Step 0 (result_of StatusRunning)] = Some (w, l) \<and>
     snd (Resolve NewQueryFilterer (NewHealthFilterer all_unchecked (HealthState w)) answered_set ''q-s3.g.n.d.bosh.'') = Inr [''10.0.0.1''] \<and>
     NewCriteria ''q-s3.g.n.d.bosh.'' [''bosh.''] = Inr c \<and> last_result l ''10.0.0.1'' = Some (result_of StatusRunning)"
proof -
  let ?as = "[CallTrack ''10.0.0.1'', Step 0 (result_of ''''), Step 0 (result_of ''''),
     Step 0 (result_of StatusRunning)]"
  obtain w l where r: "watcher_run NewHealthWatcher ?as = Some (w, l)"
    and w: "w = fst (the (watcher_run NewHealthWatcher ?as))" and l: "l = snd (the (watcher_run NewHealthWatcher ?as))"
  proof -
    have "watcher_run NewHealthWatcher ?as \<noteq> None" by code_simp
    then show ?thesis using that by auto
  qed
  have x: "[''q-s3.g.n.d.bosh.''] = unsafeExpandAliases answered_set (ToLower ''q-s3.g.n.d.bosh.'')" by code_simp
  have y: "literal_ips [''q-s3.g.n.d.bosh.''] = []" by code_simp
  have d: "rs_domains answered_set = [''bosh.'']" by code_simp
  have s: "healthStrategy (projr (NewCriteria ''q-s3.g.n.d.bosh.'' (rs_domains answered_set))) = ''3''" by code_simp
  have a: "snd (Resolve NewQueryFilterer (NewHealthFilterer all_unchecked (HealthState w)) answered_set ''q-s3.g.n.d.bosh.'') = Inr [''10.0.0.1'']"
    unfolding w by code_simp
  have "\<exists>e\<in>set [''q-s3.g.n.d.bosh.'']. \<exists>c. \<exists>rec\<in>set (rs_records answered_set). \<exists>res. NewCriteria e (rs_domains answered_set) = Inr c \<and> Matcher c rec \<and>
      r_IP rec = ''10.0.0.1'' \<and> last_result l ''10.0.0.1'' = Some res \<and> reported_state res (crit_values c ''g'') = StatusRunning"
    using s by (intro healthy_answers_checked [OF r x y _ a]) (auto simp: sum.case_eq_if)
  moreover have "last_result l ''10.0.0.1'' = Some (result_of StatusRunning)" unfolding l by code_simp
  ultimately show ?thesis using r a by (auto simp: d)
qed


section \<open>Nothing but what recursors said\<close>

lemma without_ttl_prefix: "\<exists>j. xs = take j ys \<Longrightarrow> prefix (without_ttl xs) (without_ttl ys)"
  unfolding without_ttl_def by (auto intro!: map_mono_prefix filter_mono_prefix take_is_prefix)

lemma truncated_prefix: "prefix (without_ttl (m_Answer (TruncateIfNeeded network req m))) (without_ttl (m_Answer m))"
  using TruncateIfNeeded_keeps(3) by (rule without_ttl_prefix)

text \<open>A message that passes on what a recursor answered successfully to a request.\<close>

definition recursor_said where
  "recursor_said c exchange r0 m \<longleftrightarrow> (\<exists>n e1 e2. \<exists>s\<in>set (c_Recursors c). \<exists>a. exchange r0 n e1 s = (Answered a, e2) \<and>
     m_Rcode a = RcodeSuccess \<and> m_Rcode m = RcodeSuccess \<and> prefix (without_ttl (m_Answer m)) (without_ttl (m_Answer a)))"

lemma recursor_said_truncated: "recursor_said c exchange r0 m \<Longrightarrow> recursor_said c exchange r0 (TruncateIfNeeded network req m)"
  unfolding recursor_said_def using truncated_prefix [of network req m] TruncateIfNeeded_keeps(1) [of network req m]
  by (metis prefix_order.trans)

lemma recursor_said_same:
  "contents_of m' = contents_of m \<Longrightarrow> recursor_said c exchange r0 m \<Longrightarrow> recursor_said c exchange r0 m'"
  by (auto simp: recursor_said_def contents_of_def)

lemma forward_origin:
  assumes "c_RecursorMaxRetries c \<ge> 0" "length (c_Recursors c) < 2 ^ 64" "m_Question r0 \<noteq> []"
  shows "\<exists>m. main_forward c exchange past env network r0 = [m] \<and>
    (recursor_said c exchange r0 m \<or> m = createResponseFromError r0 ErrNoRecursorResponse)"
proof -
  let ?p = "NewFailoverRecursorPool (c_Recursors c) (c_RecursorSelection c) (c_RecursorMaxRetries c)"
  have p: "pool_ready ?p" "pool_members ?p = set (c_Recursors c)" using assms(1,2) by simp_all
  show ?thesis
    using forward_after_reply [OF p(1) assms(3), of exchange past env network] truncated_prefix TruncateIfNeeded_keeps(1)
    unfolding main_forward_def p(2) recursor_said_def by metis
qed

definition no_such_name :: "msg \<Rightarrow> msg \<Rightarrow> bool" where
  "no_such_name req m \<longleftrightarrow> is_reply req m \<and> m_Rcode m = RcodeNameError \<and> m_Answer m = []"

lemma error_reply:
  "no_such_name req (createResponseFromError req ErrNoRecursorResponse)" "\<not> hasSOA (createResponseFromError req ErrNoRecursorResponse)"
  "Typify (createResponseFromError req ErrNoRecursorResponse) t \<in> {NameError, Meta, Update}"
proof -
  show "no_such_name req (createResponseFromError req ErrNoRecursorResponse)"
    by (simp add: no_such_name_def createResponseFromError_def ErrNoRecursorResponse_def new_msg_def)
  show "\<not> hasSOA (createResponseFromError req ErrNoRecursorResponse)"
    "Typify (createResponseFromError req ErrNoRecursorResponse) t \<in> {NameError, Meta, Update}"
    by (auto simp: createResponseFromError_def ErrNoRecursorResponse_def new_msg_def hasSOA_def Typify_def request_Do_def
        IsEdns0_def SetRcode_def SetReply_def Let_def)
qed

lemma no_such_name_truncated: "no_such_name req m \<Longrightarrow> no_such_name req (TruncateIfNeeded network req m)"
  using TruncateIfNeeded_keeps(1,3) [of network req m] by (auto simp: no_such_name_def)

lemma cached_origin:
  assumes "cache_run NewCache hist = Some dc" "getIfNotStale (cl_now k) req dc = Some i"
    and "c_RecursorMaxRetries c \<ge> 0" "length (c_Recursors c) < 2 ^ 64"
    and "\<forall>(k0, r0, res)\<in>set hist. m_Question r0 \<noteq> [] \<and> (\<exists>past env n. main_forward c exchange past env n r0 = [res])"
  shows "\<exists>r0. request_Name r0 = request_Name req \<and> QType r0 = QType req \<and> recursor_said c exchange r0 (toMsg i req (cl_now k) b b')"
proof -
  obtain k0 r0 res where w: "(k0, r0, res) \<in> set hist" "i = stored_item k0 r0 res" "cacheable (Typify res (cl_typed k0))"
    "Typify res (cl_typed k0) = NameError \<longrightarrow> hasSOA res" "request_Name r0 = request_Name req" "QType r0 = QType req"
    using cache_hit_origin [OF assms(1,2)] by blast
  obtain past env n where f: "m_Question r0 \<noteq> []" "main_forward c exchange past env n r0 = [res]" using assms(5) w(1) by auto
  have "res \<noteq> createResponseFromError r0 ErrNoRecursorResponse"
    using w(3,4) error_reply(2) [of r0] error_reply(3) [of r0 "cl_typed k0"] by (auto simp: cacheable_def)
  then have "recursor_said c exchange r0 res" using forward_origin [OF assms(3,4) f(1), of exchange past env n] f(2) by auto
  then have "recursor_said c exchange r0 (toMsg i req (cl_now k) b b')" unfolding w(2) by (rule recursor_said_same [OF toMsg_stored(2)])
  then show ?thesis using w(5,6) by blast
qed


text \<open>
  C9: Names left to the recursors, with the cache on and whatever it holds of earlier answers:
  the request is answered with one message, which either passes on the records, from the
  first one, that a configured recursor answered to a question of the same name and type, now
  or before, or says that the name does not exist. The number of retries is not negative and the
  answers of recursors repeat the question.
\<close>

theorem recursor_answers_only:
  assumes "m_Question req = q # qs" "mux_match z (qn_Name q) (qn_Qtype q) = Some ExternalRoute"
    and "c_RecursorMaxRetries c \<ge> 0" "length (c_Recursors c) < 2 ^ 64" "ca_Enabled (c_Cache c)" "repeats_question exchange"
    and "cache_run NewCache hist = Some dc"
    and "\<forall>(k0, r0, res)\<in>set hist. m_Question r0 \<noteq> [] \<and> (\<exists>past env n. main_forward c exchange past env n r0 = [res])"
    and "handlers = main_handler lg c (coredns_cache k dc) TruncateIfNeeded ms discovery (main_forward c exchange past env) fq delegate"
  shows "\<exists>m. main_ServeDNS handlers z network req = [m] \<and>
    ((\<exists>r0. request_Name r0 = request_Name req \<and> QType r0 = QType req \<and> recursor_said c exchange r0 m) \<or> no_such_name req m)"
proof -
  let ?forward = "main_forward c exchange past env"
  have q: "m_Question req \<noteq> []" using assms(1) by simp
  obtain mf where mf: "?forward network req = [mf]" "recursor_said c exchange req mf \<or> no_such_name req mf"
    using forward_origin [OF assms(3,4) q, of exchange past env network] error_reply(1) by metis
  have "echoing ?forward" unfolding main_forward_def using assms(3,4,6) by (intro echoing_forward) simp_all
  then have mq: "m_Question mf \<noteq> []" using echoing.echoes q mf(1) by blast
  have "main_ServeDNS handlers z network req = CachingDNSHandler_ServeDNS (coredns_cache k dc) TruncateIfNeeded ?forward network req"
    using assms(5) main_ServeDNS_route [OF assms(1,2)] unfolding assms(9) by (simp add: main_handler_def metrics_transparent Let_def)
  moreover have "\<exists>m'. (if \<not> m_RecursionDesired req then ?forward network req else coredns_cache k dc ?forward network req) = [m'] \<and>
      ((\<exists>r0. request_Name r0 = request_Name req \<and> QType r0 = QType req \<and> recursor_said c exchange r0 m') \<or> no_such_name req m')"
  proof (cases "m_RecursionDesired req")
    case True
    show ?thesis
    proof (cases "getIfNotStale (cl_now k) req dc")
      case None
      obtain dc' m' where w: "cache_WriteMsg (cl_choice k) (cl_typed k) (cl_stored k) req mf dc = Some (dc', m')"
        using cache_WriteMsg_total [OF mq] by blast
      then have "coredns_cache k dc ?forward network req = [m']"
        using mf(1) None by (simp add: coredns_cache_def Cache_ServeDNS_def Zones_Matches_def)
      moreover have "recursor_said c exchange req m' \<or> no_such_name req m'"
        using mf(2) recursor_said_same [OF cache_WriteMsg_contents(1) [OF w]] cache_WriteMsg_contents(2-4) [OF w]
        unfolding no_such_name_def by metis
      ultimately show ?thesis using True by auto
    next
      case (Some i)
      then show ?thesis
        using True cached_origin [OF assms(7) Some assms(3,4,8)] Cache_ServeDNS_hit [OF Some] by (auto simp: coredns_cache_def)
    qed
  qed (use mf in auto)
  ultimately show ?thesis
    using recursor_said_truncated no_such_name_truncated by (fastforce simp: CachingDNSHandler_ServeDNS_def)
qed


definition caching_config :: config where
  "caching_config = example_config\<lparr>c_Recursors := [''8.8.8.8:53''], c_Cache := (c_Cache example_config)\<lparr>ca_Enabled := True\<rparr>\<rparr>"

definition always_got :: "msg \<Rightarrow> unit exchanger" where
  "always_got req n e r = (Answered example_got, e)"

theorem recursor_answers_only_witness:
  "\<exists>z dc m. main_mux caching_config [] [''bosh.''] = Some z \<and> cache_run NewCache [(example_clock, example_asked, example_got)] = Some dc \<and>
     main_ServeDNS (main_handler no_log caching_config (coredns_cache example_clock dc) TruncateIfNeeded no_metrics (\<lambda>n q. [])
        (main_forward caching_config always_got [] ()) (\<lambda>ip. []) (\<lambda>d n q. [])) z UDP example_asked = [m] \<and>
     ((\<exists>r0. request_Name r0 = request_Name example_asked \<and> QType r0 = QType example_asked \<and> recursor_said caching_config always_got r0 m) \<or>
      no_such_name example_asked m)"
proof -
  obtain z where z: "main_mux caching_config [] [''bosh.''] = Some z"
    by (auto simp: main_mux_def main_patterns_def UpdateDomainRegistrations_def RegisterAgentTLD_def BoshAgentTLD_def mux_Handle_def
        caching_config_def example_config_def NewDefaultConfig_def)
  have c: "CanonicalName ''bosh.'' = ''bosh.''" "CanonicalName BoshAgentTLD = ''bosh-agent-id.''"
    "suffix_names ''A.b.'' = [''a.b.'', ''b.'']" by code_simp+
  have lookup: "map_of z = route_of caching_config [] [''bosh.'']" using main_mux_lookup [OF z] by blast
  have route: "mux_match z ''A.b.'' TypeA = Some ExternalRoute"
    using mux_match_find [of TypeA z "''A.b.''"] unfolding lookup
    by (simp add: c route_of_def caching_config_def example_config_def NewDefaultConfig_def)
  let ?q = "\<lparr>qn_Name = ''A.b.'', qn_Qtype = TypeA, qn_Qclass = ClassINET\<rparr>"
  have q: "m_Question example_asked = ?q # []" by (simp add: example_asked_def)
  have cfg: "c_RecursorMaxRetries caching_config \<ge> 0" "length (c_Recursors caching_config) < 2 ^ 64" "ca_Enabled (c_Cache caching_config)"
    by (simp_all add: caching_config_def example_config_def NewDefaultConfig_def)
  have rep: "repeats_question always_got" by (auto simp: repeats_question_def always_got_def example_got_def)
  obtain dc where dc: "cache_run NewCache [(example_clock, example_asked, example_got)] = Some dc"
    using cache_WriteMsg_total [of example_got "cl_choice example_clock" "cl_typed example_clock" "cl_stored example_clock" example_asked NewCache]
    by (auto simp: example_got_def)
  have "main_forward caching_config always_got [] () UDP example_asked = [example_got]" by code_simp
  then have hist: "\<forall>(k0, r0, res)\<in>set [(example_clock, example_asked, example_got)]. m_Question r0 \<noteq> [] \<and>
      (\<exists>past env n. main_forward caching_config always_got past env n r0 = [res])" using q by auto
  show ?thesis
    using z dc recursor_answers_only [OF q _ cfg rep dc hist refl, of z no_log example_clock no_metrics "\<lambda>n q. []" "[]" "()" "\<lambda>ip. []" "\<lambda>d n q. []" UDP] route
    by auto
qed

end
